(* ===== verification/Prelude.thy ===== *)
theory Prelude
  imports Main "HOL-Library.Word"
begin

text \<open>
  Shared vocabulary of the development: the C integer types, the result type of a kernel
  operation, the byte-addressed physical memory with its 64-bit loads and stores, bounded
  loops, and the named theorem collections the component theories extend.

  C's unsigned types are words, whose arithmetic wraps around as the C standard says.  C's
  \<^verbatim>\<open>int\<close> is HOL's \<open>int\<close>: signed overflow has no defined behaviour in C, so there is no
  wrap-around to model.  A conversion between the two is written out where the code has one.
\<close>

unbundle bit_operations_syntax

type_synonym uchar = "8 word"
type_synonym ushort = "16 word"
type_synonym uint = "32 word"
type_synonym u64 = "64 word"

text \<open>
  What a kernel operation does: it returns a value (here, usually a value and the new
  state), calls \<^verbatim>\<open>panic\<close> with a message, performs an access that has no meaning (a null
  pointer dereference or an array index out of range), or waits on a channel because what
  it waits for has not happened yet: it sleeps, and repeats its test when it is woken, or it
  spins on a lock another hart holds.  \<^verbatim>\<open>panic\<close> never returns (it ends in an infinite loop), so
  a panic is a result of its own.
\<close>

datatype chan =
    Ch_spin              \<comment> \<open>the loop of \<^verbatim>\<open>acquire\<close>, which needs another hart to go on\<close>
  | Ch_proc nat          \<comment> \<open>a process slot: \<^verbatim>\<open>sleep(p, &wait_lock)\<close>\<close>
  | Ch_ticks             \<comment> \<open>\<^verbatim>\<open>&ticks\<close>\<close>
  | Ch_buf nat           \<comment> \<open>the sleep lock of a buffer\<close>
  | Ch_inode nat         \<comment> \<open>the sleep lock of an inode\<close>
  | Ch_pipe_nread u64    \<comment> \<open>\<^verbatim>\<open>&pi->nread\<close>\<close>
  | Ch_pipe_nwrite u64   \<comment> \<open>\<^verbatim>\<open>&pi->nwrite\<close>\<close>
  | Ch_log               \<comment> \<open>\<^verbatim>\<open>&log\<close>\<close>
  | Ch_cons_r            \<comment> \<open>\<^verbatim>\<open>&cons.r\<close>\<close>
  | Ch_uart_tx_r         \<comment> \<open>\<^verbatim>\<open>&uart_tx_r\<close>\<close>
  | Ch_disk_free         \<comment> \<open>\<^verbatim>\<open>&disk.free[0]\<close>\<close>
  | Ch_bufp nat          \<comment> \<open>a buffer, for the disk driver: \<^verbatim>\<open>sleep(b, &disk.vdisk_lock)\<close>\<close>

datatype 'a kres = Ret 'a | Panic string | Fault string | Block chan

fun kbind :: "'a kres \<Rightarrow> ('a \<Rightarrow> 'b kres) \<Rightarrow> 'b kres" where
  "kbind (Ret x) f = f x"
| "kbind (Panic m) f = Panic m"
| "kbind (Fault m) f = Fault m"
| "kbind (Block c) f = Block c"

text \<open>A bounded \<^verbatim>\<open>for\<close> loop over a list of indices whose body may stop with an error.\<close>

fun kfold :: "('i \<Rightarrow> 's \<Rightarrow> 's kres) \<Rightarrow> 'i list \<Rightarrow> 's \<Rightarrow> 's kres" where
  "kfold f [] s = Ret s"
| "kfold f (i # is) s = kbind (f i s) (kfold f is)"

text \<open>
  A loop that sleeps may never return, depending on what other processes do.  It is defined with \<open>partial_function\<close>,
  where \<open>None\<close> stands for not returning; \<open>obind\<close> runs a kernel operation inside it, and \<open>returns\<close> gives the result of the
  loop, a loop that never returns being one that waits forever.
\<close>

definition obind :: "'a kres \<Rightarrow> ('a \<Rightarrow> 'b kres option) \<Rightarrow> 'b kres option" where
  "obind r f = (case r of Ret x \<Rightarrow> f x | Panic m \<Rightarrow> Some (Panic m) | Fault m \<Rightarrow> Some (Fault m) | Block c \<Rightarrow> Some (Block c))"

lemma obind_simps [simp]:
  "obind (Ret x) f = f x" "obind (Panic m) f = Some (Panic m)" "obind (Fault m) f = Some (Fault m)" "obind (Block c) f = Some (Block c)"
  by (simp_all add: obind_def)

lemma obind_mono [partial_function_mono]:
  assumes "\<And>y. mono_option (\<lambda>f. B y f)"
  shows "mono_option (\<lambda>f. obind r (\<lambda>y. B y f))"
  using assms by (cases r) (simp_all add: obind_def option.const_mono)

definition returns :: "'a kres option \<Rightarrow> 'a kres" where
  "returns r = (case r of None \<Rightarrow> Block Ch_spin | Some x \<Rightarrow> x)"

lemma returns_simps [simp]: "returns (Some r) = r" "returns None = Block Ch_spin"
  by (simp_all add: returns_def)

type_synonym memory = "u64 \<Rightarrow> uchar"

text \<open>The bytes a C pointer to \<^verbatim>\<open>char\<close> gives access to, by their index from the pointer.\<close>

type_synonym cptr = "nat \<Rightarrow> uchar"

definition ptr_at :: "memory \<Rightarrow> u64 \<Rightarrow> cptr" where
  "ptr_at m a = (\<lambda>i. m (a + of_nat i))"

text \<open>RISC-V is little endian: byte \<open>i\<close> of a 64-bit value holds its bits \<open>8 i .. 8 i + 7\<close>.\<close>

definition load64 :: "memory \<Rightarrow> u64 \<Rightarrow> u64" where
  "load64 m a =
     (let b = (\<lambda>i. push_bit (8 * i) (ucast (m (a + of_nat i)) :: u64)) in
      b 0 OR b 1 OR b 2 OR b 3 OR b 4 OR b 5 OR b 6 OR b 7)"

definition store64 :: "memory \<Rightarrow> u64 \<Rightarrow> u64 \<Rightarrow> memory" where
  "store64 m a v = (\<lambda>x. if x - a < 8 then ucast (drop_bit (8 * unat (x - a)) v) else m x)"

text \<open>
  An address with its low \<open>n\<close> bits cleared; its 8-byte cell, and its 4096-byte page.
\<close>

definition clear_low :: "nat \<Rightarrow> u64 \<Rightarrow> u64" where
  "clear_low n a = push_bit n (drop_bit n a)"

abbreviation cell_of :: "u64 \<Rightarrow> u64" where
  "cell_of \<equiv> clear_low 3"

abbreviation page_of :: "u64 \<Rightarrow> u64" where
  "page_of \<equiv> clear_low 12"

named_theorems kres_simps \<open>how results of kernel operations compose\<close>
named_theorems mem_simps \<open>reading memory after writing it\<close>
named_theorems frame_simps \<open>fields an operation leaves alone\<close>

subsection \<open>Results\<close>

lemma kbind_Ret_iff [simp, kres_simps]:
  "kbind r f = Ret y \<longleftrightarrow> (\<exists>x. r = Ret x \<and> f x = Ret y)"
  by (cases r) auto

lemma kbind_Panic_iff [kres_simps]:
  "kbind r f = Panic m \<longleftrightarrow> r = Panic m \<or> (\<exists>x. r = Ret x \<and> f x = Panic m)"
  by (cases r) auto

lemma kbind_Fault_iff [kres_simps]:
  "kbind r f = Fault m \<longleftrightarrow> r = Fault m \<or> (\<exists>x. r = Ret x \<and> f x = Fault m)"
  by (cases r) auto

lemma kbind_assoc [kres_simps]: "kbind (kbind r f) g = kbind r (\<lambda>x. kbind (f x) g)"
  by (cases r) auto

lemma kbind_Ret_right [simp]: "kbind r Ret = r"
  by (cases r) auto

lemma kbind_cong [fundef_cong]:
  "r = r' \<Longrightarrow> (\<And>x. r' = Ret x \<Longrightarrow> f x = g x) \<Longrightarrow> kbind r f = kbind r' g"
  by (cases r') auto

lemma kfold_append: "kfold f (xs @ ys) s = kbind (kfold f xs s) (kfold f ys)"
proof (induction xs arbitrary: s)
  case (Cons x xs)
  then show ?case by (cases "f x s") auto
qed simp

text \<open>The rule for invariants of a \<^verbatim>\<open>for\<close> loop.\<close>

lemma kfold_invariant:
  assumes "kfold f is s = Ret s'" and "P s"
    and "\<And>i t t'. i \<in> set is \<Longrightarrow> P t \<Longrightarrow> f i t = Ret t' \<Longrightarrow> P t'"
  shows "P s'"
  using assms
proof (induction "is" arbitrary: s)
  case (Cons i js)
  then obtain t where "f i s = Ret t" and "kfold f js t = Ret s'" by auto
  with Cons show ?case by (metis list.set_intros)
qed simp

subsection \<open>Rounding addresses\<close>

lemma bit_u64_high [simp]: "64 \<le> n \<Longrightarrow> \<not> bit (w :: u64) n"
  using bit_imp_le_length by fastforce

lemma bit_clear_low: "bit (clear_low n a) k \<longleftrightarrow> n \<le> k \<and> bit a k"
  by (cases "k < 64") (auto simp: clear_low_def bit_push_bit_iff bit_drop_bit_eq)

lemma clear_low_idem [simp]: "clear_low n (clear_low m a) = clear_low (max n m) a"
  by (rule bit_word_eqI) (auto simp: bit_clear_low)

lemma clear_low_mask: "clear_low n a = a AND NOT (mask n)"
  by (rule bit_word_eqI) (auto simp: bit_clear_low bit_and_iff bit_not_iff bit_mask_iff)

lemma clear_low_split: "clear_low n a + take_bit n a = a"
  by (rule trans[OF disjunctive_add]) (auto simp: bit_clear_low bit_take_bit_iff bit_or_iff intro!: bit_word_eqI)

lemma unat_two_power: "n < 64 \<Longrightarrow> unat ((2 :: u64) ^ n) = 2 ^ n"
proof -
  assume "n < 64"
  then have "(2 :: nat) ^ n < 2 ^ 64" by (intro power_strict_increasing) auto
  then show ?thesis using unat_of_nat[of "2 ^ n", where 'a = 64] by simp
qed

lemma take_bit_u64_less: "n < 64 \<Longrightarrow> take_bit n (d :: u64) < 2 ^ n"
  by (simp add: word_less_nat_alt unat_two_power unsigned_take_bit_eq)

lemma take_bit_u64_eq: "d < 2 ^ n \<Longrightarrow> n < 64 \<Longrightarrow> take_bit n (d :: u64) = d"
  by (rule word_unat_eq_iff[THEN iffD2])
    (simp add: word_less_nat_alt unat_two_power unsigned_take_bit_eq take_bit_nat_eq_self)

lemma clear_low_add_or:
  assumes "clear_low n p = p" and "d < 2 ^ n" and n: "n < 64"
  shows "p + d = p OR d" and "\<And>k. bit p k \<Longrightarrow> n \<le> k" and "\<And>k. bit d k \<Longrightarrow> k < n"
proof -
  have d: "take_bit n d = d" using assms(2) n by (rule take_bit_u64_eq)
  show p': "bit p k \<Longrightarrow> n \<le> k" for k using assms(1) by (metis bit_clear_low)
  show d': "bit d k \<Longrightarrow> k < n" for k using d by (metis bit_take_bit_iff)
  show "p + d = p OR d" by (rule disjunctive_add) (use p' d' in fastforce)
qed

lemma clear_low_add:
  assumes "clear_low n p = p" and "d < 2 ^ n" and n: "n < 64"
  shows "clear_low n (p + d) = p"
  unfolding clear_low_add_or(1)[OF assms]
  by (rule bit_word_eqI) (use clear_low_add_or(2,3)[OF assms] in
      \<open>force simp: bit_clear_low bit_or_iff\<close>)

lemma clear_low_iff:
  assumes "clear_low n p = p" and n: "n < 64"
  shows "x - p < 2 ^ n \<longleftrightarrow> clear_low n x = p"
proof
  assume "x - p < 2 ^ n"
  from clear_low_add[OF assms(1) this n] show "clear_low n x = p" by simp
next
  assume "clear_low n x = p"
  with clear_low_split[of n x] have "x - p = take_bit n x" by (simp add: algebra_simps)
  moreover have "take_bit n x < 2 ^ n" using n by (rule take_bit_u64_less)
  ultimately show "x - p < 2 ^ n" by simp
qed
lemma clear_low_le:
  assumes "clear_low m p = p" "n \<le> m" shows "clear_low n p = p"
  by (metis assms clear_low_idem max.absorb2)

lemma cell_of_page [simp]: "page_of p = p \<Longrightarrow> cell_of p = p"
  by (rule clear_low_le) auto

lemma page_iff: "page_of p = p \<Longrightarrow> x - p < 4096 \<longleftrightarrow> page_of x = p"
  using clear_low_iff[of 12 p x] by simp

lemma cell_iff: "cell_of p = p \<Longrightarrow> x - p < 8 \<longleftrightarrow> cell_of x = p"
  using clear_low_iff[of 3 p x] by simp

subsection \<open>64-bit loads and stores\<close>

lemma unat_u64_less: "unat (a :: u64) < 2 ^ 64"
  using unsigned_less[of a] by simp

lemma unat_of_nat_small: "n < 2 ^ 63 \<Longrightarrow> unat (of_nat n :: u64) = n"
  using unat_of_nat[of n, where 'a = 64] by simp

lemma of_nat_less_numeral_u64: "n < 8 \<Longrightarrow> (of_nat n :: u64) < 8"
  by (simp add: word_less_nat_alt unat_of_nat_small)

lemma bit_byte_high [simp]: "8 \<le> n \<Longrightarrow> \<not> bit (w :: 8 word) n"
  using bit_imp_le_length by fastforce
lemma bit_byte_in_word:
  assumes "i < 8" "q < 8" "r < 8"
  shows "bit (push_bit (8 * i) (ucast (b :: 8 word)) :: u64) (8 * q + r) \<longleftrightarrow> i = q \<and> bit b r"
proof (cases "i = q")
  case True
  with assms show ?thesis by (simp add: bit_push_bit_iff bit_ucast_iff)
next
  case False
  then consider "i < q" | "q < i" by linarith
  then show ?thesis
  proof cases
    case 1
    then have "8 \<le> 8 * q + r - 8 * i" by simp
    with False show ?thesis by (simp add: bit_push_bit_iff bit_ucast_iff)
  next
    case 2
    with assms have "\<not> 8 * i \<le> 8 * q + r" by simp
    with False show ?thesis by (simp add: bit_push_bit_iff)
  qed
qed

lemma bit_load64_aux:
  assumes "q < 8" "r < 8"
  shows "bit (load64 m a) (8 * q + r) \<longleftrightarrow> bit (m (a + of_nat q)) r"
proof -
  define f where "f i = push_bit (8 * i) (ucast (m (a + of_nat i)) :: u64)" for i
  have f: "bit (f i) (8 * q + r) \<longleftrightarrow> i = q \<and> bit (m (a + of_nat i)) r" if "i < 8" for i
    unfolding f_def using that assms by (rule bit_byte_in_word)
  have "load64 m a = f 0 OR f 1 OR f 2 OR f 3 OR f 4 OR f 5 OR f 6 OR f 7"
    by (simp only: load64_def Let_def f_def)
  then have or: "bit (load64 m a) k \<longleftrightarrow> (\<exists>i < 8. bit (f i) k)" for k
    by (simp add: bit_or_iff numeral_eq_Suc Ex_less_Suc2)
  have "bit (load64 m a) (8 * q + r) \<longleftrightarrow> (\<exists>i < 8. bit (f i) (8 * q + r))" by (rule or)
  also have "\<dots> \<longleftrightarrow> bit (m (a + of_nat q)) r" using f assms(1) by blast
  finally show ?thesis .
qed

lemma bit_load64: "bit (load64 m a) n \<longleftrightarrow> n < 64 \<and> bit (m (a + of_nat (n div 8))) (n mod 8)"
  using bit_load64_aux[of "n div 8" "n mod 8" m a] by (cases "n < 64") auto

lemma load64_store64: "load64 (store64 m a v) a = v"
proof (rule bit_word_eqI)
  fix n assume "n < LENGTH(64)"
  then have n: "n < 64" by simp
  then have q: "n div 8 < 8" by auto
  have [simp]: "unat (of_nat (n div 8) :: u64) = n div 8" using n by (simp add: unat_of_nat take_bit_eq_mod)
  have "(of_nat (n div 8) :: u64) < 8" using q by (simp add: word_less_nat_alt)
  then have "bit (load64 (store64 m a v) a) n = bit (ucast (drop_bit (8 * (n div 8)) v) :: 8 word) (n mod 8)"
    using n by (simp add: bit_load64 store64_def)
  also have "\<dots> = bit v n"
    by (simp add: bit_ucast_iff bit_drop_bit_eq)
  finally show "bit (load64 (store64 m a v) a) n = bit v n" .
qed
lemma load64_cong:
  assumes "cell_of a = a" and "\<And>x. cell_of x = a \<Longrightarrow> m x = m' x"
  shows "load64 m a = load64 m' a"
proof (rule bit_word_eqI)
  fix n assume "n < LENGTH(64)"
  then have "n div 8 < 8" by auto
  then have "(of_nat (n div 8) :: u64) < 8" using of_nat_less_numeral_u64[of "n div 8"] by simp
  then have "cell_of (a + of_nat (n div 8)) = a"
    using assms(1) clear_low_add[of 3 a] by simp
  then show "bit (load64 m a) n = bit (load64 m' a) n"
    using assms(2) by (simp add: bit_load64)
qed

lemma store64_other [mem_simps]: "cell_of a = a \<Longrightarrow> cell_of x \<noteq> a \<Longrightarrow> store64 m a v x = m x"
  by (simp add: store64_def cell_iff)

lemma load64_store64_other [mem_simps]:
  "cell_of a = a \<Longrightarrow> cell_of b = b \<Longrightarrow> a \<noteq> b \<Longrightarrow> load64 (store64 m a v) b = load64 m b"
  by (rule load64_cong) (auto simp: store64_other)

lemma load64_zero [mem_simps]:
  "cell_of a = a \<Longrightarrow> (\<And>x. cell_of x = a \<Longrightarrow> m x = 0) \<Longrightarrow> load64 m a = 0"
  by (subst load64_cong[of a m "\<lambda>_. 0"]) (auto simp: load64_def)

text \<open>A load sees only the page it is in.\<close>

lemma load64_page_cong:
  assumes "cell_of a = a" and "\<And>x. page_of x = page_of a \<Longrightarrow> m x = m' x"
  shows "load64 m a = load64 m' a"
proof (rule load64_cong[OF assms(1)])
  fix x assume "cell_of x = a"
  moreover have "page_of (cell_of x) = page_of x" by simp
  ultimately show "m x = m' x" using assms(2) by simp
qed

subsection \<open>The 512 entries of a page seen as an array of 64-bit values\<close>

definition slot :: "u64 \<Rightarrow> nat \<Rightarrow> u64" where
  "slot p k = p + 8 * of_nat k"

lemma slot_offset:
  assumes "k < 512" shows "(8 * of_nat k :: u64) < 4096" and "unat (8 * of_nat k :: u64) = 8 * k"
proof -
  show "unat (8 * of_nat k :: u64) = 8 * k"
    using unat_of_nat[of "8 * k", where 'a = 64] assms by simp
  then show "(8 * of_nat k :: u64) < 4096" using assms by (simp add: word_less_nat_alt)
qed

lemma page_of_slot [simp]: "page_of p = p \<Longrightarrow> k < 512 \<Longrightarrow> page_of (slot p k) = p"
  unfolding slot_def using clear_low_add[of 12 p] slot_offset(1) by simp

lemma cell_of_slot [simp]:
  assumes "page_of p = p" "k < 512" shows "cell_of (slot p k) = slot p k"
proof -
  have d: "8 * of_nat k < (2 :: u64) ^ 12" using slot_offset(1)[OF assms(2)] by simp
  have k3: "bit (8 * of_nat k :: u64) n \<Longrightarrow> 3 \<le> n" for n
    using bit_push_bit_iff[of 3 "of_nat k :: u64" n] by (simp add: push_bit_eq_mult mult.commute)
  show ?thesis
    unfolding slot_def clear_low_add_or(1)[OF assms(1) d, simplified]
    by (rule bit_word_eqI)
      (use k3 clear_low_add_or(2)[OF assms(1) d] in \<open>fastforce simp: bit_clear_low bit_or_iff\<close>)
qed

lemma slot_inject:
  assumes "page_of p = p" "page_of q = q" "j < 512" "k < 512"
  shows "slot p j = slot q k \<longleftrightarrow> p = q \<and> j = k"
proof
  assume eq: "slot p j = slot q k"
  with assms have pq: "p = q" by (metis page_of_slot)
  with eq have "(8 * of_nat j :: u64) = 8 * of_nat k" by (simp add: slot_def)
  then have "8 * j = 8 * k" using assms(3,4) slot_offset(2) by metis
  with pq show "p = q \<and> j = k" by simp
qed simp

end
