(* ===== verification/CString.thy ===== *)
theory CString
  imports Prelude
begin

text \<open>
  The kernel's C string library (\<^verbatim>\<open>kernel/string.c\<close>).  \<^verbatim>\<open>memset\<close> and \<^verbatim>\<open>memmove\<close> work on
  physical memory, because their callers rely on how source and destination overlap; the
  string functions work on the bytes a pointer gives access to (\<^typ>\<open>cptr\<close>), because their
  callers pass distinct objects.  A loop that counts a variable down is a recursion on that
  variable.  Counts stay below \<open>2 ^ 31\<close> in every call of the kernel, so the signed loop index
  of \<^verbatim>\<open>memset\<close> does not overflow.
\<close>

subsection \<open>Definitions\<close>

fun memset_loop :: "memory \<Rightarrow> u64 \<Rightarrow> uchar \<Rightarrow> nat \<Rightarrow> nat \<Rightarrow> memory" where
  "memset_loop m cdst c i 0 = m"
| "memset_loop m cdst c i (Suc k) = memset_loop (m(cdst + of_nat i := c)) cdst c (Suc i) k"

definition memset :: "memory \<Rightarrow> u64 \<Rightarrow> int \<Rightarrow> uint \<Rightarrow> memory" where
  "memset m dst c n = memset_loop m dst (word_of_int c) 0 (unat n)"

fun memcmp_loop :: "cptr \<Rightarrow> cptr \<Rightarrow> nat \<Rightarrow> int" where
  "memcmp_loop s1 s2 0 = 0"
| "memcmp_loop s1 s2 (Suc n) =
     (if s1 0 \<noteq> s2 0 then uint (s1 0) - uint (s2 0)
      else memcmp_loop (\<lambda>i. s1 (Suc i)) (\<lambda>i. s2 (Suc i)) n)"

definition memcmp :: "cptr \<Rightarrow> cptr \<Rightarrow> uint \<Rightarrow> int" where
  "memcmp v1 v2 n = memcmp_loop v1 v2 (unat n)"

text \<open>The two loops of \<^verbatim>\<open>memmove\<close>: downwards from the end, and upwards from the start.\<close>

fun memmove_down :: "memory \<Rightarrow> u64 \<Rightarrow> u64 \<Rightarrow> nat \<Rightarrow> memory" where
  "memmove_down m d s 0 = m"
| "memmove_down m d s (Suc n) = memmove_down (m(d - 1 := m (s - 1))) (d - 1) (s - 1) n"

fun memmove_up :: "memory \<Rightarrow> u64 \<Rightarrow> u64 \<Rightarrow> nat \<Rightarrow> memory" where
  "memmove_up m d s 0 = m"
| "memmove_up m d s (Suc n) = memmove_up (m(d := m s)) (d + 1) (s + 1) n"

definition memmove :: "memory \<Rightarrow> u64 \<Rightarrow> u64 \<Rightarrow> uint \<Rightarrow> memory" where
  "memmove m dst src n =
     (if n = 0 then m
      else if src < dst \<and> dst < src + ucast n
      then memmove_down m (dst + ucast n) (src + ucast n) (unat n)
      else memmove_up m dst src (unat n))"

definition memcpy :: "memory \<Rightarrow> u64 \<Rightarrow> u64 \<Rightarrow> uint \<Rightarrow> memory" where
  "memcpy m dst src n = memmove m dst src n"

fun strncmp_loop :: "cptr \<Rightarrow> cptr \<Rightarrow> nat \<Rightarrow> int" where
  "strncmp_loop p q 0 = 0"
| "strncmp_loop p q (Suc n) =
     (if p 0 \<noteq> 0 \<and> p 0 = q 0 then strncmp_loop (\<lambda>i. p (Suc i)) (\<lambda>i. q (Suc i)) n
      else uint (p 0) - uint (q 0))"

definition strncmp :: "cptr \<Rightarrow> cptr \<Rightarrow> uint \<Rightarrow> int" where
  "strncmp p q n = strncmp_loop p q (unat n)"

text \<open>
  In \<^verbatim>\<open>strncpy\<close> and \<^verbatim>\<open>safestrcpy\<close> the index \<open>i\<close> says how far \<^verbatim>\<open>s\<close> and \<^verbatim>\<open>t\<close> have advanced.
\<close>

fun strncpy_fill :: "cptr \<Rightarrow> nat \<Rightarrow> nat \<Rightarrow> cptr" where
  "strncpy_fill s i 0 = s"
| "strncpy_fill s i (Suc n) = strncpy_fill (s(i := 0)) (Suc i) n"

fun strncpy_copy :: "cptr \<Rightarrow> cptr \<Rightarrow> nat \<Rightarrow> nat \<Rightarrow> cptr" where
  "strncpy_copy s t i 0 = s"
| "strncpy_copy s t i (Suc n) =
     (if t i \<noteq> 0 then strncpy_copy (s(i := t i)) t (Suc i) n
      else strncpy_fill (s(i := t i)) (Suc i) n)"

definition strncpy :: "cptr \<Rightarrow> cptr \<Rightarrow> int \<Rightarrow> cptr" where
  "strncpy s t n = strncpy_copy s t 0 (nat n)"

fun safestrcpy_loop :: "cptr \<Rightarrow> cptr \<Rightarrow> nat \<Rightarrow> nat \<Rightarrow> cptr" where
  "safestrcpy_loop s t i 0 = s(i := 0)"
| "safestrcpy_loop s t i (Suc n) =
     (if t i \<noteq> 0 then safestrcpy_loop (s(i := t i)) t (Suc i) n
      else s(i := t i, Suc i := 0))"

definition safestrcpy :: "cptr \<Rightarrow> cptr \<Rightarrow> int \<Rightarrow> cptr" where
  "safestrcpy s t n = (if n \<le> 0 then s else safestrcpy_loop s t 0 (nat (n - 1)))"

text \<open>\<^verbatim>\<open>strlen\<close> runs off the end of an unterminated string; \<open>None\<close> is a loop that never ends.\<close>

partial_function (option) strlen_from :: "cptr \<Rightarrow> nat \<Rightarrow> nat option" where
  "strlen_from s n = (if s n = 0 then Some n else strlen_from s (Suc n))"

definition strlen :: "cptr \<Rightarrow> nat option" where
  "strlen s = strlen_from s 0"

text \<open>The C string at a pointer: \<open>n\<close> characters, none of them NUL, then a NUL.\<close>

definition is_cstr :: "cptr \<Rightarrow> nat \<Rightarrow> bool" where
  "is_cstr s n \<longleftrightarrow> s n = 0 \<and> (\<forall>i < n. s i \<noteq> 0)"

subsection \<open>memset and memmove\<close>

lemma memset_loop_eq:
  assumes "i + k < 2 ^ 63"
  shows "memset_loop m d c i k x = (if i \<le> unat (x - d) \<and> unat (x - d) < i + k then c else m x)"
  using assms
proof (induction k arbitrary: m i)
  case (Suc k)
  have "x = d + of_nat i \<longleftrightarrow> unat (x - d) = i"
  proof
    assume "x = d + of_nat i"
    then show "unat (x - d) = i" using Suc.prems by (simp add: unat_of_nat_small)
  next
    assume "unat (x - d) = i"
    then have "of_nat i = x - d" by (metis of_nat_unat ucast_id)
    then show "x = d + of_nat i" by simp
  qed
  with Suc show ?case by auto
qed auto

lemma unat_uint_less: "unat (n :: uint) < 2 ^ 32"
  using unsigned_less[of n] by simp

lemma unat_uint_small [simp]: "unat (ucast (n :: uint) :: u64) = unat n"
  using unat_uint_less[of n] by (simp add: unsigned_ucast_eq take_bit_nat_eq_self)

lemma memset_eq:
  "memset m dst c n x = (if x - dst < ucast n then word_of_int c else m x)"
proof -
  have "unat n < 2 ^ 63" using unat_uint_less[of n] by simp
  then show ?thesis
    by (simp add: memset_def memset_loop_eq word_less_nat_alt)
qed

lemma of_nat_minus_u64: "j \<le> n \<Longrightarrow> (of_nat n - of_nat j :: u64) = of_nat (n - j)"
  by (simp add: of_nat_diff)

lemma memmove_up_snoc:
  "memmove_up m d s (Suc n) = (memmove_up m d s n)(d + of_nat n := memmove_up m d s n (s + of_nat n))"
proof (induction n arbitrary: m d s)
  case (Suc n)
  let ?f = "memmove_up (m(d := m s)) (d + 1) (s + 1)"
  have f: "memmove_up m d s (Suc k) = ?f k" for k by simp
  have "?f (Suc n) = (?f n)(d + 1 + of_nat n := ?f n (s + 1 + of_nat n))" by (rule Suc)
  then show ?case
    by (simp add: f[of n] f[of "Suc n"] add.assoc del: memmove_up.simps)
qed simp

lemma unat_sub_eqD: "unat (x - d) = j \<Longrightarrow> x = d + of_nat j" for x d :: u64
  by (metis add.commute diff_add_cancel of_nat_unat ucast_id)

lemma memmove_up_eq:
  assumes "n < 2 ^ 63" and "\<And>k. 0 < k \<Longrightarrow> k < n \<Longrightarrow> d \<noteq> s + of_nat k"
  shows "memmove_up m d s n x = (if unat (x - d) < n then m (s + (x - d)) else m x)"
  using assms
proof (induction n arbitrary: x)
  case (Suc n)
  have IH: "memmove_up m d s n y = (if unat (y - d) < n then m (s + (y - d)) else m y)" for y
    using Suc by simp
  have "\<not> unat (s + of_nat n - d) < n"
  proof
    assume lt: "unat (s + of_nat n - d) < n"
    let ?j = "unat (s + of_nat n - d)"
    have "s + of_nat n = d + of_nat ?j" by (rule unat_sub_eqD) simp
    then have "d = s + (of_nat n - of_nat ?j)" by (simp add: algebra_simps)
    also have "\<dots> = s + of_nat (n - ?j)" using lt of_nat_minus_u64[of ?j n] by simp
    finally show False using Suc.prems(2)[of "n - ?j"] lt by (simp add: less_Suc_eq_le)
  qed
  then have last: "memmove_up m d s n (s + of_nat n) = m (s + of_nat n)" by (simp add: IH)
  have x: "x = d + of_nat n \<longleftrightarrow> unat (x - d) = n"
    using Suc.prems(1) by (auto simp: unat_of_nat_small dest: unat_sub_eqD)
  show ?case
  proof (cases "unat (x - d) = n")
    case True
    with x have xd: "x = d + of_nat n" by blast
    have "memmove_up m d s (Suc n) x = m (s + of_nat n)"
      unfolding memmove_up_snoc xd fun_upd_same by (rule last)
    moreover have "x - d = of_nat n" using xd by simp
    ultimately show ?thesis using True by simp
  next
    case False
    then have "x \<noteq> d + of_nat n" using x by blast
    then have "memmove_up m d s (Suc n) x = memmove_up m d s n x"
      unfolding memmove_up_snoc by (rule fun_upd_other)
    also have "\<dots> = (if unat (x - d) < Suc n then m (s + (x - d)) else m x)"
      unfolding IH less_Suc_eq using False by simp
    finally show ?thesis .
  qed
qed simp

lemma memmove_down_eq:
  assumes "n < 2 ^ 63" and "\<And>k. 0 < k \<Longrightarrow> k < n \<Longrightarrow> s \<noteq> d + of_nat k"
  shows "memmove_down m (d + of_nat n) (s + of_nat n) n x =
    (if unat (x - d) < n then m (s + (x - d)) else m x)"
  using assms
proof (induction n arbitrary: m)
  case (Suc n)
  let ?m = "m(d + of_nat n := m (s + of_nat n))"
  have x: "x = d + of_nat n \<longleftrightarrow> unat (x - d) = n"
    using Suc.prems(1) by (auto simp: unat_of_nat_small dest: unat_sub_eqD)
  have IH: "memmove_down ?m (d + of_nat n) (s + of_nat n) n x =
      (if unat (x - d) < n then ?m (s + (x - d)) else ?m x)"
    using Suc by simp
  have "s + (x - d) \<noteq> d + of_nat n" if lt: "unat (x - d) < n"
  proof
    let ?j = "unat (x - d)"
    assume "s + (x - d) = d + of_nat n"
    then have "s = d + (of_nat n - of_nat ?j)" by (simp add: algebra_simps)
    also have "\<dots> = d + of_nat (n - ?j)" using lt of_nat_minus_u64[of ?j n] by simp
    finally show False using Suc.prems(2)[of "n - ?j"] lt by (simp add: less_Suc_eq_le)
  qed
  with IH x show ?case by (auto simp: algebra_simps less_Suc_eq)
qed simp

text \<open>Both loops give the simultaneous copy, whichever way the ranges overlap.\<close>

lemma memmove_eq:
  assumes "unat src + unat n \<le> 2 ^ 64" and "unat dst + unat n \<le> 2 ^ 64"
  shows "memmove m dst src n x = (if x - dst < ucast n then m (src + (x - dst)) else m x)"
proof -
  have n: "unat n < 2 ^ 63" using unat_uint_less[of n] by simp
  have plus: "unat (a + of_nat k) = unat a + k" if "unat a + k < 2 ^ 64" for a :: u64 and k
  proof -
    have "k < 2 ^ 64" using that by simp
    then have "unat (of_nat k :: u64) = k" using unat_of_nat[of k, where 'a = 64] by simp
    with that show ?thesis using unat_add_lem[of a "of_nat k"] by simp
  qed
  show ?thesis
  proof (cases "src < dst \<and> dst < src + ucast n")
    case True
    have "src \<noteq> dst + of_nat k" if k: "0 < k" "k < unat n" for k
    proof
      assume "src = dst + of_nat k"
      then have "unat src = unat dst + k" using plus[of dst k] assms(2) k by simp
      with True show False by (simp add: word_less_nat_alt)
    qed
    from memmove_down_eq[OF n this, of m x] True show ?thesis
      by (auto simp: memmove_def word_less_nat_alt)
  next
    case False
    have "dst \<noteq> src + of_nat k" if k: "0 < k" "k < unat n" for k
    proof
      assume eq: "dst = src + of_nat k"
      then have d: "unat dst = unat src + k" using plus[of src k] assms(1) k by simp
      have "\<not> dst < src + ucast n" using False d k by (simp add: word_less_nat_alt)
      moreover have "unat (src + ucast n) = unat src + unat n"
        if "unat src + unat n < 2 ^ 64" using plus[OF that] by simp
      ultimately have "\<not> unat src + unat n < 2 ^ 64" using d k by (auto simp: word_less_nat_alt)
      with assms(1) have "unat src + unat n = 2 ^ 64" by simp
      with assms(2) d k show False by simp
    qed
    from memmove_up_eq[OF n this, of m x] False show ?thesis
      by (auto simp: memmove_def word_less_nat_alt)
  qed
qed

subsection \<open>Comparison\<close>

lemma all_less_Suc_shift: "(\<forall>i < Suc n. P i) \<longleftrightarrow> P 0 \<and> (\<forall>i < n. P (Suc i))"
  using less_Suc_eq_0_disj by auto

lemma memcmp_loop_eq_0: "memcmp_loop s1 s2 n = 0 \<longleftrightarrow> (\<forall>i < n. s1 i = s2 i)"
  by (induction s1 s2 n rule: memcmp_loop.induct)
    (auto simp: all_less_Suc_shift word_uint_eq_iff)

lemma memcmp_eq_0: "memcmp v1 v2 n = 0 \<longleftrightarrow> (\<forall>i < unat n. v1 i = v2 i)"
  by (simp add: memcmp_def memcmp_loop_eq_0)

lemma strncmp_loop_eq_0:
  "strncmp_loop p q n = 0 \<longleftrightarrow> (\<forall>i < n. (\<forall>j < i. p j \<noteq> 0) \<longrightarrow> p i = q i)"
proof (induction p q n rule: strncmp_loop.induct)
  case (2 p q n)
  show ?case
  proof (cases "p 0 \<noteq> 0 \<and> p 0 = q 0")
    case True
    with 2 show ?thesis by (simp add: all_less_Suc_shift)
  next
    case False
    then show ?thesis
      by (auto simp: all_less_Suc_shift word_uint_eq_iff)
  qed
qed simp

lemma strncmp_eq_0:
  "strncmp p q n = 0 \<longleftrightarrow> (\<forall>i < unat n. (\<forall>j < i. p j \<noteq> 0) \<longrightarrow> p i = q i)"
  by (simp add: strncmp_def strncmp_loop_eq_0)

subsection \<open>Copying and length\<close>

lemma strncpy_fill_eq:
  "strncpy_fill s i n j = (if i \<le> j \<and> j < i + n then 0 else s j)"
  by (induction n arbitrary: s i) auto

lemma strncpy_copy_eq:
  "strncpy_copy s t i n j =
    (if i \<le> j \<and> j < i + n then if \<exists>k \<ge> i. k < j \<and> t k = 0 then 0 else t j else s j)"
proof (induction s t i n rule: strncpy_copy.induct)
  case (2 s t i n)
  show ?case
  proof (cases "j = i")
    case True
    with 2 show ?thesis by (auto simp: strncpy_fill_eq fun_upd_def)
  next
    case False
    have "(\<exists>k \<ge> i. k < j \<and> t k = 0) \<longleftrightarrow> i < j \<and> t i = 0 \<or> (\<exists>k \<ge> Suc i. k < j \<and> t k = 0)"
      by (auto simp: Suc_le_eq le_eq_less_or_eq[of i])
    moreover have "i \<le> j \<longleftrightarrow> Suc i \<le> j" "i < j \<longleftrightarrow> Suc i \<le> j" using False by auto
    ultimately show ?thesis
      using 2 False by (cases "t i = 0") (simp_all add: strncpy_fill_eq fun_upd_def)
  qed
qed auto

lemma strncpy_eq:
  "strncpy s t n j =
    (if j < nat n then if \<exists>k < j. t k = 0 then 0 else t j else s j)"
  by (simp add: strncpy_def strncpy_copy_eq)

lemma safestrcpy_loop_frame:
  "j < i \<or> i + n < j \<Longrightarrow> safestrcpy_loop s t i n j = s j"
  by (induction s t i n rule: safestrcpy_loop.induct) auto

lemma safestrcpy_loop_spec:
  assumes "i + d = k" "t k = 0" "\<forall>j. i \<le> j \<and> j < k \<longrightarrow> t j \<noteq> 0"
  shows "(\<forall>j. i \<le> j \<and> j < i + min d n \<longrightarrow> safestrcpy_loop s t i n j = t j) \<and>
    safestrcpy_loop s t i n (i + min d n) = 0"
  using assms
proof (induction n arbitrary: s i d)
  case (Suc n)
  show ?case
  proof (cases "d = 0")
    case True
    with Suc.prems show ?thesis by simp
  next
    case False
    then obtain e where d: "d = Suc e" using not0_implies_Suc by blast
    let ?r = "safestrcpy_loop (s(i := t i)) t (Suc i) n"
    have ti: "t i \<noteq> 0" using Suc.prems d by auto
    have IH: "(\<forall>j. Suc i \<le> j \<and> j < Suc i + min e n \<longrightarrow> ?r j = t j) \<and> ?r (Suc i + min e n) = 0"
      using Suc.prems d by (intro Suc.IH) auto
    have "?r i = t i" by (simp add: safestrcpy_loop_frame)
    then have "\<forall>j. i \<le> j \<and> j < i + min d (Suc n) \<longrightarrow> ?r j = t j"
      using IH d by (auto simp: le_eq_less_or_eq[of i] Suc_le_eq)
    with IH ti d show ?thesis by simp
  qed
qed simp

text \<open>\<^verbatim>\<open>safestrcpy\<close> gives a NUL-terminated prefix of its source and stays within \<open>n\<close> bytes.\<close>

lemma safestrcpy_cstr:
  assumes "is_cstr t k" "0 < n"
  shows "is_cstr (safestrcpy s t n) (min k (nat (n - 1)))"
    and "i < min k (nat (n - 1)) \<Longrightarrow> safestrcpy s t n i = t i"
proof -
  have *: "(\<forall>j. 0 \<le> j \<and> j < 0 + min k (nat (n - 1)) \<longrightarrow> safestrcpy_loop s t 0 (nat (n - 1)) j = t j)
      \<and> safestrcpy_loop s t 0 (nat (n - 1)) (0 + min k (nat (n - 1))) = 0"
    using assms by (intro safestrcpy_loop_spec) (auto simp: is_cstr_def)
  with assms show "is_cstr (safestrcpy s t n) (min k (nat (n - 1)))"
    by (auto simp: is_cstr_def safestrcpy_def)
  from * assms show "i < min k (nat (n - 1)) \<Longrightarrow> safestrcpy s t n i = t i"
    by (simp add: safestrcpy_def)
qed

lemma safestrcpy_frame: "n \<le> int j \<Longrightarrow> safestrcpy s t n j = s j"
  by (simp add: safestrcpy_def safestrcpy_loop_frame)

lemma strlen_from_cstr:
  "s (n + d) = 0 \<Longrightarrow> \<forall>i. n \<le> i \<and> i < n + d \<longrightarrow> s i \<noteq> 0 \<Longrightarrow> strlen_from s n = Some (n + d)"
proof (induction d arbitrary: n)
  case (Suc d)
  have "strlen_from s (Suc n) = Some (Suc n + d)" using Suc.prems by (intro Suc.IH) auto
  then show ?case using Suc.prems(2) by (subst strlen_from.simps) simp
qed (subst strlen_from.simps, simp)

lemma strlen_cstr: "is_cstr s k \<Longrightarrow> strlen s = Some k"
  using strlen_from_cstr[of s 0 k] by (simp add: strlen_def is_cstr_def)

lemma is_cstr_unique: "is_cstr s k \<Longrightarrow> is_cstr s l \<Longrightarrow> k = l"
  unfolding is_cstr_def by (metis nat_neq_iff)

subsection \<open>Properties\<close>

text \<open>\<^verbatim>\<open>memmove\<close> copies the bytes the source range held when it was called, however source and
  destination overlap, and changes no byte outside the destination; the two ranges must not wrap
  around the end of the address space.\<close>

theorem memmove_overlap:
  assumes "unat src + unat n \<le> 2 ^ 64" and "unat dst + unat n \<le> 2 ^ 64"
  shows "memmove m dst src n x = (if x - dst < ucast n then m (src + (x - dst)) else m x)"
  using assms by (rule memmove_eq)

theorem memmove_overlap_witness:
  "memmove (\<lambda>a. ucast a) 0x1001 0x1000 4 0x1003 = 2 \<and> memmove (\<lambda>a. ucast a) 0x1000 0x1001 4 0x1003 = 4"
  using memmove_overlap[of "0x1000" 4 "0x1001" "\<lambda>a. ucast a" "0x1003"]
    memmove_overlap[of "0x1001" 4 "0x1000" "\<lambda>a. ucast a" "0x1003"] by simp

text \<open>\<^verbatim>\<open>safestrcpy\<close> with a positive size leaves a NUL-terminated string: the longest prefix of the
  source that leaves room for the NUL.  No byte at or beyond the size is written.\<close>

theorem safestrcpy_terminates:
  assumes "is_cstr t k" "0 < n"
  shows "is_cstr (safestrcpy s t n) (min k (nat (n - 1)))
    \<and> (\<forall>i. i < min k (nat (n - 1)) \<longrightarrow> safestrcpy s t n i = t i)
    \<and> (\<forall>j. n \<le> int j \<longrightarrow> safestrcpy s t n j = s j)"
  using safestrcpy_cstr[OF assms] safestrcpy_frame by auto

theorem safestrcpy_terminates_witness:
  "let t = (\<lambda>i :: nat. if i < 20 then 97 else 0 :: uchar) in
   is_cstr t 20 \<and> is_cstr (safestrcpy (\<lambda>_. 7) t 16) 15 \<and> safestrcpy (\<lambda>_. 7) t 16 16 = 7"
proof -
  let ?t = "\<lambda>i :: nat. if i < 20 then 97 else 0 :: uchar"
  have "is_cstr ?t 20" by (simp add: is_cstr_def)
  with safestrcpy_terminates[of ?t 20 16 "\<lambda>_. 7"] show ?thesis by (simp only: Let_def) simp
qed

end
