(* ===== verification/Kalloc.thy ===== *)
theory Kalloc
  imports CString
begin

text \<open>
  The physical page allocator with its copy-on-write reference counts
  (\<^verbatim>\<open>kernel/kalloc.c\<close>).  The state is physical memory, the head of the free list (whose links are
  stored in the free pages themselves), the array \<^verbatim>\<open>refCount\<close>, and the linker symbol \<^verbatim>\<open>end\<close>.
  The invariant says that the list threaded through memory enumerates, without repetition,
  exactly the pages whose count is zero; the contract of the allocator is the locale
  \<open>page_allocator\<close>.
\<close>

subsection \<open>Definitions\<close>

definition PGSIZE :: u64 where "PGSIZE = 4096"
definition KERNBASE :: u64 where "KERNBASE = 0x80000000"
definition PHYSTOP :: u64 where "PHYSTOP = KERNBASE + 128 * 1024 * 1024"

definition PGROUNDUP :: "u64 \<Rightarrow> u64" where
  "PGROUNDUP sz = and (sz + PGSIZE - 1) (not (PGSIZE - 1))"

definition PGROUNDDOWN :: "u64 \<Rightarrow> u64" where
  "PGROUNDDOWN a = and a (not (PGSIZE - 1))"

record phys =
  mem :: memory
  kmem_freelist :: u64
  refCount :: "nat \<Rightarrow> int"
  kend :: u64

definition NREF :: nat where "NREF = unat ((PHYSTOP - KERNBASE) div PGSIZE)"

definition refIdx :: "u64 \<Rightarrow> nat" where
  "refIdx a = unat ((a - KERNBASE) div PGSIZE)"

text \<open>An update of one element of \<^verbatim>\<open>refCount\<close>; an index outside the array is a fault.\<close>

definition ref_upd :: "(int \<Rightarrow> int) \<Rightarrow> u64 \<Rightarrow> 'a phys_scheme \<Rightarrow> 'a phys_scheme kres" where
  "ref_upd f pa s =
     (if refIdx pa < NREF
      then Ret (s\<lparr>refCount := (refCount s)(refIdx pa := f (refCount s (refIdx pa)))\<rparr>)
      else Fault ''refCount'')"

definition kfree :: "u64 \<Rightarrow> 'a phys_scheme \<Rightarrow> 'a phys_scheme kres" where
  "kfree pa s =
     (if pa mod PGSIZE \<noteq> 0 \<or> pa < kend s \<or> PHYSTOP \<le> pa then Panic ''kfree''
      else kbind (ref_upd (\<lambda>c. c - 1) pa s) (\<lambda>s.
        if refCount s (refIdx pa) = 0
        then let s = s\<lparr>mem := memset (mem s) pa 1 4096\<rparr>;
                 s = s\<lparr>mem := store64 (mem s) pa (kmem_freelist s)\<rparr>
             in Ret (s\<lparr>kmem_freelist := pa\<rparr>)
        else Ret s))"

definition kalloc :: "'a phys_scheme \<Rightarrow> (u64 \<times> 'a phys_scheme) kres" where
  "kalloc s =
     (let r = kmem_freelist s;
          s = (if r \<noteq> 0 then s\<lparr>kmem_freelist := load64 (mem s) r\<rparr> else s)
      in if r \<noteq> 0
         then kbind (ref_upd (\<lambda>c. c + 1) r (s\<lparr>mem := memset (mem s) r 5 4096\<rparr>)) (\<lambda>s. Ret (r, s))
         else Ret (r, s))"

definition refInc :: "u64 \<Rightarrow> 'a phys_scheme \<Rightarrow> 'a phys_scheme kres" where
  "refInc pa s = ref_upd (\<lambda>c. c + 1) pa s"

text \<open>
  The loop of \<^verbatim>\<open>freerange\<close> does not end when \<^verbatim>\<open>pa_end\<close> is in the last page of the address space;
  \<open>None\<close> is that behaviour.
\<close>

partial_function (option) freerange_loop ::
    "u64 \<Rightarrow> u64 \<Rightarrow> 'a phys_scheme \<Rightarrow> 'a phys_scheme kres option" where
  "freerange_loop p pa_end s =
     (if p + PGSIZE \<le> pa_end
      then case kbind (ref_upd (\<lambda>_. 1) p s) (kfree p) of
             Ret s \<Rightarrow> freerange_loop (p + PGSIZE) pa_end s
           | r \<Rightarrow> Some r
      else Some (Ret s))"

definition freerange :: "u64 \<Rightarrow> u64 \<Rightarrow> 'a phys_scheme \<Rightarrow> 'a phys_scheme kres option" where
  "freerange pa_start pa_end s = freerange_loop (PGROUNDUP pa_start) pa_end s"

definition kinit :: "'a phys_scheme \<Rightarrow> 'a phys_scheme kres option" where
  "kinit s = freerange (kend s) PHYSTOP s"

subsection \<open>The invariant\<close>

fun chain :: "memory \<Rightarrow> u64 \<Rightarrow> u64 list \<Rightarrow> bool" where
  "chain m p [] \<longleftrightarrow> p = 0"
| "chain m p (x # xs) \<longleftrightarrow> p = x \<and> chain m (load64 m x) xs"

text \<open>The pages the allocator manages, and how many references each of them has.\<close>

definition is_page :: "'a phys_scheme \<Rightarrow> u64 \<Rightarrow> bool" where
  "is_page s p \<longleftrightarrow> page_of p = p \<and> kend s \<le> p \<and> p < PHYSTOP"

definition refs :: "'a phys_scheme \<Rightarrow> u64 \<Rightarrow> int" where
  "refs s p = (if is_page s p then refCount s (refIdx p) else 0)"

definition layout_ok :: "'a phys_scheme \<Rightarrow> bool" where
  "layout_ok s \<longleftrightarrow> KERNBASE < kend s \<and> kend s \<le> PHYSTOP"

definition free_pages :: "'a phys_scheme \<Rightarrow> u64 set" where
  "free_pages s = {p. is_page s p \<and> refs s p = 0}"

definition kmem_inv :: "'a phys_scheme \<Rightarrow> u64 list \<Rightarrow> bool" where
  "kmem_inv s xs \<longleftrightarrow> layout_ok s \<and> chain (mem s) (kmem_freelist s) xs \<and> distinct xs
     \<and> set xs = free_pages s \<and> (\<forall>p. 0 \<le> refs s p)"

definition kmem_ok :: "'a phys_scheme \<Rightarrow> bool" where
  "kmem_ok s \<longleftrightarrow> (\<exists>xs. kmem_inv s xs)"

subsection \<open>Pages and their indices\<close>

lemma PGROUNDDOWN_page_of: "PGROUNDDOWN a = page_of a"
proof -
  have "PGSIZE - 1 = mask 12" by (simp add: PGSIZE_def mask_eq_exp_minus_1)
  then show ?thesis by (simp only: PGROUNDDOWN_def clear_low_mask)
qed

lemma PGROUNDUP_page_of: "PGROUNDUP a = page_of (a + 4095)"
proof -
  have "PGSIZE - 1 = mask 12" by (simp add: PGSIZE_def mask_eq_exp_minus_1)
  moreover have "a + PGSIZE - 1 = a + 4095" by (simp add: PGSIZE_def)
  ultimately show ?thesis by (simp only: PGROUNDUP_def clear_low_mask)
qed

lemma mod_PGSIZE_iff: "a mod PGSIZE = 0 \<longleftrightarrow> page_of a = a"
proof -
  have "a mod PGSIZE = take_bit 12 a" by (simp add: PGSIZE_def take_bit_eq_mod)
  moreover have "a = page_of a + take_bit 12 a" by (simp add: clear_low_split)
  ultimately show ?thesis by (metis add_cancel_right_right)
qed

lemma PHYSTOP_val: "PHYSTOP = 0x88000000"
  by (simp add: PHYSTOP_def KERNBASE_def)

lemma NREF_val: "NREF = 32768"
  by (simp add: NREF_def PHYSTOP_val KERNBASE_def PGSIZE_def)

lemma multiple_offset: "b \<le> u \<Longrightarrow> u mod n = 0 \<Longrightarrow> b mod n = 0 \<Longrightarrow> u = b + n * ((u - b) div n)"
  for u b n :: nat
  by (metis add_diff_inverse_nat dvd_diff_nat dvd_div_mult_self mod_0_imp_dvd mult.commute not_le)

lemma refIdx_unat:
  assumes "page_of p = p" "KERNBASE \<le> p"
  shows "unat p = 0x80000000 + 4096 * refIdx p"
proof -
  have "unat (p - KERNBASE) = unat p - 0x80000000"
    using assms(2) by (simp add: unat_sub KERNBASE_def)
  moreover have "0x80000000 \<le> unat p"
    using assms(2) by (simp add: KERNBASE_def word_le_nat_alt)
  moreover have "unat p mod 4096 = 0"
    using assms(1) mod_PGSIZE_iff[of p] by (simp add: PGSIZE_def word_unat_eq_iff unat_mod)
  moreover have "refIdx p = unat (p - KERNBASE) div 4096"
    by (simp add: refIdx_def unat_div PGSIZE_def)
  ultimately show ?thesis using multiple_offset[of "0x80000000" "unat p" 4096] by simp
qed

lemma is_page_bounds:
  assumes "layout_ok s" "is_page s p"
  shows "KERNBASE \<le> p" "p \<noteq> 0" "refIdx p < NREF" "page_of p = p" "cell_of p = p"
proof -
  show K: "KERNBASE \<le> p" and pg: "page_of p = p"
    using assms by (auto simp: layout_ok_def is_page_def)
  then show "p \<noteq> 0" "cell_of p = p" by (auto simp: KERNBASE_def)
  have "unat p < 0x88000000" using assms(2) by (simp add: is_page_def PHYSTOP_val word_less_nat_alt)
  with refIdx_unat[OF pg K] show "refIdx p < NREF" by (simp add: NREF_val)
qed

lemma refIdx_inject:
  assumes "layout_ok s" "is_page s p" "is_page s q"
  shows "refIdx p = refIdx q \<longleftrightarrow> p = q"
proof
  assume "refIdx p = refIdx q"
  with refIdx_unat[of p] refIdx_unat[of q] is_page_bounds[OF assms(1)] assms(2,3)
  have "unat p = unat q" by presburger
  then show "p = q" by (simp add: word_unat_eq_iff)
qed simp

lemma refs_upd:
  assumes "layout_ok s" "is_page s p"
  shows "refs (s\<lparr>refCount := (refCount s)(refIdx p := c)\<rparr>) = (refs s)(p := c)"
  using assms by (auto simp: refs_def is_page_def refIdx_inject fun_eq_iff)

lemma phys_more_simps [simp]:
  "is_page (s\<lparr>mem := m\<rparr>) = is_page s" "is_page (s\<lparr>kmem_freelist := l\<rparr>) = is_page s"
  "is_page (s\<lparr>refCount := c\<rparr>) = is_page s" "layout_ok (s\<lparr>mem := m\<rparr>) = layout_ok s"
  "layout_ok (s\<lparr>kmem_freelist := l\<rparr>) = layout_ok s" "layout_ok (s\<lparr>refCount := c\<rparr>) = layout_ok s"
  "refs (s\<lparr>mem := m\<rparr>) = refs s" "refs (s\<lparr>kmem_freelist := l\<rparr>) = refs s"
  by (auto simp: is_page_def layout_ok_def refs_def fun_eq_iff)

lemma ref_upd_page:
  assumes "layout_ok s" "is_page s p"
  shows "ref_upd f p s = Ret (s\<lparr>refCount := (refCount s)(refIdx p := f (refs s p))\<rparr>)"
  using assms is_page_bounds(3)[OF assms] by (simp add: ref_upd_def refs_def)

subsection \<open>The free list\<close>

lemma chain_cong:
  "(\<And>x. x \<in> set xs \<Longrightarrow> load64 m x = load64 m' x) \<Longrightarrow> chain m p xs = chain m' p xs"
  by (induction xs arbitrary: p) auto

lemma memset_page [mem_simps]:
  "page_of p = p \<Longrightarrow> memset m p c 4096 x = (if page_of x = p then word_of_int c else m x)"
  by (simp add: memset_eq page_iff)

lemma load64_memset_other [mem_simps]:
  "page_of p = p \<Longrightarrow> cell_of a = a \<Longrightarrow> page_of a \<noteq> p \<Longrightarrow> load64 (memset m p c 4096) a = load64 m a"
  by (rule load64_page_cong) (auto simp: memset_page)

lemma kalloc_none: "kmem_inv s [] \<Longrightarrow> kalloc s = Ret (0, s)"
  by (simp add: kmem_inv_def kalloc_def)

lemma kalloc_some:
  assumes "kmem_inv s (x # xs)"
  defines "s' \<equiv> s\<lparr>kmem_freelist := load64 (mem s) x, mem := memset (mem s) x 5 4096,
                  refCount := (refCount s)(refIdx x := 1)\<rparr>"
  shows "kalloc s = Ret (x, s')" and "kmem_inv s' xs" and "refs s' = (refs s)(x := 1)"
proof -
  have lo: "layout_ok s" and x: "is_page s x" "refs s x = 0" "kmem_freelist s = x"
    and ch: "chain (mem s) (load64 (mem s) x) xs" and d: "x \<notin> set xs" "distinct xs"
    and fp: "insert x (set xs) = free_pages s"  and nn: "\<forall>p. 0 \<le> refs s p"
    using assms(1) by (auto simp: kmem_inv_def free_pages_def)
  note xp = is_page_bounds[OF lo x(1)]
  show "kalloc s = Ret (x, s')"
    using x xp(2) lo ref_upd_page[of "s\<lparr>kmem_freelist := load64 (mem s) x, mem := memset (mem s) x 5 4096\<rparr>" x]
    by (simp add: kalloc_def s'_def Let_def)
  show r: "refs s' = (refs s)(x := 1)"
    using refs_upd[of "s\<lparr>kmem_freelist := load64 (mem s) x, mem := memset (mem s) x 5 4096\<rparr>" x 1] lo x(1)
    by (simp add: s'_def)
  have "load64 (memset (mem s) x 5 4096) y = load64 (mem s) y" if "y \<in> set xs" for y
  proof -
    have "is_page s y" using that fp by (auto simp: free_pages_def)
    with is_page_bounds[OF lo this] that d(1) show ?thesis using xp by (intro load64_memset_other) auto
  qed
  then have "chain (mem s') (kmem_freelist s') xs"
    using ch chain_cong[of xs "memset (mem s) x 5 4096" "mem s"] by (simp add: s'_def)
  moreover have "set xs = free_pages s'"
    using fp d(1) r by (auto simp: free_pages_def s'_def)
  ultimately show "kmem_inv s' xs"
    using lo d nn by (simp add: kmem_inv_def r) (simp add: s'_def)
qed

lemma chain_push:
  assumes "chain m fl xs" "p \<notin> set xs" "layout_ok s" "is_page s p" "\<And>x. x \<in> set xs \<Longrightarrow> is_page s x"
  shows "chain (store64 (memset m p 1 4096) p fl) p (p # xs)"
proof -
  note p = is_page_bounds[OF assms(3,4)]
  have "load64 (store64 (memset m p 1 4096) p fl) y = load64 m y" if y: "y \<in> set xs" for y
  proof -
    have "y \<noteq> p" using y assms(2) by auto
    with p is_page_bounds[OF assms(3) assms(5)[OF y]] show ?thesis
      by (simp add: load64_store64_other load64_memset_other)
  qed
  then have "chain (store64 (memset m p 1 4096) p fl) fl xs" using assms(1) chain_cong by blast
  then show ?thesis by (simp add: load64_store64)
qed

definition free_upd :: "u64 \<Rightarrow> 'a phys_scheme \<Rightarrow> 'a phys_scheme" where
  "free_upd p s = s\<lparr>refCount := (refCount s)(refIdx p := 0),
     mem := store64 (memset (mem s) p 1 4096) p (kmem_freelist s), kmem_freelist := p\<rparr>"

lemma kfree_cases:
  assumes "layout_ok s" "is_page s p"
  shows "kfree p s = (if refs s p = 1 then Ret (free_upd p s)
    else Ret (s\<lparr>refCount := (refCount s)(refIdx p := refs s p - 1)\<rparr>))"
proof -
  have "\<not> (p mod PGSIZE \<noteq> 0 \<or> p < kend s \<or> PHYSTOP \<le> p)"
    using assms(2) by (auto simp: is_page_def mod_PGSIZE_iff)
  then show ?thesis
    unfolding kfree_def by (simp add: ref_upd_page[OF assms] free_upd_def Let_def)
qed

lemma kfree_panic: "\<not> is_page s p \<Longrightarrow> kfree p s = Panic ''kfree''"
  by (auto simp: kfree_def mod_PGSIZE_iff is_page_def)

lemma refs_free_upd:
  assumes "layout_ok s" "is_page s p" shows "refs (free_upd p s) = (refs s)(p := 0)"
  using refs_upd[OF assms, of 0] by (simp add: free_upd_def)

lemma kfree_last:
  assumes inv: "kmem_inv s xs" and p: "is_page s p" "refs s p = 1"
  shows "kmem_inv (free_upd p s) (p # xs)"
proof -
  have lo: "layout_ok s" and fp: "set xs = free_pages s" using inv by (auto simp: kmem_inv_def)
  note r = refs_free_upd[OF lo p(1)]
  have np: "p \<notin> set xs" using fp p(2) by (simp add: free_pages_def)
  have "chain (mem (free_upd p s)) (kmem_freelist (free_upd p s)) (p # xs)"
  proof -
    have "chain (mem s) (kmem_freelist s) xs" "\<And>x. x \<in> set xs \<Longrightarrow> is_page s x"
      using inv fp by (auto simp: kmem_inv_def free_pages_def)
    from chain_push[OF this(1) np lo p(1) this(2)] show ?thesis by (simp add: free_upd_def)
  qed
  moreover have "insert p (set xs) = free_pages (free_upd p s)"
    unfolding free_pages_def r using fp p(1) by (auto simp: free_upd_def free_pages_def)
  ultimately show ?thesis
    using inv np by (simp add: kmem_inv_def r) (simp add: free_upd_def)
qed

lemma ref_change:
  assumes "kmem_inv s xs" "is_page s p" "0 < refs s p" "0 < c"
  shows "kmem_inv (s\<lparr>refCount := (refCount s)(refIdx p := c)\<rparr>) xs"
proof -
  have lo: "layout_ok s" using assms(1) by (simp add: kmem_inv_def)
  note r = refs_upd[OF lo assms(2), of c]
  have "free_pages (s\<lparr>refCount := (refCount s)(refIdx p := c)\<rparr>) = free_pages s"
    using assms(3,4) by (auto simp: free_pages_def r)
  with assms show ?thesis by (simp add: kmem_inv_def r)
qed

subsection \<open>Boot: every page from \<open>end\<close> to PHYSTOP becomes free\<close>

text \<open>What has been freed when the loop of \<^verbatim>\<open>freerange\<close> is at \<open>p\<close>.\<close>

definition freed_below :: "'a phys_scheme \<Rightarrow> u64 \<Rightarrow> u64 list \<Rightarrow> bool" where
  "freed_below s p xs \<longleftrightarrow> layout_ok s \<and> chain (mem s) (kmem_freelist s) xs \<and> distinct xs
     \<and> set xs = {q. is_page s q \<and> q < p} \<and> (\<forall>q \<in> set xs. refs s q = 0)"

lemma pages_next:
  assumes "layout_ok s" "is_page s p"
  shows "is_page s q \<and> q < p + 4096 \<longleftrightarrow> is_page s q \<and> q < p \<or> q = p"
proof -
  note b = is_page_bounds[OF assms]
  have up: "unat p < 0x88000000" using assms(2) by (simp add: is_page_def PHYSTOP_val word_less_nat_alt)
  have plus: "unat (p + 4096) = unat p + 4096" using unat_add_lem[of p 4096] up by simp
  have "q < p + 4096 \<longleftrightarrow> q < p \<or> q = p" if q: "is_page s q"
  proof -
    note c = is_page_bounds[OF assms(1) q]
    have "unat p = 0x80000000 + 4096 * refIdx p" "unat q = 0x80000000 + 4096 * refIdx q"
      using refIdx_unat b(4,1) c(4,1) by auto
    then show ?thesis
      using plus mult_less_cancel1[of 4096 "refIdx q" "Suc (refIdx p)"]
      by (auto simp: word_less_nat_alt word_unat_eq_iff less_Suc_eq)
  qed
  moreover have "p < p + 4096" using plus by (simp add: word_less_nat_alt)
  ultimately show ?thesis using assms(2) by blast
qed

lemma freerange_step:
  assumes "freed_below s p xs" "is_page s p"
  obtains s' where "kbind (ref_upd (\<lambda>_. 1) p s) (kfree p) = Ret s'"
    "freed_below s' (p + 4096) (p # xs)" "is_page s' = is_page s"
proof -
  let ?t = "s\<lparr>refCount := (refCount s)(refIdx p := 1)\<rparr>"
  have lo: "layout_ok s" and xs: "set xs = {q. is_page s q \<and> q < p}"
    using assms(1) by (auto simp: freed_below_def)
  have rt: "refs ?t = (refs s)(p := 1)" by (rule refs_upd[OF lo assms(2)])
  have ex: "kbind (ref_upd (\<lambda>_. 1) p s) (kfree p) = Ret (free_upd p ?t)"
    using lo assms(2) by (simp add: ref_upd_page kfree_cases rt)
  have rf: "refs (free_upd p ?t) = (refs s)(p := 0)"
    using refs_free_upd[of ?t p] lo assms(2) by (simp add: rt)
  have "chain (mem (free_upd p ?t)) (kmem_freelist (free_upd p ?t)) (p # xs)"
  proof -
    have "chain (mem s) (kmem_freelist s) xs" "p \<notin> set xs" "\<And>x. x \<in> set xs \<Longrightarrow> is_page s x"
      using assms(1) xs by (auto simp: freed_below_def)
    from chain_push[OF this(1,2) lo assms(2) this(3)] show ?thesis by (simp add: free_upd_def)
  qed
  moreover have "set (p # xs) = {q. is_page s q \<and> q < p + 4096}"
    using xs pages_next[OF lo assms(2)] by auto
  ultimately have "freed_below (free_upd p ?t) (p + 4096) (p # xs)"
    using assms(1) xs unfolding freed_below_def rf by (auto simp: free_upd_def)
  moreover have "is_page (free_upd p ?t) = is_page s" by (simp add: free_upd_def)
  ultimately show thesis using ex that by blast
qed

lemma page_step_top:
  assumes "layout_ok s" "page_of p = p" "kend s \<le> p" "p < PHYSTOP"
  shows "is_page s p" "p + 4096 \<le> PHYSTOP" "page_of (p + 4096) = p + 4096"
    "unat (PHYSTOP - p) = 4096 + unat (PHYSTOP - (p + 4096))"
proof -
  show pg: "is_page s p" using assms by (simp add: is_page_def)
  note b = is_page_bounds[OF assms(1) pg]
  have u: "unat p = 0x80000000 + 4096 * refIdx p" using refIdx_unat b by auto
  have i: "refIdx p < 32768" using b(3) by (simp add: NREF_val)
  have plus: "unat (p + 4096) = unat p + 4096" using unat_add_lem[of p 4096] u i by simp
  show le: "p + 4096 \<le> PHYSTOP" using plus u i by (simp add: word_le_nat_alt PHYSTOP_val)
  show "page_of (p + 4096) = p + 4096"
    using assms(2) mod_PGSIZE_iff[of p] mod_PGSIZE_iff[of "p + 4096"] plus
    by (simp add: PGSIZE_def word_unat_eq_iff unat_mod)
  show "unat (PHYSTOP - p) = 4096 + unat (PHYSTOP - (p + 4096))"
    unfolding unat_sub[OF le] unat_sub[OF less_imp_le[OF assms(4)]] plus using u i by (simp add: PHYSTOP_val)
qed

lemma freerange_loop_ok:
  assumes "freed_below s p xs" "page_of p = p" "kend s \<le> p" "p \<le> PHYSTOP"
  shows "\<exists>s' ys. freerange_loop p PHYSTOP s = Some (Ret s') \<and> freed_below s' PHYSTOP ys
    \<and> is_page s' = is_page s"
  using assms
proof (induction "unat (PHYSTOP - p)" arbitrary: p s xs rule: less_induct)
  case less
  have lo: "layout_ok s" using less.prems(1) by (simp add: freed_below_def)
  show ?case
  proof (cases "p = PHYSTOP")
    case True
    then show ?thesis
      using less.prems(1) by (subst freerange_loop.simps) (auto simp: PGSIZE_def PHYSTOP_val)
  next
    case False
    then have "p < PHYSTOP" using less.prems(4) by simp
    note st = page_step_top[OF lo less.prems(2,3) this]
    obtain s' where ex: "kbind (ref_upd (\<lambda>_. 1) p s) (kfree p) = Ret s'"
      and fb: "freed_below s' (p + 4096) (p # xs)" and pg: "is_page s' = is_page s"
      using freerange_step[OF less.prems(1) st(1)] by blast
    have "kend s' \<le> p + 4096"
    proof -
      have "kend s' \<le> p" using st(1) pg by (metis is_page_def)
      moreover have "p \<le> p + 4096" using pages_next[OF lo st(1), of p] st(1) by simp
      ultimately show ?thesis by (rule order_trans)
    qed
    moreover have "unat (PHYSTOP - (p + 4096)) < unat (PHYSTOP - p)" using st(4) by simp
    ultimately have "\<exists>t ys. freerange_loop (p + 4096) PHYSTOP s' = Some (Ret t)
        \<and> freed_below t PHYSTOP ys \<and> is_page t = is_page s'"
      using fb st(2,3) by (intro less.hyps) auto
    moreover have "freerange_loop p PHYSTOP s = freerange_loop (p + 4096) PHYSTOP s'"
      unfolding freerange_loop.simps[of p] ex using st(2) by (simp add: PGSIZE_def)
    ultimately show ?thesis using pg by simp
  qed
qed

lemma freed_all: "freed_below s PHYSTOP xs \<Longrightarrow> kmem_inv s xs"
proof -
  assume fb: "freed_below s PHYSTOP xs"
  have z: "refs s p = 0" for p
    using fb by (cases "is_page s p") (auto simp: freed_below_def refs_def is_page_def)
  have "set xs = free_pages s"
    using fb unfolding freed_below_def free_pages_def by (auto simp: z is_page_def)
  with fb show "kmem_inv s xs" by (simp add: kmem_inv_def freed_below_def z)
qed

lemma unat_page_of: "unat (page_of a) = 4096 * (unat a div 4096)"
proof -
  have "unat (page_of a) + unat a mod 4096 = unat a"
  proof -
    have m: "unat (a mod 4096) = unat a mod 4096" by (simp add: unat_mod)
    have "a = page_of a + a mod 4096" using clear_low_split[of 12 a] by (simp add: take_bit_eq_mod)
    then have "page_of a = a - a mod 4096" by (simp add: algebra_simps)
    moreover have "a mod 4096 \<le> a" by (simp add: word_le_nat_alt m)
    ultimately have "unat (page_of a) = unat a - unat a mod 4096" by (simp add: unat_sub m)
    then show ?thesis by simp
  qed
  then show ?thesis using mult_div_mod_eq[of 4096 "unat a"] by linarith
qed

lemma PGROUNDUP_bounds:
  assumes "a \<le> PHYSTOP"
  shows "a \<le> PGROUNDUP a" "PGROUNDUP a \<le> PHYSTOP" "page_of (PGROUNDUP a) = PGROUNDUP a"
    and "page_of q = q \<Longrightarrow> a \<le> q \<Longrightarrow> PGROUNDUP a \<le> q"
proof -
  have ua: "unat a \<le> 0x88000000" using assms by (simp add: word_le_nat_alt PHYSTOP_val)
  have "unat (a + 4095) = unat a + 4095" using unat_add_lem[of a 4095] ua by simp
  then have u: "unat (PGROUNDUP a) = 4096 * ((unat a + 4095) div 4096)"
    by (simp add: PGROUNDUP_page_of unat_page_of)
  show "page_of (PGROUNDUP a) = PGROUNDUP a" by (simp add: PGROUNDUP_page_of)
  show "a \<le> PGROUNDUP a" unfolding word_le_nat_alt u
    using div_mult_mod_eq[of "unat a + 4095" 4096] mod_less_divisor[of 4096 "unat a + 4095"] by linarith
  have up: "4096 * ((unat a + 4095) div 4096) \<le> 4096 * k" if "unat a \<le> 4096 * k" for k
  proof -
    have "(unat a + 4095) div 4096 \<le> (4096 * k + 4095) div 4096" using that by (intro div_le_mono) simp
    then show ?thesis by simp
  qed
  show "PGROUNDUP a \<le> PHYSTOP" unfolding word_le_nat_alt u
    using up[of "0x88000"] ua by (simp add: PHYSTOP_val)
  show "PGROUNDUP a \<le> q" if "page_of q = q" "a \<le> q"
    unfolding word_le_nat_alt u
    using up[of "unat q div 4096"] unat_page_of[of q] that by (simp add: word_le_nat_alt)
qed

lemma freed_below_start:
  assumes "layout_ok s" "kmem_freelist s = 0" shows "freed_below s (PGROUNDUP (kend s)) []"
  using assms PGROUNDUP_bounds(4)[of "kend s"]
  by (auto simp: freed_below_def layout_ok_def is_page_def not_less[symmetric])

subsection \<open>What clients rely on\<close>

text \<open>
  The contract of the allocator: \<open>count\<close> is the number of references to a page, \<open>bytes\<close> is
  memory, and \<open>good\<close> is what the operations keep.
\<close>

locale page_allocator =
  fixes alloc :: "'s \<Rightarrow> (u64 \<times> 's) kres"
    and free :: "u64 \<Rightarrow> 's \<Rightarrow> 's kres"
    and share :: "u64 \<Rightarrow> 's \<Rightarrow> 's kres"
    and good :: "'s \<Rightarrow> bool"
    and page :: "'s \<Rightarrow> u64 \<Rightarrow> bool"
    and count :: "'s \<Rightarrow> u64 \<Rightarrow> int"
    and bytes :: "'s \<Rightarrow> memory"
  assumes count_page: "count s p \<noteq> 0 \<Longrightarrow> page s p"
    and count_nonneg: "good s \<Longrightarrow> 0 \<le> count s p"
    and alloc_cases: "good s \<Longrightarrow> (\<exists>p s'. alloc s = Ret (p, s') \<and> p \<noteq> 0 \<and> page s p \<and> count s p = 0
          \<and> good s' \<and> page s' = page s \<and> count s' = (count s)(p := 1)
          \<and> (\<forall>x. page_of x \<noteq> p \<longrightarrow> bytes s' x = bytes s x))
        \<or> alloc s = Ret (0, s) \<and> (\<forall>p. page s p \<longrightarrow> count s p \<noteq> 0)"
    and free_live: "good s \<Longrightarrow> 0 < count s p \<Longrightarrow> \<exists>s'. free p s = Ret s' \<and> good s'
          \<and> page s' = page s \<and> count s' = (count s)(p := count s p - 1)
          \<and> (\<forall>x. page_of x \<noteq> p \<or> 1 < count s p \<longrightarrow> bytes s' x = bytes s x)"
    and share_live: "good s \<Longrightarrow> 0 < count s p \<Longrightarrow> \<exists>s'. share p s = Ret s' \<and> good s'
          \<and> page s' = page s \<and> count s' = (count s)(p := count s p + 1) \<and> bytes s' = bytes s"
begin

lemma alloc_total: "good s \<Longrightarrow> \<exists>p s'. alloc s = Ret (p, s') \<and> good s'"
  using alloc_cases[of s] by blast

lemma alloc_good: "good s \<Longrightarrow> alloc s = Ret (p, s') \<Longrightarrow> good s' \<and> page s' = page s"
  using alloc_cases[of s] by auto

lemma alloc_count:
  "good s \<Longrightarrow> alloc s = Ret (p, s') \<Longrightarrow> p \<noteq> 0 \<Longrightarrow> page s p \<and> count s p = 0 \<and> count s' = (count s)(p := 1)"
  using alloc_cases[of s] by auto

lemma alloc_none: "good s \<Longrightarrow> alloc s = Ret (0, s') \<Longrightarrow> s' = s \<and> (page s p \<longrightarrow> 0 < count s p)"
  using alloc_cases[of s] count_nonneg[of s p] by auto

text \<open>A page somebody holds is never handed out again, and its bytes stay.\<close>

lemma alloc_keeps_live:
  assumes "good s" "alloc s = Ret (p, s')" "0 < count s (page_of x)"
  shows "bytes s' x = bytes s x" and "p \<noteq> 0 \<longrightarrow> page_of x \<noteq> p"
proof -
  show ne: "p \<noteq> 0 \<longrightarrow> page_of x \<noteq> p" using alloc_count[OF assms(1,2)] assms(3) by auto
  show "bytes s' x = bytes s x" using alloc_cases[OF assms(1)] assms(2) ne by auto
qed

lemma alloc_frame: "good s \<Longrightarrow> alloc s = Ret (p, s') \<Longrightarrow> page_of x \<noteq> p \<Longrightarrow> bytes s' x = bytes s x"
  using alloc_cases[of s] by auto

lemma free_good:
  "good s \<Longrightarrow> 0 < count s p \<Longrightarrow> free p s = Ret s'
    \<Longrightarrow> good s' \<and> page s' = page s \<and> count s' = (count s)(p := count s p - 1)"
  using free_live[of s p] by auto

text \<open>Giving a page back undoes the allocation, and undoes the sharing.\<close>

lemma alloc_free:
  assumes "good s" "alloc s = Ret (p, s1)" "p \<noteq> 0"
  shows "\<exists>s2. free p s1 = Ret s2 \<and> good s2 \<and> count s2 = count s"
proof -
  have a: "good s1" "count s p = 0" "count s1 = (count s)(p := 1)"
    using alloc_good alloc_count assms by auto
  moreover have "(count s)(p := 0) = count s" using a(2) by auto
  ultimately show ?thesis using free_live[of s1 p] by auto
qed

lemma share_free:
  assumes "good s" "0 < count s p" "share p s = Ret s1"
  shows "\<exists>s2. free p s1 = Ret s2 \<and> good s2 \<and> count s2 = count s \<and> bytes s2 = bytes s"
proof -
  have a: "good s1" "count s1 = (count s)(p := count s p + 1)" "bytes s1 = bytes s"
    using share_live[OF assms(1,2)] assms(3) by auto
  then show ?thesis using free_live[of s1 p] assms(2) by (auto simp: fun_eq_iff)
qed

end

lemma kmem_ok_layout: "kmem_ok s \<Longrightarrow> layout_ok s"
  by (auto simp: kmem_ok_def kmem_inv_def)

lemma refs_page: "refs s p \<noteq> 0 \<Longrightarrow> is_page s p"
  by (simp add: refs_def split: if_splits)

lemma free_upd_other:
  "is_page s p \<Longrightarrow> page_of x \<noteq> p \<Longrightarrow> mem (free_upd p s) x = mem s x"
proof -
  assume p: "is_page s p" and x: "page_of x \<noteq> p"
  have pg: "page_of p = p" using p by (simp add: is_page_def)
  have "cell_of x \<noteq> p"
  proof
    assume "cell_of x = p"
    then have "page_of (cell_of x) = p" using pg by simp
    with x show False by simp
  qed
  with pg x show "mem (free_upd p s) x = mem s x"
    by (simp add: free_upd_def store64_other memset_page)
qed

interpretation ka: page_allocator kalloc kfree refInc kmem_ok is_page refs mem
proof
  fix s :: "'a phys_scheme" and p
  show "refs s p \<noteq> 0 \<Longrightarrow> is_page s p" by (rule refs_page)
  show "kmem_ok s \<Longrightarrow> 0 \<le> refs s p" by (auto simp: kmem_ok_def kmem_inv_def)
  assume "kmem_ok s"
  then obtain xs where inv: "kmem_inv s xs" by (auto simp: kmem_ok_def)
  then have lo: "layout_ok s" by (simp add: kmem_inv_def)
  show "(\<exists>p s'. kalloc s = Ret (p, s') \<and> p \<noteq> 0 \<and> is_page s p \<and> refs s p = 0 \<and> kmem_ok s'
        \<and> is_page s' = is_page s \<and> refs s' = (refs s)(p := 1) \<and> (\<forall>x. page_of x \<noteq> p \<longrightarrow> mem s' x = mem s x))
      \<or> kalloc s = Ret (0, s) \<and> (\<forall>p. is_page s p \<longrightarrow> refs s p \<noteq> 0)"
  proof (cases xs)
    case Nil
    then show ?thesis using inv kalloc_none by (auto simp: kmem_inv_def free_pages_def)
  next
    case (Cons x ys)
    then have x: "is_page s x" "refs s x = 0" using inv by (auto simp: kmem_inv_def free_pages_def)
    from kalloc_some[OF inv[unfolded Cons]] x is_page_bounds[OF lo x(1)] show ?thesis
      by (intro disjI1 exI conjI) (auto simp: kmem_ok_def memset_page)
  qed
  assume live: "0 < refs s p"
  then have p: "is_page s p" using refs_page[of s p] by simp
  show "\<exists>s'. kfree p s = Ret s' \<and> kmem_ok s' \<and> is_page s' = is_page s
      \<and> refs s' = (refs s)(p := refs s p - 1)
      \<and> (\<forall>x. page_of x \<noteq> p \<or> 1 < refs s p \<longrightarrow> mem s' x = mem s x)"
  proof (cases "refs s p = 1")
    case True
    with kfree_cases[OF lo p] kfree_last[OF inv p True] refs_free_upd[OF lo p] show ?thesis
      by (auto simp: kmem_ok_def free_upd_other[OF p] intro!: exI[of _ "p # xs"]) (simp add: free_upd_def)
  next
    case False
    with live have "kmem_inv (s\<lparr>refCount := (refCount s)(refIdx p := refs s p - 1)\<rparr>) xs"
      by (intro ref_change[OF inv p]) auto
    with False kfree_cases[OF lo p] refs_upd[OF lo p] show ?thesis
      by (auto simp: kmem_ok_def)
  qed
  show "\<exists>s'. refInc p s = Ret s' \<and> kmem_ok s' \<and> is_page s' = is_page s
      \<and> refs s' = (refs s)(p := refs s p + 1) \<and> mem s' = mem s"
    using ref_change[OF inv p live, of "refs s p + 1"] live refs_upd[OF lo p] ref_upd_page[OF lo p]
    by (auto simp: refInc_def kmem_ok_def)
qed

text \<open>Writing to pages in use does not disturb the free list.\<close>

lemma kmem_ok_mem:
  assumes "kmem_ok s" and same: "\<And>x. is_page s (page_of x) \<Longrightarrow> refs s (page_of x) = 0 \<Longrightarrow> m x = mem s x"
  shows "kmem_ok (s\<lparr>mem := m\<rparr>)"
proof -
  obtain xs where inv: "kmem_inv s xs" using assms(1) by (auto simp: kmem_ok_def)
  have "load64 m x = load64 (mem s) x" if "x \<in> set xs" for x
  proof -
    have x: "is_page s x" "refs s x = 0" using inv that by (auto simp: kmem_inv_def free_pages_def)
    then have "page_of x = x" by (simp add: is_page_def)
    with x same show ?thesis by (intro load64_page_cong) auto
  qed
  then have "chain m (kmem_freelist s) xs \<longleftrightarrow> chain (mem s) (kmem_freelist s) xs" by (rule chain_cong)
  moreover have "free_pages (s\<lparr>mem := m\<rparr>) = free_pages s" by (simp add: free_pages_def)
  ultimately have "kmem_inv (s\<lparr>mem := m\<rparr>) xs" using inv by (simp add: kmem_inv_def)
  then show ?thesis by (auto simp: kmem_ok_def)
qed

text \<open>The operations touch the allocator's own fields only.\<close>

lemma kalloc_fields:
  "kalloc s = Ret (p, s') \<Longrightarrow> \<exists>l m c. s' = s\<lparr>kmem_freelist := l, mem := m, refCount := c\<rparr>"
  by (cases s) (auto simp: kalloc_def ref_upd_def Let_def split: if_splits)

lemma kfree_fields:
  "kfree p s = Ret s' \<Longrightarrow> \<exists>l m c. s' = s\<lparr>kmem_freelist := l, mem := m, refCount := c\<rparr>"
  by (cases s) (auto simp: kfree_def ref_upd_def Let_def split: if_splits)

lemma refInc_fields: "refInc p s = Ret s' \<Longrightarrow> \<exists>c. s' = s\<lparr>refCount := c\<rparr>"
  by (auto simp: refInc_def ref_upd_def split: if_splits)

subsection \<open>Properties\<close>

text \<open>C18. Booting the allocator: \<^verbatim>\<open>kinit\<close> terminates, never panics, and leaves a well-formed free
  list that holds every whole page between \<^verbatim>\<open>end\<close> and \<^verbatim>\<open>PHYSTOP\<close>, each exactly once.\<close>

theorem kinit_frees_every_page:
  assumes "layout_ok s" "kmem_freelist s = 0"
  shows "\<exists>s' xs. kinit s = Some (Ret s') \<and> kmem_inv s' xs \<and> distinct xs \<and> set xs = {p. is_page s p}"
proof -
  have k: "kend s \<le> PHYSTOP" using assms(1) by (simp add: layout_ok_def)
  obtain s' ys where "kinit s = Some (Ret s')" "freed_below s' PHYSTOP ys" "is_page s' = is_page s"
    using freerange_loop_ok[OF freed_below_start[OF assms]] PGROUNDUP_bounds[OF k]
    unfolding kinit_def freerange_def by blast
  moreover have "set ys = {p. is_page s' p}" "distinct ys"
    using calculation(2) by (auto simp: freed_below_def is_page_def)
  ultimately show ?thesis using freed_all by auto
qed

theorem kinit_frees_every_page_witness:
  "let s = \<lparr>mem = \<lambda>_. 0, kmem_freelist = 0, refCount = \<lambda>_. 0, kend = 0x87ffd123\<rparr> in
   layout_ok s \<and> is_page s 0x87ffe000 \<and>
   (\<exists>s' xs. kinit s = Some (Ret s') \<and> kmem_inv s' xs \<and> distinct xs \<and> set xs = {p. is_page s p})"
proof -
  let ?s = "\<lparr>mem = \<lambda>_. 0, kmem_freelist = 0, refCount = \<lambda>_. 0, kend = 0x87ffd123\<rparr>"
  have "layout_ok ?s" by (simp add: layout_ok_def KERNBASE_def PHYSTOP_val)
  moreover have "is_page ?s 0x87ffe000" by (simp add: is_page_def PHYSTOP_val clear_low_def)
  ultimately show ?thesis using kinit_frees_every_page[of ?s] by (simp only: Let_def) simp
qed

text \<open>C22. \<^verbatim>\<open>kalloc\<close> in a well-formed state never fails: it hands out a page of RAM nobody holds, with one
  reference and filled with the byte 5, leaves every other page's bytes and count alone, and
  returns 0 only when every page is held; the free list stays well formed.\<close>

theorem kalloc_correct:
  assumes "kmem_ok s"
  shows "\<exists>r s'. kalloc s = Ret (r, s') \<and> kmem_ok s' \<and>
    (if r = 0 then s' = s \<and> (\<forall>p. is_page s p \<longrightarrow> 0 < refs s p)
     else is_page s r \<and> refs s r = 0 \<and> refs s' = (refs s)(r := 1) \<and>
       (\<forall>x. mem s' x = (if page_of x = r then 5 else mem s x)))"
proof -
  obtain xs where inv: "kmem_inv s xs" using assms by (auto simp: kmem_ok_def)
  show ?thesis
  proof (cases xs)
    case Nil
    with inv have "\<forall>p. is_page s p \<longrightarrow> 0 < refs s p"
      by (auto simp: kmem_inv_def free_pages_def order_less_le)
    with Nil inv assms kalloc_none show ?thesis by auto
  next
    case (Cons x ys)
    note ks = kalloc_some[OF inv[unfolded Cons]]
    have x: "is_page s x" "refs s x = 0" "x \<noteq> 0" "page_of x = x"
      using inv Cons is_page_bounds[of s x] by (auto simp: kmem_inv_def free_pages_def)
    have "\<forall>y. memset (mem s) x 5 4096 y = (if page_of y = x then 5 else mem s y)"
      using x(4) by (simp add: memset_page)
    with ks x show ?thesis by (auto simp: kmem_ok_def)
  qed
qed

text \<open>A state with one free page, at \<open>0x87fff000\<close>, and none in use.\<close>

definition one_page :: phys where
  "one_page = \<lparr>mem = \<lambda>_. 0, kmem_freelist = 0x87fff000, refCount = \<lambda>_. 0, kend = 0x87fff000\<rparr>"

lemma one_page_inv: "kmem_inv one_page [0x87fff000]"
proof -
  have pg: "page_of 0x87fff000 = 0x87fff000" by (simp add: clear_low_def)
  have ld: "load64 (\<lambda>_. 0) 0x87fff000 = 0" by (simp add: load64_def)
  have "is_page one_page p \<longleftrightarrow> p = 0x87fff000" for p
  proof -
    have "\<not> (p \<noteq> 0x87fff000 \<and> page_of p = p \<and> 0x87fff000 \<le> p \<and> p < 0x88000000)"
    proof
      assume a: "p \<noteq> 0x87fff000 \<and> page_of p = p \<and> 0x87fff000 \<le> p \<and> p < 0x88000000"
      have "unat (p - 0x87fff000) = unat p - 0x87fff000" using a by (simp add: unat_sub)
      then have "p - 0x87fff000 < 4096" using a by (simp add: word_less_nat_alt word_le_nat_alt) linarith
      with pg show False using page_iff[of "0x87fff000" p] a by simp
    qed
    then show ?thesis by (auto simp: is_page_def one_page_def PHYSTOP_val pg)
  qed
  moreover have r: "refs one_page p = 0" for p by (simp add: refs_def one_page_def)
  ultimately have "free_pages one_page = {0x87fff000}" by (simp add: free_pages_def)
  with ld show ?thesis
    by (simp add: kmem_inv_def r layout_ok_def) (simp add: one_page_def KERNBASE_def PHYSTOP_val)
qed

theorem kalloc_correct_witness:
  "kmem_ok one_page \<and> (\<exists>r s'. kalloc one_page = Ret (r, s') \<and> kmem_ok s' \<and>
    (if r = 0 then s' = one_page \<and> (\<forall>p. is_page one_page p \<longrightarrow> 0 < refs one_page p)
     else is_page one_page r \<and> refs one_page r = 0 \<and> refs s' = (refs one_page)(r := 1) \<and>
       (\<forall>x. mem s' x = (if page_of x = r then 5 else mem one_page x))))"
proof -
  have "kmem_ok one_page" using one_page_inv by (auto simp: kmem_ok_def)
  with kalloc_correct[of one_page] show ?thesis by blast
qed

end
