(* ===== verification/Vm.thy ===== *)
theory Vm
  imports Kalloc
begin

text \<open>
  Page tables and user memory (\<^verbatim>\<open>kernel/vm.c\<close>, with the Sv39 macros of \<^verbatim>\<open>kernel/riscv.h\<close> and the
  addresses of \<^verbatim>\<open>kernel/memlayout.h\<close>): the operations, word for word, on byte memory.  A page table
  is the physical address of its root page, and an entry is the 64-bit value in one of the 512
  slots of a page.  Buffers of the kernel that are copied to or from user memory are objects of
  their own, outside the pages user address spaces map.

  Every loop over pages calls \<^verbatim>\<open>walk\<close>, which panics at \<^verbatim>\<open>MAXVA\<close>, so each of them ends.
\<close>

subsection \<open>Entries and indices\<close>

definition PTE_V :: u64 where "PTE_V = push_bit 0 1"
definition PTE_R :: u64 where "PTE_R = push_bit 1 1"
definition PTE_W :: u64 where "PTE_W = push_bit 2 1"
definition PTE_X :: u64 where "PTE_X = push_bit 3 1"
definition PTE_U :: u64 where "PTE_U = push_bit 4 1"
definition PTE_COW :: u64 where "PTE_COW = push_bit 8 1"

definition PA2PTE :: "u64 \<Rightarrow> u64" where "PA2PTE pa = push_bit 10 (drop_bit 12 pa)"
definition PTE2PA :: "u64 \<Rightarrow> u64" where "PTE2PA pte = push_bit 12 (drop_bit 10 pte)"
definition PTE_FLAGS :: "u64 \<Rightarrow> u64" where "PTE_FLAGS pte = pte AND 0x3FF"

definition PX :: "nat \<Rightarrow> u64 \<Rightarrow> nat" where
  "PX level va = unat (drop_bit (12 + 9 * level) va AND 0x1FF)"

definition MAXVA :: u64 where "MAXVA = push_bit (9 + 9 + 9 + 12 - 1) 1"
definition TRAMPOLINE :: u64 where "TRAMPOLINE = MAXVA - PGSIZE"
definition TRAPFRAME :: u64 where "TRAPFRAME = TRAMPOLINE - PGSIZE"
definition KSTACK :: "nat \<Rightarrow> u64" where "KSTACK p = TRAMPOLINE - of_nat (p + 1) * 2 * PGSIZE"
definition UART0 :: u64 where "UART0 = 0x10000000"
definition VIRTIO0 :: u64 where "VIRTIO0 = 0x10001000"
definition PLIC :: u64 where "PLIC = 0x0c000000"

definition MAKE_SATP :: "u64 \<Rightarrow> u64" where
  "MAKE_SATP pagetable = push_bit 60 8 OR drop_bit 12 pagetable"

text \<open>A page-table entry, and a store to one.\<close>

definition pte_load :: "u64 \<Rightarrow> 'a phys_scheme \<Rightarrow> u64" where
  "pte_load pte s = load64 (mem s) pte"

definition pte_store :: "u64 \<Rightarrow> u64 \<Rightarrow> 'a phys_scheme \<Rightarrow> 'a phys_scheme" where
  "pte_store pte v s = s\<lparr>mem := store64 (mem s) pte v\<rparr>"

definition zero_page :: "u64 \<Rightarrow> 'a phys_scheme \<Rightarrow> 'a phys_scheme" where
  "zero_page p s = s\<lparr>mem := memset (mem s) p 0 4096\<rparr>"

subsection \<open>walk and mappages\<close>

fun walk_loop :: "nat \<Rightarrow> u64 \<Rightarrow> u64 \<Rightarrow> bool \<Rightarrow> 'a phys_scheme \<Rightarrow> (u64 \<times> 'a phys_scheme) kres" where
  "walk_loop 0 pagetable va alloc s = Ret (slot pagetable (PX 0 va), s)"
| "walk_loop (Suc l) pagetable va alloc s =
     (let pte = slot pagetable (PX (Suc l) va) in
      if pte_load pte s AND PTE_V \<noteq> 0
      then walk_loop l (PTE2PA (pte_load pte s)) va alloc s
      else if \<not> alloc then Ret (0, s)
      else kbind (kalloc s) (\<lambda>(pagetable, s).
        if pagetable = 0 then Ret (0, s)
        else walk_loop l pagetable va alloc
               (pte_store pte (PA2PTE pagetable OR PTE_V) (zero_page pagetable s))))"

definition walk :: "u64 \<Rightarrow> u64 \<Rightarrow> bool \<Rightarrow> 'a phys_scheme \<Rightarrow> (u64 \<times> 'a phys_scheme) kres" where
  "walk pagetable va alloc s =
     (if MAXVA \<le> va then Panic ''walk'' else walk_loop 2 pagetable va alloc s)"

definition walkaddr :: "u64 \<Rightarrow> u64 \<Rightarrow> 'a phys_scheme \<Rightarrow> u64 kres" where
  "walkaddr pagetable va s =
     (if MAXVA \<le> va then Ret 0
      else kbind (walk pagetable va False s) (\<lambda>(pte, s).
        if pte = 0 then Ret 0
        else if pte_load pte s AND PTE_V = 0 then Ret 0
        else if pte_load pte s AND PTE_U = 0 then Ret 0
        else Ret (PTE2PA (pte_load pte s))))"

lemma walk_Ret_bound: "walk pagetable va alloc s = Ret r \<Longrightarrow> va < MAXVA"
  by (auto simp: walk_def split: if_splits)

lemma MAXVA_val: "MAXVA = 0x4000000000"
  by (simp add: MAXVA_def)

lemma page_measure:
  assumes "a < MAXVA"
  shows "unat MAXVA - unat (a + PGSIZE) < unat MAXVA - unat a"
proof -
  have "unat a < 0x4000000000" using assms by (simp add: MAXVA_val word_less_nat_alt)
  moreover have "unat (a + PGSIZE) = unat a + 4096"
    using unat_add_lem[of a 4096] calculation by (simp add: PGSIZE_def)
  ultimately show ?thesis by (simp add: MAXVA_val)
qed

function mappages_loop ::
    "u64 \<Rightarrow> u64 \<Rightarrow> u64 \<Rightarrow> u64 \<Rightarrow> u64 \<Rightarrow> 'a phys_scheme \<Rightarrow> (int \<times> 'a phys_scheme) kres" where
  "mappages_loop pagetable a lst pa perm s =
     kbind (walk pagetable a True s) (\<lambda>(pte, s).
       if pte = 0 then Ret (-1, s)
       else if pte_load pte s AND PTE_V \<noteq> 0 \<and> pte_load pte s AND PTE_COW = 0
       then Panic ''mappages: remap''
       else let s = pte_store pte (PA2PTE pa OR perm OR PTE_V) s in
         if a = lst then Ret (0, s)
         else mappages_loop pagetable (a + PGSIZE) lst (pa + PGSIZE) perm s)"
  by pat_completeness auto
termination
  by (relation "measure (\<lambda>(_, a, _). unat MAXVA - unat a)")
    (auto dest!: walk_Ret_bound page_measure)

definition mappages ::
    "u64 \<Rightarrow> u64 \<Rightarrow> u64 \<Rightarrow> u64 \<Rightarrow> u64 \<Rightarrow> 'a phys_scheme \<Rightarrow> (int \<times> 'a phys_scheme) kres" where
  "mappages pagetable va sz pa perm s =
     (if sz = 0 then Panic ''mappages: size''
      else mappages_loop pagetable (PGROUNDDOWN va) (PGROUNDDOWN (va + sz - 1)) pa perm s)"

declare mappages_loop.simps [simp del]

lemma page_of_less_MAXVA: "page_of a < MAXVA \<Longrightarrow> a < MAXVA"
proof -
  assume "page_of a < MAXVA"
  then have "4096 * (unat a div 4096) < 4096 * 0x4000000"
    by (simp add: word_less_nat_alt unat_page_of MAXVA_val)
  then have "unat a div 4096 < 0x4000000" by (simp only: mult_less_cancel1)
  then have "unat a < 0x4000000 * 4096" by (simp only: less_mult_imp_div_less div_less_iff_less_mult)
  then show ?thesis by (simp add: word_less_nat_alt MAXVA_val)
qed

lemma mappages_Ret_bound: "mappages pagetable a sz pa perm s = Ret r \<Longrightarrow> a < MAXVA"
  unfolding mappages_def
  by (subst (asm) mappages_loop.simps)
    (auto simp: PGROUNDDOWN_page_of dest!: walk_Ret_bound page_of_less_MAXVA split: if_splits)

subsection \<open>The kernel's own page table\<close>

record vm = phys +
  kernel_pagetable :: u64
  etext :: u64
  trampoline :: u64

definition kvmmap :: "u64 \<Rightarrow> u64 \<Rightarrow> u64 \<Rightarrow> u64 \<Rightarrow> u64 \<Rightarrow> 'a phys_scheme \<Rightarrow> 'a phys_scheme kres" where
  "kvmmap kpgtbl va pa sz perm s =
     kbind (mappages kpgtbl va sz pa perm s) (\<lambda>(r, s).
       if r \<noteq> 0 then Panic ''kvmmap'' else Ret s)"

definition NPROC :: nat where "NPROC = 64"

definition proc_mapstacks :: "u64 \<Rightarrow> 'a phys_scheme \<Rightarrow> 'a phys_scheme kres" where
  "proc_mapstacks kpgtbl =
     kfold (\<lambda>p s. kbind (kalloc s) (\<lambda>(pa, s).
       if pa = 0 then Panic ''kalloc''
       else kvmmap kpgtbl (KSTACK p) pa PGSIZE (PTE_R OR PTE_W) s)) [0..<NPROC]"

definition kvmmake :: "'a vm_scheme \<Rightarrow> (u64 \<times> 'a vm_scheme) kres" where
  "kvmmake s =
     kbind (kalloc s) (\<lambda>(kpgtbl, s).
     if kpgtbl = 0 then Fault ''memset'' else
     kbind (kvmmap kpgtbl UART0 UART0 PGSIZE (PTE_R OR PTE_W) (zero_page kpgtbl s)) (\<lambda>s.
     kbind (kvmmap kpgtbl VIRTIO0 VIRTIO0 PGSIZE (PTE_R OR PTE_W) s) (\<lambda>s.
     kbind (kvmmap kpgtbl PLIC PLIC 0x400000 (PTE_R OR PTE_W) s) (\<lambda>s.
     kbind (kvmmap kpgtbl KERNBASE KERNBASE (etext s - KERNBASE) (PTE_R OR PTE_X) s) (\<lambda>s.
     kbind (kvmmap kpgtbl (etext s) (etext s) (PHYSTOP - etext s) (PTE_R OR PTE_W) s) (\<lambda>s.
     kbind (kvmmap kpgtbl TRAMPOLINE (trampoline s) PGSIZE (PTE_R OR PTE_X) s) (\<lambda>s.
     kbind (proc_mapstacks kpgtbl s) (\<lambda>s.
     Ret (kpgtbl, s)))))))))"

definition kvminit :: "'a vm_scheme \<Rightarrow> 'a vm_scheme kres" where
  "kvminit s = kbind (kvmmake s) (\<lambda>(kpgtbl, s). Ret (s\<lparr>kernel_pagetable := kpgtbl\<rparr>))"

subsection \<open>User address spaces\<close>

function uvmunmap_loop ::
    "u64 \<Rightarrow> u64 \<Rightarrow> u64 \<Rightarrow> bool \<Rightarrow> 'a phys_scheme \<Rightarrow> 'a phys_scheme kres" where
  "uvmunmap_loop pagetable a aend do_free s =
     (if a < aend then
        kbind (walk pagetable a False s) (\<lambda>(pte, s).
          if pte = 0 then Panic ''uvmunmap: walk''
          else if pte_load pte s AND PTE_V = 0 then Panic ''uvmunmap: not mapped''
          else if PTE_FLAGS (pte_load pte s) = PTE_V then Panic ''uvmunmap: not a leaf''
          else kbind (if do_free then kfree (PTE2PA (pte_load pte s)) s else Ret s) (\<lambda>s.
            uvmunmap_loop pagetable (a + PGSIZE) aend do_free (pte_store pte 0 s)))
      else Ret s)"
  by pat_completeness auto
termination
  by (relation "measure (\<lambda>(_, a, _). unat MAXVA - unat a)")
    (auto dest!: walk_Ret_bound page_measure)

definition uvmunmap :: "u64 \<Rightarrow> u64 \<Rightarrow> u64 \<Rightarrow> bool \<Rightarrow> 'a phys_scheme \<Rightarrow> 'a phys_scheme kres" where
  "uvmunmap pagetable va npages do_free s =
     (if va mod PGSIZE \<noteq> 0 then Panic ''uvmunmap: not aligned''
      else uvmunmap_loop pagetable va (va + npages * PGSIZE) do_free s)"

definition uvmcreate :: "'a phys_scheme \<Rightarrow> (u64 \<times> 'a phys_scheme) kres" where
  "uvmcreate s =
     kbind (kalloc s) (\<lambda>(pagetable, s).
       if pagetable = 0 then Ret (0, s) else Ret (pagetable, zero_page pagetable s))"

text \<open>Copying \<open>n\<close> bytes of a kernel object into memory at \<open>a\<close>, as \<^verbatim>\<open>memmove\<close> does.\<close>

definition mem_write :: "memory \<Rightarrow> u64 \<Rightarrow> cptr \<Rightarrow> u64 \<Rightarrow> memory" where
  "mem_write m a src n = (\<lambda>x. if x - a < n then src (unat (x - a)) else m x)"

definition uvmfirst :: "u64 \<Rightarrow> cptr \<Rightarrow> uint \<Rightarrow> 'a phys_scheme \<Rightarrow> 'a phys_scheme kres" where
  "uvmfirst pagetable src sz s =
     (if 4096 \<le> sz then Panic ''uvmfirst: more than a page''
      else kbind (kalloc s) (\<lambda>(pg, s).
        if pg = 0 then Fault ''memset''
        else kbind (mappages pagetable 0 PGSIZE pg (PTE_W OR PTE_R OR PTE_X OR PTE_U)
                      (zero_page pg s)) (\<lambda>(_, s).
          Ret (s\<lparr>mem := mem_write (mem s) pg src (ucast sz)\<rparr>))))"

text \<open>\<^verbatim>\<open>npages\<close> is an \<^verbatim>\<open>int\<close>, which \<^verbatim>\<open>uvmunmap\<close> takes as a \<^verbatim>\<open>uint64\<close>.\<close>

definition uvmdealloc :: "u64 \<Rightarrow> u64 \<Rightarrow> u64 \<Rightarrow> 'a phys_scheme \<Rightarrow> (u64 \<times> 'a phys_scheme) kres" where
  "uvmdealloc pagetable oldsz newsz s =
     (if oldsz \<le> newsz then Ret (oldsz, s)
      else if PGROUNDUP newsz < PGROUNDUP oldsz
      then let npages = ucast ((PGROUNDUP oldsz - PGROUNDUP newsz) div PGSIZE) :: 32 word in
           kbind (uvmunmap pagetable (PGROUNDUP newsz) (scast npages) True s) (\<lambda>s. Ret (newsz, s))
      else Ret (newsz, s))"

function uvmalloc_loop ::
    "u64 \<Rightarrow> u64 \<Rightarrow> u64 \<Rightarrow> u64 \<Rightarrow> u64 \<Rightarrow> 'a phys_scheme \<Rightarrow> (u64 \<times> 'a phys_scheme) kres" where
  "uvmalloc_loop pagetable a oldsz newsz xperm s =
     (if a < newsz then
        kbind (kalloc s) (\<lambda>(pg, s).
          if pg = 0 then kbind (uvmdealloc pagetable a oldsz s) (\<lambda>(_, s). Ret (0, s))
          else kbind (mappages pagetable a PGSIZE pg (PTE_R OR PTE_U OR xperm) (zero_page pg s)) (\<lambda>(r, s).
            if r \<noteq> 0
            then kbind (kfree pg s) (\<lambda>s.
                 kbind (uvmdealloc pagetable a oldsz s) (\<lambda>(_, s). Ret (0, s)))
            else uvmalloc_loop pagetable (a + PGSIZE) oldsz newsz xperm s))
      else Ret (newsz, s))"
  by pat_completeness auto

termination
  by (relation "measure (\<lambda>(_, a, _). unat MAXVA - unat a)")
    (auto dest!: mappages_Ret_bound page_measure)

definition uvmalloc ::
    "u64 \<Rightarrow> u64 \<Rightarrow> u64 \<Rightarrow> u64 \<Rightarrow> 'a phys_scheme \<Rightarrow> (u64 \<times> 'a phys_scheme) kres" where
  "uvmalloc pagetable oldsz newsz xperm s =
     (if newsz < oldsz then Ret (oldsz, s)
      else uvmalloc_loop pagetable (PGROUNDUP oldsz) (PGROUNDUP oldsz) newsz xperm s)"

text \<open>
  The recursion of \<^verbatim>\<open>freewalk\<close> follows the entries; a table that reaches itself would recurse
  until the kernel stack overflows.
\<close>

partial_function (option) freewalk_from ::
    "u64 \<Rightarrow> nat \<Rightarrow> 'a phys_scheme \<Rightarrow> 'a phys_scheme kres option" where
  "freewalk_from pagetable i s =
     (if i < 512 then
        let pte = pte_load (slot pagetable i) s in
        if pte AND PTE_V \<noteq> 0 \<and> pte AND (PTE_R OR PTE_W OR PTE_X) = 0
        then Option.bind (freewalk_from (PTE2PA pte) 0 s) (\<lambda>r. case r of
               Ret s \<Rightarrow> freewalk_from pagetable (Suc i) (pte_store (slot pagetable i) 0 s)
             | _ \<Rightarrow> Some r)
        else if pte AND PTE_V \<noteq> 0 then Some (Panic ''freewalk: leaf'')
        else freewalk_from pagetable (Suc i) s
      else Some (kfree pagetable s))"

definition freewalk :: "u64 \<Rightarrow> 'a phys_scheme \<Rightarrow> 'a phys_scheme kres" where
  "freewalk pagetable s =
     (case freewalk_from pagetable 0 s of None \<Rightarrow> Fault ''freewalk: stack overflow'' | Some r \<Rightarrow> r)"

definition uvmfree :: "u64 \<Rightarrow> u64 \<Rightarrow> 'a phys_scheme \<Rightarrow> 'a phys_scheme kres" where
  "uvmfree pagetable sz s =
     kbind (if 0 < sz then uvmunmap pagetable 0 (PGROUNDUP sz div PGSIZE) True s else Ret s)
       (freewalk pagetable)"

text \<open>\<^verbatim>\<open>uvmcopy\<close>: \<open>i\<close> is the loop variable, and the error exit unmaps what was mapped so far.\<close>

function uvmcopy_loop ::
    "u64 \<Rightarrow> u64 \<Rightarrow> u64 \<Rightarrow> u64 \<Rightarrow> 'a phys_scheme \<Rightarrow> (int \<times> 'a phys_scheme) kres" where
  "uvmcopy_loop old new i sz s =
     (if i < sz then
        kbind (walk old i False s) (\<lambda>(pte, s).
          if pte = 0 then Panic ''uvmcopy: pte should exist''
          else if pte_load pte s AND PTE_V = 0 then Panic ''uvmcopy: page not present''
          else let pa = PTE2PA (pte_load pte s);
                   flags = PTE_FLAGS (pte_load pte s);
                   flags = (flags OR PTE_COW) AND NOT (PTE_W OR PTE_V);
                   s = pte_store pte ((pte_load pte s OR PTE_COW) AND NOT PTE_W) s
               in kbind (mappages new i PGSIZE pa flags s) (\<lambda>(r, s).
                    if r \<noteq> 0
                    then kbind (uvmunmap new 0 (i div PGSIZE) True s) (\<lambda>s. Ret (-1, s))
                    else kbind (refInc pa s) (uvmcopy_loop old new (i + PGSIZE) sz)))
      else Ret (0, s))"
  by pat_completeness auto
termination
  by (relation "measure (\<lambda>(_, _, i, _). unat MAXVA - unat i)")
    (auto dest!: walk_Ret_bound page_measure)

definition uvmcopy :: "u64 \<Rightarrow> u64 \<Rightarrow> u64 \<Rightarrow> 'a phys_scheme \<Rightarrow> (int \<times> 'a phys_scheme) kres" where
  "uvmcopy old new sz s = uvmcopy_loop old new 0 sz s"

definition uvmclear :: "u64 \<Rightarrow> u64 \<Rightarrow> 'a phys_scheme \<Rightarrow> 'a phys_scheme kres" where
  "uvmclear pagetable va s =
     kbind (walk pagetable va False s) (\<lambda>(pte, s).
       if pte = 0 then Panic ''uvmclear''
       else Ret (pte_store pte (pte_load pte s AND NOT PTE_U) s))"

subsection \<open>Copying between the kernel and user memory\<close>

text \<open>
  The copy-on-write step of \<^verbatim>\<open>copyout\<close>; \<open>False\<close> is its early return (the message printed there is left out).  A \<^verbatim>\<open>memmove\<close> from or to the
  null pointer is a fault.
\<close>

definition copyout_cow :: "u64 \<Rightarrow> u64 \<Rightarrow> u64 \<Rightarrow> 'a phys_scheme \<Rightarrow> (bool \<times> 'a phys_scheme) kres" where
  "copyout_cow pagetable va0 pa0 s =
     kbind (kalloc s) (\<lambda>(pg, s).
       if pg = 0 \<or> pa0 = 0 then Fault ''memmove''
       else kbind (mappages pagetable va0 PGSIZE pg (PTE_R OR PTE_W OR PTE_X OR PTE_U)
                     (s\<lparr>mem := memmove (mem s) pg pa0 4096\<rparr>)) (\<lambda>(r, s).
         if r \<noteq> 0 then Ret (False, s)
         else kbind (kfree pa0 s) (\<lambda>s. Ret (True, s))))"

lemma page_rest:
  fixes a len :: u64
  shows "min (PGSIZE - (a - PGROUNDDOWN a)) len \<noteq> 0 \<longleftrightarrow> len \<noteq> 0"
    and "a - PGROUNDDOWN a < 4096"
proof -
  show lt: "a - PGROUNDDOWN a < 4096"
    using page_iff[of "page_of a" a] by (simp add: PGROUNDDOWN_page_of)
  then have "PGSIZE - (a - PGROUNDDOWN a) \<noteq> 0" by (simp add: PGSIZE_def)
  then show "min (PGSIZE - (a - PGROUNDDOWN a)) len \<noteq> 0 \<longleftrightarrow> len \<noteq> 0" by (auto simp: min_def)
qed

lemma rest_measure:
  "len \<noteq> 0 \<Longrightarrow> unat (len - min (PGSIZE - (a - PGROUNDDOWN a)) len) < unat len" for a len :: u64
proof -
  assume "len \<noteq> 0"
  then have n: "min (PGSIZE - (a - PGROUNDDOWN a)) len \<noteq> 0" by (simp add: page_rest)
  have le: "min (PGSIZE - (a - PGROUNDDOWN a)) len \<le> len" by simp
  have "0 < unat (min (PGSIZE - (a - PGROUNDDOWN a)) len)" using n unat_gt_0 by blast
  with unat_sub[OF le] le show ?thesis by (simp only: word_le_nat_alt)
qed

text \<open>
  \<^verbatim>\<open>copyout\<close>: the kernel buffer \<open>src\<close> is read from its index \<open>i\<close> on.  The code dereferences the
  result of \<^verbatim>\<open>walk\<close> without a test, so a missing page table is a fault.
\<close>

function copyout_loop ::
    "u64 \<Rightarrow> u64 \<Rightarrow> cptr \<Rightarrow> nat \<Rightarrow> u64 \<Rightarrow> 'a phys_scheme \<Rightarrow> (int \<times> 'a phys_scheme) kres" where
  "copyout_loop pagetable dstva src i len s =
     (if len = 0 then Ret (0, s)
      else let va0 = PGROUNDDOWN dstva in
        if MAXVA \<le> va0 then Ret (-1, s)
        else kbind (walkaddr pagetable va0 s) (\<lambda>pa0.
          kbind (walk pagetable va0 False s) (\<lambda>(pte, s).
          if pte = 0 then Fault ''copyout: pte''
          else kbind (if PTE_FLAGS (pte_load pte s) AND PTE_COW \<noteq> 0
                      then copyout_cow pagetable va0 pa0 s else Ret (True, s)) (\<lambda>(ok, s).
            if \<not> ok then Ret (-1, s)
            else kbind (walkaddr pagetable va0 s) (\<lambda>pa0.
              if pa0 = 0 then Ret (-1, s)
              else let n = min (PGSIZE - (dstva - va0)) len in
                copyout_loop pagetable (va0 + PGSIZE) src (i + unat n) (len - n)
                  (s\<lparr>mem := mem_write (mem s) (pa0 + (dstva - va0)) (\<lambda>j. src (i + j)) n\<rparr>))))))"
  by pat_completeness auto
termination
  by (relation "measure (\<lambda>(_, _, _, _, len, _). unat len)") (auto intro: rest_measure)

definition copyout :: "u64 \<Rightarrow> u64 \<Rightarrow> cptr \<Rightarrow> u64 \<Rightarrow> 'a phys_scheme \<Rightarrow> (int \<times> 'a phys_scheme) kres" where
  "copyout pagetable dstva src len s = copyout_loop pagetable dstva src 0 len s"

text \<open>\<^verbatim>\<open>copyin\<close> and \<^verbatim>\<open>copyinstr\<close> give the kernel buffer \<open>dst\<close> with its bytes from \<open>i\<close> on replaced.\<close>

definition blit :: "cptr \<Rightarrow> nat \<Rightarrow> cptr \<Rightarrow> nat \<Rightarrow> cptr" where
  "blit dst i src n = (\<lambda>j. if i \<le> j \<and> j < i + n then src (j - i) else dst j)"

function copyin_loop ::
    "u64 \<Rightarrow> cptr \<Rightarrow> nat \<Rightarrow> u64 \<Rightarrow> u64 \<Rightarrow> 'a phys_scheme \<Rightarrow> (int \<times> cptr) kres" where
  "copyin_loop pagetable dst i srcva len s =
     (if len = 0 then Ret (0, dst)
      else let va0 = PGROUNDDOWN srcva in
        kbind (walkaddr pagetable va0 s) (\<lambda>pa0.
          if pa0 = 0 then Ret (-1, dst)
          else let n = min (PGSIZE - (srcva - va0)) len in
            copyin_loop pagetable (blit dst i (ptr_at (mem s) (pa0 + (srcva - va0))) (unat n))
              (i + unat n) (va0 + PGSIZE) (len - n) s))"
  by pat_completeness auto
termination
  by (relation "measure (\<lambda>(_, _, _, _, len, _). unat len)") (auto intro: rest_measure)

definition copyin :: "u64 \<Rightarrow> cptr \<Rightarrow> u64 \<Rightarrow> u64 \<Rightarrow> 'a phys_scheme \<Rightarrow> (int \<times> cptr) kres" where
  "copyin pagetable dst srcva len s = copyin_loop pagetable dst 0 srcva len s"

text \<open>The inner loop of \<^verbatim>\<open>copyinstr\<close>: the bytes of one page, and whether it met the NUL.\<close>

fun copyinstr_page :: "memory \<Rightarrow> u64 \<Rightarrow> cptr \<Rightarrow> nat \<Rightarrow> nat \<Rightarrow> u64 \<Rightarrow> bool \<times> cptr \<times> nat \<times> u64" where
  "copyinstr_page m p dst i 0 mx = (False, dst, i, mx)"
| "copyinstr_page m p dst i (Suc n) mx =
     (if m p = 0 then (True, dst(i := 0), i, mx)
      else copyinstr_page m (p + 1) (dst(i := m p)) (Suc i) n (mx - 1))"

lemma copyinstr_page_max:
  "copyinstr_page m p dst i n mx = (False, dst', i', mx') \<Longrightarrow> mx' = mx - of_nat n \<and> i' = i + n"
  by (induction m p dst i n mx rule: copyinstr_page.induct) (auto split: if_splits)

function copyinstr_loop ::
    "u64 \<Rightarrow> cptr \<Rightarrow> nat \<Rightarrow> u64 \<Rightarrow> u64 \<Rightarrow> 'a phys_scheme \<Rightarrow> (int \<times> cptr) kres" where
  "copyinstr_loop pagetable dst i srcva mx s =
     (if mx = 0 then Ret (-1, dst)
      else let va0 = PGROUNDDOWN srcva in
        kbind (walkaddr pagetable va0 s) (\<lambda>pa0.
          if pa0 = 0 then Ret (-1, dst)
          else let n = min (PGSIZE - (srcva - va0)) mx in
            case copyinstr_page (mem s) (pa0 + (srcva - va0)) dst i (unat n) mx of
              (got_null, dst, i, mx) \<Rightarrow>
                if got_null then Ret (0, dst)
                else copyinstr_loop pagetable dst i (va0 + PGSIZE) mx s))"
  by pat_completeness auto
termination
  by (relation "measure (\<lambda>(_, _, _, _, mx, _). unat mx)")
    (auto dest!: copyinstr_page_max[OF sym] intro: rest_measure)

definition copyinstr :: "u64 \<Rightarrow> cptr \<Rightarrow> u64 \<Rightarrow> u64 \<Rightarrow> 'a phys_scheme \<Rightarrow> (int \<times> cptr) kres" where
  "copyinstr pagetable dst srcva mx s = copyinstr_loop pagetable dst 0 srcva mx s"

declare uvmunmap_loop.simps [simp del] uvmalloc_loop.simps [simp del] uvmcopy_loop.simps [simp del]
  copyout_loop.simps [simp del] copyin_loop.simps [simp del] copyinstr_loop.simps [simp del]

end
