(* ===== verification/Spinlock.thy ===== *)
theory Spinlock
  imports Vm
begin

text \<open>
  \<^verbatim>\<open>kernel/spinlock.c\<close>: the nesting of \<^verbatim>\<open>push_off\<close> and \<^verbatim>\<open>pop_off\<close> on one hart, \<^verbatim>\<open>acquire\<close>, \<^verbatim>\<open>release\<close> and
  \<^verbatim>\<open>holding\<close>, and the protocol several harts run on one lock as a step relation whose steps are
  the memory operations of the two functions.

  The other theories model what runs between an \<^verbatim>\<open>acquire\<close> and its \<^verbatim>\<open>release\<close> as one atomic step; the
  mutual exclusion theorem below is what allows it.
\<close>

subsection \<open>The hart\<close>

text \<open>
  The state of the hart the code runs on: the number in \<^verbatim>\<open>tp\<close>, its \<^verbatim>\<open>struct cpu\<close> without the saved
  context and the process, and the interrupt-enable bit of \<^verbatim>\<open>sstatus\<close>.
\<close>

record hart = vm +
  hartid :: nat
  noff :: int
  intena :: bool
  intr :: bool

record spinlock =
  lk_locked :: uint
  lk_cpu :: "nat option"

definition initlock :: spinlock where
  "initlock = \<lparr>lk_locked = 0, lk_cpu = None\<rparr>"

definition push_off :: "'a hart_scheme \<Rightarrow> 'a hart_scheme" where
  "push_off s =
     (let old = intr s;
          s = s\<lparr>intr := False\<rparr>;
          s = (if noff s = 0 then s\<lparr>intena := old\<rparr> else s)
      in s\<lparr>noff := noff s + 1\<rparr>)"

definition pop_off :: "'a hart_scheme \<Rightarrow> 'a hart_scheme kres" where
  "pop_off s =
     (if intr s then Panic ''pop_off - interruptible''
      else if noff s < 1 then Panic ''pop_off''
      else let s = s\<lparr>noff := noff s - 1\<rparr>
           in Ret (if noff s = 0 \<and> intena s then s\<lparr>intr := True\<rparr> else s))"

definition holding :: "spinlock \<Rightarrow> 'a hart_scheme \<Rightarrow> bool" where
  "holding lk s \<longleftrightarrow> lk_locked lk \<noteq> 0 \<and> lk_cpu lk = Some (hartid s)"

definition acquire :: "spinlock \<Rightarrow> 'a hart_scheme \<Rightarrow> (spinlock \<times> 'a hart_scheme) kres" where
  "acquire lk s =
     (let s = push_off s in
      if holding lk s then Panic ''acquire''
      else if lk_locked lk \<noteq> 0 then Block Ch_spin
      else Ret (lk\<lparr>lk_locked := 1, lk_cpu := Some (hartid s)\<rparr>, s))"

definition release :: "spinlock \<Rightarrow> 'a hart_scheme \<Rightarrow> (spinlock \<times> 'a hart_scheme) kres" where
  "release lk s =
     (if \<not> holding lk s then Panic ''release''
      else kbind (pop_off s) (\<lambda>s. Ret (lk\<lparr>lk_cpu := None, lk_locked := 0\<rparr>, s)))"

lemmas lock_defs = push_off_def pop_off_def holding_def acquire_def release_def

subsection \<open>Nesting\<close>

fun pop_offs :: "nat \<Rightarrow> 'a hart_scheme \<Rightarrow> 'a hart_scheme kres" where
  "pop_offs 0 s = Ret s"
| "pop_offs (Suc n) s = kbind (pop_off s) (pop_offs n)"

lemma push_offs:
  assumes "0 \<le> noff s" "noff s = 0 \<or> \<not> intr s" "0 < n"
  shows "(push_off ^^ n) s = s\<lparr>intr := False, noff := noff s + int n, intena := if noff s = 0 then intr s else intena s\<rparr>"
  using assms(3)
proof (induction n)
  case (Suc n)
  show ?case
  proof (cases "n = 0")
    case True
    then show ?thesis by (cases s) (simp add: push_off_def Let_def)
  next
    case False
    with Suc assms show ?thesis by (cases s) (simp add: push_off_def Let_def)
  qed
qed simp

lemma pop_offs_eq:
  assumes "\<not> intr s" "int n \<le> noff s" "0 < n"
  shows "pop_offs n s = Ret (s\<lparr>noff := noff s - int n, intr := noff s = int n \<and> intena s\<rparr>)"
  using assms
proof (induction n arbitrary: s)
  case (Suc n)
  show ?case
  proof (cases "n = 0")
    case True
    with Suc.prems show ?thesis by (cases s) (simp add: pop_off_def Let_def)
  next
    case False
    let ?s = "s\<lparr>noff := noff s - 1\<rparr>"
    have "pop_off s = Ret ?s" using Suc.prems False by (simp add: pop_off_def Let_def)
    moreover have "pop_offs n ?s = Ret (?s\<lparr>noff := noff ?s - int n, intr := noff ?s = int n \<and> intena ?s\<rparr>)"
      using Suc.prems False by (intro Suc.IH) auto
    ultimately show ?thesis by (auto simp: algebra_simps)
  qed
qed simp

text \<open>\<^verbatim>\<open>push_off\<close> and \<^verbatim>\<open>pop_off\<close> nest: \<open>n\<close> calls of the first leave interrupts disabled, \<open>n\<close> calls of the second
  then succeed, and the nesting depth and the interrupt-enable bit are what they were before, for every depth
  at which the code can be (interrupts are never enabled at a positive depth).\<close>

theorem push_pop_nest:
  assumes "0 \<le> noff s" "noff s = 0 \<or> \<not> intr s" "0 < n"
  shows "\<not> intr ((push_off ^^ n) s) \<and>
    (\<exists>s'. pop_offs n ((push_off ^^ n) s) = Ret s' \<and> intr s' = intr s \<and> noff s' = noff s \<and>
      hart.more s' = hart.more s \<and> mem s' = mem s)"
  using assms by (auto simp: push_offs pop_offs_eq)

definition hart0 :: hart where
  "hart0 = \<lparr>mem = \<lambda>_. 0, kmem_freelist = 0, refCount = \<lambda>_. 0, kend = 0, kernel_pagetable = 0, etext = 0, trampoline = 0,
     hartid = 0, noff = 0, intena = False, intr = True\<rparr>"

theorem push_pop_nest_witness:
  "\<not> intr ((push_off ^^ 3) hart0) \<and>
    (\<exists>s'. pop_offs 3 ((push_off ^^ 3) hart0) = Ret s' \<and> intr s' \<and> noff s' = 0)"
  using push_pop_nest[of hart0 3] by (auto simp: hart0_def)

subsection \<open>Several harts and one lock\<close>

text \<open>
  Where a hart is with respect to the lock: outside, in the loop of \<^verbatim>\<open>acquire\<close>, past it but before
  \<^verbatim>\<open>lk->cpu = mycpu()\<close>, in the critical section, or in \<^verbatim>\<open>release\<close> between \<^verbatim>\<open>lk->cpu = 0\<close> and the
  store that frees the lock.
\<close>

datatype spin_pc = Outside | Spinning | Taken | Critical | Clearing

record spin_sys =
  lock :: spinlock
  pcs :: "nat \<Rightarrow> spin_pc"

definition holds :: "nat \<Rightarrow> spin_sys \<Rightarrow> bool" where
  "holds i s \<longleftrightarrow> lk_locked (lock s) \<noteq> 0 \<and> lk_cpu (lock s) = Some i"

inductive spin_step :: "spin_sys \<Rightarrow> spin_sys \<Rightarrow> bool" where
  enter: "pcs s i = Outside \<Longrightarrow> \<not> holds i s \<Longrightarrow> spin_step s (s\<lparr>pcs := (pcs s)(i := Spinning)\<rparr>)"
| swap_busy: "pcs s i = Spinning \<Longrightarrow> lk_locked (lock s) \<noteq> 0 \<Longrightarrow>
    spin_step s (s\<lparr>lock := (lock s)\<lparr>lk_locked := 1\<rparr>\<rparr>)"
| swap_free: "pcs s i = Spinning \<Longrightarrow> lk_locked (lock s) = 0 \<Longrightarrow>
    spin_step s (s\<lparr>lock := (lock s)\<lparr>lk_locked := 1\<rparr>, pcs := (pcs s)(i := Taken)\<rparr>)"
| set_cpu: "pcs s i = Taken \<Longrightarrow>
    spin_step s (s\<lparr>lock := (lock s)\<lparr>lk_cpu := Some i\<rparr>, pcs := (pcs s)(i := Critical)\<rparr>)"
| clear_cpu: "pcs s i = Critical \<Longrightarrow> holds i s \<Longrightarrow>
    spin_step s (s\<lparr>lock := (lock s)\<lparr>lk_cpu := None\<rparr>, pcs := (pcs s)(i := Clearing)\<rparr>)"
| unlock: "pcs s i = Clearing \<Longrightarrow>
    spin_step s (s\<lparr>lock := (lock s)\<lparr>lk_locked := 0\<rparr>, pcs := (pcs s)(i := Outside)\<rparr>)"

text \<open>The two places where the code panics: acquiring a lock it holds, releasing one it does not.\<close>

inductive spin_panic :: "spin_sys \<Rightarrow> nat \<Rightarrow> bool" where
  again: "pcs s i = Outside \<Longrightarrow> holds i s \<Longrightarrow> spin_panic s i"
| stray: "pcs s i = Critical \<Longrightarrow> \<not> holds i s \<Longrightarrow> spin_panic s i"

inductive_simps spin_panic_iff: "spin_panic s i"

definition spin_init :: spin_sys where
  "spin_init = \<lparr>lock = initlock, pcs = \<lambda>_. Outside\<rparr>"

fun inside :: "spin_pc \<Rightarrow> bool" where
  "inside Outside = False"
| "inside Spinning = False"
| "inside pc = True"

text \<open>The lock is free and no hart is inside, or one hart is inside and owns it.\<close>

definition owned_by :: "nat option \<Rightarrow> spin_sys \<Rightarrow> bool" where
  "owned_by own s \<longleftrightarrow> (\<forall>i. inside (pcs s i) \<longleftrightarrow> own = Some i) \<and> (lk_locked (lock s) \<noteq> 0 \<longleftrightarrow> own \<noteq> None)
     \<and> (\<forall>i. lk_cpu (lock s) = Some i \<longleftrightarrow> own = Some i \<and> pcs s i = Critical)"

lemma spin_step_owned:
  assumes "spin_step s s'" "owned_by own s"
  shows "\<exists>own'. owned_by own' s'"
  using assms
proof (cases rule: spin_step.cases)
  case (enter i)
  with assms(2) have "own \<noteq> Some i" unfolding owned_by_def by (metis inside.simps(1))
  with enter assms(2) have "owned_by own s'" by (auto simp: owned_by_def)
  then show ?thesis ..
next
  case (swap_busy i)
  with assms(2) have "owned_by own s'" by (auto simp: owned_by_def)
  then show ?thesis ..
next
  case (swap_free i)
  with assms(2) have "owned_by (Some i) s'" by (auto simp: owned_by_def)
  then show ?thesis ..
next
  case (set_cpu i)
  with assms(2) have "own = Some i" unfolding owned_by_def by (metis inside.simps(3))
  with set_cpu assms(2) have "owned_by own s'" by (auto simp: owned_by_def)
  then show ?thesis ..
next
  case (clear_cpu i)
  with assms(2) have o: "own = Some i" unfolding owned_by_def by (metis inside.simps(4))
  with clear_cpu assms(2) have "owned_by own s'" by (auto simp: owned_by_def)
  then show ?thesis ..
next
  case (unlock i)
  with assms(2) have o: "own = Some i" unfolding owned_by_def by (metis inside.simps(5))
  with unlock assms(2) have "lk_cpu (lock s) \<noteq> Some k" for k unfolding owned_by_def by auto
  with o unlock assms(2) have "owned_by None s'" by (auto simp: owned_by_def)
  then show ?thesis ..
qed

lemma spin_reach_owned: "spin_step\<^sup>*\<^sup>* spin_init s \<Longrightarrow> \<exists>own. owned_by own s"
proof (induction rule: rtranclp_induct)
  case base
  have "owned_by None spin_init" by (simp add: owned_by_def spin_init_def initlock_def)
  then show ?case ..
next
  case (step y z)
  then show ?case using spin_step_owned by blast
qed

text \<open>C8. Spin locks exclude: in every state any number of harts reach by interleaving the memory operations of
  \<^verbatim>\<open>acquire\<close> and \<^verbatim>\<open>release\<close>, at most one is in its critical section; \<^verbatim>\<open>holding\<close> answers exactly for that one;
  and neither the panic of \<^verbatim>\<open>acquire\<close> nor that of \<^verbatim>\<open>release\<close> can occur.\<close>

theorem spin_mutual_exclusion:
  assumes "spin_step\<^sup>*\<^sup>* spin_init s"
  shows "(pcs s i = Critical \<and> pcs s j = Critical \<longrightarrow> i = j) \<and> (holds i s \<longleftrightarrow> pcs s i = Critical) \<and> \<not> spin_panic s i"
proof -
  obtain own where own: "owned_by own s" using spin_reach_owned[OF assms] by blast
  then have c: "pcs s k = Critical \<Longrightarrow> own = Some k" for k unfolding owned_by_def by (metis inside.simps(4))
  with own have "holds k s \<longleftrightarrow> pcs s k = Critical" for k by (auto simp: owned_by_def holds_def)
  with c show ?thesis by (auto simp: spin_panic_iff)
qed

lemma spin_demo: "spin_step\<^sup>*\<^sup>* spin_init \<lparr>lock = \<lparr>lk_locked = 1, lk_cpu = Some 2\<rparr>, pcs = (\<lambda>_. Outside)(2 := Critical)\<rparr>"
proof -
  let ?s1 = "\<lparr>lock = initlock, pcs = (\<lambda>_. Outside)(2 := Spinning)\<rparr>"
  let ?s2 = "\<lparr>lock = \<lparr>lk_locked = 1, lk_cpu = None\<rparr>, pcs = (\<lambda>_. Outside)(2 := Taken)\<rparr>"
  have "spin_step spin_init ?s1" using enter[of spin_init 2] by (simp add: spin_init_def holds_def initlock_def)
  moreover have "spin_step ?s1 ?s2" using swap_free[of ?s1 2] by (simp add: initlock_def)
  moreover have "spin_step ?s2 \<lparr>lock = \<lparr>lk_locked = 1, lk_cpu = Some 2\<rparr>, pcs = (\<lambda>_. Outside)(2 := Critical)\<rparr>"
    using set_cpu[of ?s2 2] by simp
  ultimately show ?thesis by (meson rtranclp.rtrancl_into_rtrancl rtranclp.rtrancl_refl)
qed

theorem spin_mutual_exclusion_witness:
  "holds 2 \<lparr>lock = \<lparr>lk_locked = 1, lk_cpu = Some 2\<rparr>, pcs = (\<lambda>_. Outside)(2 := Critical)\<rparr>"
  using spin_mutual_exclusion[OF spin_demo, of 2 2] by simp

end
