(* ===== verification/PageTable.thy ===== *)
theory PageTable
  imports Vm "HOL-Library.Sublist"
begin

text \<open>
  Page tables as trees.  The 512 entries of every page give a forest below the roots of the
  address spaces; \<open>lookup\<close> is the abstract view of one address space, a map from virtual
  pages to leaf entries.  The invariant \<open>vm_inv s R K\<close> of a state with the set \<open>R\<close> of roots
  says that the reference count of every page is the number of user mappings of the page,
  plus one if it is a page table, plus what the rest of the kernel holds (the ledger \<open>K\<close>).
  From it follows that the trees are disjoint, and that no table is mapped by a process.
  \<^verbatim>\<open>walk\<close> and \<^verbatim>\<open>mappages\<close> are shown to refine lookup and update of the abstract map.
\<close>

subsection \<open>Bits of entries and addresses\<close>

named_theorems pte_simps \<open>flags of page-table entries\<close>

lemma and_flag [pte_simps]:
  "e AND PTE_V = 0 \<longleftrightarrow> \<not> bit e 0" "e AND PTE_W = 0 \<longleftrightarrow> \<not> bit e 2"
  "e AND PTE_U = 0 \<longleftrightarrow> \<not> bit e 4" "e AND PTE_COW = 0 \<longleftrightarrow> \<not> bit e 8"
proof -
  have "e AND push_bit n 1 = 0 \<longleftrightarrow> \<not> bit e n" if "n < 64" for n
    by (simp add: bit_iff_and_push_bit_not_eq_0 that)
  then show "e AND PTE_V = 0 \<longleftrightarrow> \<not> bit e 0" "e AND PTE_W = 0 \<longleftrightarrow> \<not> bit e 2"
    "e AND PTE_U = 0 \<longleftrightarrow> \<not> bit e 4" "e AND PTE_COW = 0 \<longleftrightarrow> \<not> bit e 8"
    by (simp_all only: PTE_V_def PTE_W_def PTE_U_def PTE_COW_def)
qed

lemma bit_flags [pte_simps]:
  "bit PTE_V n \<longleftrightarrow> n = 0" "bit PTE_R n \<longleftrightarrow> n = 1" "bit PTE_W n \<longleftrightarrow> n = 2"
  "bit PTE_X n \<longleftrightarrow> n = 3" "bit PTE_U n \<longleftrightarrow> n = 4" "bit PTE_COW n \<longleftrightarrow> n = 8"
proof -
  have "bit (push_bit k 1 :: u64) n \<longleftrightarrow> n = k" if "k < 64" for k
    using that by (auto simp: bit_exp_iff push_bit_eq_mult possible_bit_def)
  then show "bit PTE_V n \<longleftrightarrow> n = 0" "bit PTE_R n \<longleftrightarrow> n = 1" "bit PTE_W n \<longleftrightarrow> n = 2"
    "bit PTE_X n \<longleftrightarrow> n = 3" "bit PTE_U n \<longleftrightarrow> n = 4" "bit PTE_COW n \<longleftrightarrow> n = 8"
    by (simp_all only: PTE_V_def PTE_R_def PTE_W_def PTE_X_def PTE_U_def PTE_COW_def)
qed

lemma bit_PTE_FLAGS [pte_simps]: "bit (PTE_FLAGS e) n \<longleftrightarrow> n < 10 \<and> bit e n"
proof -
  have "(0x3FF :: u64) = mask 10" by (simp add: mask_eq_exp_minus_1)
  then show ?thesis by (simp only: PTE_FLAGS_def bit_and_iff bit_mask_iff) auto
qed

lemma bit_PA2PTE: "bit (PA2PTE p) n \<longleftrightarrow> 10 \<le> n \<and> bit p (n + 2)"
  by (cases "n < 64") (auto simp: PA2PTE_def bit_push_bit_iff bit_drop_bit_eq add.commute)

lemma bit_PTE2PA: "bit (PTE2PA e) n \<longleftrightarrow> 12 \<le> n \<and> n < 64 \<and> bit e (n - 2)"
proof (cases "12 \<le> n \<and> n < 64")
  case True
  then have "10 + (n - 12) = n - 2" by linarith
  with True show ?thesis by (simp add: PTE2PA_def bit_push_bit_iff bit_drop_bit_eq)
qed (auto simp: PTE2PA_def bit_push_bit_iff)

text \<open>Permissions live in the low ten bits.\<close>

definition is_perm :: "u64 \<Rightarrow> bool" where
  "is_perm f \<longleftrightarrow> (\<forall>n. bit f n \<longrightarrow> n < 10)"

lemma page_of_PTE2PA [simp]: "page_of (PTE2PA e) = PTE2PA e"
  by (rule bit_word_eqI) (auto simp: bit_clear_low bit_PTE2PA)

lemma PTE2PA_entry:
  assumes "page_of p = p" "is_perm f" shows "PTE2PA (PA2PTE p OR f) = p"
proof (rule bit_word_eqI)
  fix n assume "n < LENGTH(64)"
  then have n: "n < 64" by simp
  have p: "bit p n \<longrightarrow> 12 \<le> n" using bit_clear_low[of 12 p n] assms(1) by auto
  have f: "12 \<le> n \<longrightarrow> \<not> bit f (n - 2)" using assms(2) by (auto simp: is_perm_def)
  show "bit (PTE2PA (PA2PTE p OR f)) n = bit p n"
  proof (cases "12 \<le> n")
    case True
    then have "n - 2 + 2 = n" "10 \<le> n - 2" by auto
    with True n f show ?thesis by (simp add: bit_PTE2PA bit_or_iff bit_PA2PTE)
  qed (use p in \<open>auto simp: bit_PTE2PA\<close>)
qed

lemma bit_entry_low [pte_simps]: "n < 10 \<Longrightarrow> bit (PA2PTE p OR f) n \<longleftrightarrow> bit f n"
  by (simp add: bit_or_iff bit_PA2PTE)

lemma is_perm_flags [simp]:
  "is_perm PTE_V" "is_perm PTE_R" "is_perm PTE_W" "is_perm PTE_X" "is_perm PTE_U" "is_perm PTE_COW"
  "is_perm (PTE_FLAGS e)"
  by (auto simp: is_perm_def pte_simps)

lemma is_perm_or [simp]: "is_perm f \<Longrightarrow> is_perm g \<Longrightarrow> is_perm (f OR g)"
  and is_perm_and [simp]: "is_perm f \<Longrightarrow> is_perm (f AND g)"
  by (auto simp: is_perm_def bit_or_iff bit_and_iff)

lemma PX_less [simp]: "PX l va < 512"
proof -
  have "(0x1FF :: u64) = mask 9" by (simp add: mask_eq_exp_minus_1)
  then have "drop_bit (12 + 9 * l) va AND 0x1FF = take_bit 9 (drop_bit (12 + 9 * l) va)"
    by (simp only: take_bit_eq_mask)
  moreover have "take_bit 9 (drop_bit (12 + 9 * l) va) < 2 ^ 9" by (rule take_bit_u64_less) simp
  ultimately show ?thesis by (simp add: PX_def word_less_nat_alt)
qed

lemma PX_eq_bit:
  assumes "PX l a = PX l b" "j < 9"
  shows "bit a (12 + 9 * l + j) = bit b (12 + 9 * l + j)"
proof -
  have "drop_bit (12 + 9 * l) a AND 0x1FF = drop_bit (12 + 9 * l) b AND 0x1FF"
    using assms(1) by (simp add: PX_def word_unat_eq_iff)
  moreover have "(0x1FF :: u64) = mask 9" by (simp add: mask_eq_exp_minus_1)
  ultimately have "take_bit 9 (drop_bit (12 + 9 * l) a) = take_bit 9 (drop_bit (12 + 9 * l) b)"
    by (simp only: take_bit_eq_mask)
  then have "bit (take_bit 9 (drop_bit (12 + 9 * l) a)) j = bit (take_bit 9 (drop_bit (12 + 9 * l) b)) j"
    by simp
  with assms(2) show ?thesis by (simp add: bit_take_bit_iff bit_drop_bit_eq)
qed

lemma bit_va_high: "va < MAXVA \<Longrightarrow> 38 \<le> n \<Longrightarrow> \<not> bit va n"
proof -
  assume a: "va < MAXVA" "38 \<le> n"
  have "MAXVA = 2 ^ 38" by (simp add: MAXVA_val)
  then have "take_bit 38 va = va" using a(1) take_bit_u64_eq[of va 38] by simp
  then show "\<not> bit va n" using a(2) by (metis bit_take_bit_iff not_less)
qed

text \<open>The three indices determine the page of a virtual address.\<close>

lemma PX_inject:
  assumes "a < MAXVA" "b < MAXVA"
  shows "PX 2 a = PX 2 b \<and> PX 1 a = PX 1 b \<and> PX 0 a = PX 0 b \<longleftrightarrow> page_of a = page_of b"
proof
  assume px: "PX 2 a = PX 2 b \<and> PX 1 a = PX 1 b \<and> PX 0 a = PX 0 b"
  show "page_of a = page_of b"
  proof (rule bit_word_eqI)
    fix n assume "n < LENGTH(64)"
    consider "n < 12" | "12 \<le> n" "n < 21" | "21 \<le> n" "n < 30" | "30 \<le> n" "n < 39" | "39 \<le> n" by linarith
    then have "12 \<le> n \<longrightarrow> bit a n = bit b n"
    proof cases
      case 2 then show ?thesis using px PX_eq_bit[of 0 a b "n - 12"] by simp
    next
      case 3 then show ?thesis using px PX_eq_bit[of 1 a b "n - 21"] by simp
    next
      case 4 then show ?thesis using px PX_eq_bit[of 2 a b "n - 30"] by simp
    next
      case 5 then show ?thesis using bit_va_high[OF assms(1), of n] bit_va_high[OF assms(2), of n] by simp
    qed simp
    then show "bit (page_of a) n = bit (page_of b) n" by (auto simp: bit_clear_low)
  qed
next
  assume pg: "page_of a = page_of b"
  have "drop_bit (12 + 9 * l) x = drop_bit (12 + 9 * l) (page_of x)" for l and x :: u64
    by (rule bit_word_eqI) (simp add: bit_drop_bit_eq bit_clear_low)
  with pg have "PX l a = PX l b" for l unfolding PX_def by metis
  then show "PX 2 a = PX 2 b \<and> PX 1 a = PX 1 b \<and> PX 0 a = PX 0 b" by simp
qed

subsection \<open>The forest of page tables\<close>

definition ents :: "'a phys_scheme \<Rightarrow> u64 \<Rightarrow> nat \<Rightarrow> u64" where
  "ents s t k = pte_load (slot t k) s"

fun tbl :: "(u64 \<Rightarrow> nat \<Rightarrow> u64) \<Rightarrow> u64 \<Rightarrow> nat list \<Rightarrow> u64 option" where
  "tbl E t [] = Some t"
| "tbl E t (i # is) = (if bit (E t i) 0 then tbl E (PTE2PA (E t i)) is else None)"

definition vpath :: "u64 \<Rightarrow> nat list" where
  "vpath va = [PX 2 va, PX 1 va]"

definition lookup :: "(u64 \<Rightarrow> nat \<Rightarrow> u64) \<Rightarrow> u64 \<Rightarrow> u64 \<Rightarrow> u64" where
  "lookup E r va = (case tbl E r (vpath va) of None \<Rightarrow> 0 | Some t \<Rightarrow> E t (PX 0 va))"

text \<open>The positions a page has as a table, and the user mappings of a page.\<close>

definition pos :: "u64 set \<Rightarrow> (u64 \<times> nat list) set" where
  "pos R = {(r, q). r \<in> R \<and> length q \<le> 2 \<and> set q \<subseteq> {..<512}}"

definition tabs :: "(u64 \<Rightarrow> nat \<Rightarrow> u64) \<Rightarrow> u64 set \<Rightarrow> u64 \<Rightarrow> (u64 \<times> nat list) set" where
  "tabs E R t = {(r, q) \<in> pos R. tbl E r q = Some t}"

definition UV :: "u64 set" where
  "UV = {va. page_of va = va \<and> va < TRAPFRAME}"

definition leaf_to :: "u64 \<Rightarrow> u64 \<Rightarrow> bool" where
  "leaf_to e p \<longleftrightarrow> bit e 0 \<and> PTE2PA e = p"

definition maps :: "(u64 \<Rightarrow> nat \<Rightarrow> u64) \<Rightarrow> u64 set \<Rightarrow> u64 \<Rightarrow> (u64 \<times> u64) set" where
  "maps E R p = {(r, va). r \<in> R \<and> va \<in> UV \<and> leaf_to (lookup E r va) p}"

definition vm_inv :: "'a phys_scheme \<Rightarrow> u64 set \<Rightarrow> (u64 \<Rightarrow> int) \<Rightarrow> bool" where
  "vm_inv s R K \<longleftrightarrow> kmem_ok s
     \<and> (\<forall>p. refs s p = int (card (maps (ents s) R p)) + int (card (tabs (ents s) R p)) + K p)
     \<and> (\<forall>p. 0 \<le> K p)
     \<and> (\<forall>t. tabs (ents s) R t \<noteq> {} \<longrightarrow> refs s t = 1)"

lemma tbl_snoc:
  "tbl E t (q @ [i]) = (case tbl E t q of None \<Rightarrow> None
     | Some u \<Rightarrow> if bit (E u i) 0 then Some (PTE2PA (E u i)) else None)"
  by (induction q arbitrary: t) auto

lemma finite_pos: "finite (pos R)"
proof -
  have "finite {q :: nat list. set q \<subseteq> {..<512} \<and> length q \<le> 2}"
    by (rule finite_lists_length_le) simp
  moreover have "pos R \<subseteq> UNIV \<times> {q. set q \<subseteq> {..<512} \<and> length q \<le> 2}" by (auto simp: pos_def)
  ultimately show ?thesis by (meson finite_SigmaI finite_code finite_subset)
qed

lemma finite_tabs [simp]: "finite (tabs E R t)"
  by (rule finite_subset[OF _ finite_pos[of R]]) (auto simp: tabs_def)

lemma finite_maps [simp]: "finite (maps E R p)"
  by simp

lemma tabs_mono: "(r, q @ [i]) \<in> tabs E R t \<Longrightarrow> \<exists>u. (r, q) \<in> tabs E R u"
  by (auto simp: tabs_def pos_def tbl_snoc split: option.splits)

lemma tabs_root: "r \<in> R \<Longrightarrow> (r, []) \<in> tabs E R r"
  by (simp add: tabs_def pos_def)

lemma vm_inv_kmem: "vm_inv s R K \<Longrightarrow> kmem_ok s"
  by (simp add: vm_inv_def)

lemma vm_inv_refs:
  "vm_inv s R K \<Longrightarrow> refs s p = int (card (maps (ents s) R p)) + int (card (tabs (ents s) R p)) + K p"
  by (simp add: vm_inv_def)

lemma vm_inv_K: "vm_inv s R K \<Longrightarrow> 0 \<le> K p"
  by (simp add: vm_inv_def)

lemma vm_inv_tab1: "vm_inv s R K \<Longrightarrow> tabs (ents s) R t \<noteq> {} \<Longrightarrow> refs s t = 1"
  unfolding vm_inv_def by blast

lemma vm_inv_table:
  assumes "vm_inv s R K" "(r, q) \<in> tabs (ents s) R t"
  shows "refs s t = 1" "is_page s t" "tabs (ents s) R t = {(r, q)}" "maps (ents s) R t = {}" "K t = 0"
    "page_of t = t"
proof -
  show r: "refs s t = 1" using assms by (auto simp: vm_inv_def)
  then show p: "is_page s t" using refs_page[of s t] by simp
  then show "page_of t = t" by (simp add: is_page_def)
  have "0 < card (tabs (ents s) R t)" using assms(2) by (auto simp: card_gt_0_iff)
  moreover have "int (card (maps (ents s) R t)) + int (card (tabs (ents s) R t)) + K t = 1" "0 \<le> K t"
    using assms(1) r by (auto simp: vm_inv_def)
  ultimately have c: "card (tabs (ents s) R t) = 1" "card (maps (ents s) R t) = 0" "K t = 0" by linarith+
  then show "maps (ents s) R t = {}" "K t = 0" by auto
  from c(1) obtain y where "tabs (ents s) R t = {y}" using card_1_singletonE by blast
  with assms(2) show "tabs (ents s) R t = {(r, q)}" by auto
qed

lemma vm_inv_inj:
  assumes "vm_inv s R K" "(r, q) \<in> tabs (ents s) R t" "(r', q') \<in> tabs (ents s) R t"
  shows "r' = r" "q' = q"
  using vm_inv_table(3)[OF assms(1,2)] assms(3) by auto

lemma vm_inv_free:
  assumes "vm_inv s R K" "refs s n = 0"
  shows "tabs (ents s) R n = {}" "maps (ents s) R n = {}" "K n = 0"
proof -
  have "int (card (maps (ents s) R n)) + int (card (tabs (ents s) R n)) + K n = 0" "0 \<le> K n"
    using assms by (auto simp: vm_inv_def)
  then have "card (tabs (ents s) R n) = 0" "card (maps (ents s) R n) = 0" "K n = 0" by linarith+
  then show "tabs (ents s) R n = {}" "maps (ents s) R n = {}" "K n = 0" by auto
qed

lemma vm_inv_mapped:
  assumes "vm_inv s R K" "maps (ents s) R p \<noteq> {}"
  shows "0 < refs s p" "is_page s p" "tabs (ents s) R p = {}"
proof -
  have "0 < card (maps (ents s) R p)" using assms(2) by (simp add: card_gt_0_iff)
  then show r: "0 < refs s p" using assms(1) by (auto simp: vm_inv_def add_pos_nonneg)
  then show "is_page s p" using refs_page[of s p] by simp
  show "tabs (ents s) R p = {}" using vm_inv_table(4)[OF assms(1)] assms(2) by fastforce
qed

text \<open>How entries change with memory.\<close>

lemma ents_pte_store [mem_simps]:
  assumes "page_of t = t" "k < 512" "page_of t' = t'" "k' < 512"
  shows "ents (pte_store (slot t k) e s) t' k' = (if t' = t \<and> k' = k then e else ents s t' k')"
  using assms slot_inject[OF assms(1,3,2,4)]
  by (auto simp: ents_def pte_load_def pte_store_def load64_store64 load64_store64_other)

lemma ents_cong:
  assumes "page_of t = t" "k < 512" "\<And>x. page_of x = t \<Longrightarrow> mem s' x = mem s x"
  shows "ents s' t k = ents s t k"
  unfolding ents_def pte_load_def using assms by (intro load64_page_cong) auto

lemma ents_zero_page [mem_simps]:
  assumes "page_of n = n" "page_of t = t" "k < 512"
  shows "ents (zero_page n s) t k = (if t = n then 0 else ents s t k)"
proof (cases "t = n")
  case True
  have "page_of x = n" if "cell_of x = slot n k" for x
  proof -
    have "page_of (cell_of x) = n" using that assms by simp
    then show ?thesis by simp
  qed
  with True assms show ?thesis
    by (auto simp: ents_def pte_load_def zero_page_def memset_page intro!: load64_zero)
next
  case False
  with assms show ?thesis by (auto simp: zero_page_def memset_page intro!: ents_cong)
qed

lemma pte_store_frame [mem_simps]:
  assumes "page_of t = t" "k < 512" "page_of x \<noteq> t"
  shows "mem (pte_store (slot t k) e s) x = mem s x"
proof -
  have "cell_of x \<noteq> slot t k"
  proof
    assume "cell_of x = slot t k"
    then have "page_of (cell_of x) = t" using assms by simp
    with assms(3) show False by simp
  qed
  with assms show ?thesis by (simp add: pte_store_def store64_other)
qed

lemma zero_page_frame [mem_simps]:
  "page_of n = n \<Longrightarrow> mem (zero_page n s) x = (if page_of x = n then 0 else mem s x)"
  by (simp add: zero_page_def memset_page)

lemma store_simps [simp]:
  "is_page (pte_store a e s) = is_page s" "refs (pte_store a e s) = refs s"
  "is_page (zero_page n s) = is_page s" "refs (zero_page n s) = refs s"
  by (simp_all add: pte_store_def zero_page_def)

lemma kmem_ok_store:
  assumes "kmem_ok s" "page_of t = t" "k < 512" "0 < refs s t"
  shows "kmem_ok (pte_store (slot t k) e s)"
  unfolding pte_store_def
proof (rule kmem_ok_mem[OF assms(1)])
  fix x assume "refs s (page_of x) = 0"
  then have "page_of x \<noteq> t" using assms(4) by auto
  then show "store64 (mem s) (slot t k) e x = mem s x"
    using pte_store_frame[OF assms(2,3), of x e s] by (simp add: pte_store_def)
qed

lemma kmem_ok_zero: "kmem_ok s \<Longrightarrow> page_of n = n \<Longrightarrow> 0 < refs s n \<Longrightarrow> kmem_ok (zero_page n s)"
  using zero_page_frame[of n s] unfolding zero_page_def
  by (intro kmem_ok_mem) auto

text \<open>A change of one entry leaves alone every table that is not reached through it.\<close>

lemma tbl_change:
  assumes inj: "\<And>r q. (r, q) \<in> tabs E R t0 \<Longrightarrow> (r, q) = (r0, q0)"
    and same: "\<And>t k. tabs E R t \<noteq> {} \<Longrightarrow> k < 512 \<Longrightarrow> (t, k) \<noteq> (t0, k0) \<Longrightarrow> E' t k = E t k"
    and q: "(r, q) \<in> pos R" "\<not> (r = r0 \<and> prefix (q0 @ [k0]) q)"
  shows "tbl E' r q = tbl E r q"
  using q
proof (induction q rule: rev_induct)
  case (snoc i q)
  then have IH: "tbl E' r q = tbl E r q" by (auto simp: pos_def)
  show ?case
  proof (cases "tbl E r q")
    case (Some t)
    then have t: "(r, q) \<in> tabs E R t" using snoc.prems by (auto simp: tabs_def pos_def)
    have "(t, i) \<noteq> (t0, k0)" using inj[of r q] t snoc.prems(2) by auto
    then have "E' t i = E t i" using same[of t i] t snoc.prems(1) by (auto simp: pos_def)
    with IH Some show ?thesis by (simp add: tbl_snoc)
  qed (use IH in \<open>simp add: tbl_snoc\<close>)
qed simp

lemma tbl_tabs: "(r, q) \<in> pos R \<Longrightarrow> tbl E r q = Some t \<Longrightarrow> tabs E R t \<noteq> {}"
  by (auto simp: tabs_def)

lemma tbl_same:
  assumes same: "\<And>t k. tabs E R t \<noteq> {} \<Longrightarrow> k < 512 \<Longrightarrow> E' t k = E t k" and q: "(r, q) \<in> pos R"
  shows "tbl E' r q = tbl E r q"
  using q
proof (induction q rule: rev_induct)
  case (snoc i q)
  then have "tbl E' r q = tbl E r q" "(r, q) \<in> pos R" "i < 512" by (auto simp: pos_def)
  then show ?case
    using same[of _ i] by (cases "tbl E r q") (simp_all add: tbl_snoc tbl_tabs)
qed simp

lemma path_pos: "r \<in> R \<Longrightarrow> (r, (vpath va)) \<in> pos R"
  by (simp add: pos_def vpath_def)

lemma length_vpath [simp]: "length (vpath va) = 2"
  by (simp add: vpath_def)

lemma lookup_same:
  assumes same: "\<And>t k. tabs E R t \<noteq> {} \<Longrightarrow> k < 512 \<Longrightarrow> E' t k = E t k" and r: "r \<in> R"
  shows "lookup E' r va = lookup E r va"
proof (cases "tbl E r (vpath va)")
  case (Some t)
  with tbl_tabs[OF path_pos[OF r] Some] same[of t "PX 0 va"] tbl_same[OF same path_pos[OF r]]
  show ?thesis by (simp add: lookup_def)
qed (use tbl_same[OF same path_pos[OF r]] in \<open>simp add: lookup_def\<close>)

subsection \<open>Changes that keep the invariant\<close>

lemma tabs_same:
  assumes "\<And>t k. tabs E R t \<noteq> {} \<Longrightarrow> k < 512 \<Longrightarrow> E' t k = E t k"
  shows "tabs E' R = tabs E R"
  unfolding tabs_def using tbl_same[OF assms] by (auto simp: fun_eq_iff)

lemma maps_lookup:
  assumes "\<And>r va. r \<in> R \<Longrightarrow> va \<in> UV \<Longrightarrow> lookup E' r va = lookup E r va" shows "maps E' R = maps E R"
  using assms by (auto simp: maps_def fun_eq_iff)

text \<open>Nothing but the counts of pages outside the forest and the ledger changes.\<close>

lemma vm_inv_same:
  assumes inv: "vm_inv s R K" and ok: "kmem_ok s'"
    and same: "\<And>t k. tabs (ents s) R t \<noteq> {} \<Longrightarrow> k < 512 \<Longrightarrow> ents s' t k = ents s t k"
    and cnt: "\<And>p. refs s' p - K' p = refs s p - K p" "\<And>p. 0 \<le> K' p"
    and tab: "\<And>t. tabs (ents s) R t \<noteq> {} \<Longrightarrow> refs s' t = refs s t"
  shows "vm_inv s' R K'"
proof -
  have "tabs (ents s') R = tabs (ents s) R" by (rule tabs_same[OF same])
  moreover have "maps (ents s') R = maps (ents s) R" by (rule maps_lookup) (rule lookup_same[OF same])
  moreover have "refs s' p = int (card (maps (ents s) R p)) + int (card (tabs (ents s) R p)) + K' p" for p
    using cnt(1)[of p] inv by (simp add: vm_inv_def)
  moreover have "\<forall>t. tabs (ents s) R t \<noteq> {} \<longrightarrow> refs s' t = 1" using tab vm_inv_tab1[OF inv] by simp
  ultimately show ?thesis using ok cnt(2) by (simp add: vm_inv_def)
qed

text \<open>What other parts of the kernel can rely on while page tables grow.\<close>

definition pt_ext :: "'a phys_scheme \<Rightarrow> 'a phys_scheme \<Rightarrow> u64 set \<Rightarrow> bool" where
  "pt_ext s s' R \<longleftrightarrow> is_page s' = is_page s
     \<and> (\<forall>r \<in> R. \<forall>va. lookup (ents s') r va = lookup (ents s) r va)
     \<and> (\<forall>p. 0 < refs s p \<longrightarrow> refs s' p = refs s p \<and> (tabs (ents s') R p = {} \<longleftrightarrow> tabs (ents s) R p = {}))
     \<and> (\<forall>x. 0 < refs s (page_of x) \<longrightarrow> tabs (ents s) R (page_of x) = {} \<longrightarrow> mem s' x = mem s x)"

lemma pt_ext_refl [simp]: "pt_ext s s R"
  by (simp add: pt_ext_def)

lemma pt_ext_trans: "pt_ext s s' R \<Longrightarrow> pt_ext s' s'' R \<Longrightarrow> pt_ext s s'' R"
  by (simp add: pt_ext_def)

lemma vm_kalloc:
  assumes inv: "vm_inv s R K" and al: "kalloc s = Ret (n, s')" "n \<noteq> 0"
  shows "vm_inv s' R (K(n := 1))" "K n = 0" "refs s' = (refs s)(n := 1)" "refs s n = 0" "is_page s n"
    "is_page s' = is_page s" "pt_ext s s' R"
    "\<And>t k. tabs (ents s) R t \<noteq> {} \<Longrightarrow> k < 512 \<Longrightarrow> ents s' t k = ents s t k"
    "tabs (ents s') R = tabs (ents s) R"
proof -
  have ok: "kmem_ok s" using inv by (rule vm_inv_kmem)
  show cnt: "refs s' = (refs s)(n := 1)" and zero: "refs s n = 0" and "is_page s n"
    using ka.alloc_count[OF ok al] by auto
  show pg: "is_page s' = is_page s" using ka.alloc_good[OF ok al(1)] by simp
  show K: "K n = 0" using vm_inv_free[OF inv zero] by simp
  have fr: "mem s' x = mem s x" if "page_of x \<noteq> n" for x using ka.alloc_frame[OF ok al(1) that] .
  show same: "ents s' t k = ents s t k" if t: "tabs (ents s) R t \<noteq> {}" and k: "k < 512" for t k
  proof -
    have "t \<noteq> n" using vm_inv_free(1)[OF inv zero] t by auto
    moreover have "page_of t = t" using t vm_inv_table(6)[OF inv] by auto
    ultimately show ?thesis using k fr by (intro ents_cong) auto
  qed
  show tb: "tabs (ents s') R = tabs (ents s) R" by (rule tabs_same[OF same])
  show "vm_inv s' R (K(n := 1))"
  proof (rule vm_inv_same[OF inv _ same])
    show "kmem_ok s'" using ka.alloc_good[OF ok al(1)] by simp
    show "0 \<le> (K(n := 1)) p" for p using inv by (simp add: vm_inv_def)
    show "tabs (ents s) R t \<noteq> {} \<Longrightarrow> refs s' t = refs s t" for t
      using vm_inv_free(1)[OF inv zero] by (auto simp: cnt)
  qed (auto simp: cnt zero K)
  have lk: "\<forall>r \<in> R. \<forall>va. lookup (ents s') r va = lookup (ents s) r va"
    using lookup_same[OF same] by simp
  have "mem s' x = mem s x" if "0 < refs s (page_of x)" for x
    using fr[of x] that zero by (cases "page_of x = n") auto
  with lk show "pt_ext s s' R" unfolding pt_ext_def using zero by (auto simp: cnt pg tb)
qed

lemma tbl_append_None: "tbl E r q = None \<Longrightarrow> tbl E r (q @ z) = None"
  by (induction q arbitrary: r) (auto split: if_splits)

lemma link_tbl:
  assumes t: "tbl E r q = Some t" "(r, q) \<in> pos R" and new: "\<not> bit (E t k) 0" "tabs E R n = {}"
    and inj: "\<And>r' q'. (r', q') \<in> tabs E R t \<Longrightarrow> (r', q') = (r, q)"
    and same: "\<And>t' k'. tabs E R t' \<noteq> {} \<Longrightarrow> k' < 512 \<Longrightarrow> (t', k') \<noteq> (t, k) \<Longrightarrow> E' t' k' = E t' k'"
    and e: "E' t k = e" "bit e 0" "PTE2PA e = n" and zero: "\<And>j. j < 512 \<Longrightarrow> E' n j = 0"
    and q': "(r', q') \<in> pos R"
  shows "tbl E' r' q' = (if r' = r \<and> q' = q @ [k] then Some n else tbl E r' q')"
proof (cases "r' = r \<and> prefix (q @ [k]) q'")
  case False
  with tbl_change[OF inj same q' False] show ?thesis by auto
next
  case True
  then obtain z where z: "q' = q @ [k] @ z" by (auto simp: prefix_def)
  have "tbl E' r q = tbl E r q" using tbl_change[OF inj same t(2)] by (simp add: prefix_def)
  then have n: "tbl E' r (q @ [k]) = Some n" using t(1) e by (simp add: tbl_snoc)
  have none: "tbl E r (q @ [k]) = None" using t(1) new(1) by (simp add: tbl_snoc)
  show ?thesis
  proof (cases z)
    case Nil then show ?thesis using True z n by simp
  next
    case (Cons j w)
    then have j: "j < 512" using z q' by (simp add: pos_def)
    have "tbl E' r ((q @ [k]) @ [j]) = None" unfolding tbl_snoc[of E' r "q @ [k]" j] n using zero[OF j] by simp
    then have "tbl E' r (((q @ [k]) @ [j]) @ w) = None" by (rule tbl_append_None)
    moreover have "tbl E r ((q @ [k]) @ (j # w)) = None" using none by (rule tbl_append_None)
    ultimately show ?thesis using True z Cons by simp
  qed
qed

text \<open>The step of \<^verbatim>\<open>walk\<close> that allocates a table.\<close>

lemma vm_link:
  assumes inv: "vm_inv s R K" and t: "(r, q) \<in> tabs (ents s) R t" and k: "k < 512" "length q < 2"
    and new: "\<not> bit (ents s t k) 0" and al: "kalloc s = Ret (n, s1)" "n \<noteq> 0"
  defines "s2 \<equiv> pte_store (slot t k) (PA2PTE n OR PTE_V) (zero_page n s1)"
  shows "vm_inv s2 R K" "(r, q @ [k]) \<in> tabs (ents s2) R n" "pt_ext s s2 R"
proof -
  note ka = vm_kalloc[OF inv al]
  have npg: "page_of n = n" using ka(5) by (simp add: is_page_def)
  have tpg: "page_of t = t" using vm_inv_table[OF inv t] by simp
  note nt = vm_inv_free[OF inv ka(4)]
  have tn: "t \<noteq> n" using t nt(1) by auto
  have E: "ents s2 t' k' = (if (t', k') = (t, k) then PA2PTE n OR PTE_V else ents s t' k')"
    if "tabs (ents s) R t' \<noteq> {}" "k' < 512" for t' k'
  proof -
    have "page_of t' = t'" "t' \<noteq> n" using that(1) nt(1) vm_inv_table(6)[OF inv] by auto
    then show ?thesis unfolding s2_def using that ka(8)[OF that] tpg k npg
      by (simp add: ents_pte_store ents_zero_page)
  qed
  have same: "\<And>t' k'. tabs (ents s) R t' \<noteq> {} \<Longrightarrow> k' < 512 \<Longrightarrow> (t', k') \<noteq> (t, k) \<Longrightarrow> ents s2 t' k' = ents s t' k'"
    using E by auto
  have zero: "ents s2 n j = 0" if "j < 512" for j
    unfolding s2_def using that tn npg tpg k by (simp add: ents_pte_store ents_zero_page)
  have e: "ents s2 t k = PA2PTE n OR PTE_V" using E[of t k] t k(1) by auto
  have inj: "\<And>r' q'. (r', q') \<in> tabs (ents s) R t \<Longrightarrow> (r', q') = (r, q)"
    using vm_inv_inj[OF inv t] by auto
  have tq: "tbl (ents s) r q = Some t" "(r, q) \<in> pos R" using t by (auto simp: tabs_def)
  have tb: "tbl (ents s2) r' q' = (if r' = r \<and> q' = q @ [k] then Some n else tbl (ents s) r' q')"
    if "(r', q') \<in> pos R" for r' q'
    by (rule link_tbl[OF tq new nt(1) inj same e _ _ zero that])
      (simp_all add: pte_simps PTE2PA_entry npg)
  have pq: "(r, q @ [k]) \<in> pos R" using tq(2) k by (simp add: pos_def)
  have none: "tbl (ents s) r (q @ [k]) = None" using tq new by (simp add: tbl_snoc)
  have tabs2: "tabs (ents s2) R u = (if u = n then {(r, q @ [k])} else tabs (ents s) R u)" for u
    using nt(1) pq none by (auto simp: tabs_def tb split: if_splits)
  have lk: "lookup (ents s2) r' va = lookup (ents s) r' va" if r': "r' \<in> R" for r' va
  proof (cases "r' = r \<and> (vpath va) = q @ [k]")
    case True
    then show ?thesis using tb[OF path_pos[OF r'], of va] none zero
      by (simp add: lookup_def)
  next
    case False
    then have t2: "tbl (ents s2) r' (vpath va) = tbl (ents s) r' (vpath va)"
      using tb[OF path_pos[OF r'], of va] by auto
    show ?thesis
    proof (cases "tbl (ents s) r' (vpath va)")
      case (Some u)
      then have u: "(r', (vpath va)) \<in> tabs (ents s) R u"
        using path_pos[OF r', of va] by (simp add: tabs_def)
      have "u \<noteq> t" using inj[of r' "vpath va"] u k(2) by auto
      then show ?thesis using t2 Some same[of u "PX 0 va"] u by (auto simp: lookup_def)
    qed (use t2 in \<open>simp add: lookup_def\<close>)
  qed
  have m2: "maps (ents s2) R = maps (ents s) R" using lk by (intro maps_lookup)
  have refs2: "refs s2 = (refs s)(n := 1)" using ka(3) by (simp add: s2_def pte_store_def zero_page_def)
  show "(r, q @ [k]) \<in> tabs (ents s2) R n" by (simp add: tabs2)
  have "kmem_ok s2"
    unfolding s2_def using vm_inv_kmem[OF ka(1)] npg tpg k tn vm_inv_table(1)[OF inv t]
    by (intro kmem_ok_store kmem_ok_zero) (auto simp: ka(3))
  then show "vm_inv s2 R K"
    unfolding vm_inv_def refs2 m2 tabs2
    using nt ka(4) vm_inv_tab1[OF inv] vm_inv_refs[OF inv] vm_inv_K[OF inv] by auto
  have frame: "mem s2 x = mem s x" if "0 < refs s (page_of x)" "tabs (ents s) R (page_of x) = {}" for x
  proof -
    have "page_of x \<noteq> n" "page_of x \<noteq> t" using that ka(4) t by auto
    then show ?thesis using ka(7) that tpg npg k
      by (simp add: s2_def pte_store_frame zero_page_frame pt_ext_def)
  qed
  show "pt_ext s s2 R"
    unfolding pt_ext_def using lk frame ka(4,6) by (auto simp: refs2 tabs2) (simp_all add: s2_def)
qed

subsection \<open>walk\<close>

lemma walk_False:
  "va < MAXVA \<Longrightarrow> walk r va False s =
     Ret (case tbl (ents s) r (vpath va) of None \<Rightarrow> 0 | Some t \<Rightarrow> slot t (PX 0 va), s)"
  by (simp add: walk_def numeral_2_eq_2 Let_def and_flag ents_def vpath_def)

lemma walk_present:
  "va < MAXVA \<Longrightarrow> tbl (ents s) r (vpath va) = Some t \<Longrightarrow> walk r va alloc s = Ret (slot t (PX 0 va), s)"
  by (auto simp: walk_def numeral_2_eq_2 Let_def and_flag ents_def vpath_def not_le split: if_splits)

lemma slot_nonzero:
  assumes "vm_inv s R K" "(r, q) \<in> tabs (ents s) R t" "k < 512" shows "slot t k \<noteq> 0"
proof
  assume z: "slot t k = 0"
  note tb = vm_inv_table[OF assms(1,2)]
  have "page_of (slot t k) = t" using tb assms(3) by simp
  with z have "t = 0" by (simp add: clear_low_def)
  with is_page_bounds(2)[OF kmem_ok_layout[OF vm_inv_kmem[OF assms(1)]] tb(2)] show False by simp
qed

lemma walk_loop_step:
  assumes inv: "vm_inv s R K" and t: "(r, q) \<in> tabs (ents s) R t" and q: "length q < 2"
  obtains (down) t' s' where "walk_loop (Suc l) t va True s = walk_loop l t' va True s'"
      "vm_inv s' R K" "pt_ext s s' R" "(r, q @ [PX (Suc l) va]) \<in> tabs (ents s') R t'"
  | (oom) "walk_loop (Suc l) t va True s = Ret (0, s)"
proof (cases "bit (ents s t (PX (Suc l) va)) 0")
  case True
  have "(r, q @ [PX (Suc l) va]) \<in> tabs (ents s) R (PTE2PA (ents s t (PX (Suc l) va)))"
    using t q True by (simp add: tabs_def pos_def tbl_snoc)
  with True inv show thesis by (intro down[OF _ inv]) (simp_all add: and_flag ents_def)
next
  case False
  obtain n s1 where al: "kalloc s = Ret (n, s1)"
    using ka.alloc_total[OF vm_inv_kmem[OF inv]] by blast
  show thesis
  proof (cases "n = 0")
    case True
    with al ka.alloc_none[OF vm_inv_kmem[OF inv]] have "s1 = s" by blast
    with True False al show thesis by (intro oom) (simp add: and_flag ents_def)
  next
    case n: False
    note l = vm_link[OF inv t PX_less q False al n]
    from False al n show thesis
      by (intro down[OF _ l(1,3,2)]) (simp add: and_flag ents_def Let_def)
  qed
qed

text \<open>\<^verbatim>\<open>walk\<close> with allocation finds the slot of the entry and changes no address space.\<close>

lemma walk_True:
  assumes inv: "vm_inv s R K" and r: "r \<in> R" and va: "va < MAXVA"
  obtains (found) t s' where "walk r va True s = Ret (slot t (PX 0 va), s')" "vm_inv s' R K" "pt_ext s s' R"
      "(r, vpath va) \<in> tabs (ents s') R t"
  | (oom) s' where "walk r va True s = Ret (0, s')" "vm_inv s' R K" "pt_ext s s' R"
proof -
  have w: "walk r va True s = walk_loop (Suc (Suc 0)) r va True s"
    using va by (auto simp only: walk_def numeral_2_eq_2 not_le if_not_P)
  from inv tabs_root[OF r] show thesis
  proof (rule walk_loop_step[where l = "Suc 0" and va = va])
    fix t1 s1 assume 1: "walk_loop (Suc (Suc 0)) r va True s = walk_loop (Suc 0) t1 va True s1"
      "vm_inv s1 R K" "pt_ext s s1 R" "(r, [] @ [PX (Suc (Suc 0)) va]) \<in> tabs (ents s1) R t1"
    from 1(2,4) show thesis
    proof (rule walk_loop_step[where l = 0 and va = va])
      fix t0 s2 assume 2: "walk_loop (Suc 0) t1 va True s1 = walk_loop 0 t0 va True s2"
        "vm_inv s2 R K" "pt_ext s1 s2 R" "(r, ([] @ [PX (Suc (Suc 0)) va]) @ [PX (Suc 0) va]) \<in> tabs (ents s2) R t0"
      then have "(r, vpath va) \<in> tabs (ents s2) R t0" by (simp add: vpath_def numeral_2_eq_2)
      with w 1 2 show thesis using pt_ext_trans[OF 1(3) 2(3)] by (intro found) simp_all
    next
      assume "walk_loop (Suc 0) t1 va True s1 = Ret (0, s1)"
      with w 1 show thesis by (intro oom[of s1]) simp_all
    qed simp
  next
    assume "walk_loop (Suc (Suc 0)) r va True s = Ret (0, s)"
    with w inv show thesis by (intro oom[of s]) simp_all
  qed simp
qed

lemma pte_load_slot: "(r, vpath va) \<in> tabs (ents s) R t \<Longrightarrow> pte_load (slot t (PX 0 va)) s = lookup (ents s) r va"
  by (simp add: tabs_def lookup_def ents_def)

subsection \<open>Changing a leaf entry\<close>

lemma PX_page_of: "PX l (page_of va) = PX l va"
proof -
  have "drop_bit (12 + 9 * l) (page_of va) = drop_bit (12 + 9 * l) va"
    by (rule bit_word_eqI) (simp add: bit_drop_bit_eq bit_clear_low)
  then show ?thesis unfolding PX_def by metis
qed

lemma lookup_page_of: "lookup E r (page_of va) = lookup E r va"
  by (simp add: lookup_def vpath_def PX_page_of)

lemma TRAPFRAME_val: "TRAPFRAME = 0x3FFFFFE000"
  by (simp add: TRAPFRAME_def TRAMPOLINE_def MAXVA_val PGSIZE_def)

lemma UV_page: "va \<in> UV \<Longrightarrow> page_of va = va"
  by (simp add: UV_def)

lemma UV_less: "va \<in> UV \<Longrightarrow> va < MAXVA"
proof -
  assume "va \<in> UV"
  then have "va < TRAPFRAME" by (simp add: UV_def)
  also have "TRAPFRAME < MAXVA" by (simp add: TRAPFRAME_val MAXVA_val)
  finally show ?thesis .
qed

lemma vpath_inject:
  "a < MAXVA \<Longrightarrow> b < MAXVA \<Longrightarrow> vpath a = vpath b \<and> PX 0 a = PX 0 b \<longleftrightarrow> page_of a = page_of b"
  using PX_inject[of a b] by (auto simp: vpath_def)

lemma lookup_leaf_store:
  fixes e :: u64
  assumes inv: "vm_inv s R K" and t: "(r, vpath va) \<in> tabs (ents s) R t" and va: "va < MAXVA"
  defines "s' \<equiv> pte_store (slot t (PX 0 va)) e s"
  shows "tabs (ents s') R = tabs (ents s) R"
    and "r' \<in> R \<Longrightarrow> va' < MAXVA \<Longrightarrow>
      lookup (ents s') r' va' = (if r' = r \<and> page_of va' = page_of va then e else lookup (ents s) r' va')"
proof -
  note tb = vm_inv_table[OF inv t]
  have E: "ents s' t' k' = (if (t', k') = (t, PX 0 va) then e else ents s t' k')"
    if "tabs (ents s) R t' \<noteq> {}" "k' < 512" for t' k'
  proof -
    have "page_of t' = t'" using that(1) vm_inv_table(6)[OF inv] by auto
    then show ?thesis using that tb(6) by (simp add: s'_def ents_pte_store)
  qed
  have tbl: "tbl (ents s') r' q' = tbl (ents s) r' q'" if "(r', q') \<in> pos R" for r' q'
  proof (rule tbl_change[OF _ _ that, where ?r0.0 = r and ?q0.0 = "vpath va" and ?t0.0 = t and ?k0.0 = "PX 0 va"])
    show "\<And>r' q'. (r', q') \<in> tabs (ents s) R t \<Longrightarrow> (r', q') = (r, vpath va)"
      using vm_inv_inj[OF inv t] by auto
    show "\<not> (r' = r \<and> prefix (vpath va @ [PX 0 va]) q')"
      using that prefix_length_le[of "vpath va @ [PX 0 va]" q'] by (auto simp: pos_def)
  qed (auto simp: E)
  then show "tabs (ents s') R = tabs (ents s) R" by (auto simp: tabs_def fun_eq_iff)
  assume r': "r' \<in> R" and va': "va' < MAXVA"
  show "lookup (ents s') r' va' = (if r' = r \<and> page_of va' = page_of va then e else lookup (ents s) r' va')"
  proof (cases "tbl (ents s) r' (vpath va')")
    case None
    then have "\<not> (r' = r \<and> page_of va' = page_of va)"
      using t vpath_inject[OF va' va] by (auto simp: tabs_def)
    with None tbl[OF path_pos[OF r']] show ?thesis by (auto simp: lookup_def)
  next
    case (Some u)
    then have u: "(r', vpath va') \<in> tabs (ents s) R u" using path_pos[OF r'] by (simp add: tabs_def)
    have "(u, PX 0 va') = (t, PX 0 va) \<longleftrightarrow> r' = r \<and> page_of va' = page_of va"
    proof
      assume "(u, PX 0 va') = (t, PX 0 va)"
      then show "r' = r \<and> page_of va' = page_of va"
        using vm_inv_inj[OF inv t] u vpath_inject[OF va' va] by auto
    next
      assume eq: "r' = r \<and> page_of va' = page_of va"
      then have "vpath va' = vpath va" "PX 0 va' = PX 0 va" using vpath_inject[OF va' va] by auto
      with eq Some t show "(u, PX 0 va') = (t, PX 0 va)" by (simp add: tabs_def)
    qed
    moreover have "lookup (ents s') r' va' = ents s' u (PX 0 va')" "lookup (ents s) r' va' = ents s u (PX 0 va')"
      using Some tbl[OF path_pos[OF r']] by (simp_all add: lookup_def)
    moreover have "tabs (ents s) R u \<noteq> {}" using u by auto
    ultimately show ?thesis using E[of u "PX 0 va'"] by simp
  qed
qed

lemma vm_leaf_store:
  assumes inv: "vm_inv s R K" and t: "(r, vpath va) \<in> tabs (ents s) R t" and va: "va < MAXVA"
    and K': "\<And>p. K' p = K p + (if page_of va \<in> UV \<and> leaf_to (lookup (ents s) r va) p then 1 else 0)
                        - (if page_of va \<in> UV \<and> leaf_to e p then 1 else 0)" "\<And>p. 0 \<le> K' p"
  shows "vm_inv (pte_store (slot t (PX 0 va)) e s) R K'"
proof -
  let ?s = "pte_store (slot t (PX 0 va)) e s" and ?v = "(r, page_of va)"
  note lk = lookup_leaf_store[OF inv t va, where e = e]
  have r: "r \<in> R" using t by (auto simp: tabs_def pos_def)
  have m: "maps (ents ?s) R p = (maps (ents s) R p - {?v}) \<union>
      (if page_of va \<in> UV \<and> leaf_to e p then {?v} else {})" for p
  proof -
    have "(a, b) \<in> maps (ents ?s) R p \<longleftrightarrow> (a, b) \<in> (maps (ents s) R p - {?v}) \<union>
        (if page_of va \<in> UV \<and> leaf_to e p then {?v} else {})" for a b
      using lk(2)[of a b] UV_less[of b] UV_page[of b] r
      by (cases "(a, b) = ?v") (auto simp: maps_def split: if_splits)
    then show ?thesis by (intro set_eqI) (metis surj_pair)
  qed
  have v: "?v \<in> maps (ents s) R p \<longleftrightarrow> page_of va \<in> UV \<and> leaf_to (lookup (ents s) r va) p" for p
    using r by (simp add: maps_def lookup_page_of)
  have c: "int (card (maps (ents ?s) R p)) + K' p = int (card (maps (ents s) R p)) + K p" for p
  proof -
    define D where "D = maps (ents s) R p - {?v}"
    have D: "?v \<notin> D" "finite D" by (simp_all add: D_def)
    have "int (card D) = int (card (maps (ents s) R p)) - (if ?v \<in> maps (ents s) R p then 1 else 0)"
    proof (cases "?v \<in> maps (ents s) R p")
      case True
      then have "card (maps (ents s) R p) = Suc (card (maps (ents s) R p - {?v}))"
        by (metis card_Suc_Diff1 finite_maps)
      with True show ?thesis by (simp only: D_def if_True)
    qed (simp add: D_def)
    then show ?thesis unfolding m K'(1) v[symmetric] D_def[symmetric] using D by (auto split: if_splits)
  qed
  note tb = vm_inv_table[OF inv t]
  have "kmem_ok ?s" using vm_inv_kmem[OF inv] tb by (intro kmem_ok_store) auto
  then show ?thesis unfolding vm_inv_def lk(1) using c vm_inv_refs[OF inv] K'(2) vm_inv_tab1[OF inv]
    by (auto simp: algebra_simps)
qed

subsection \<open>User memory, and what an operation keeps of it\<close>

text \<open>The byte a user address names, if its page is mapped.\<close>

definition umem :: "'a phys_scheme \<Rightarrow> u64 \<Rightarrow> u64 \<Rightarrow> uchar option" where
  "umem s r va =
     (let e = lookup (ents s) r va in
      if bit e 0 then Some (mem s (PTE2PA e + (va - page_of va))) else None)"

text \<open>
  Outside the pages \<open>X\<close> of address spaces nothing changes: neither entries nor bytes; and
  the pages the kernel holds keep their bytes.
\<close>

definition vm_keep :: "'a phys_scheme \<Rightarrow> 'a phys_scheme \<Rightarrow> u64 set \<Rightarrow> (u64 \<Rightarrow> int) \<Rightarrow> (u64 \<times> u64) set \<Rightarrow> bool" where
  "vm_keep s s' R K X \<longleftrightarrow> is_page s' = is_page s
     \<and> (\<forall>r \<in> R. \<forall>va < MAXVA. (r, page_of va) \<notin> X \<longrightarrow> lookup (ents s') r va = lookup (ents s) r va)
     \<and> (\<forall>r \<in> R. \<forall>va. page_of va \<in> UV \<longrightarrow> (r, page_of va) \<notin> X \<longrightarrow> umem s' r va = umem s r va)
     \<and> (\<forall>x. 0 < K (page_of x) \<longrightarrow> mem s' x = mem s x)"

lemma vm_keep_refl [simp]: "vm_keep s s R K X"
  by (simp add: vm_keep_def)

lemma vm_keepD:
  assumes "vm_keep s s' R K X"
  shows "is_page s' = is_page s"
    and "r \<in> R \<Longrightarrow> va < MAXVA \<Longrightarrow> (r, page_of va) \<notin> X \<Longrightarrow> lookup (ents s') r va = lookup (ents s) r va"
    and "r \<in> R \<Longrightarrow> page_of va \<in> UV \<Longrightarrow> (r, page_of va) \<notin> X \<Longrightarrow> umem s' r va = umem s r va"
    and "0 < K (page_of x) \<Longrightarrow> mem s' x = mem s x"
  using assms by (auto simp: vm_keep_def)

lemma vm_keep_trans:
  assumes 1: "vm_keep s s' R K X" and 2: "vm_keep s' s'' R K Y" and "X \<union> Y \<subseteq> Z"
  shows "vm_keep s s'' R K Z"
proof -
  have Z: "z \<notin> Z \<Longrightarrow> z \<notin> X \<and> z \<notin> Y" for z using assms(3) by auto
  show ?thesis
    unfolding vm_keep_def using vm_keepD[OF 1] vm_keepD[OF 2] Z by simp
qed

lemma offset_page: "page_of p = p \<Longrightarrow> page_of (p + (va - page_of va)) = p"
proof -
  assume p: "page_of p = p"
  have "va - page_of va < 4096" using page_iff[of "page_of va" va] by simp
  with p show ?thesis using clear_low_add[of 12 p] by simp
qed

lemma umem_eqI:
  assumes "lookup (ents s') r va = lookup (ents s) r va"
    and "bit (lookup (ents s) r va) 0 \<Longrightarrow>
      (\<And>x. page_of x = PTE2PA (lookup (ents s) r va) \<Longrightarrow> mem s' x = mem s x)"
  shows "umem s' r va = umem s r va"
  using assms by (simp add: umem_def Let_def offset_page)

lemma mapsI: "r \<in> R \<Longrightarrow> page_of va \<in> UV \<Longrightarrow> bit (lookup E r va) 0 \<Longrightarrow>
    (r, page_of va) \<in> maps E R (PTE2PA (lookup E r va))"
  by (simp add: maps_def leaf_to_def lookup_page_of)

lemma vm_inv_held:
  assumes "vm_inv s R K" "0 < K p"
  shows "0 < refs s p" "tabs (ents s) R p = {}" "is_page s p"
proof -
  show r: "0 < refs s p" using vm_inv_refs[OF assms(1), of p] assms(2) by simp
  then show "is_page s p" using refs_page[of s p] by simp
  show "tabs (ents s) R p = {}" using vm_inv_table(5)[OF assms(1)] assms(2) by fastforce
qed

lemma vm_keepI:
  assumes pg: "is_page s' = is_page s"
    and lk: "\<And>r va. r \<in> R \<Longrightarrow> va < MAXVA \<Longrightarrow> (r, page_of va) \<notin> X \<Longrightarrow> lookup (ents s') r va = lookup (ents s) r va"
    and bytes: "\<And>x. maps (ents s) R (page_of x) \<noteq> {} \<or> 0 < K (page_of x) \<Longrightarrow> mem s' x = mem s x"
  shows "vm_keep s s' R K X"
proof -
  have "umem s' r va = umem s r va" if r: "r \<in> R" "page_of va \<in> UV" "(r, page_of va) \<notin> X" for r va
  proof (rule umem_eqI)
    have "va < MAXVA" using UV_less[OF r(2)] by (rule page_of_less_MAXVA)
    then show "lookup (ents s') r va = lookup (ents s) r va" using lk r by simp
    fix x assume b: "bit (lookup (ents s) r va) 0" "page_of x = PTE2PA (lookup (ents s) r va)"
    then have "maps (ents s) R (page_of x) \<noteq> {}" using mapsI[OF r(1,2) b(1)] by auto
    then show "mem s' x = mem s x" using bytes by auto
  qed
  with pg lk bytes show ?thesis unfolding vm_keep_def by auto
qed

text \<open>Bytes of live pages that are not tables are what users and kernel hold.\<close>

lemma vm_keep_liveI:
  assumes inv: "vm_inv s R K" and pg: "is_page s' = is_page s"
    and lk: "\<And>r va. r \<in> R \<Longrightarrow> va < MAXVA \<Longrightarrow> (r, page_of va) \<notin> X \<Longrightarrow> lookup (ents s') r va = lookup (ents s) r va"
    and bytes: "\<And>x. 0 < refs s (page_of x) \<Longrightarrow> tabs (ents s) R (page_of x) = {} \<Longrightarrow> mem s' x = mem s x"
  shows "vm_keep s s' R K X"
  using pg lk
proof (rule vm_keepI)
  fix x assume "maps (ents s) R (page_of x) \<noteq> {} \<or> 0 < K (page_of x)"
  then have "0 < refs s (page_of x) \<and> tabs (ents s) R (page_of x) = {}"
    using vm_inv_mapped[OF inv, of "page_of x"] vm_inv_held[OF inv, of "page_of x"] by metis
  then show "mem s' x = mem s x" using bytes by simp
qed

lemma pt_ext_keep: "vm_inv s R K \<Longrightarrow> pt_ext s s' R \<Longrightarrow> vm_keep s s' R K X"
  by (rule vm_keep_liveI) (auto simp: pt_ext_def)

end
