(* ===== verification/UserVm.thy ===== *)
theory UserVm
  imports PageTable
begin

text \<open>
  The operations on user address spaces (\<^verbatim>\<open>uvm*\<close>, \<^verbatim>\<open>copyin\<close>, \<^verbatim>\<open>copyout\<close> of \<^verbatim>\<open>kernel/vm.c\<close>), shown to keep
  the page-table invariant: what each does to the address spaces it is given, and that it
  changes no other.
\<close>

subsection \<open>Mapping one page\<close>

lemma mappages_single:
  assumes "page_of va = va"
  shows "mappages r va PGSIZE pa perm s = kbind (walk r va True s) (\<lambda>(pte, s).
    if pte = 0 then Ret (-1, s)
    else if bit (pte_load pte s) 0 \<and> \<not> bit (pte_load pte s) 8 then Panic ''mappages: remap''
    else Ret (0, pte_store pte (PA2PTE pa OR perm OR PTE_V) s))"
proof -
  have "page_of (va + 4095) = va" using clear_low_add[of 12 va 4095] assms by simp
  then have "PGROUNDDOWN (va + PGSIZE - 1) = va" by (simp add: PGROUNDDOWN_page_of PGSIZE_def add.commute)
  moreover have "PGROUNDDOWN va = va" using assms by (simp add: PGROUNDDOWN_page_of)
  moreover have "PGSIZE \<noteq> 0" by (simp add: PGSIZE_def)
  ultimately show ?thesis
    unfolding mappages_def by (simp add: mappages_loop.simps[of r va] and_flag Let_def cong: if_cong)
qed

lemma leaf_to_entry:
  "page_of pa = pa \<Longrightarrow> is_perm perm \<Longrightarrow> leaf_to (PA2PTE pa OR perm OR PTE_V) p \<longleftrightarrow> p = pa"
  by (auto simp: leaf_to_def PTE2PA_entry bit_or_iff pte_simps)

lemma mappages_page:
  assumes inv: "vm_inv s R K" and r: "r \<in> R" and va: "page_of va = va" "va < MAXVA"
    and pa: "page_of pa = pa" "is_perm perm"
    and old: "\<not> bit (lookup (ents s) r va) 0 \<or> bit (lookup (ents s) r va) 8"
    and K': "\<And>p. K' p = K p + (if va \<in> UV \<and> leaf_to (lookup (ents s) r va) p then 1 else 0)
                          - (if va \<in> UV \<and> p = pa then 1 else 0)" "\<And>p. 0 \<le> K' p"
  obtains (ok) s' where "mappages r va PGSIZE pa perm s = Ret (0, s')" "vm_inv s' R K'"
      "vm_keep s s' R K {(r, va)}" "lookup (ents s') r va = PA2PTE pa OR perm OR PTE_V"
      "\<And>x. 0 < refs s (page_of x) \<Longrightarrow> tabs (ents s) R (page_of x) = {} \<Longrightarrow> mem s' x = mem s x"
      "\<And>p. 0 < refs s p \<Longrightarrow> refs s' p = refs s p"
      "tbl (ents s) r (vpath va) \<noteq> None \<Longrightarrow> refs s' = refs s"
  | (oom) s' where "mappages r va PGSIZE pa perm s = Ret (-1, s')" "vm_inv s' R K" "pt_ext s s' R"
      "tbl (ents s) r (vpath va) = None"
proof (cases "tbl (ents s) r (vpath va)")
  case None
  from inv r va(2) show thesis
  proof (cases rule: walk_True)
    case (found t s1)
    note ex = found(3)[unfolded pt_ext_def]
    have lk: "lookup (ents s1) r va = lookup (ents s) r va" using ex r by simp
    let ?e = "PA2PTE pa OR perm OR PTE_V" and ?s = "pte_store (slot t (PX 0 va)) (PA2PTE pa OR perm OR PTE_V) s1"
    have ex1: "mappages r va PGSIZE pa perm s = Ret (0, ?s)"
      using found(1) old slot_nonzero[OF found(2,4) PX_less] pte_load_slot[OF found(4)]
      by (simp add: mappages_single[OF va(1)] lk)
    have inv': "vm_inv ?s R K'"
      by (rule vm_leaf_store[OF found(2,4) va(2)]) (simp add: K'(1) va(1) lk leaf_to_entry[OF pa], rule K'(2))
    note lu = lookup_leaf_store[OF found(2,4) va(2), where e = ?e]
    have tpg: "page_of t = t" "refs s1 t = 1" using vm_inv_table[OF found(2,4)] by auto
    have by1: "mem ?s x = mem s x" if "0 < refs s (page_of x)" "tabs (ents s) R (page_of x) = {}" for x
    proof -
      have "tabs (ents s1) R (page_of x) = {}" using ex that by blast
      then have "page_of x \<noteq> t" using found(4) by auto
      then show ?thesis using tpg ex that by (simp add: pte_store_frame)
    qed
    have keep: "vm_keep s ?s R K {(r, va)}"
    proof (rule vm_keep_liveI[OF inv _ _ by1])
      show "is_page ?s = is_page s" using ex by simp
      show "lookup (ents ?s) r' va' = lookup (ents s) r' va'"
        if "r' \<in> R" "va' < MAXVA" "(r', page_of va') \<notin> {(r, va)}" for r' va'
        using lu(2)[OF that(1,2)] that ex va(1) by auto
    qed
    have "lookup (ents ?s) r va = ?e" using lu(2)[OF r va(2)] by simp
    with ex1 inv' keep by1 ex None show thesis by (intro ok[of ?s]) auto
  next
    case (oom s1)
    then show thesis using None by (intro that(2)[of s1]) (simp_all add: mappages_single[OF va(1)])
  qed
next
  case (Some t)
  then have t: "(r, vpath va) \<in> tabs (ents s) R t" using path_pos[OF r] by (simp add: tabs_def)
  let ?e = "PA2PTE pa OR perm OR PTE_V" and ?s = "pte_store (slot t (PX 0 va)) (PA2PTE pa OR perm OR PTE_V) s"
  have ex1: "mappages r va PGSIZE pa perm s = Ret (0, ?s)"
    using walk_present[OF va(2) Some] old slot_nonzero[OF inv t PX_less] pte_load_slot[OF t]
    by (simp add: mappages_single[OF va(1)])
  have inv': "vm_inv ?s R K'"
    by (rule vm_leaf_store[OF inv t va(2)]) (simp add: K'(1) va(1) leaf_to_entry[OF pa], rule K'(2))
  note lu = lookup_leaf_store[OF inv t va(2), where e = ?e]
  have tpg: "page_of t = t" using vm_inv_table[OF inv t] by auto
  have by1: "mem ?s x = mem s x" if "tabs (ents s) R (page_of x) = {}" for x
  proof -
    have "page_of x \<noteq> t" using t that by auto
    then show ?thesis using tpg by (simp add: pte_store_frame)
  qed
  have keep: "vm_keep s ?s R K {(r, va)}"
    by (rule vm_keep_liveI[OF inv _ _ by1]) (use lu(2) va(1) in auto)
  have "lookup (ents ?s) r va = ?e" using lu(2)[OF r va(2)] by simp
  with ex1 inv' keep by1 show thesis by (intro ok[of ?s]) auto
qed

subsection \<open>Releasing a page\<close>

lemma vm_kfree:
  assumes inv: "vm_inv s R K" and p: "0 < K p"
  obtains s' where "kfree p s = Ret s'" "vm_inv s' R (K(p := K p - 1))"
    "vm_keep s s' R (K(p := K p - 1)) {}" "tabs (ents s') R = tabs (ents s) R"
    "\<And>r va. r \<in> R \<Longrightarrow> lookup (ents s') r va = lookup (ents s) r va"
    "refs s' = (refs s)(p := refs s p - 1)"
proof -
  note h = vm_inv_held[OF inv p]
  obtain s' where f: "kfree p s = Ret s'" "kmem_ok s'" "is_page s' = is_page s"
      "refs s' = (refs s)(p := refs s p - 1)"
      and bytes: "\<And>x. page_of x \<noteq> p \<or> 1 < refs s p \<Longrightarrow> mem s' x = mem s x"
    using ka.free_live[OF vm_inv_kmem[OF inv] h(1)] by auto
  have same: "ents s' t k = ents s t k" if t: "tabs (ents s) R t \<noteq> {}" and k: "k < 512" for t k
  proof -
    have "t \<noteq> p" "page_of t = t" using t h(2) vm_inv_table(6)[OF inv] by auto
    then show ?thesis using k bytes by (intro ents_cong) auto
  qed
  have "vm_inv s' R (K(p := K p - 1))"
    by (rule vm_inv_same[OF inv f(2) same]) (use p h(2) vm_inv_K[OF inv] in \<open>auto simp: f(4)\<close>)
  moreover have lk: "lookup (ents s') r va = lookup (ents s) r va" if "r \<in> R" for r va
    using lookup_same[OF same that] .
  moreover have "vm_keep s s' R (K(p := K p - 1)) {}"
  proof (rule vm_keepI[OF f(3)])
    fix x assume x: "maps (ents s) R (page_of x) \<noteq> {} \<or> 0 < (K(p := K p - 1)) (page_of x)"
    show "mem s' x = mem s x"
    proof (cases "page_of x = p")
      case True
      have "0 < card (maps (ents s) R p) \<or> 1 < K p" using x True by (auto simp: card_gt_0_iff)
      then have "1 < refs s p" using vm_inv_refs[OF inv, of p] p by auto
      then show ?thesis using bytes by simp
    qed (use bytes in simp)
  qed (use lk in simp)
  moreover have "tabs (ents s') R = tabs (ents s) R" by (rule tabs_same[OF same])
  ultimately show thesis using f that by blast
qed

lemma store64_at:
  "cell_of a = a \<Longrightarrow> store64 m a v x = (if cell_of x = a then ucast (drop_bit (8 * unat (x - a)) v) else m x)"
  unfolding store64_def by (simp only: cell_iff)

lemma store_pages_commute:
  assumes "page_of p = p" "page_of t = t" "k < 512" "p \<noteq> t"
  shows "store64 (memset (store64 m (slot t k) e) p 1 4096) p l = store64 (store64 (memset m p 1 4096) p l) (slot t k) e"
proof
  fix x
  have c: "cell_of (slot t k) = slot t k" "cell_of p = p" using assms by auto
  have px: "page_of x = page_of (cell_of x)" by simp
  note at = store64_at[OF c(1)] store64_at[OF c(2)] memset_page[OF assms(1)]
  show "store64 (memset (store64 m (slot t k) e) p 1 4096) p l x
      = store64 (store64 (memset m p 1 4096) p l) (slot t k) e x"
  proof (cases "cell_of x = slot t k")
    case True
    then have "page_of x = t" using px page_of_slot[OF assms(2,3)] by metis
    moreover have "slot t k \<noteq> p" using page_of_slot[OF assms(2,3)] assms(1,4) by metis
    ultimately show ?thesis unfolding at True using assms(4) by simp
  next
    case False
    then show ?thesis unfolding at by (simp only: if_False)
  qed
qed

text \<open>\<^verbatim>\<open>uvmunmap\<close> frees the page before it clears the entry; the two steps commute.\<close>

lemma kfree_pte_store:
  assumes "page_of p = p" "page_of t = t" "k < 512" "p \<noteq> t"
  shows "kbind (kfree p s) (\<lambda>s. Ret (pte_store (slot t k) e s)) = kfree p (pte_store (slot t k) e s)"
proof -
  show ?thesis
  proof (cases "p mod PGSIZE \<noteq> 0 \<or> p < kend s \<or> PHYSTOP \<le> p \<or> NREF \<le> refIdx p")
    case True
    then show ?thesis by (auto simp: kfree_def pte_store_def ref_upd_def)
  next
    case False
    then have "\<not> (p mod PGSIZE \<noteq> 0 \<or> p < kend s \<or> PHYSTOP \<le> p)" "refIdx p < NREF" by auto
    then show ?thesis
      by (cases s) (simp add: kfree_def pte_store_def ref_upd_def Let_def store_pages_commute[OF assms])
  qed
qed

subsection \<open>Virtual pages by number\<close>

text \<open>Page \<open>i\<close> of an address space; user pages are those below TRAPFRAME.\<close>

definition vpage :: "nat \<Rightarrow> u64" where
  "vpage i = of_nat (4096 * i)"

definition NUPAGE :: nat where
  "NUPAGE = 0x3FFFFFE"

lemma unat_vpage: "i \<le> NUPAGE \<Longrightarrow> unat (vpage i) = 4096 * i"
  unfolding vpage_def using unat_of_nat_small[of "4096 * i"] by (simp add: NUPAGE_def)

lemma page_of_vpage [simp]: "page_of (vpage i) = vpage i"
proof -
  have "vpage i = push_bit 12 (of_nat i)" by (simp add: vpage_def push_bit_eq_mult mult.commute)
  moreover have "page_of (push_bit 12 w) = push_bit 12 w" for w :: u64
    by (rule bit_word_eqI) (simp add: bit_clear_low bit_push_bit_iff)
  ultimately show ?thesis by simp
qed

lemma vpage_UV [simp]: "i < NUPAGE \<Longrightarrow> vpage i \<in> UV"
  using unat_vpage[of i] by (simp add: UV_def word_less_nat_alt TRAPFRAME_val NUPAGE_def)

lemma vpage_less: "i \<le> NUPAGE \<Longrightarrow> j \<le> NUPAGE \<Longrightarrow> vpage i < vpage j \<longleftrightarrow> i < j"
  by (simp add: word_less_nat_alt unat_vpage)

lemma vpage_eq: "i \<le> NUPAGE \<Longrightarrow> j \<le> NUPAGE \<Longrightarrow> vpage i = vpage j \<longleftrightarrow> i = j"
  by (simp add: word_unat_eq_iff unat_vpage)

lemma vpage_Suc: "vpage i + PGSIZE = vpage (Suc i)"
  by (simp add: vpage_def PGSIZE_def)

lemma vpage_MAXVA: "i \<le> NUPAGE \<Longrightarrow> vpage i < MAXVA"
  using unat_vpage[of i] by (simp add: word_less_nat_alt MAXVA_val NUPAGE_def)

lemma UV_vpage: "va \<in> UV \<Longrightarrow> \<exists>i < NUPAGE. va = vpage i"
proof -
  assume va: "va \<in> UV"
  have u: "unat va = 4096 * (unat va div 4096)" using unat_page_of[of va] UV_page[OF va] by simp
  have "unat va < 0x3FFFFFE000" using va by (simp add: UV_def word_less_nat_alt TRAPFRAME_val)
  with u have lt: "unat va div 4096 < NUPAGE" by (simp add: NUPAGE_def)
  have "va = vpage (unat va div 4096)"
    using unat_vpage[of "unat va div 4096"] lt u by (simp add: word_unat_eq_iff)
  with lt show ?thesis by blast
qed

lemma PGROUNDUP_vpage:
  assumes "unat sz \<le> 4096 * NUPAGE"
  shows "PGROUNDUP sz = vpage ((unat sz + 4095) div 4096)" "(unat sz + 4095) div 4096 \<le> NUPAGE"
proof -
  show le: "(unat sz + 4095) div 4096 \<le> NUPAGE"
    using div_le_mono[of "unat sz + 4095" "4096 * NUPAGE + 4095" 4096] assms by (simp add: NUPAGE_def)
  have "unat (sz + 4095) = unat sz + 4095"
    using unat_add_lem[of sz 4095] assms by (simp add: NUPAGE_def)
  then have "unat (PGROUNDUP sz) = 4096 * ((unat sz + 4095) div 4096)"
    by (simp add: PGROUNDUP_page_of unat_page_of)
  then show "PGROUNDUP sz = vpage ((unat sz + 4095) div 4096)"
    by (simp add: word_unat_eq_iff unat_vpage[OF le])
qed

subsection \<open>uvmunmap\<close>

text \<open>A leaf is an entry with a flag besides the valid bit.\<close>

definition is_leaf :: "u64 \<Rightarrow> bool" where
  "is_leaf e \<longleftrightarrow> bit e 0 \<and> PTE_FLAGS e \<noteq> PTE_V"

lemma lookup_table:
  assumes "bit (lookup E r va) 0" "r \<in> R"
  obtains t where "(r, vpath va) \<in> tabs E R t" "tbl E r (vpath va) = Some t"
  using assms path_pos[OF assms(2), of va] by (auto simp: lookup_def tabs_def split: option.splits)

lemma unmap_page:
  assumes inv: "vm_inv s R K" and r: "r \<in> R" and va: "va \<in> UV" and e: "bit (lookup (ents s) r va) 0"
    and t: "(r, vpath va) \<in> tabs (ents s) R t"
  obtains s' where "kbind (kfree (PTE2PA (lookup (ents s) r va)) s)
      (\<lambda>s. Ret (pte_store (slot t (PX 0 va)) 0 s)) = Ret s'"
    "vm_inv s' R K" "vm_keep s s' R K {(r, va)}" "lookup (ents s') r va = 0"
proof -
  let ?p = "PTE2PA (lookup (ents s) r va)" and ?s = "pte_store (slot t (PX 0 va)) 0 s"
  have vp: "page_of va = va" "va < MAXVA" using va UV_page UV_less by auto
  have "(r, va) \<in> maps (ents s) R ?p" using mapsI[OF r _ e] va vp by simp
  then have np: "tabs (ents s) R ?p = {}" using vm_inv_mapped[OF inv] by auto
  have t': "page_of t = t" "refs s t = 1" using vm_inv_table[OF inv t] by auto
  have "?p \<noteq> t" using np t by auto
  then have comm: "kbind (kfree ?p s) (\<lambda>s. Ret (pte_store (slot t (PX 0 va)) 0 s)) = kfree ?p ?s"
    by (intro kfree_pte_store) (auto simp: t')
  have inv1: "vm_inv ?s R (K(?p := K ?p + 1))"
    by (rule vm_leaf_store[OF inv t vp(2)])
      (use vm_inv_K[OF inv] va vp e in \<open>auto simp: leaf_to_def intro: add_nonneg_nonneg\<close>)
  note lu = lookup_leaf_store[OF inv t vp(2), where e = 0]
  have keep1: "vm_keep s ?s R K {(r, va)}"
  proof (rule vm_keep_liveI[OF inv])
    show "mem ?s x = mem s x" if "tabs (ents s) R (page_of x) = {}" for x
      using that t t' by (intro pte_store_frame) auto
  qed (use lu(2) vp in auto)
  have K1: "0 < (K(?p := K ?p + 1)) ?p" using vm_inv_K[OF inv, of ?p] by simp
  have KK: "(K(?p := K ?p + 1))(?p := (K(?p := K ?p + 1)) ?p - 1) = K" by simp
  obtain s' where f: "kfree ?p ?s = Ret s'" "vm_inv s' R K"
      "vm_keep ?s s' R K {}" "\<And>r va. r \<in> R \<Longrightarrow> lookup (ents s') r va = lookup (ents ?s) r va"
    using vm_kfree[OF inv1 K1, unfolded KK] by metis
  show thesis
  proof (rule that)
    show "vm_keep s s' R K {(r, va)}" using keep1 f(3) by (rule vm_keep_trans) simp
    show "lookup (ents s') r va = 0" using f(4)[OF r] lu(2)[OF r vp(2)] by simp
  qed (use comm f in simp_all)
qed

definition vrange :: "u64 \<Rightarrow> nat \<Rightarrow> nat \<Rightarrow> (u64 \<times> u64) set" where
  "vrange r b e = {(r, vpage i) | i. b \<le> i \<and> i < e}"

lemma vrange_iff: "e \<le> NUPAGE \<Longrightarrow> i \<le> NUPAGE \<Longrightarrow> (q, vpage i) \<in> vrange r b e \<longleftrightarrow> q = r \<and> b \<le> i \<and> i < e"
  using vpage_eq by (force simp: vrange_def)

lemma vrange_empty [simp]: "vrange r b b = {}"
  by (auto simp: vrange_def)

lemma vrange_Suc: "b < e \<Longrightarrow> {(r, vpage b)} \<union> vrange r (Suc b) e \<subseteq> vrange r b e"
  by (auto simp: vrange_def)

lemma uvmunmap_step:
  assumes inv: "vm_inv s R K" and r: "r \<in> R" and i: "i < NUPAGE" "vpage i < aend"
    and e: "is_leaf (lookup (ents s) r (vpage i))"
  obtains s' where "uvmunmap_loop r (vpage i) aend True s = uvmunmap_loop r (vpage (Suc i)) aend True s'"
    "vm_inv s' R K" "vm_keep s s' R K {(r, vpage i)}" "lookup (ents s') r (vpage i) = 0"
proof -
  have b: "bit (lookup (ents s) r (vpage i)) 0" using e by (simp add: is_leaf_def)
  obtain t where t: "(r, vpath (vpage i)) \<in> tabs (ents s) R t" "tbl (ents s) r (vpath (vpage i)) = Some t"
    using lookup_table[OF b r] .
  obtain s' where s': "kbind (kfree (PTE2PA (lookup (ents s) r (vpage i))) s)
      (\<lambda>s. Ret (pte_store (slot t (PX 0 (vpage i))) 0 s)) = Ret s'"
    "vm_inv s' R K" "vm_keep s s' R K {(r, vpage i)}" "lookup (ents s') r (vpage i) = 0"
    using unmap_page[OF inv r vpage_UV[OF i(1)] b t(1)] .
  have w: "walk r (vpage i) False s = Ret (slot t (PX 0 (vpage i)), s)"
    using walk_present[OF vpage_MAXVA t(2)] i(1) by simp
  have "uvmunmap_loop r (vpage i) aend True s =
      kbind (kbind (kfree (PTE2PA (lookup (ents s) r (vpage i))) s)
        (\<lambda>s. Ret (pte_store (slot t (PX 0 (vpage i))) 0 s))) (uvmunmap_loop r (vpage (Suc i)) aend True)"
    using w e i(2) slot_nonzero[OF inv t(1) PX_less] pte_load_slot[OF t(1)]
    by (subst uvmunmap_loop.simps) (simp add: kbind_assoc and_flag is_leaf_def vpage_Suc)
  then show thesis using s' by (intro that) simp_all
qed

lemma uvmunmap_loop_ok:
  assumes "vm_inv s R K" "r \<in> R" "b \<le> e" "e \<le> NUPAGE"
    and "\<And>i. b \<le> i \<Longrightarrow> i < e \<Longrightarrow> is_leaf (lookup (ents s) r (vpage i))"
  shows "\<exists>s'. uvmunmap_loop r (vpage b) (vpage e) True s = Ret s' \<and> vm_inv s' R K
    \<and> vm_keep s s' R K (vrange r b e) \<and> (\<forall>i. b \<le> i \<and> i < e \<longrightarrow> lookup (ents s') r (vpage i) = 0)"
  using assms
proof (induction "e - b" arbitrary: b s)
  case 0
  then have "b = e" by simp
  with 0 show ?case by (auto simp: uvmunmap_loop.simps[of r "vpage e"])
next
  case (Suc n)
  then have b: "b < e" "b < NUPAGE" by auto
  have lt: "vpage b < vpage e" using b Suc.prems(4) by (simp add: vpage_less)
  have lf: "is_leaf (lookup (ents s) r (vpage b))" using Suc.prems(5) b by simp
  obtain s1 where 1: "uvmunmap_loop r (vpage b) (vpage e) True s = uvmunmap_loop r (vpage (Suc b)) (vpage e) True s1"
    "vm_inv s1 R K" "vm_keep s s1 R K {(r, vpage b)}" "lookup (ents s1) r (vpage b) = 0"
    using uvmunmap_step[OF Suc.prems(1,2) b(2) lt lf] .
  have lf1: "is_leaf (lookup (ents s1) r (vpage i))" if "Suc b \<le> i" "i < e" for i
    using vm_keepD(2)[OF 1(3) Suc.prems(2), of "vpage i"] Suc.prems(4,5) that b
    by (simp add: vpage_MAXVA vpage_eq)
  have n: "n = e - Suc b" "Suc b \<le> e" using Suc.hyps(2) b by auto
  obtain s2 where 2: "uvmunmap_loop r (vpage (Suc b)) (vpage e) True s1 = Ret s2" "vm_inv s2 R K"
      "vm_keep s1 s2 R K (vrange r (Suc b) e)" "\<forall>i. Suc b \<le> i \<and> i < e \<longrightarrow> lookup (ents s2) r (vpage i) = 0"
    using Suc.hyps(1)[OF n(1) 1(2) Suc.prems(2) n(2) Suc.prems(4) lf1] by blast
  have "lookup (ents s2) r (vpage b) = 0"
    using vm_keepD(2)[OF 2(3) Suc.prems(2), of "vpage b"] b Suc.prems(4) 1(4)
    by (simp add: vpage_MAXVA vrange_iff)
  then have "\<forall>i. b \<le> i \<and> i < e \<longrightarrow> lookup (ents s2) r (vpage i) = 0"
    using 2(4) by (auto simp: le_eq_less_or_eq[of b] Suc_le_eq)
  moreover have "vm_keep s s2 R K (vrange r b e)"
    using 1(3) 2(3) vrange_Suc[OF b(1)] by (rule vm_keep_trans)
  ultimately show ?case using 1(1) 2(1,2) by auto
qed

text \<open>\<^verbatim>\<open>uvmunmap\<close> clears exactly the given pages and gives their frames back.\<close>

lemma uvmunmap_ok:
  assumes inv: "vm_inv s R K" and r: "r \<in> R" and n: "b + n \<le> NUPAGE"
    and leaf: "\<And>i. b \<le> i \<Longrightarrow> i < b + n \<Longrightarrow> is_leaf (lookup (ents s) r (vpage i))"
  obtains s' where "uvmunmap r (vpage b) (of_nat n) True s = Ret s'" "vm_inv s' R K"
    "vm_keep s s' R K (vrange r b (b + n))"
    "\<And>i. b \<le> i \<Longrightarrow> i < b + n \<Longrightarrow> lookup (ents s') r (vpage i) = 0"
proof -
  have "vpage b + of_nat n * PGSIZE = vpage (b + n)"
    by (simp add: vpage_def PGSIZE_def algebra_simps)
  moreover have "vpage b mod PGSIZE = 0" by (simp add: mod_PGSIZE_iff)
  moreover have "\<exists>s'. uvmunmap_loop r (vpage b) (vpage (b + n)) True s = Ret s' \<and> vm_inv s' R K
      \<and> vm_keep s s' R K (vrange r b (b + n)) \<and> (\<forall>i. b \<le> i \<and> i < b + n \<longrightarrow> lookup (ents s') r (vpage i) = 0)"
    by (rule uvmunmap_loop_ok[OF inv r _ n leaf]) auto
  ultimately show thesis using that by (auto simp: uvmunmap_def)
qed

subsection \<open>uvmdealloc and uvmalloc\<close>

definition npg :: "u64 \<Rightarrow> nat" where
  "npg sz = (unat sz + 4095) div 4096"

lemma npg_mono: "a \<le> b \<Longrightarrow> npg a \<le> npg b"
  by (simp add: npg_def div_le_mono word_le_nat_alt)

lemma npg_vpage: "i \<le> NUPAGE \<Longrightarrow> npg (vpage i) = i"
  by (simp add: npg_def unat_vpage)

lemma int_npages:
  assumes "n < 2 ^ 31"
  shows "scast (ucast (of_nat n :: u64) :: 32 word) = (of_nat n :: u64)"
proof (rule bit_word_eqI)
  fix k assume "k < LENGTH(64)"
  have "(of_nat n :: u64) < 2 ^ 31" using assms by (simp add: word_less_nat_alt unat_of_nat_small)
  then have "take_bit 31 (of_nat n :: u64) = of_nat n" by (intro take_bit_u64_eq) auto
  then have hi: "31 \<le> j \<Longrightarrow> \<not> bit (of_nat n :: u64) j" for j by (metis bit_take_bit_iff not_less)
  show "bit (scast (ucast (of_nat n :: u64) :: 32 word) :: u64) k = bit (of_nat n :: u64) k"
    using hi \<open>k < LENGTH(64)\<close> by (cases "k < 31") (auto simp: bit_signed_iff bit_unsigned_iff min_def)
qed

lemma uvmdealloc_ok:
  assumes inv: "vm_inv s R K" and r: "r \<in> R" and sz: "newsz \<le> oldsz" "unat oldsz \<le> 4096 * NUPAGE"
    and leaf: "\<And>i. npg newsz \<le> i \<Longrightarrow> i < npg oldsz \<Longrightarrow> is_leaf (lookup (ents s) r (vpage i))"
  obtains s' where "uvmdealloc r oldsz newsz s = Ret (newsz, s')" "vm_inv s' R K"
    "vm_keep s s' R K (vrange r (npg newsz) (npg oldsz))"
    "\<And>i. npg newsz \<le> i \<Longrightarrow> i < npg oldsz \<Longrightarrow> lookup (ents s') r (vpage i) = 0"
proof -
  have nsz: "unat newsz \<le> 4096 * NUPAGE" using sz by (simp add: word_le_nat_alt)
  have up: "PGROUNDUP newsz = vpage (npg newsz)" "PGROUNDUP oldsz = vpage (npg oldsz)"
    and b: "npg newsz \<le> NUPAGE" "npg oldsz \<le> NUPAGE"
    using PGROUNDUP_vpage[OF nsz] PGROUNDUP_vpage[OF sz(2)] by (simp_all add: npg_def)
  have le: "npg newsz \<le> npg oldsz" by (rule npg_mono[OF sz(1)])
  show thesis
  proof (cases "npg newsz < npg oldsz")
    case False
    with le have "npg newsz = npg oldsz" by simp
    with inv sz show thesis by (intro that[of s]) (auto simp: uvmdealloc_def up)
  next
    case True
    let ?n = "npg oldsz - npg newsz"
    have "unat (vpage (npg oldsz) - vpage (npg newsz)) = 4096 * ?n"
      using unat_sub[of "vpage (npg newsz)" "vpage (npg oldsz)"] le b
      by (simp add: word_le_nat_alt unat_vpage diff_mult_distrib2)
    then have "(vpage (npg oldsz) - vpage (npg newsz)) div PGSIZE = of_nat ?n"
      using unat_of_nat_small[of ?n] b by (simp add: word_unat_eq_iff unat_div PGSIZE_def NUPAGE_def)
    moreover have "?n < 2 ^ 31" using b by (simp add: NUPAGE_def)
    ultimately have np: "scast (ucast ((PGROUNDUP oldsz - PGROUNDUP newsz) div PGSIZE) :: 32 word) = (of_nat ?n :: u64)"
      using int_npages[of ?n] by (simp add: up)
    have "\<not> oldsz \<le> newsz" using True npg_mono[of oldsz newsz] by auto
    moreover have "PGROUNDUP newsz < PGROUNDUP oldsz" using True b by (simp add: up vpage_less)
    ultimately have eq: "uvmdealloc r oldsz newsz s =
        kbind (uvmunmap r (vpage (npg newsz)) (of_nat ?n) True s) (\<lambda>s. Ret (newsz, s))"
      unfolding uvmdealloc_def Let_def np by (simp add: up)
    have n: "npg newsz + ?n = npg oldsz" using le by simp
    obtain s' where "uvmunmap r (vpage (npg newsz)) (of_nat ?n) True s = Ret s'" "vm_inv s' R K"
        "vm_keep s s' R K (vrange r (npg newsz) (npg oldsz))"
        "\<And>i. npg newsz \<le> i \<Longrightarrow> i < npg oldsz \<Longrightarrow> lookup (ents s') r (vpage i) = 0"
      using uvmunmap_ok[OF inv r, of "npg newsz" ?n] leaf b unfolding n by auto
    then show thesis using eq by (intro that) auto
  qed
qed

text \<open>Writing to a page that is in use and is not a page table.\<close>

lemma vm_mem_write:
  assumes inv: "vm_inv s R K"
    and m: "\<forall>x. m x \<noteq> mem s x \<longrightarrow> 0 < refs s (page_of x) \<and> tabs (ents s) R (page_of x) = {}"
  shows "vm_inv (s\<lparr>mem := m\<rparr>) R K" "tabs (ents (s\<lparr>mem := m\<rparr>)) R = tabs (ents s) R"
    "r \<in> R \<Longrightarrow> lookup (ents (s\<lparr>mem := m\<rparr>)) r va = lookup (ents s) r va"
proof -
  let ?s = "s\<lparr>mem := m\<rparr>"
  have same: "ents ?s t k = ents s t k" if t: "tabs (ents s) R t \<noteq> {}" and k: "k < 512" for t k
  proof (rule ents_cong[OF _ k])
    show "page_of t = t" using t vm_inv_table(6)[OF inv] by auto
    show "mem ?s x = mem s x" if "page_of x = t" for x using m that t by auto
  qed
  have "kmem_ok ?s" using m by (intro kmem_ok_mem[OF vm_inv_kmem[OF inv]]) force
  then show "vm_inv ?s R K"
    by (rule vm_inv_same[OF inv _ same]) (use vm_inv_K[OF inv] in auto)
  show "tabs (ents ?s) R = tabs (ents s) R" by (rule tabs_same[OF same])
  show "r \<in> R \<Longrightarrow> lookup (ents ?s) r va = lookup (ents s) r va" by (rule lookup_same[OF same])
qed

subsection \<open>Copy-on-write sharing\<close>

text \<open>
  A frame mapped twice is marked in every entry that maps it, and an entry so marked is not
  writable.
\<close>

definition cow_ok :: "(u64 \<Rightarrow> nat \<Rightarrow> u64) \<Rightarrow> u64 set \<Rightarrow> bool" where
  "cow_ok E R \<longleftrightarrow> (\<forall>r \<in> R. \<forall>va \<in> UV. bit (lookup E r va) 0 \<longrightarrow>
     (\<not> bit (lookup E r va) 8 \<longrightarrow> maps E R (PTE2PA (lookup E r va)) = {(r, va)}) \<and>
     (bit (lookup E r va) 2 \<longrightarrow> \<not> bit (lookup E r va) 8))"

lemma cow_okD:
  "cow_ok E R \<Longrightarrow> r \<in> R \<Longrightarrow> va \<in> UV \<Longrightarrow> bit (lookup E r va) 0 \<Longrightarrow> \<not> bit (lookup E r va) 8
    \<Longrightarrow> maps E R (PTE2PA (lookup E r va)) = {(r, va)}"
  by (simp add: cow_ok_def)

lemma maps_keep:
  assumes keep: "vm_keep s s' R K X" and p: "(r, va) \<in> maps (ents s') R p" "(r, va) \<notin> X"
  shows "(r, va) \<in> maps (ents s) R p"
proof -
  have r: "r \<in> R" "va \<in> UV" using p(1) by (auto simp: maps_def)
  then have "lookup (ents s') r va = lookup (ents s) r va"
    using vm_keepD(2)[OF keep r(1), of va] UV_less[OF r(2)] UV_page[OF r(2)] p(2) by simp
  then show ?thesis using p(1) by (simp add: maps_def)
qed

text \<open>Removing mappings, and adding one of a frame nobody else maps, keep sharing marked.\<close>

lemma cow_ok_change:
  assumes cow: "cow_ok (ents s) R" and keep: "vm_keep s s' R K X"
    and new: "\<And>r va. (r, va) \<in> X \<Longrightarrow> r \<in> R \<Longrightarrow> va \<in> UV \<Longrightarrow> bit (lookup (ents s') r va) 0 \<Longrightarrow>
      \<not> bit (lookup (ents s') r va) 8 \<and> maps (ents s') R (PTE2PA (lookup (ents s') r va)) = {(r, va)}"
  shows "cow_ok (ents s') R"
  unfolding cow_ok_def
proof (intro ballI impI)
  fix r va assume r: "r \<in> R" "va \<in> UV" and b: "bit (lookup (ents s') r va) 0"
  let ?e = "lookup (ents s') r va"
  show "(\<not> bit ?e 8 \<longrightarrow> maps (ents s') R (PTE2PA ?e) = {(r, va)}) \<and> (bit ?e 2 \<longrightarrow> \<not> bit ?e 8)"
  proof (cases "(r, va) \<in> X")
    case True
    then show ?thesis using new[OF True r b] by simp
  next
    case False
    then have lk: "?e = lookup (ents s) r va"
      using vm_keepD(2)[OF keep r(1), of va] UV_less[OF r(2)] UV_page[OF r(2)] by simp
    have w: "bit ?e 2 \<longrightarrow> \<not> bit ?e 8" using cow r b lk unfolding cow_ok_def by simp
    have "maps (ents s') R (PTE2PA ?e) = {(r, va)}" if c: "\<not> bit ?e 8"
    proof -
      have in': "(r, va) \<in> maps (ents s') R (PTE2PA ?e)" using r b by (simp add: maps_def leaf_to_def)
      have sole: "maps (ents s) R (PTE2PA ?e) = {(r, va)}" using cow_okD[OF cow r] b c lk by simp
      have "(r', va') = (r, va)" if m: "(r', va') \<in> maps (ents s') R (PTE2PA ?e)" for r' va'
      proof (cases "(r', va') \<in> X")
        case True
        then have "maps (ents s') R (PTE2PA ?e) = {(r', va')}"
          using new[OF True] m by (auto simp: maps_def leaf_to_def)
        with in' show ?thesis by auto
      next
        case False
        with maps_keep[OF keep m] sole show ?thesis by auto
      qed
      with in' show ?thesis by auto
    qed
    with w show ?thesis by simp
  qed
qed

subsection \<open>A new page for a user\<close>

lemma vm_keep_weaken:
  assumes "vm_keep s s' R K X" "\<And>p. 0 < K' p \<Longrightarrow> 0 < K p" "X \<subseteq> Y"
  shows "vm_keep s s' R K' Y"
proof -
  have "z \<notin> Y \<Longrightarrow> z \<notin> X" for z using assms(3) by auto
  then show ?thesis unfolding vm_keep_def using vm_keepD[OF assms(1)] assms(2) by simp
qed

lemma owned_once:
  assumes "vm_inv s R K" "refs s p = 1" "K p = 1"
  shows "maps (ents s) R p = {}" "tabs (ents s) R p = {}"
proof -
  have "card (maps (ents s) R p) = 0" "card (tabs (ents s) R p) = 0"
    using vm_inv_refs[OF assms(1), of p] assms(2,3) by linarith+
  then show "maps (ents s) R p = {}" "tabs (ents s) R p = {}" by auto
qed

text \<open>\<^verbatim>\<open>kalloc\<close> and then filling the page with \<open>m\<close>: the kernel holds it, nobody else sees it.\<close>

lemma fresh_page:
  assumes inv: "vm_inv s R K" and al: "kalloc s = Ret (pg, s1)" "pg \<noteq> 0"
    and m: "\<forall>x. page_of x \<noteq> pg \<longrightarrow> m x = mem s1 x"
  shows "vm_inv (s1\<lparr>mem := m\<rparr>) R (K(pg := 1))" "vm_keep s (s1\<lparr>mem := m\<rparr>) R K {}"
    "\<And>r va. r \<in> R \<Longrightarrow> lookup (ents (s1\<lparr>mem := m\<rparr>)) r va = lookup (ents s) r va"
    "tabs (ents (s1\<lparr>mem := m\<rparr>)) R = tabs (ents s) R"
    "refs (s1\<lparr>mem := m\<rparr>) = (refs s)(pg := 1)" "refs s pg = 0" "page_of pg = pg" "K pg = 0"
    "\<And>x. 0 < refs s (page_of x) \<Longrightarrow> mem s1 x = mem s x"
proof -
  let ?s = "s1\<lparr>mem := m\<rparr>"
  note ka = vm_kalloc[OF inv al]
  have live: "0 < refs s1 pg" "tabs (ents s1) R pg = {}"
    using ka(3) owned_once(2)[OF ka(1), of pg] by auto
  note w = vm_mem_write[OF ka(1), of m]
  have ch: "\<forall>x. m x \<noteq> mem s1 x \<longrightarrow> 0 < refs s1 (page_of x) \<and> tabs (ents s1) R (page_of x) = {}"
    using m live by metis
  show "vm_inv ?s R (K(pg := 1))" using w(1)[OF ch] .
  have lk: "lookup (ents s1) r va = lookup (ents s) r va" if "r \<in> R" for r va
    using ka(7) that by (simp add: pt_ext_def)
  show lk2: "lookup (ents ?s) r va = lookup (ents s) r va" if "r \<in> R" for r va
    using w(3)[OF ch that] lk[OF that] by simp
  show "tabs (ents ?s) R = tabs (ents s) R" using w(2)[OF ch] ka(9) by simp
  show "refs ?s = (refs s)(pg := 1)" "refs s pg = 0" "K pg = 0" using ka by auto
  show "page_of pg = pg" using ka(5) by (simp add: is_page_def)
  show fr: "mem s1 x = mem s x" if "0 < refs s (page_of x)" for x
    using ka.alloc_frame[OF vm_inv_kmem[OF inv] al(1), of x] that ka(4) by (cases "page_of x = pg") auto
  show "vm_keep s ?s R K {}"
  proof (rule vm_keep_liveI[OF inv])
    show "mem ?s x = mem s x" if "0 < refs s (page_of x)" for x
    proof -
      have "page_of x \<noteq> pg" using that ka(4) by auto
      then show ?thesis using m fr[OF that] by simp
    qed
  qed (use lk2 ka(6) in auto)
qed

lemma zero_fresh:
  "page_of pg = pg \<Longrightarrow> page_of x \<noteq> pg \<Longrightarrow> memset m pg c 4096 x = m x"
  by (simp add: memset_page)

lemma map_fresh:
  assumes inv: "vm_inv s R K" and cow: "cow_ok (ents s) R" and r: "r \<in> R" "va \<in> UV"
    and inval: "\<not> bit (lookup (ents s) r va) 0" and perm: "is_perm perm" "\<not> bit perm 8"
    and al: "kalloc s = Ret (pg, s1)" "pg \<noteq> 0" and m: "\<forall>x. page_of x \<noteq> pg \<longrightarrow> m x = mem s1 x"
  obtains (ok) s2 where "mappages r va PGSIZE pg perm (s1\<lparr>mem := m\<rparr>) = Ret (0, s2)" "vm_inv s2 R K"
      "cow_ok (ents s2) R" "vm_keep s s2 R K {(r, va)}" "lookup (ents s2) r va = PA2PTE pg OR perm OR PTE_V"
      "\<And>x. page_of x = pg \<Longrightarrow> mem s2 x = m x"
  | (oom) s2 s3 where "mappages r va PGSIZE pg perm (s1\<lparr>mem := m\<rparr>) = Ret (-1, s2)" "kfree pg s2 = Ret s3"
      "vm_inv s3 R K" "vm_keep s s3 R K {}"
proof -
  let ?s = "s1\<lparr>mem := m\<rparr>" and ?K = "K(pg := 1)"
  note f = fresh_page[OF inv al m]
  have va: "page_of va = va" "va < MAXVA" using r UV_page UV_less by auto
  have K1: "K p = ?K p + (if va \<in> UV \<and> leaf_to (lookup (ents ?s) r va) p then 1 else 0)
      - (if va \<in> UV \<and> p = pg then 1 else 0)" for p
    using inval r f(8) by (simp add: f(3) leaf_to_def)
  note none = owned_once[OF f(1), of pg]
  have old: "\<not> bit (lookup (ents ?s) r va) 0 \<or> bit (lookup (ents ?s) r va) 8" using inval r f(3) by simp
  show thesis
  proof (rule mappages_page[OF f(1) r(1) va f(7) perm(1) old K1 vm_inv_K[OF inv]], goal_cases)
    case (1 s2)
    note ok = 1
    have keep2: "vm_keep ?s s2 R K {(r, va)}"
      by (rule vm_keep_weaken[OF ok(3)]) (use f(8) in auto)
    have keep: "vm_keep s s2 R K {(r, va)}" using f(2) keep2 by (rule vm_keep_trans) simp
    have e: "PTE2PA (lookup (ents s2) r va) = pg" "bit (lookup (ents s2) r va) 0" "\<not> bit (lookup (ents s2) r va) 8"
      using ok(4) f(7) perm by (simp_all add: PTE2PA_entry pte_simps bit_or_iff bit_PA2PTE)
    have "(r', va') = (r, va)" if "(r', va') \<in> maps (ents s2) R pg" for r' va'
      using maps_keep[OF ok(3) that] none f(5) by auto
    then have "maps (ents s2) R pg \<subseteq> {(r, va)}" by (auto simp only: subset_iff split_paired_All)
    moreover have "(r, va) \<in> maps (ents s2) R pg" using r e by (simp add: maps_def leaf_to_def)
    ultimately have sole: "maps (ents s2) R pg = {(r, va)}" by (intro equalityI) simp_all
    have "cow_ok (ents s2) R"
      by (rule cow_ok_change[OF cow keep]) (simp add: sole e)
    moreover have "mem s2 x = m x" if "page_of x = pg" for x
      using ok(5)[of x] that none f(5) by simp
    ultimately show thesis using ok keep that(1) by blast
  next
    case (2 s2)
    note oom = 2
    have K2: "0 < ?K pg" by simp
    have KK: "?K(pg := ?K pg - 1) = K" using f(8) by auto
    obtain s3 where s3: "kfree pg s2 = Ret s3" "vm_inv s3 R K" "vm_keep s2 s3 R K {}"
      using vm_kfree[OF oom(2) K2, unfolded KK] by metis
    have "vm_keep ?s s2 R ?K {}" by (rule pt_ext_keep[OF f(1) oom(3)])
    then have "vm_keep ?s s2 R K {}" by (rule vm_keep_weaken) (use f(8) in auto)
    from this s3(3) have "vm_keep ?s s3 R K {}" by (rule vm_keep_trans) simp
    with f(2) have "vm_keep s s3 R K {}" by (rule vm_keep_trans) simp
    with s3 oom show thesis using that(2) by blast
  qed
qed

subsection \<open>uvmalloc\<close>

lemma less_npg: "i \<le> NUPAGE \<Longrightarrow> vpage i < sz \<longleftrightarrow> i < npg sz"
  by (simp add: word_less_nat_alt unat_vpage npg_def) linarith

text \<open>What \<^verbatim>\<open>uvmalloc\<close> leaves in the new pages: zeroes, with the permissions asked for.\<close>

definition grown :: "'a phys_scheme \<Rightarrow> u64 \<Rightarrow> u64 \<Rightarrow> nat \<Rightarrow> bool" where
  "grown s r perm i \<longleftrightarrow> (\<exists>pg. lookup (ents s) r (vpage i) = PA2PTE pg OR perm OR PTE_V)
     \<and> (\<forall>va. page_of va = vpage i \<longrightarrow> umem s r va = Some 0)"

lemma grown_keep:
  assumes "grown s r perm i" "vm_keep s s' R K X" "r \<in> R" "i < NUPAGE" "(r, vpage i) \<notin> X"
  shows "grown s' r perm i"
  using assms vm_keepD(2)[OF assms(2,3), of "vpage i"] vm_keepD(3)[OF assms(2,3)]
  by (auto simp: grown_def vpage_MAXVA)

lemma is_leaf_entry: "is_perm perm \<Longrightarrow> bit perm 1 \<Longrightarrow> is_leaf (PA2PTE pg OR perm OR PTE_V)"
proof -
  assume p: "is_perm perm" "bit perm 1"
  let ?e = "PA2PTE pg OR perm OR PTE_V"
  have "bit (PTE_FLAGS ?e) 1 \<noteq> bit PTE_V 1" using p by (simp add: pte_simps bit_or_iff)
  then have "PTE_FLAGS ?e \<noteq> PTE_V" by metis
  then show "is_leaf ?e" by (simp add: is_leaf_def bit_or_iff pte_simps)
qed

lemma uvmalloc_step:
  assumes inv: "vm_inv s R K" and cow: "cow_ok (ents s) R" and r: "r \<in> R" and a: "a < NUPAGE" "a < npg newsz"
    and inval: "\<not> bit (lookup (ents s) r (vpage a)) 0"
    and perm: "perm = PTE_R OR PTE_U OR xperm" "is_perm xperm" "\<not> bit xperm 8"
  obtains (more) s' where
      "uvmalloc_loop r (vpage a) oldsz newsz xperm s = uvmalloc_loop r (vpage (Suc a)) oldsz newsz xperm s'"
      "vm_inv s' R K" "cow_ok (ents s') R" "vm_keep s s' R K {(r, vpage a)}" "grown s' r perm a"
  | (oom) s' where "uvmalloc_loop r (vpage a) oldsz newsz xperm s =
        kbind (uvmdealloc r (vpage a) oldsz s') (\<lambda>(_, s). Ret (0, s))"
      "vm_inv s' R K" "cow_ok (ents s') R" "vm_keep s s' R K {}"
proof -
  have lt: "vpage a < newsz" using a by (simp add: less_npg)
  have pm: "is_perm perm" "\<not> bit perm 8" using perm by (simp_all add: bit_or_iff pte_simps)
  obtain pg s1 where al: "kalloc s = Ret (pg, s1)" using ka.alloc_total[OF vm_inv_kmem[OF inv]] by blast
  show thesis
  proof (cases "pg = 0")
    case True
    with al ka.alloc_none[OF vm_inv_kmem[OF inv]] have "s1 = s" by blast
    then have "uvmalloc_loop r (vpage a) oldsz newsz xperm s = kbind (uvmdealloc r (vpage a) oldsz s) (\<lambda>(_, s). Ret (0, s))"
      using al True lt by (simp add: uvmalloc_loop.simps[of r "vpage a"])
    with inv cow show thesis by (intro oom[of s]) auto
  next
    case False
    let ?m = "memset (mem s1) pg 0 4096"
    have pgp: "page_of pg = pg" using vm_kalloc(5)[OF inv al False] by (simp add: is_page_def)
    have m: "\<forall>x. page_of x \<noteq> pg \<longrightarrow> ?m x = mem s1 x" using pgp by (simp add: memset_page)
    have z: "zero_page pg s1 = s1\<lparr>mem := ?m\<rparr>" by (simp add: zero_page_def)
    have un: "uvmalloc_loop r (vpage a) oldsz newsz xperm s =
        kbind (mappages r (vpage a) PGSIZE pg perm (s1\<lparr>mem := ?m\<rparr>)) (\<lambda>(c, s).
          if c \<noteq> 0 then kbind (kfree pg s) (\<lambda>s. kbind (uvmdealloc r (vpage a) oldsz s) (\<lambda>(_, s). Ret (0, s)))
          else uvmalloc_loop r (vpage (Suc a)) oldsz newsz xperm s)"
      unfolding vpage_Suc[symmetric]
      using al False lt perm(1) by (simp add: uvmalloc_loop.simps[of r "vpage a"] z)
    show thesis
    proof (rule map_fresh[OF inv cow r vpage_UV[OF a(1)] inval pm al False m], goal_cases)
      case (1 s2)
      note ok = 1
      have "umem s2 r va = Some 0" if "page_of va = vpage a" for va
      proof -
        have "lookup (ents s2) r va = PA2PTE pg OR perm OR PTE_V"
          using ok(5) lookup_page_of[of "ents s2" r va] that by simp
        then show ?thesis using ok(6) pm pgp
          by (simp add: umem_def PTE2PA_entry offset_page memset_page bit_or_iff pte_simps)
      qed
      with ok un show thesis by (intro more[of s2]) (auto simp: grown_def)
    next
      case (2 s2 s3)
      note oom = 2
      have "cow_ok (ents s3) R" by (rule cow_ok_change[OF cow oom(4)]) simp
      with oom un show thesis by (intro that(2)[of s3]) auto
    qed
  qed
qed

text \<open>All or nothing: either every new page is there, or the address space is as before.\<close>

lemma uvmalloc_loop_ok:
  assumes "vm_inv s R K" "cow_ok (ents s) R" "r \<in> R" "b \<le> a" "a \<le> npg newsz" "npg newsz \<le> NUPAGE"
    and "\<And>i. a \<le> i \<Longrightarrow> i < npg newsz \<Longrightarrow> \<not> bit (lookup (ents s) r (vpage i)) 0"
    and "\<And>i. b \<le> i \<Longrightarrow> i < a \<Longrightarrow> is_leaf (lookup (ents s) r (vpage i))"
    and "perm = PTE_R OR PTE_U OR xperm" "is_perm xperm" "\<not> bit xperm 8"
  shows "\<exists>sz s'. uvmalloc_loop r (vpage a) (vpage b) newsz xperm s = Ret (sz, s') \<and> vm_inv s' R K
    \<and> cow_ok (ents s') R \<and> (if sz = newsz \<and> newsz \<noteq> 0 then vm_keep s s' R K (vrange r a (npg newsz))
          \<and> (\<forall>i. a \<le> i \<and> i < npg newsz \<longrightarrow> grown s' r perm i)
        else sz = 0 \<and> vm_keep s s' R K (vrange r b (npg newsz))
          \<and> (\<forall>i. b \<le> i \<and> i < npg newsz \<longrightarrow> \<not> bit (lookup (ents s') r (vpage i)) 0))"
  using assms(1-8)
proof (induction "npg newsz - a" arbitrary: a s)
  case 0
  then have a: "a = npg newsz" by simp
  with 0 have "\<not> vpage a < newsz" by (simp add: less_npg)
  then have "uvmalloc_loop r (vpage a) (vpage b) newsz xperm s = Ret (newsz, s)"
    by (simp add: uvmalloc_loop.simps[of r "vpage a"])
  moreover have "newsz = 0 \<Longrightarrow> b = 0 \<and> npg newsz = 0" using 0 a by (simp add: npg_def)
  ultimately show ?case using 0 a by auto
next
  case (Suc n)
  then have a: "a < npg newsz" "a < NUPAGE" by auto
  note pm = assms(9,10,11)
  have inval: "\<not> bit (lookup (ents s) r (vpage a)) 0" using Suc.prems(7) a by simp
  show ?case
  proof (rule uvmalloc_step[OF Suc.prems(1-3) a(2,1) inval pm, where oldsz = "vpage b"], goal_cases)
    case (1 s1)
    have lk: "lookup (ents s1) r (vpage i) = lookup (ents s) r (vpage i)" if "i \<noteq> a" "i < npg newsz" for i
      using vm_keepD(2)[OF 1(4) Suc.prems(3), of "vpage i"] that a Suc.prems(6)
      by (simp add: vpage_MAXVA vpage_eq)
    have "is_leaf (lookup (ents s1) r (vpage a))"
      using 1(5) pm is_leaf_entry[of perm] by (auto simp: grown_def bit_or_iff pte_simps)
    then have lf: "is_leaf (lookup (ents s1) r (vpage i))" if "b \<le> i" "i < Suc a" for i
      using Suc.prems(8)[of i] lk[of i] that a(1) by (cases "i = a") auto
    have inv1: "\<not> bit (lookup (ents s1) r (vpage i)) 0" if "Suc a \<le> i" "i < npg newsz" for i
      using Suc.prems(7)[of i] lk[of i] that by auto
    have n: "n = npg newsz - Suc a" "b \<le> Suc a" "Suc a \<le> npg newsz" using Suc a by auto
    obtain sz s2 where 2: "uvmalloc_loop r (vpage (Suc a)) (vpage b) newsz xperm s1 = Ret (sz, s2)" "vm_inv s2 R K"
        "cow_ok (ents s2) R" "if sz = newsz \<and> newsz \<noteq> 0 then vm_keep s1 s2 R K (vrange r (Suc a) (npg newsz))
          \<and> (\<forall>i. Suc a \<le> i \<and> i < npg newsz \<longrightarrow> grown s2 r perm i)
        else sz = 0 \<and> vm_keep s1 s2 R K (vrange r b (npg newsz))
          \<and> (\<forall>i. b \<le> i \<and> i < npg newsz \<longrightarrow> \<not> bit (lookup (ents s2) r (vpage i)) 0)"
      using Suc.hyps(1)[OF n(1) 1(2,3) Suc.prems(3) n(2,3) Suc.prems(6) inv1 lf] by blast
    show ?case
    proof (cases "sz = newsz \<and> newsz \<noteq> 0")
      case True
      then have 3: "vm_keep s1 s2 R K (vrange r (Suc a) (npg newsz))"
          "\<forall>i. Suc a \<le> i \<and> i < npg newsz \<longrightarrow> grown s2 r perm i" using 2(4) by simp_all
      have "grown s2 r perm a"
        using grown_keep[OF 1(5) 3(1) Suc.prems(3) a(2)] Suc.prems(6) a by (simp add: vrange_iff)
      then have "\<forall>i. a \<le> i \<and> i < npg newsz \<longrightarrow> grown s2 r perm i"
        using 3(2) by (auto simp: le_eq_less_or_eq[of a] Suc_le_eq)
      moreover have "vm_keep s s2 R K (vrange r a (npg newsz))"
        using 1(4) 3(1) vrange_Suc[OF a(1)] by (rule vm_keep_trans)
      ultimately show ?thesis using 1(1) 2(1-3) True by auto
    next
      case False
      then have 3: "sz = 0" "vm_keep s1 s2 R K (vrange r b (npg newsz))"
          "\<forall>i. b \<le> i \<and> i < npg newsz \<longrightarrow> \<not> bit (lookup (ents s2) r (vpage i)) 0" using 2(4) by auto
      have "{(r, vpage a)} \<union> vrange r b (npg newsz) \<subseteq> vrange r b (npg newsz)"
        using a Suc.prems(4) by (auto simp: vrange_def)
      with 1(4) 3(2) have "vm_keep s s2 R K (vrange r b (npg newsz))" by (rule vm_keep_trans)
      with 1(1) 2(1-3) 3 False show ?thesis by auto
    qed
  next
    case (2 s1)
    have lk: "lookup (ents s1) r (vpage i) = lookup (ents s) r (vpage i)" if "i < npg newsz" for i
      using vm_keepD(2)[OF 2(4) Suc.prems(3), of "vpage i"] that Suc.prems(6) by (simp add: vpage_MAXVA)
    have sz: "vpage b \<le> vpage a" "unat (vpage a) \<le> 4096 * NUPAGE" "npg (vpage b) = b" "npg (vpage a) = a"
      using Suc.prems(4) a by (auto simp: word_le_nat_alt unat_vpage npg_vpage)
    have lf: "is_leaf (lookup (ents s1) r (vpage i))" if "npg (vpage b) \<le> i" "i < npg (vpage a)" for i
      using Suc.prems(8)[of i] lk[of i] that a sz by auto
    obtain s2 where 3: "uvmdealloc r (vpage a) (vpage b) s1 = Ret (vpage b, s2)" "vm_inv s2 R K"
        "vm_keep s1 s2 R K (vrange r b a)" "\<And>i. b \<le> i \<Longrightarrow> i < a \<Longrightarrow> lookup (ents s2) r (vpage i) = 0"
      using uvmdealloc_ok[OF 2(2) Suc.prems(3) sz(1,2) lf] unfolding sz(3,4) by blast
    have cow2: "cow_ok (ents s2) R"
      by (rule cow_ok_change[OF 2(3) 3(3)]) (auto simp: vrange_def 3(4))
    have sub: "{} \<union> vrange r b a \<subseteq> vrange r b (npg newsz)" using a by (auto simp: vrange_def)
    have keep: "vm_keep s s2 R K (vrange r b (npg newsz))" using 2(4) 3(3) sub by (rule vm_keep_trans)
    have "\<not> bit (lookup (ents s2) r (vpage i)) 0" if "b \<le> i" "i < npg newsz" for i
    proof (cases "i < a")
      case True
      then show ?thesis using 3(4) that by simp
    next
      case False
      then show ?thesis using vm_keepD(2)[OF 3(3) Suc.prems(3), of "vpage i"] lk[of i] Suc.prems(6,7) that a
        by (simp add: vpage_MAXVA vrange_iff)
    qed
    with 2(1) 3(1,2) cow2 keep a show ?case by (auto simp: npg_def)
  qed
qed

end
