(* ===== verification/Fork.thy ===== *)
theory Fork
  imports UserVm
begin

text \<open>
  Copy-on-write sharing of an address space: \<^verbatim>\<open>uvmcopy\<close> (\<^verbatim>\<open>kernel/vm.c\<close>).  The child sees the bytes
  of its parent, both map the same frames, no shared frame is writable, and when a page table
  cannot be allocated the child is left empty and the parent's memory unchanged.
\<close>

subsection \<open>Counting a reference before or after mapping\<close>

text \<open>
  \<^verbatim>\<open>uvmcopy\<close> maps the frame first and counts the reference afterwards.  Mapping does not read the
  counts, so the order makes no difference.
\<close>

definition inc_ref :: "nat \<Rightarrow> 'a phys_scheme \<Rightarrow> 'a phys_scheme" where
  "inc_ref i s = s\<lparr>refCount := (refCount s)(i := refCount s i + 1)\<rparr>"

fun kmap :: "('a \<Rightarrow> 'b) \<Rightarrow> 'a kres \<Rightarrow> 'b kres" where
  "kmap f (Ret x) = Ret (f x)"
| "kmap f (Panic m) = Panic m"
| "kmap f (Fault m) = Fault m"
| "kmap f (Block c) = Block c"

lemma inc_ref_fields [simp]:
  "mem (inc_ref i s) = mem s" "kmem_freelist (inc_ref i s) = kmem_freelist s" "kend (inc_ref i s) = kend s"
  "pte_load a (inc_ref i s) = pte_load a s" "inc_ref i (s\<lparr>mem := m\<rparr>) = (inc_ref i s)\<lparr>mem := m\<rparr>"
  "inc_ref i (pte_store a e s) = pte_store a e (inc_ref i s)" "inc_ref i (zero_page p s) = zero_page p (inc_ref i s)"
  by (simp_all add: inc_ref_def pte_load_def pte_store_def zero_page_def)

lemma refInc_inc_ref: "refIdx pa < NREF \<Longrightarrow> refInc pa s = Ret (inc_ref (refIdx pa) s)"
  by (simp add: refInc_def ref_upd_def inc_ref_def)

lemma ref_upd_inc: "ref_upd (\<lambda>c. c + 1) r (inc_ref i s) = kmap (inc_ref i) (ref_upd (\<lambda>c. c + 1) r s)"
  by (cases s) (auto simp: ref_upd_def inc_ref_def fun_upd_twist)

lemma kalloc_inc: "kalloc (inc_ref i s) = kmap (map_prod id (inc_ref i)) (kalloc s)"
proof (cases "kmem_freelist s = 0")
  case False
  let ?s = "s\<lparr>kmem_freelist := load64 (mem s) (kmem_freelist s), mem := memset (mem s) (kmem_freelist s) 5 4096\<rparr>"
  have "inc_ref i ?s = (inc_ref i s)\<lparr>kmem_freelist := load64 (mem s) (kmem_freelist s),
      mem := memset (mem s) (kmem_freelist s) 5 4096\<rparr>" by (simp add: inc_ref_def)
  then have "kalloc (inc_ref i s) = kbind (ref_upd (\<lambda>c. c + 1) (kmem_freelist s) (inc_ref i ?s)) (\<lambda>t. Ret (kmem_freelist s, t))"
    using False by (simp add: kalloc_def Let_def)
  moreover have "kalloc s = kbind (ref_upd (\<lambda>c. c + 1) (kmem_freelist s) ?s) (\<lambda>t. Ret (kmem_freelist s, t))"
    using False by (simp add: kalloc_def Let_def)
  ultimately show ?thesis unfolding ref_upd_inc by (cases "ref_upd (\<lambda>c. c + 1) (kmem_freelist s) ?s") auto
qed (simp add: kalloc_def)

lemma walk_loop_inc:
  "walk_loop l pt va alloc (inc_ref i s) = kmap (map_prod id (inc_ref i)) (walk_loop l pt va alloc s)"
proof (induction l arbitrary: pt s)
  case (Suc l)
  show ?case
  proof (cases "pte_load (slot pt (PX (Suc l) va)) s AND PTE_V \<noteq> 0 \<or> \<not> alloc")
    case True
    then show ?thesis using Suc by (auto simp: Let_def)
  next
    case False
    then show ?thesis
      using Suc by (cases "kalloc s") (auto simp: Let_def kalloc_inc inc_ref_fields(6,7)[symmetric] simp del: inc_ref_fields(6,7))
  qed
qed simp

lemma mappages_inc:
  assumes "page_of va = va"
  shows "mappages r va PGSIZE pa perm (inc_ref i s) = kmap (map_prod id (inc_ref i)) (mappages r va PGSIZE pa perm s)"
proof -
  have "walk r va True (inc_ref i s) = kmap (map_prod id (inc_ref i)) (walk r va True s)"
    by (simp add: walk_def walk_loop_inc)
  then show ?thesis
    unfolding mappages_single[OF assms] by (cases "walk r va True s") auto
qed

lemma vm_refInc:
  assumes inv: "vm_inv s R K" and p: "0 < refs s p" "tabs (ents s) R p = {}"
  shows "refInc p s' = Ret (inc_ref (refIdx p) s')"
    "vm_inv (inc_ref (refIdx p) s) R (K(p := K p + 1))" "ents (inc_ref i s') = ents s'"
    "refs (inc_ref (refIdx p) s) = (refs s)(p := refs s p + 1)"
proof -
  have pg: "is_page s p" using refs_page[of s p] p(1) by simp
  have lo: "layout_ok s" using kmem_ok_layout[OF vm_inv_kmem[OF inv]] .
  note b = is_page_bounds[OF lo pg]
  show 1: "refInc p s' = Ret (inc_ref (refIdx p) s')" for s' by (rule refInc_inc_ref[OF b(3)])
  show e: "ents (inc_ref i s') = ents s'" for i s' by (simp add: ents_def fun_eq_iff)
  have ok: "kmem_ok (inc_ref (refIdx p) s)"
    and r: "refs (inc_ref (refIdx p) s) = (refs s)(p := refs s p + 1)"
    using ka.share_live[OF vm_inv_kmem[OF inv] p(1)] by (auto simp: 1)
  show "refs (inc_ref (refIdx p) s) = (refs s)(p := refs s p + 1)" by (rule r)
  show "vm_inv (inc_ref (refIdx p) s) R (K(p := K p + 1))"
    by (rule vm_inv_same[OF inv ok]) (use vm_inv_K[OF inv] p in \<open>auto simp: e r intro: add_nonneg_nonneg\<close>)
qed

subsection \<open>Marking and sharing one page\<close>

definition cow_entry :: "u64 \<Rightarrow> u64" where
  "cow_entry e = (e OR PTE_COW) AND NOT PTE_W"

definition child_perm :: "u64 \<Rightarrow> u64" where
  "child_perm e = (PTE_FLAGS e OR PTE_COW) AND NOT (PTE_W OR PTE_V)"

definition child_entry :: "u64 \<Rightarrow> u64" where
  "child_entry e = PA2PTE (PTE2PA e) OR child_perm e OR PTE_V"

lemma bit_cow_entry: "n < 64 \<Longrightarrow> bit (cow_entry e) n \<longleftrightarrow> n \<noteq> 2 \<and> (bit e n \<or> n = 8)"
  by (auto simp: cow_entry_def bit_or_iff bit_and_iff bit_not_iff pte_simps)

lemma PTE2PA_cow_entry [simp]: "PTE2PA (cow_entry e) = PTE2PA e"
proof (rule bit_word_eqI)
  fix n assume "n < LENGTH(64)"
  then show "bit (PTE2PA (cow_entry e)) n = bit (PTE2PA e) n"
    unfolding bit_PTE2PA using bit_cow_entry[of "n - 2" e] by auto
qed

lemma child_perm: "is_perm (child_perm e)"
  by (simp add: child_perm_def)

lemma PTE2PA_child_entry [simp]: "PTE2PA (child_entry e) = PTE2PA e"
  by (simp add: child_entry_def PTE2PA_entry child_perm)

lemma bit_child_entry: "n < 10 \<Longrightarrow> bit (child_entry e) n \<longleftrightarrow> n \<noteq> 2 \<and> (bit e n \<or> n = 8 \<or> n = 0)"
  by (auto simp: child_entry_def child_perm_def bit_or_iff bit_and_iff bit_not_iff bit_PA2PTE pte_simps)

lemma mark_cow:
  assumes inv: "vm_inv s R K" and r: "r \<in> R" "va \<in> UV" and e: "bit (lookup (ents s) r va) 0"
    and t: "(r, vpath va) \<in> tabs (ents s) R t"
  defines "s1 \<equiv> pte_store (slot t (PX 0 va)) (cow_entry (lookup (ents s) r va)) s"
  shows "vm_inv s1 R K" "vm_keep s s1 R K {(r, va)}" "refs s1 = refs s" "tabs (ents s1) R = tabs (ents s) R"
    "lookup (ents s1) r va = cow_entry (lookup (ents s) r va)"
    "\<And>x. page_of x = va \<Longrightarrow> umem s1 r x = umem s r x"
proof -
  let ?e = "lookup (ents s) r va"
  have va: "page_of va = va" "va < MAXVA" using r UV_page UV_less by auto
  note lu = lookup_leaf_store[OF inv t va(2), where e = "cow_entry ?e"]
  have lt: "leaf_to (cow_entry ?e) p \<longleftrightarrow> leaf_to ?e p" for p by (simp add: leaf_to_def bit_cow_entry)
  show "vm_inv s1 R K"
    unfolding s1_def by (rule vm_leaf_store[OF inv t va(2)]) (simp_all add: lt vm_inv_K[OF inv])
  have t1: "page_of t = t" using vm_inv_table[OF inv t] by simp
  have bytes: "mem s1 x = mem s x" if "tabs (ents s) R (page_of x) = {}" for x
    unfolding s1_def using that t t1 by (intro pte_store_frame) auto
  show "vm_keep s s1 R K {(r, va)}"
    by (rule vm_keep_liveI[OF inv _ _ bytes]) (use lu(2) va(1) in \<open>auto simp: s1_def\<close>)
  show "refs s1 = refs s" "tabs (ents s1) R = tabs (ents s) R" using lu(1) by (simp_all add: s1_def)
  show lk: "lookup (ents s1) r va = cow_entry ?e" using lu(2)[OF r(1) va(2)] by (simp add: s1_def)
  show "umem s1 r x = umem s r x" if x: "page_of x = va" for x
  proof -
    have le: "lookup (ents s1) r x = cow_entry ?e" "lookup (ents s) r x = ?e"
      using lk lookup_page_of[of _ r x] x by metis+
    have "(r, va) \<in> maps (ents s) R (PTE2PA ?e)" using r e by (simp add: maps_def leaf_to_def)
    then have "tabs (ents s) R (PTE2PA ?e) = {}" using vm_inv_mapped[OF inv] by auto
    then have "mem s1 (PTE2PA ?e + (x - page_of x)) = mem s (PTE2PA ?e + (x - page_of x))"
      by (intro bytes) (simp add: offset_page)
    then show ?thesis by (simp add: umem_def Let_def le bit_cow_entry e)
  qed
qed

lemma cow_ok_share:
  assumes cow: "cow_ok (ents s) R" and keep: "vm_keep s s' R K {(a, va), (b, va)}"
    and old: "(a, va) \<in> maps (ents s) R p"
    and ea: "PTE2PA (lookup (ents s') a va) = p" "bit (lookup (ents s') a va) 8" "\<not> bit (lookup (ents s') a va) 2"
    and eb: "PTE2PA (lookup (ents s') b va) = p" "bit (lookup (ents s') b va) 8" "\<not> bit (lookup (ents s') b va) 2"
  shows "cow_ok (ents s') R"
  unfolding cow_ok_def
proof (intro ballI impI)
  fix r v assume r: "r \<in> R" "v \<in> UV" and bt: "bit (lookup (ents s') r v) 0"
  let ?e = "lookup (ents s') r v"
  show "(\<not> bit ?e 8 \<longrightarrow> maps (ents s') R (PTE2PA ?e) = {(r, v)}) \<and> (bit ?e 2 \<longrightarrow> \<not> bit ?e 8)"
  proof (cases "(r, v) \<in> {(a, va), (b, va)}")
    case True
    then show ?thesis using ea eb by auto
  next
    case False
    then have lk: "?e = lookup (ents s) r v"
      using vm_keepD(2)[OF keep r(1), of v] UV_less[OF r(2)] UV_page[OF r(2)] by simp
    have w: "bit ?e 2 \<longrightarrow> \<not> bit ?e 8" using cow r bt lk unfolding cow_ok_def by simp
    have "maps (ents s') R (PTE2PA ?e) = {(r, v)}" if c: "\<not> bit ?e 8"
    proof -
      have sole: "maps (ents s) R (PTE2PA ?e) = {(r, v)}" using cow_okD[OF cow r] bt c lk by simp
      have np: "PTE2PA ?e \<noteq> p" using old sole False by auto
      have "(r', v') = (r, v)" if m: "(r', v') \<in> maps (ents s') R (PTE2PA ?e)" for r' v'
      proof (cases "(r', v') \<in> {(a, va), (b, va)}")
        case True
        then have "PTE2PA (lookup (ents s') r' v') = p" using ea(1) eb(1) by auto
        with m np show ?thesis by (simp add: maps_def leaf_to_def)
      next
        case False
        with maps_keep[OF keep m] sole show ?thesis by auto
      qed
      then have "maps (ents s') R (PTE2PA ?e) \<subseteq> {(r, v)}" by (auto simp only: subset_iff split_paired_All)
      moreover have "(r, v) \<in> maps (ents s') R (PTE2PA ?e)" using r bt by (simp add: maps_def leaf_to_def)
      ultimately show ?thesis by (intro equalityI) simp_all
    qed
    with w show ?thesis by simp
  qed
qed

text \<open>Page \<open>i\<close> of the child and its parent after the step.\<close>

definition shared :: "'a phys_scheme \<Rightarrow> 'a phys_scheme \<Rightarrow> u64 \<Rightarrow> u64 \<Rightarrow> nat \<Rightarrow> bool" where
  "shared s s' old new i \<longleftrightarrow>
     lookup (ents s') old (vpage i) = cow_entry (lookup (ents s) old (vpage i))
     \<and> lookup (ents s') new (vpage i) = child_entry (lookup (ents s) old (vpage i))
     \<and> (\<forall>va. page_of va = vpage i \<longrightarrow> umem s' new va = umem s old va \<and> umem s' old va = umem s old va)"

lemma shared_keep:
  assumes "shared s s1 old new i" "vm_keep s1 s2 R K X" "old \<in> R" "new \<in> R" "i < NUPAGE"
    "(old, vpage i) \<notin> X" "(new, vpage i) \<notin> X"
  shows "shared s s2 old new i"
  using assms vm_keepD(2,3)[OF assms(2,3)] vm_keepD(2,3)[OF assms(2,4)]
  by (auto simp: shared_def vpage_MAXVA)

lemma ents_inc [simp]: "ents (inc_ref i s) = ents s"
  by (simp add: ents_def fun_eq_iff)

lemma vm_keep_inc: "vm_keep s (inc_ref i s) R K {}"
  by (rule vm_keepI) (auto simp: is_page_def fun_eq_iff)

lemma kfree_inc:
  assumes inv: "vm_inv s R K" and p: "1 < refs s p" and f: "kfree p s = Ret s'" and s: "s = inc_ref (refIdx p) t"
  shows "s' = t"
proof -
  have pg: "is_page s p" using refs_page[of s p] p by simp
  have rc: "refs s p = refCount t (refIdx p) + 1" using pg s by (simp add: refs_def inc_ref_def)
  have "s' = s\<lparr>refCount := (refCount s)(refIdx p := refs s p - 1)\<rparr>"
    using f p kfree_cases[OF kmem_ok_layout[OF vm_inv_kmem[OF inv]] pg] by simp
  then show ?thesis by (simp add: s rc[unfolded s]) (simp add: inc_ref_def)
qed

lemma share_page:
  assumes inv: "vm_inv s R K" and cow: "cow_ok (ents s) R" and R: "old \<in> R" "new \<in> R" "old \<noteq> new"
    and va: "va \<in> UV" and e: "bit (lookup (ents s) old va) 0" and n: "\<not> bit (lookup (ents s) new va) 0"
    and t: "(old, vpath va) \<in> tabs (ents s) R t"
  defines "p \<equiv> PTE2PA (lookup (ents s) old va)"
    and "s1 \<equiv> pte_store (slot t (PX 0 va)) (cow_entry (lookup (ents s) old va)) s"
  obtains (ok) s2 s3 where "mappages new va PGSIZE p (child_perm (lookup (ents s) old va)) s1 = Ret (0, s2)"
      "refInc p s2 = Ret s3" "vm_inv s3 R K" "cow_ok (ents s3) R" "vm_keep s s3 R K {(old, va), (new, va)}"
      "lookup (ents s3) old va = cow_entry (lookup (ents s) old va)"
      "lookup (ents s3) new va = child_entry (lookup (ents s) old va)"
      "\<And>x. page_of x = va \<Longrightarrow> umem s3 new x = umem s old x \<and> umem s3 old x = umem s old x"
  | (oom) s2 where "mappages new va PGSIZE p (child_perm (lookup (ents s) old va)) s1 = Ret (-1, s2)"
      "vm_inv s2 R K" "cow_ok (ents s2) R" "vm_keep s s2 R K {(old, va)}"
      "\<And>x. page_of x = va \<Longrightarrow> umem s2 old x = umem s old x"
proof -
  let ?e = "lookup (ents s) old va"
  note mk = mark_cow[OF inv R(1) va e t, folded s1_def]
  have vp: "page_of va = va" "va < MAXVA" using va UV_page UV_less by auto
  have pm: "(old, va) \<in> maps (ents s) R p" using R va e by (simp add: maps_def leaf_to_def p_def)
  then have live: "0 < refs s1 p" "tabs (ents s1) R p = {}" using vm_inv_mapped[OF inv, of p] mk(3,4) by auto
  note rI = vm_refInc[OF mk(1) live]
  let ?i = "inc_ref (refIdx p) s1" and ?K = "K(p := K p + 1)"
  have lki: "lookup (ents ?i) r x = lookup (ents s1) r x" for r x by (simp add: rI(3))
  have ln: "lookup (ents s1) new va = lookup (ents s) new va"
    using vm_keepD(2)[OF mk(2) R(2) vp(2)] vp(1) R(3) by simp
  have old: "\<not> bit (lookup (ents ?i) new va) 0 \<or> bit (lookup (ents ?i) new va) 8" using n ln lki by simp
  have K': "K q = ?K q + (if va \<in> UV \<and> leaf_to (lookup (ents ?i) new va) q then 1 else 0)
      - (if va \<in> UV \<and> q = p then 1 else 0)" for q
    using n ln lki va by (simp add: leaf_to_def)
  have pp: "page_of p = p" by (simp add: p_def)
  show thesis
  proof (rule mappages_page[OF rI(2) R(2) vp pp child_perm[of ?e] old K' vm_inv_K[OF inv]], goal_cases)
    case (1 s3)
    obtain s2 where s2: "mappages new va PGSIZE p (child_perm ?e) s1 = Ret (0, s2)" "s3 = inc_ref (refIdx p) s2"
      using 1(1) unfolding mappages_inc[OF vp(1)]
      by (cases "mappages new va PGSIZE p (child_perm ?e) s1") auto
    have kp: "vm_keep ?i s3 R K {(new, va)}" by (rule vm_keep_weaken[OF 1(3)]) (use vm_inv_K[OF inv, of p] in auto)
    have "vm_keep s ?i R K {(old, va)}" using mk(2) vm_keep_inc by (rule vm_keep_trans) simp
    from this kp have keep: "vm_keep s s3 R K {(old, va), (new, va)}" by (rule vm_keep_trans) auto
    have lo: "lookup (ents s3) old va = cow_entry ?e"
      using vm_keepD(2)[OF kp R(1) vp(2)] vp(1) R(3) mk(5) lki by simp
    have lc: "lookup (ents s3) new va = child_entry ?e" using 1(4) by (simp add: child_entry_def p_def)
    have cow3: "cow_ok (ents s3) R"
      by (rule cow_ok_share[OF cow keep pm]) (simp_all add: lo lc p_def bit_cow_entry bit_child_entry)
    have um: "umem s3 new x = umem s old x \<and> umem s3 old x = umem s old x" if x: "page_of x = va" for x
    proof
      have b: "umem ?i r y = umem s1 r y" for r y by (simp add: umem_def Let_def)
      show uo: "umem s3 old x = umem s old x"
        using vm_keepD(3)[OF kp R(1), of x] x va R(3) mk(6)[OF x] b by simp
      have l: "lookup (ents s3) new x = child_entry ?e" "lookup (ents s3) old x = cow_entry ?e"
        using lo lc lookup_page_of[of "ents s3" new x] lookup_page_of[of "ents s3" old x] x by simp_all
      then have "umem s3 new x = umem s3 old x"
        using e by (simp add: umem_def Let_def bit_cow_entry bit_child_entry)
      with uo show "umem s3 new x = umem s old x" by simp
    qed
    from s2 1(2) rI(1) keep cow3 lo lc um show thesis by (intro ok[of s2 s3]) auto
  next
    case (2 s3)
    obtain s2 where s2: "mappages new va PGSIZE p (child_perm ?e) s1 = Ret (-1, s2)" "s3 = inc_ref (refIdx p) s2"
      using 2(1) unfolding mappages_inc[OF vp(1)]
      by (cases "mappages new va PGSIZE p (child_perm ?e) s1") auto
    have KK: "?K(p := ?K p - 1) = K" by simp
    have K2: "0 < ?K p" using vm_inv_K[OF inv, of p] by simp
    obtain s4 where s4: "kfree p s3 = Ret s4" "vm_inv s4 R K" "vm_keep s3 s4 R K {}"
      using vm_kfree[OF 2(2) K2, unfolded KK] by metis
    have "s4 = s2" by (rule kfree_inc[OF 2(2) _ s4(1) s2(2)]) (use 2(3) live rI(4) in \<open>auto simp: pt_ext_def\<close>)
    note s4 = s4[unfolded this]
    have "vm_keep ?i s3 R ?K {}" by (rule pt_ext_keep[OF rI(2) 2(3)])
    then have "vm_keep ?i s3 R K {}" by (rule vm_keep_weaken) (use vm_inv_K[OF inv, of p] in auto)
    from this s4(3) have "vm_keep ?i s2 R K {}" by (rule vm_keep_trans) simp
    from vm_keep_inc this have k2: "vm_keep s1 s2 R K {}" by (rule vm_keep_trans) simp
    from mk(2) this have keep: "vm_keep s s2 R K {(old, va)}" by (rule vm_keep_trans) simp
    have "lookup (ents s2) old va = cow_entry ?e" using vm_keepD(2)[OF k2 R(1) vp(2)] mk(5) by simp
    then have "cow_ok (ents s2) R"
      using keep by (intro cow_ok_share[OF cow _ pm, where K = K and b = old]) (simp_all add: p_def bit_cow_entry)
    moreover have "umem s2 old x = umem s old x" if x: "page_of x = va" for x
      using vm_keepD(3)[OF k2 R(1), of x] x va mk(6)[OF x] by simp
    ultimately show thesis using s2(1) s4(2) keep by (intro oom[of s2]) auto
  qed
qed

subsection \<open>uvmcopy\<close>

lemma uvmcopy_unfold:
  assumes inv: "vm_inv s R K" and R: "old \<in> R" and i: "i < NUPAGE" "i < npg sz"
    and e: "bit (lookup (ents s) old (vpage i)) 0"
    and t: "(old, vpath (vpage i)) \<in> tabs (ents s) R t"
  defines "ee \<equiv> lookup (ents s) old (vpage i)"
  shows "uvmcopy_loop old new (vpage i) sz s =
    kbind (mappages new (vpage i) PGSIZE (PTE2PA ee) (child_perm ee)
        (pte_store (slot t (PX 0 (vpage i))) (cow_entry ee) s)) (\<lambda>(r, s).
      if r \<noteq> 0 then kbind (uvmunmap new 0 (vpage i div PGSIZE) True s) (\<lambda>s. Ret (-1, s))
      else kbind (refInc (PTE2PA ee) s) (uvmcopy_loop old new (vpage (Suc i)) sz))"
proof -
  have lt: "vpage i < sz" using i by (simp add: less_npg)
  have w: "walk old (vpage i) False s = Ret (slot t (PX 0 (vpage i)), s)"
    using t walk_present[OF vpage_MAXVA, of i s old t False] i(1) by (simp add: tabs_def)
  show ?thesis
    unfolding vpage_Suc[symmetric] ee_def
    using w lt e slot_nonzero[OF inv t PX_less] pte_load_slot[OF t]
    by (subst uvmcopy_loop.simps)
      (simp add: Let_def and_flag child_perm_def cow_entry_def)
qed

lemma uvmcopy_step:
  assumes inv: "vm_inv s R K" and cow: "cow_ok (ents s) R" and R: "old \<in> R" "new \<in> R" "old \<noteq> new"
    and i: "i < NUPAGE" "i < npg sz"
    and e: "bit (lookup (ents s) old (vpage i)) 0" "\<not> bit (lookup (ents s) new (vpage i)) 0"
  obtains (more) s' where "uvmcopy_loop old new (vpage i) sz s = uvmcopy_loop old new (vpage (Suc i)) sz s'"
      "vm_inv s' R K" "cow_ok (ents s') R" "vm_keep s s' R K {(old, vpage i), (new, vpage i)}" "shared s s' old new i"
  | (oom) s' where "uvmcopy_loop old new (vpage i) sz s =
        kbind (uvmunmap new 0 (vpage i div PGSIZE) True s') (\<lambda>s. Ret (-1, s))"
      "vm_inv s' R K" "cow_ok (ents s') R" "vm_keep s s' R K {(old, vpage i)}"
      "\<And>x. page_of x = vpage i \<Longrightarrow> umem s' old x = umem s old x"
proof -
  obtain t where t: "(old, vpath (vpage i)) \<in> tabs (ents s) R t" using lookup_table[OF e(1) R(1)] by blast
  note un = uvmcopy_unfold[OF inv R(1) i e(1) t, of new]
  show thesis
  proof (rule share_page[OF inv cow R vpage_UV[OF i(1)] e t], goal_cases)
    case (1 s2 s3)
    then show thesis using un by (intro more[of s3]) (auto simp: shared_def)
  next
    case (2 s2)
    then show thesis using un by (intro oom[of s2]) auto
  qed
qed

lemma is_leaf_child: "bit e 0 \<Longrightarrow> is_leaf (child_entry e)"
proof -
  assume "bit e 0"
  have "bit (PTE_FLAGS (child_entry e)) 8 \<noteq> bit PTE_V 8" by (simp add: pte_simps bit_child_entry)
  then have "PTE_FLAGS (child_entry e) \<noteq> PTE_V" by metis
  then show ?thesis by (simp add: is_leaf_def bit_child_entry)
qed

lemma vpage_div: "i \<le> NUPAGE \<Longrightarrow> vpage i div PGSIZE = of_nat i"
  using unat_of_nat_small[of i] by (simp add: word_unat_eq_iff unat_div unat_vpage PGSIZE_def NUPAGE_def)

text \<open>What the loop does from page \<open>i\<close> on: it shares the rest, or undoes the child.\<close>

definition copy_post :: "'a phys_scheme \<Rightarrow> 'a phys_scheme \<Rightarrow> u64 \<Rightarrow> u64 \<Rightarrow> nat \<Rightarrow> nat \<Rightarrow> int \<Rightarrow> u64 set
    \<Rightarrow> (u64 \<Rightarrow> int) \<Rightarrow> bool" where
  "copy_post s s' old new i n r R K \<longleftrightarrow>
     vm_keep s s' R K (vrange old i n \<union> vrange new 0 n)
     \<and> (\<forall>va. page_of va \<in> UV \<longrightarrow> umem s' old va = umem s old va)
     \<and> (if r = 0 then vm_keep s s' R K (vrange old i n \<union> vrange new i n)
          \<and> (\<forall>j. i \<le> j \<and> j < n \<longrightarrow> shared s s' old new j)
        else r = -1 \<and> (\<forall>j. j < n \<longrightarrow> \<not> bit (lookup (ents s') new (vpage j)) 0))"

lemma shared_first:
  assumes "vm_keep s s1 R K X" "shared s1 s2 old new i" "old \<in> R" "i < NUPAGE" "(old, vpage i) \<notin> X"
  shows "shared s s2 old new i"
  using assms vm_keepD(2,3)[OF assms(1,3)] by (auto simp: shared_def vpage_MAXVA)

lemma keep_two:
  "vm_keep s s1 R K {(old, vpage i), (new, vpage i)} \<Longrightarrow>
   vm_keep s1 s2 R K (vrange old (Suc i) n \<union> vrange new b n) \<Longrightarrow> i < n \<Longrightarrow> b \<le> i \<or> b = Suc i \<Longrightarrow>
   vm_keep s s2 R K (vrange old i n \<union> vrange new (min b i) n)"
  by (erule (1) vm_keep_trans) (auto simp: vrange_def)

lemma copy_post_step:
  assumes R: "old \<in> R" "new \<in> R" "old \<noteq> new" and i: "i < n" "n \<le> NUPAGE"
    and 1: "vm_keep s s1 R K {(old, vpage i), (new, vpage i)}" "shared s s1 old new i"
    and 2: "copy_post s1 s2 old new (Suc i) n r R K"
  shows "copy_post s s2 old new i n r R K"
proof -
  have "umem s1 old va = umem s old va" if v: "page_of va \<in> UV" for va
    using 1(2) vm_keepD(3)[OF 1(1) R(1) v] R(3) by (cases "page_of va = vpage i") (auto simp: shared_def)
  then have um: "\<forall>va. page_of va \<in> UV \<longrightarrow> umem s2 old va = umem s old va" using 2 by (simp add: copy_post_def)
  have k0: "vm_keep s s2 R K (vrange old i n \<union> vrange new 0 n)"
    using keep_two[OF 1(1) _ i(1), of s2 0] 2 by (simp add: copy_post_def)
  have "vm_keep s s2 R K (vrange old i n \<union> vrange new i n) \<and> (\<forall>j. i \<le> j \<and> j < n \<longrightarrow> shared s s2 old new j)"
    if r: "r = 0"
  proof -
    have 3: "vm_keep s1 s2 R K (vrange old (Suc i) n \<union> vrange new (Suc i) n)"
        "\<forall>j. Suc i \<le> j \<and> j < n \<longrightarrow> shared s1 s2 old new j" using 2 r by (auto simp: copy_post_def)
    have "shared s s2 old new i"
      using shared_keep[OF 1(2) 3(1) R(1,2)] i R(3) by (simp add: vrange_iff)
    moreover have "shared s s2 old new j" if "Suc i \<le> j" "j < n" for j
      using shared_first[OF 1(1) _ R(1)] 3(2) that i R(3) by (simp add: vpage_eq)
    ultimately have "\<forall>j. i \<le> j \<and> j < n \<longrightarrow> shared s s2 old new j"
      by (auto simp: le_eq_less_or_eq[of i] Suc_le_eq)
    then show ?thesis using keep_two[OF 1(1) 3(1) i(1)] by simp
  qed
  with um k0 2 show ?thesis by (auto simp: copy_post_def)
qed

lemma uvmcopy_undo:
  assumes inv: "vm_inv s R K" and cow: "cow_ok (ents s) R" and r: "new \<in> R" and i: "i \<le> NUPAGE"
    and lf: "\<And>j. j < i \<Longrightarrow> is_leaf (lookup (ents s) new (vpage j))"
  obtains s' where "uvmunmap new 0 (vpage i div PGSIZE) True s = Ret s'" "vm_inv s' R K" "cow_ok (ents s') R"
    "vm_keep s s' R K (vrange new 0 i)" "\<And>j. j < i \<Longrightarrow> lookup (ents s') new (vpage j) = 0"
proof -
  have i0: "0 + i \<le> NUPAGE" using i by simp
  have lf0: "0 \<le> j \<Longrightarrow> j < 0 + i \<Longrightarrow> is_leaf (lookup (ents s) new (vpage j))" for j using lf by simp
  have z: "vpage 0 = 0" by (simp add: vpage_def)
  obtain s' where s': "uvmunmap new 0 (of_nat i) True s = Ret s'" "vm_inv s' R K"
      "vm_keep s s' R K (vrange new 0 i)" "\<And>j. j < i \<Longrightarrow> lookup (ents s') new (vpage j) = 0"
    using uvmunmap_ok[OF inv r i0 lf0] unfolding z by auto
  have "cow_ok (ents s') R"
    by (rule cow_ok_change[OF cow s'(3)]) (use s'(4) in \<open>auto simp: vrange_def\<close>)
  with s' show thesis by (intro that) (simp_all add: vpage_div[OF i])
qed

lemma copy_post_undo:
  assumes R: "old \<in> R" "new \<in> R" "old \<noteq> new" and i: "i < n" "n \<le> NUPAGE"
    and 1: "vm_keep s s1 R K {(old, vpage i)}" "\<And>x. page_of x = vpage i \<Longrightarrow> umem s1 old x = umem s old x"
    and 2: "vm_keep s1 s2 R K (vrange new 0 i)" "\<And>j. j < i \<Longrightarrow> lookup (ents s2) new (vpage j) = 0"
    and nw: "\<And>j. i \<le> j \<Longrightarrow> j < n \<Longrightarrow> \<not> bit (lookup (ents s) new (vpage j)) 0"
  shows "copy_post s s2 old new i n (-1) R K"
proof -
  have "umem s1 old va = umem s old va" if v: "page_of va \<in> UV" for va
    using 1(2) vm_keepD(3)[OF 1(1) R(1) v] by (cases "page_of va = vpage i") auto
  moreover have "umem s2 old va = umem s1 old va" if v: "page_of va \<in> UV" for va
    using vm_keepD(3)[OF 2(1) R(1) v] R(3) by (auto simp: vrange_def)
  moreover have "\<not> bit (lookup (ents s2) new (vpage j)) 0" if j: "j < n" for j
  proof (cases "j < i")
    case False
    then have "lookup (ents s2) new (vpage j) = lookup (ents s) new (vpage j)"
      using vm_keepD(2)[OF 2(1) R(2), of "vpage j"] vm_keepD(2)[OF 1(1) R(2), of "vpage j"] i j R(3)
      by (simp add: vpage_MAXVA vrange_iff)
    then show ?thesis using nw[of j] False j by simp
  qed (simp add: 2(2))
  moreover have "vm_keep s s2 R K (vrange old i n \<union> vrange new 0 n)"
    using 1(1) 2(1) by (rule vm_keep_trans) (use i in \<open>auto simp: vrange_def\<close>)
  ultimately show ?thesis by (simp add: copy_post_def)
qed

lemma uvmcopy_loop_ok:
  assumes "vm_inv s R K" "cow_ok (ents s) R" and R: "old \<in> R" "new \<in> R" "old \<noteq> new"
    and "i \<le> npg sz" and n: "npg sz \<le> NUPAGE"
    and "\<And>j. i \<le> j \<Longrightarrow> j < npg sz \<Longrightarrow> bit (lookup (ents s) old (vpage j)) 0"
    and "\<And>j. i \<le> j \<Longrightarrow> j < npg sz \<Longrightarrow> \<not> bit (lookup (ents s) new (vpage j)) 0"
    and "\<And>j. j < i \<Longrightarrow> is_leaf (lookup (ents s) new (vpage j))"
  shows "\<exists>r s'. uvmcopy_loop old new (vpage i) sz s = Ret (r, s') \<and> vm_inv s' R K \<and> cow_ok (ents s') R
    \<and> copy_post s s' old new i (npg sz) r R K"
  using assms(1,2,6) assms(8-)
proof (induction "npg sz - i" arbitrary: i s)
  case 0
  then have i: "i = npg sz" by simp
  with n have "\<not> vpage i < sz" by (simp add: less_npg)
  then have "uvmcopy_loop old new (vpage i) sz s = Ret (0, s)" by (simp add: uvmcopy_loop.simps[of _ _ "vpage i"])
  with 0 i show ?case by (auto simp: copy_post_def)
next
  case (Suc k)
  have i: "i < npg sz" "i < NUPAGE" using Suc.hyps(2) n by auto
  have e: "bit (lookup (ents s) old (vpage i)) 0" "\<not> bit (lookup (ents s) new (vpage i)) 0"
    using Suc.prems(4,5) i by auto
  show ?case
  proof (rule uvmcopy_step[OF Suc.prems(1,2) R i(2,1) e], goal_cases)
    case (1 s1)
    have lk: "lookup (ents s1) r (vpage j) = lookup (ents s) r (vpage j)" if "r \<in> R" "j \<noteq> i" "j < npg sz" for r j
      using vm_keepD(2)[OF 1(4) that(1), of "vpage j"] that i n by (simp add: vpage_MAXVA vpage_eq)
    have lf: "is_leaf (lookup (ents s1) new (vpage j))" if "j < Suc i" for j
      using lk[OF R(2), of j] Suc.prems(6)[of j] that i 1(5) e(1) is_leaf_child
      by (cases "j = i") (auto simp: shared_def)
    have "\<exists>r s2. uvmcopy_loop old new (vpage (Suc i)) sz s1 = Ret (r, s2) \<and> vm_inv s2 R K \<and> cow_ok (ents s2) R
        \<and> copy_post s1 s2 old new (Suc i) (npg sz) r R K"
      by (rule Suc.hyps(1)[OF _ 1(2,3)]) (use Suc.hyps(2) i lk R Suc.prems(4,5) lf in auto)
    with 1(1) copy_post_step[OF R i(1) n 1(4,5)] show ?case by fastforce
  next
    case (2 s1)
    have lf: "is_leaf (lookup (ents s1) new (vpage j))" if "j < i" for j
      using vm_keepD(2)[OF 2(4) R(2), of "vpage j"] Suc.prems(6)[OF that] that i R(3) by (simp add: vpage_MAXVA)
    obtain s2 where 3: "uvmunmap new 0 (vpage i div PGSIZE) True s1 = Ret s2" "vm_inv s2 R K" "cow_ok (ents s2) R"
        "vm_keep s1 s2 R K (vrange new 0 i)" "\<And>j. j < i \<Longrightarrow> lookup (ents s2) new (vpage j) = 0"
      using uvmcopy_undo[OF 2(2,3) R(2) less_imp_le[OF i(2)] lf] by metis
    have "copy_post s s2 old new i (npg sz) (-1) R K"
      by (rule copy_post_undo[OF R i(1) n 2(4,5) 3(4,5) Suc.prems(5)])
    with 2(1) 3 show ?case by auto
  qed
qed

end
