(* ===== verification/UserCopy.thy ===== *)
theory UserCopy
  imports Fork
begin

text \<open>
  Resolving a copy-on-write page, and the transfer of bytes between kernel and user memory
  (\<^verbatim>\<open>copyin\<close>, \<^verbatim>\<open>copyout\<close>, \<^verbatim>\<open>copyinstr\<close> of \<^verbatim>\<open>kernel/vm.c\<close>): what is transferred, when the transfer fails,
  and that a write by one process is not seen by another.
\<close>

subsection \<open>Giving a process its own copy of a shared page\<close>

lemma memmove_page:
  assumes "page_of pg = pg" "page_of p = p" "pg < PHYSTOP" "p < PHYSTOP"
  shows "memmove m pg p 4096 x = (if page_of x = pg then m (p + (x - pg)) else m x)"
proof -
  have "unat pg + 4096 \<le> 2 ^ 64" "unat p + 4096 \<le> 2 ^ 64"
    using assms(3,4) by (simp_all add: PHYSTOP_val word_less_nat_alt)
  then show ?thesis using memmove_eq[of p 4096 pg m x] assms(1) by (simp add: page_iff)
qed

definition PTE_RWXU :: u64 where
  "PTE_RWXU = PTE_R OR PTE_W OR PTE_X OR PTE_U"

lemma PTE_RWXU: "is_perm PTE_RWXU" "\<not> bit PTE_RWXU 8" "bit PTE_RWXU 4" "bit PTE_RWXU 2"
  by (simp_all add: PTE_RWXU_def bit_or_iff pte_simps)

lemma sole_mapping:
  assumes keep: "vm_keep s s' R K {(r, va)}" and none: "maps (ents s) R p = {}"
    and r: "r \<in> R" "va \<in> UV" and e: "leaf_to (lookup (ents s') r va) p"
  shows "maps (ents s') R p = {(r, va)}"
proof -
  have "(r', va') = (r, va)" if "(r', va') \<in> maps (ents s') R p" for r' va'
    using maps_keep[OF keep that] none by auto
  then have "maps (ents s') R p \<subseteq> {(r, va)}" by (auto simp only: subset_iff split_paired_All)
  moreover have "(r, va) \<in> maps (ents s') R p" using r e by (simp add: maps_def)
  ultimately show ?thesis by (intro equalityI) simp_all
qed

lemma cow_break:
  assumes inv: "vm_inv s R K" and cow: "cow_ok (ents s) R" and r: "r \<in> R" "va \<in> UV"
    and e: "bit (lookup (ents s) r va) 0" "bit (lookup (ents s) r va) 8"
    and al: "kalloc s = Ret (pg, s1)" "pg \<noteq> 0"
  defines "p \<equiv> PTE2PA (lookup (ents s) r va)"
  obtains s3 s4 where "mappages r va PGSIZE pg PTE_RWXU (s1\<lparr>mem := memmove (mem s1) pg p 4096\<rparr>) = Ret (0, s3)"
    "kfree p s3 = Ret s4" "vm_inv s4 R K" "cow_ok (ents s4) R" "vm_keep s s4 R K {(r, va)}"
    "lookup (ents s4) r va = PA2PTE pg OR PTE_RWXU OR PTE_V"
    "\<And>x. page_of x = va \<Longrightarrow> umem s4 r x = umem s r x"
    "free_pages s \<subseteq> insert pg (free_pages s4)" "pg \<in> free_pages s"
proof -
  let ?e = "lookup (ents s) r va" and ?m = "memmove (mem s1) pg p 4096" and ?K = "K(pg := 1)"
  have va: "page_of va = va" "va < MAXVA" using r UV_page UV_less by auto
  have "(r, va) \<in> maps (ents s) R p" using r e(1) by (simp add: maps_def leaf_to_def p_def)
  then have p: "0 < refs s p" "is_page s p" "tabs (ents s) R p = {}" using vm_inv_mapped[OF inv, of p] by auto
  note kal = vm_kalloc[OF inv al]
  have pp: "page_of p = p" "p < PHYSTOP" "page_of pg = pg" "pg < PHYSTOP"
    using p(2) kal(5) by (auto simp: is_page_def)
  have mm: "?m x = (if page_of x = pg then mem s1 (p + (x - pg)) else mem s1 x)" for x
    by (rule memmove_page[OF pp(3,1,4,2)])
  then have m: "\<forall>x. page_of x \<noteq> pg \<longrightarrow> ?m x = mem s1 x" by simp
  let ?s = "s1\<lparr>mem := ?m\<rparr>"
  note f = fresh_page[OF inv al m]
  have ppg: "p \<noteq> pg" using p(1) f(6) by auto
  have old: "\<not> bit (lookup (ents ?s) r va) 0 \<or> bit (lookup (ents ?s) r va) 8" using e f(3)[OF r(1)] by simp
  let ?K2 = "K(p := K p + 1)"
  have lt: "leaf_to ?e q \<longleftrightarrow> q = p" for q using e(1) by (auto simp: leaf_to_def p_def)
  have K2: "?K2 q = ?K q + (if va \<in> UV \<and> leaf_to (lookup (ents ?s) r va) q then 1 else 0)
      - (if va \<in> UV \<and> q = pg then 1 else 0)" for q
    unfolding f(3)[OF r(1)] lt using r f(8) ppg by auto
  have K20: "0 \<le> ?K2 q" for q using vm_inv_K[OF inv, of q] by auto
  show thesis
  proof (rule mappages_page[OF f(1) r(1) va f(7) PTE_RWXU(1) old K2 K20], goal_cases)
    case (1 s3)
    have k1: "vm_keep ?s s3 R K {(r, va)}" by (rule vm_keep_weaken[OF 1(3)]) (use f(8) in auto)
    have K3: "0 < ?K2 p" using vm_inv_K[OF inv, of p] by simp
    have KK: "?K2(p := ?K2 p - 1) = K" by simp
    obtain s4 where s4: "kfree p s3 = Ret s4" "vm_inv s4 R K" "vm_keep s3 s4 R K {}"
        "\<And>r va. r \<in> R \<Longrightarrow> lookup (ents s4) r va = lookup (ents s3) r va" "refs s4 = (refs s3)(p := refs s3 p - 1)"
      using vm_kfree[OF 1(2) K3, unfolded KK] by metis
    have k2: "vm_keep ?s s4 R K {(r, va)}" using k1 s4(3) by (rule vm_keep_trans) simp
    have keep: "vm_keep s s4 R K {(r, va)}" using f(2) k2 by (rule vm_keep_trans) simp
    have le: "lookup (ents s4) r va = PA2PTE pg OR PTE_RWXU OR PTE_V" using s4(4)[OF r(1)] 1(4) by simp
    have lf: "leaf_to (lookup (ents s4) r va) pg"
      unfolding le using pp(3) PTE_RWXU(1) by (simp add: leaf_to_entry)
    have none: "maps (ents ?s) R pg = {}" "tabs (ents ?s) R pg = {}" using owned_once[OF f(1), of pg] f(5) by auto
    have "maps (ents s4) R pg = {(r, va)}" by (rule sole_mapping[OF k2 none(1) r lf])
    then have cow4: "cow_ok (ents s4) R"
      by (intro cow_ok_change[OF cow keep])
        (use le lf PTE_RWXU in \<open>auto simp: leaf_to_def bit_or_iff pte_simps bit_PA2PTE\<close>)
    have um: "umem s4 r x = umem s r x" if x: "page_of x = va" for x
    proof -
      have l: "lookup (ents s3) r x = PA2PTE pg OR PTE_RWXU OR PTE_V" "lookup (ents s) r x = ?e"
        using 1(4) lookup_page_of[of "ents s3" r x] lookup_page_of[of "ents s" r x] x by simp_all
      have off: "page_of (pg + (x - page_of x)) = pg" "page_of (p + (x - page_of x)) = p"
        using pp by (simp_all add: offset_page)
      have "umem s4 r x = umem s3 r x" using vm_keepD(3)[OF s4(3) r(1), of x] x r(2) by simp
      also have "\<dots> = Some (mem s3 (pg + (x - page_of x)))"
        using pp(3) PTE_RWXU(1) by (simp add: umem_def l PTE2PA_entry bit_or_iff pte_simps)
      also have "mem s3 (pg + (x - page_of x)) = ?m (pg + (x - page_of x))"
        using 1(5)[of "pg + (x - page_of x)"] off none f(5) by simp
      also have "\<dots> = mem s (p + (x - page_of x))"
        using mm[of "pg + (x - page_of x)"] off f(9)[of "p + (x - page_of x)"] p(1) by simp
      also have "Some (mem s (p + (x - page_of x))) = umem s r x" using e(1) by (simp add: umem_def l p_def)
      finally show ?thesis .
    qed
    have "bit (lookup (ents ?s) r va) 0" using e(1) f(3)[OF r(1)] by simp
    then have "tbl (ents ?s) r (vpath va) \<noteq> None" by (auto simp: lookup_def split: option.splits)
    then have "refs s4 = (refs s)(pg := 1, p := refs s p - 1)" using s4(5) 1(7) f(5) ppg by auto
    then have fr: "free_pages s \<subseteq> insert pg (free_pages s4)"
      using vm_keepD(1)[OF keep] p(1) by (auto simp: free_pages_def)
    have "pg \<in> free_pages s" using kal(4,5) by (simp add: free_pages_def)
    with 1(1) s4(1,2) cow4 keep le um fr show thesis by (intro that) auto
  next
    case (2 s3)
    have "bit (lookup (ents ?s) r va) 0" using e(1) f(3)[OF r(1)] by simp
    then show thesis using 2(4) by (simp add: lookup_def)
  qed
qed

subsection \<open>Walking a user range page by page\<close>

text \<open>An address the user may use: its page is mapped with the user bit.\<close>

definition uacc :: "'a phys_scheme \<Rightarrow> u64 \<Rightarrow> u64 \<Rightarrow> bool" where
  "uacc s r va \<longleftrightarrow> va < MAXVA \<and> bit (lookup (ents s) r va) 0 \<and> bit (lookup (ents s) r va) 4"

definition ubyte :: "'a phys_scheme \<Rightarrow> u64 \<Rightarrow> u64 \<Rightarrow> uchar" where
  "ubyte s r va = mem s (PTE2PA (lookup (ents s) r va) + (va - page_of va))"

text \<open>User pages are RAM pages; the trampoline and the trap frame are not for the user.\<close>

definition kernel_only :: "'a phys_scheme \<Rightarrow> u64 \<Rightarrow> bool" where
  "kernel_only s r \<longleftrightarrow> (\<forall>va. uacc s r va \<longrightarrow> page_of va \<in> UV)"

lemma walkaddr_eq:
  assumes inv: "vm_inv s R K" and r: "r \<in> R"
  shows "walkaddr r va s = Ret (if uacc s r va then PTE2PA (lookup (ents s) r va) else 0)"
proof (cases "va < MAXVA")
  case True
  show ?thesis
  proof (cases "tbl (ents s) r (vpath va)")
    case None
    with True show ?thesis by (auto simp: walkaddr_def walk_False uacc_def lookup_def)
  next
    case (Some t)
    then have t: "(r, vpath va) \<in> tabs (ents s) R t" using path_pos[OF r] by (simp add: tabs_def)
    with True Some slot_nonzero[OF inv t PX_less] pte_load_slot[OF t] show ?thesis
      by (auto simp: walkaddr_def walk_False uacc_def and_flag not_le)
  qed
qed (auto simp: walkaddr_def uacc_def)

lemma uacc_page: "uacc s r (page_of va) \<longleftrightarrow> uacc s r va"
proof -
  have "page_of va \<le> va" by (simp add: word_le_nat_alt unat_page_of times_div_less_eq_dividend)
  then have "page_of va < MAXVA \<longleftrightarrow> va < MAXVA" using page_of_less_MAXVA[of va] by auto
  then show ?thesis by (simp add: uacc_def lookup_page_of)
qed

lemma uacc_frame_nonzero:
  assumes "vm_inv s R K" "r \<in> R" "kernel_only s r" "uacc s r va"
  shows "PTE2PA (lookup (ents s) r va) \<noteq> 0"
proof -
  have "page_of va \<in> UV" "bit (lookup (ents s) r va) 0" using assms(3,4) by (auto simp: kernel_only_def uacc_def)
  then have "is_page s (PTE2PA (lookup (ents s) r va))" using vm_inv_mapped(2)[OF assms(1)] mapsI[OF assms(2)] by blast
  then show ?thesis using is_page_bounds(2)[OF kmem_ok_layout[OF vm_inv_kmem[OF assms(1)]]] by blast
qed

text \<open>One round of the copy loops: the \<open>n\<close> bytes from \<open>va\<close> to the end of its page or of the range.\<close>

definition span :: "u64 \<Rightarrow> u64 \<Rightarrow> u64" where
  "span va len = min (PGSIZE - (va - PGROUNDDOWN va)) len"

lemma span_facts:
  assumes "len \<noteq> 0"
  shows "0 < unat (span va len)" "unat (span va len) \<le> unat len" "unat (span va len) \<le> 4096"
    and "j < unat (span va len) \<Longrightarrow> page_of (va + of_nat j) = page_of va"
    and "j < unat (span va len) \<Longrightarrow> va + of_nat j - page_of va = (va - page_of va) + of_nat j"
    and "span va len \<noteq> len \<Longrightarrow> PGROUNDDOWN va + PGSIZE = va + of_nat (unat (span va len))"
    and "unat (len - span va len) = unat len - unat (span va len)"
proof -
  let ?o = "va - page_of va"
  have pr: "PGROUNDDOWN va = page_of va" by (rule PGROUNDDOWN_page_of)
  have o: "?o < 4096" using page_rest(2)[of va] by (simp add: pr)
  have ps: "unat (PGSIZE - ?o) = 4096 - unat ?o"
    using o unat_sub[of ?o PGSIZE] by (simp add: PGSIZE_def word_less_nat_alt word_le_nat_alt)
  have le: "span va len \<le> len" "span va len \<le> PGSIZE - ?o" by (simp_all add: span_def pr)
  show "0 < unat (span va len)" using page_rest(1)[of va len] assms by (simp add: span_def unat_gt_0)
  show "unat (span va len) \<le> unat len" using le(1) by (simp add: word_le_nat_alt)
  have sp: "unat (span va len) \<le> 4096 - unat ?o" using le(2) ps by (simp add: word_le_nat_alt)
  then show "unat (span va len) \<le> 4096" by simp
  show "unat (len - span va len) = unat len - unat (span va len)" by (rule unat_sub[OF le(1)])
  show "span va len \<noteq> len \<Longrightarrow> PGROUNDDOWN va + PGSIZE = va + of_nat (unat (span va len))"
    by (simp add: span_def pr min_def split: if_splits)
  show "va + of_nat j - page_of va = ?o + of_nat j" by simp
  assume j: "j < unat (span va len)"
  have "unat (of_nat j :: u64) = j" using j sp by (intro unat_of_nat_small) simp
  moreover have "unat ?o + j < 4096" using j sp o by (simp add: word_less_nat_alt)
  ultimately have "?o + of_nat j < 4096"
    using unat_add_lem[of ?o "of_nat j"] by (simp add: word_less_nat_alt)
  then show "page_of (va + of_nat j) = page_of va"
    using page_iff[of "page_of va" "va + of_nat j"] by (simp add: algebra_simps)
qed

lemma span_rest: "len \<noteq> 0 \<Longrightarrow> unat (len - span va len) < unat len"
  using span_facts(1,2,7)[of len, where va = va] by linarith

lemma all_less_split: "n \<le> m \<Longrightarrow> (\<forall>j < m. Q j) \<longleftrightarrow> (\<forall>j < n. Q j) \<and> (\<forall>j < m - n. Q (n + j))"
  for n m :: nat
  by (metis add.commute add_diff_inverse_nat less_diff_conv not_less order_less_le_trans)

lemma span_step:
  assumes "len \<noteq> 0" "span va len \<noteq> len"
  shows "(\<forall>j < unat len. P (va + of_nat j)) \<longleftrightarrow>
    (\<forall>j < unat (span va len). P (va + of_nat j)) \<and>
    (\<forall>j < unat (len - span va len). P (PGROUNDDOWN va + PGSIZE + of_nat j))"
proof -
  note f = span_facts[OF assms(1), where va = va]
  show ?thesis
    unfolding f(6)[OF assms(2)] f(7) all_less_split[OF f(2), of "\<lambda>j. P (va + of_nat j)"]
    by (simp add: add.assoc)
qed

subsection \<open>copyin\<close>

lemma blit_blit: "blit (blit d i f n) (i + n) (\<lambda>j. f (n + j)) m = blit d i f (n + m)"
  by (auto simp: blit_def fun_eq_iff)

lemma blit_0 [simp]: "blit d i f 0 = d"
  by (auto simp: blit_def fun_eq_iff)

lemma blit_cong: "(\<And>j. j < n \<Longrightarrow> f j = g j) \<Longrightarrow> blit d i f n = blit d i g n"
  by (auto simp: blit_def fun_eq_iff)

lemma ubyte_span:
  assumes "len \<noteq> 0" "j < unat (span va len)"
  shows "uacc s r (va + of_nat j) \<longleftrightarrow> uacc s r va"
    "ubyte s r (va + of_nat j) = ptr_at (mem s) (PTE2PA (lookup (ents s) r va) + (va - PGROUNDDOWN va)) j"
proof -
  note f = span_facts(4,5)[OF assms]
  show "uacc s r (va + of_nat j) \<longleftrightarrow> uacc s r va" using uacc_page f(1) by metis
  have "lookup (ents s) r (va + of_nat j) = lookup (ents s) r va" using lookup_page_of f(1) by metis
  then show "ubyte s r (va + of_nat j) = ptr_at (mem s) (PTE2PA (lookup (ents s) r va) + (va - PGROUNDDOWN va)) j"
    using f by (simp add: ubyte_def ptr_at_def PGROUNDDOWN_page_of algebra_simps)
qed

lemma copyin_loop_ok:
  assumes inv: "vm_inv s R K" and r: "r \<in> R" "kernel_only s r"
  shows "\<exists>d. copyin_loop r dst i srcva len s =
    (if \<forall>j < unat len. uacc s r (srcva + of_nat j)
     then Ret (0, blit dst i (\<lambda>j. ubyte s r (srcva + of_nat j)) (unat len)) else Ret (-1, d))"
proof (induction "unat len" arbitrary: dst i srcva len rule: less_induct)
  case less
  show ?case
  proof (cases "len = 0")
    case True
    then show ?thesis by (simp add: copyin_loop.simps[of r dst i srcva])
  next
    case False
    let ?n = "span srcva len" and ?src = "ptr_at (mem s) (PTE2PA (lookup (ents s) r srcva) + (srcva - PGROUNDDOWN srcva))"
    note f = span_facts[OF False, where va = srcva]
    have w: "walkaddr r (PGROUNDDOWN srcva) s = Ret (if uacc s r srcva then PTE2PA (lookup (ents s) r srcva) else 0)"
      using walkaddr_eq[OF inv r(1), of "page_of srcva"] by (simp add: PGROUNDDOWN_page_of uacc_page lookup_page_of)
    show ?thesis
    proof (cases "uacc s r srcva")
      case no: False
      have "uacc s r (srcva + of_nat 0) \<longleftrightarrow> uacc s r srcva" by simp
      then have "\<not> (\<forall>j < unat len. uacc s r (srcva + of_nat j))" using no False by (metis unat_gt_0)
      with no False w show ?thesis by (simp add: copyin_loop.simps[of r dst i srcva])
    next
      case yes: True
      have step: "copyin_loop r dst i srcva len s =
          copyin_loop r (blit dst i ?src (unat ?n)) (i + unat ?n) (PGROUNDDOWN srcva + PGSIZE) (len - ?n) s"
        using w yes False uacc_frame_nonzero[OF inv r yes]
        by (simp add: copyin_loop.simps[of r dst i srcva] span_def Let_def)
      have bl: "blit dst i ?src (unat ?n) = blit dst i (\<lambda>j. ubyte s r (srcva + of_nat j)) (unat ?n)"
        by (rule blit_cong) (rule ubyte_span(2)[OF False, symmetric])
      have acc: "\<forall>j < unat ?n. uacc s r (srcva + of_nat j)" using ubyte_span(1)[OF False] yes by blast
      show ?thesis
      proof (cases "?n = len")
        case True
        then show ?thesis using step bl acc by (simp add: copyin_loop.simps[of r _ _ _ 0])
      next
        case ne: False
        note IH = less[OF span_rest[OF False, of srcva], of "blit dst i ?src (unat ?n)" "i + unat ?n" "PGROUNDDOWN srcva + PGSIZE"]
        have sh: "blit (blit dst i ?src (unat ?n)) (i + unat ?n)
            (\<lambda>j. ubyte s r (PGROUNDDOWN srcva + PGSIZE + of_nat j)) (unat (len - ?n))
          = blit dst i (\<lambda>j. ubyte s r (srcva + of_nat j)) (unat len)"
          unfolding bl f(6)[OF ne] f(7)
          using blit_blit[of dst i "\<lambda>j. ubyte s r (srcva + of_nat j)" "unat ?n" "unat len - unat ?n"] f(2)
          by (simp add: add.assoc)
        show ?thesis using IH step sh acc span_step[OF False ne, of "uacc s r"] by auto
      qed
    qed
  qed
qed

subsection \<open>copyout\<close>

text \<open>No page a process maps is held by the kernel for another purpose.\<close>

definition held_apart :: "'a phys_scheme \<Rightarrow> u64 set \<Rightarrow> (u64 \<Rightarrow> int) \<Rightarrow> bool" where
  "held_apart s R K \<longleftrightarrow> (\<forall>p. maps (ents s) R p \<noteq> {} \<longrightarrow> K p = 0)"

text \<open>The state the copying operations work in.\<close>

definition user_ok :: "'a phys_scheme \<Rightarrow> u64 set \<Rightarrow> (u64 \<Rightarrow> int) \<Rightarrow> u64 \<Rightarrow> bool" where
  "user_ok s R K r \<longleftrightarrow> vm_inv s R K \<and> cow_ok (ents s) R \<and> held_apart s R K \<and> r \<in> R \<and> kernel_only s r"

lemma user_okD:
  assumes "user_ok s R K r"
  shows "vm_inv s R K" "cow_ok (ents s) R" "held_apart s R K" "r \<in> R" "kernel_only s r"
  using assms by (auto simp: user_ok_def)

lemma finite_free_pages [simp]: "finite (free_pages s)"
  by simp

lemma uacc_keep:
  assumes keep: "vm_keep s s' R K {(r, va0)}" and r: "r \<in> R"
    and bits: "bit (lookup (ents s') r va0) 0 \<longleftrightarrow> bit (lookup (ents s) r va0) 0"
      "bit (lookup (ents s') r va0) 4 \<longleftrightarrow> bit (lookup (ents s) r va0) 4"
  shows "uacc s' r va \<longleftrightarrow> uacc s r va"
proof (cases "va < MAXVA")
  case True
  have "lookup (ents s') r va = lookup (ents s') r (page_of va)" "lookup (ents s) r va = lookup (ents s) r (page_of va)"
    by (simp_all add: lookup_page_of)
  with True bits vm_keepD(2)[OF keep r True] show ?thesis
    by (cases "page_of va = va0") (auto simp: uacc_def)
qed (simp add: uacc_def)

lemma kalloc_free:
  assumes "kmem_ok s" "free_pages s \<noteq> {}"
  obtains pg s1 where "kalloc s = Ret (pg, s1)" "pg \<noteq> 0"
proof -
  obtain pg s1 where al: "kalloc s = Ret (pg, s1)" using ka.alloc_total[OF assms(1)] by blast
  moreover have "pg \<noteq> 0"
  proof
    assume "pg = 0"
    then have all: "is_page s p \<longrightarrow> 0 < refs s p" for p using ka.alloc_none[OF assms(1)] al by blast
    obtain p where "is_page s p" "refs s p = 0" using assms(2) by (auto simp: free_pages_def)
    with all[of p] show False by simp
  qed
  ultimately show thesis using that by blast
qed

text \<open>Replacing a copy-on-write page by a private copy keeps the state usable.\<close>

lemma cow_private:
  assumes ok: "user_ok s R K r" and va: "va \<in> UV"
    and e: "bit (lookup (ents s) r va) 0" "bit (lookup (ents s) r va) 8" and al: "kalloc s = Ret (pg, s1)" "pg \<noteq> 0"
  defines "p \<equiv> PTE2PA (lookup (ents s) r va)"
  obtains s3 s4 where "mappages r va PGSIZE pg PTE_RWXU (s1\<lparr>mem := memmove (mem s1) pg p 4096\<rparr>) = Ret (0, s3)"
    "kfree p s3 = Ret s4" "user_ok s4 R K r" "vm_keep s s4 R K {(r, va)}"
    "lookup (ents s4) r va = PA2PTE pg OR PTE_RWXU OR PTE_V"
    "\<And>x. page_of x = va \<Longrightarrow> umem s4 r x = umem s r x" "card (free_pages s) \<le> Suc (card (free_pages s4))"
proof -
  note D = user_okD[OF ok]
  show thesis
  proof (rule cow_break[OF D(1,2,4) va e al, folded p_def], goal_cases)
    case (1 s3 s4)
    have "held_apart s4 R K"
      unfolding held_apart_def
    proof (intro allI impI)
      fix q assume "maps (ents s4) R q \<noteq> {}"
      then obtain r' v where m: "(r', v) \<in> maps (ents s4) R q" by auto
      show "K q = 0"
      proof (cases "(r', v) = (r, va)")
        case True
        have "page_of pg = pg" using 1(9) by (simp add: free_pages_def is_page_def)
        then have "q = pg" using m True 1(6) PTE_RWXU(1) by (simp add: maps_def leaf_to_entry)
        then show ?thesis using vm_inv_free(3)[OF D(1)] 1(9) by (simp add: free_pages_def)
      next
        case False
        with maps_keep[OF 1(5) m] D(3) show ?thesis by (auto simp: held_apart_def)
      qed
    qed
    moreover have "kernel_only s4 r"
      unfolding kernel_only_def
    proof (intro allI impI)
      fix x assume x: "uacc s4 r x"
      show "page_of x \<in> UV"
      proof (cases "page_of x = va")
        case False
        then have "lookup (ents s4) r x = lookup (ents s) r x" using vm_keepD(2)[OF 1(5) D(4)] x by (simp add: uacc_def)
        with x D(5) show ?thesis by (simp add: kernel_only_def uacc_def)
      qed (use va in simp)
    qed
    ultimately have ok4: "user_ok s4 R K r" using 1(3,4) D(4) by (simp add: user_ok_def)
    have "card (free_pages s) \<le> card (insert pg (free_pages s4))" by (rule card_mono[OF _ 1(8)]) simp
    then have "card (free_pages s) \<le> Suc (card (free_pages s4))" by (simp add: card_insert_if split: if_splits)
    with 1 ok4 show thesis by (intro that)
  qed
qed

lemma mapped_frame_nonzero:
  assumes "vm_inv s R K" "r \<in> R" "page_of va \<in> UV" "bit (lookup (ents s) r va) 0"
  shows "PTE2PA (lookup (ents s) r va) \<noteq> 0"
proof -
  have "is_page s (PTE2PA (lookup (ents s) r va))" using vm_inv_mapped(2)[OF assms(1)] mapsI[OF assms(2-4)] by blast
  then show ?thesis using is_page_bounds(2)[OF kmem_ok_layout[OF vm_inv_kmem[OF assms(1)]]] by blast
qed

text \<open>After the copy-on-write stage the page is the process's own.\<close>

lemma copyout_own:
  assumes ok: "user_ok s R K r" and va: "va \<in> UV" "uacc s r va" and fr: "free_pages s \<noteq> {}"
  obtains s4 where "(if bit (lookup (ents s) r va) 8 then copyout_cow r va (PTE2PA (lookup (ents s) r va)) s
      else Ret (True, s)) = Ret (True, s4)"
    "user_ok s4 R K r" "vm_keep s s4 R K {(r, va)}" "\<And>x. page_of x = va \<Longrightarrow> umem s4 r x = umem s r x"
    "\<not> bit (lookup (ents s4) r va) 8" "\<And>x. uacc s4 r x \<longleftrightarrow> uacc s r x" "card (free_pages s) \<le> Suc (card (free_pages s4))"
proof (cases "bit (lookup (ents s) r va) 8")
  case False
  with ok show thesis by (intro that[of s]) auto
next
  case True
  note D = user_okD[OF ok]
  have e: "bit (lookup (ents s) r va) 0" "bit (lookup (ents s) r va) 4" using va(2) by (auto simp: uacc_def)
  obtain pg s1 where al: "kalloc s = Ret (pg, s1)" "pg \<noteq> 0" using kalloc_free[OF vm_inv_kmem[OF D(1)] fr] .
  show thesis
  proof (rule cow_private[OF ok va(1) e(1) True al], goal_cases)
    case (1 s3 s4)
    have ex: "copyout_cow r va (PTE2PA (lookup (ents s) r va)) s = Ret (True, s4)"
      using al 1(1,2) uacc_frame_nonzero[OF D(1,4,5) va(2)] by (simp add: copyout_cow_def PTE_RWXU_def)
    have acc: "uacc s4 r x \<longleftrightarrow> uacc s r x" for x
      by (rule uacc_keep[OF 1(4) D(4)]) (use e 1(5) PTE_RWXU in \<open>simp_all add: bit_or_iff pte_simps\<close>)
    have "\<not> bit (lookup (ents s4) r va) 8"
      unfolding 1(5) using PTE_RWXU(2) by (simp add: bit_or_iff pte_simps bit_PA2PTE)
    with True ex 1 acc show thesis by (intro that[of s4]) auto
  qed
qed

lemma within_page:
  assumes "page_of b = b" "unat off + unat n \<le> 4096" "y - (b + off) < n"
  shows "page_of y = b"
proof -
  let ?d = "y - (b + off)"
  have "unat off + unat ?d < 4096" using assms(2,3) by (simp add: word_less_nat_alt)
  then have "off + ?d < 4096" using unat_add_lem[of off ?d] by (simp add: word_less_nat_alt)
  moreover have "off + ?d = y - b" by simp
  ultimately have "y - b < 4096" by (simp only:)
  then show ?thesis using page_iff[OF assms(1)] by simp
qed

lemma write_own:
  fixes f :: cptr
  assumes ok: "user_ok s R K r" and va: "va \<in> UV" "uacc s r va" "\<not> bit (lookup (ents s) r va) 8"
    and n: "unat off + unat n \<le> 4096"
  defines "s' \<equiv> s\<lparr>mem := mem_write (mem s) (PTE2PA (lookup (ents s) r va) + off) f n\<rparr>"
  shows "user_ok s' R K r" "vm_keep s s' R K {(r, va)}" "\<And>x. uacc s' r x \<longleftrightarrow> uacc s r x"
    "free_pages s' = free_pages s"
    "\<And>x. page_of x \<in> UV \<Longrightarrow> umem s' r x = (if x - (va + off) < n then Some (f (unat (x - (va + off)))) else umem s r x)"
proof -
  note D = user_okD[OF ok]
  let ?p = "PTE2PA (lookup (ents s) r va)"
  have vp: "page_of va = va" using UV_page[OF va(1)] .
  have e: "bit (lookup (ents s) r va) 0" using va(2) by (simp add: uacc_def)
  have sole: "maps (ents s) R ?p = {(r, va)}" using cow_okD[OF D(2,4) va(1) e va(3)] .
  note mp = vm_inv_mapped[OF D(1), of ?p]
  have K0: "K ?p = 0" using D(3) sole by (auto simp: held_apart_def)
  have ch: "page_of x = ?p" if "mem s' x \<noteq> mem s x" for x
    using that within_page[OF page_of_PTE2PA n] by (auto simp: s'_def mem_write_def split: if_splits)
  have "0 < refs s ?p \<and> tabs (ents s) R ?p = {}" using mp sole by auto
  then have w: "\<forall>x. mem_write (mem s) (?p + off) f n x \<noteq> mem s x \<longrightarrow> 0 < refs s (page_of x) \<and> tabs (ents s) R (page_of x) = {}"
    using ch by (auto simp: s'_def)
  note vw = vm_mem_write[OF D(1) w, folded s'_def]
  have lk: "lookup (ents s') q x = lookup (ents s) q x" if "q \<in> R" for q x using vw(3)[OF that] .
  have keep: "vm_keep s s' R K {(r, va)}"
    unfolding vm_keep_def
  proof (intro conjI ballI allI impI)
    show "is_page s' = is_page s" by (simp add: s'_def)
    show "lookup (ents s') q x = lookup (ents s) q x" if "q \<in> R" for q x by (rule lk[OF that])
    show "mem s' x = mem s x" if "0 < K (page_of x)" for x using ch[of x] K0 that by force
    show "umem s' q x = umem s q x" if q: "q \<in> R" "page_of x \<in> UV" "(q, page_of x) \<notin> {(r, va)}" for q x
    proof (rule umem_eqI[OF lk[OF q(1)]])
      fix y assume "bit (lookup (ents s) q x) 0" and y: "page_of y = PTE2PA (lookup (ents s) q x)"
      then have "(q, page_of x) \<in> maps (ents s) R (page_of y)" using mapsI[OF q(1,2)] by simp
      moreover have "(q, page_of x) \<notin> maps (ents s) R ?p" unfolding sole by (rule q(3))
      ultimately have "page_of y \<noteq> ?p" by metis
      then show "mem s' y = mem s y" using ch[of y] by blast
    qed
  qed
  then show "vm_keep s s' R K {(r, va)}" .
  show acc: "uacc s' r x \<longleftrightarrow> uacc s r x" for x by (simp add: uacc_def lk[OF D(4)])
  show "free_pages s' = free_pages s" by (simp add: free_pages_def s'_def)
  have mps: "maps (ents s') R = maps (ents s) R" using lk by (intro maps_lookup)
  have "cow_ok (ents s') R" using D(2) lk by (simp add: cow_ok_def mps)
  moreover have "held_apart s' R K" using D(3) by (simp add: held_apart_def mps)
  ultimately show "user_ok s' R K r" using vw(1) D(4,5) acc by (simp add: user_ok_def kernel_only_def)
  fix x assume x: "page_of x \<in> UV"
  show "umem s' r x = (if x - (va + off) < n then Some (f (unat (x - (va + off)))) else umem s r x)"
  proof (cases "page_of x = va")
    case True
    have l: "lookup (ents s) r x = lookup (ents s) r va" using True lookup_page_of by metis
    show ?thesis using e True by (simp add: umem_def lk[OF D(4)] l) (simp add: s'_def mem_write_def diff_diff_eq)
  next
    case False
    then have "\<not> x - (va + off) < n" using within_page[OF vp n] by blast
    with False show ?thesis using vm_keepD(3)[OF keep D(4) x] by simp
  qed
qed

lemma copyout_round:
  assumes ok: "user_ok s R K r" and acc: "uacc s r dstva" and len: "len \<noteq> 0" and fr: "free_pages s \<noteq> {}"
  defines "n \<equiv> span dstva len"
  obtains s' where "copyout_loop r dstva src i len s =
      copyout_loop r (PGROUNDDOWN dstva + PGSIZE) src (i + unat n) (len - n) s'"
    "user_ok s' R K r" "vm_keep s s' R K {(r, page_of dstva)}" "\<And>x. uacc s' r x \<longleftrightarrow> uacc s r x"
    "card (free_pages s) \<le> Suc (card (free_pages s'))"
    "\<And>x. page_of x \<in> UV \<Longrightarrow>
      umem s' r x = (if x - dstva < n then Some (src (i + unat (x - dstva))) else umem s r x)"
proof -
  note D = user_okD[OF ok]
  let ?va = "page_of dstva" and ?off = "dstva - page_of dstva"
  have pr: "PGROUNDDOWN dstva = ?va" by (rule PGROUNDDOWN_page_of)
  have va: "?va \<in> UV" "uacc s r ?va" using D(5) acc by (auto simp: kernel_only_def uacc_page)
  have mx: "?va < MAXVA" using va(2) by (simp add: uacc_def)
  show thesis
  proof (rule copyout_own[OF ok va fr], goal_cases)
    case 4: (1 s4)
    note D4 = user_okD[OF 4(2)]
    let ?s = "s4\<lparr>mem := mem_write (mem s4) (PTE2PA (lookup (ents s4) r ?va) + ?off) (\<lambda>j. src (i + j)) n\<rparr>"
    have va4: "uacc s4 r ?va" using 4(6) va(2) by simp
    have on: "unat ?off + unat n \<le> 4096"
    proof -
      have o: "?off < 4096" using page_rest(2)[of dstva] by (simp add: pr)
      then have "unat (PGSIZE - ?off) = 4096 - unat ?off"
        using unat_sub[of ?off PGSIZE] by (simp add: PGSIZE_def word_less_nat_alt word_le_nat_alt)
      moreover have "n \<le> PGSIZE - ?off" by (simp add: n_def span_def pr)
      ultimately show ?thesis using o by (simp add: word_less_nat_alt word_le_nat_alt)
    qed
    note w = write_own[OF 4(2) va(1) va4 4(5) on, where f = "\<lambda>j. src (i + j)"]
    have b: "bit (lookup (ents s) r ?va) 0" using va(2) by (simp add: uacc_def)
    obtain t where t: "(r, vpath ?va) \<in> tabs (ents s) R t" "tbl (ents s) r (vpath ?va) = Some t"
      using lookup_table[OF b D(4)] .
    have wk: "walk r ?va False s = Ret (slot t (PX 0 ?va), s)" by (rule walk_present[OF mx t(2)])
    have cw: "PTE_FLAGS (lookup (ents s) r ?va) AND PTE_COW \<noteq> 0 \<longleftrightarrow> bit (lookup (ents s) r ?va) 8"
      by (simp add: and_flag bit_PTE_FLAGS)
    have ex: "copyout_loop r dstva src i len s = copyout_loop r (PGROUNDDOWN dstva + PGSIZE) src (i + unat n) (len - n) ?s"
      using len mx 4(1) uacc_frame_nonzero[OF D4(1,4,5) va4] walkaddr_eq[OF D(1,4)] walkaddr_eq[OF D4(1,4)] va(2) va4
        slot_nonzero[OF D(1) t(1) PX_less] pte_load_slot[OF t(1)] wk cw
      by (subst copyout_loop.simps) (simp add: pr Let_def n_def span_def not_le[symmetric])
    show thesis
    proof (rule that[OF ex w(1)])
      show "vm_keep s ?s R K {(r, ?va)}" using 4(3) w(2) by (rule vm_keep_trans) simp
      show "uacc ?s r x \<longleftrightarrow> uacc s r x" for x using w(3) 4(6) by simp
      show "card (free_pages s) \<le> Suc (card (free_pages ?s))" using w(4) 4(7) by simp
      fix x assume x: "page_of x \<in> UV"
      have "umem s4 r x = umem s r x"
        using 4(4)[of x] vm_keepD(3)[OF 4(3) D(4) x] by (cases "page_of x = ?va") auto
      then show "umem ?s r x = (if x - dstva < n then Some (src (i + unat (x - dstva))) else umem s r x)"
        using w(5)[OF x] by simp
    qed
  qed
qed

text \<open>The pages a range touches.\<close>

definition pages_of :: "u64 \<Rightarrow> u64 \<Rightarrow> nat" where
  "pages_of va len = (unat (va - page_of va) + unat len + 4095) div 4096"

lemma page_of_next: "page_of (page_of va + PGSIZE) = page_of va + PGSIZE"
proof -
  have d: "4096 dvd unat (page_of va)" by (simp add: unat_page_of)
  have "unat (page_of va + PGSIZE) = (unat (page_of va) + 4096) mod 2 ^ 64"
    by (simp add: unat_word_ariths(1) PGSIZE_def)
  moreover have "(4096::nat) dvd 2 ^ 64" by simp
  moreover have "4096 dvd unat (page_of va) + 4096" using d by simp
  ultimately have "4096 dvd unat (page_of va + PGSIZE)" by (metis dvd_mod)
  then have "unat ((page_of va + PGSIZE) mod PGSIZE) = 0" unfolding unat_mod by (simp add: PGSIZE_def)
  then show ?thesis using mod_PGSIZE_iff[of "page_of va + PGSIZE"] by (simp only: unat_eq_0)
qed

lemma pages_of_step:
  assumes "len \<noteq> 0" "span va len \<noteq> len"
  shows "pages_of va len = Suc (pages_of (PGROUNDDOWN va + PGSIZE) (len - span va len))"
proof -
  let ?o = "va - page_of va"
  have pr: "PGROUNDDOWN va = page_of va" by (rule PGROUNDDOWN_page_of)
  have "?o < 4096" using page_rest(2)[of va] by (simp add: pr)
  then have "unat (PGSIZE - ?o) = 4096 - unat ?o" "unat ?o < 4096"
    using unat_sub[of ?o PGSIZE] by (simp_all add: PGSIZE_def word_less_nat_alt word_le_nat_alt)
  moreover have "span va len = PGSIZE - ?o" using assms(2) by (simp add: span_def pr min_def split: if_splits)
  ultimately have s: "unat (span va len) = 4096 - unat ?o" "unat ?o < 4096" by simp_all
  have a: "page_of (page_of va + PGSIZE) = page_of va + PGSIZE" by (rule page_of_next)
  have "unat ?o + unat len + 4095 = unat (len - span va len) + 4095 + 4096"
    using span_facts(2,7)[OF assms(1), of va] s by linarith
  then show ?thesis unfolding pages_of_def pr a by simp
qed

lemma pages_of_pos: "len \<noteq> 0 \<Longrightarrow> 0 < pages_of va len"
  using unat_gt_0[of len] by (simp add: pages_of_def div_greater_zero_iff)

lemma range_split:
  fixes d n len :: u64
  assumes "n \<le> len"
  shows "d - n < len - n \<longleftrightarrow> d < len \<and> \<not> d < n" and "\<not> d < n \<Longrightarrow> unat n + unat (d - n) = unat d"
proof -
  have n: "unat n \<le> unat len" "unat (len - n) = unat len - unat n"
    using assms unat_sub[OF assms] by (simp_all add: word_le_nat_alt)
  show "\<not> d < n \<Longrightarrow> unat n + unat (d - n) = unat d" using unat_sub[of n d] by (simp add: word_le_nat_alt not_less)
  show "d - n < len - n \<longleftrightarrow> d < len \<and> \<not> d < n"
  proof (cases "d < n")
    case True
    then have "unat (d - n) = 2 ^ 64 + unat d - unat n"
      using unat_sub_if' [of d n] by (simp add: word_less_nat_alt)
    moreover have "unat len < 2 ^ 64" using unsigned_less[of len] by simp
    ultimately have "\<not> unat (d - n) < unat (len - n)" using n by linarith
    with True show ?thesis by (simp add: word_less_nat_alt)
  next
    case False
    with n unat_sub[of n d] show ?thesis by (auto simp: word_less_nat_alt word_le_nat_alt not_less)
  qed
qed

lemma copyout_loop_ok:
  assumes "user_ok s R K r" "\<forall>j < unat len. uacc s r (dstva + of_nat j)" "pages_of dstva len \<le> card (free_pages s)"
  shows "\<exists>s'. copyout_loop r dstva src i len s = Ret (0, s') \<and> user_ok s' R K r \<and> vm_keep s s' R K ({r} \<times> UV)
    \<and> (\<forall>x. page_of x \<in> UV \<longrightarrow>
        umem s' r x = (if x - dstva < len then Some (src (i + unat (x - dstva))) else umem s r x))"
  using assms
proof (induction "unat len" arbitrary: s i dstva len rule: less_induct)
  case less
  note ok = less.prems(1) and acc = less.prems(2)
  show ?case
  proof (cases "len = 0")
    case True
    with ok show ?thesis by (simp add: copyout_loop.simps[of r dstva])
  next
    case False
    let ?n = "span dstva len" and ?va = "PGROUNDDOWN dstva + PGSIZE"
    note f = span_facts[OF False, where va = dstva]
    have "uacc s r (dstva + of_nat 0)" using acc False by (metis unat_gt_0)
    then have a0: "uacc s r dstva" by simp
    then have pv: "page_of dstva \<in> UV" using user_okD(5)[OF ok] by (auto simp: kernel_only_def)
    have fr: "free_pages s \<noteq> {}" using less.prems(3) pages_of_pos[OF False, of dstva] by auto
    show ?thesis
    proof (rule copyout_round[OF ok a0 False fr, of src i], goal_cases)
      case (1 s1)
      have k1: "vm_keep s s1 R K ({r} \<times> UV)" using 1(3) by (rule vm_keep_trans[where Y = "{}"]) (use pv in auto)
      show ?thesis
      proof (cases "?n = len")
        case True
        with 1(1,2,6) k1 show ?thesis by (intro exI[of _ s1]) (simp add: copyout_loop.simps[of r _ _ _ 0])
      next
        case ne: False
        have le: "?n \<le> len" by (simp add: span_def)
        have acc': "\<forall>j < unat (len - ?n). uacc s1 r (?va + of_nat j)"
          unfolding 1(4) using acc span_step[OF False ne, of "uacc s r"] by blast
        have pg: "pages_of ?va (len - ?n) \<le> card (free_pages s1)"
          using less.prems(3) pages_of_step[OF False ne] 1(5) by simp
        from less.hyps[OF span_rest[OF False] 1(2) acc' pg, of "i + unat ?n"] obtain s2 where
          2: "copyout_loop r ?va src (i + unat ?n) (len - ?n) s1 = Ret (0, s2)" "user_ok s2 R K r"
            "vm_keep s1 s2 R K ({r} \<times> UV)"
            "\<And>x. page_of x \<in> UV \<Longrightarrow> umem s2 r x =
              (if x - ?va < len - ?n then Some (src (i + unat ?n + unat (x - ?va))) else umem s1 r x)"
          by metis
        have va: "x - ?va = x - dstva - ?n" for x using f(6)[OF ne] by simp
        have "umem s2 r x = (if x - dstva < len then Some (src (i + unat (x - dstva))) else umem s r x)"
          if "page_of x \<in> UV" for x
          using 2(4)[OF that] 1(6)[OF that] range_split[OF le, of "x - dstva"] le
          by (auto simp: va add.assoc)
        moreover have "vm_keep s s2 R K ({r} \<times> UV)" using k1 2(3) by (rule vm_keep_trans) simp
        ultimately show ?thesis using 1(1) 2(1,2) by auto
      qed
    qed
  qed
qed

subsection \<open>copyinstr\<close>

text \<open>A string of \<open>n\<close> characters at \<open>va\<close>, its NUL included in what the user may read.\<close>

definition ustr :: "'a phys_scheme \<Rightarrow> u64 \<Rightarrow> u64 \<Rightarrow> nat \<Rightarrow> bool" where
  "ustr s r va n \<longleftrightarrow> (\<forall>j \<le> n. uacc s r (va + of_nat j)) \<and> (\<forall>j < n. ubyte s r (va + of_nat j) \<noteq> 0)
     \<and> ubyte s r (va + of_nat n) = 0"

lemma blit_upd: "blit (d(i := f 0)) (Suc i) (\<lambda>j. f (Suc j)) n = blit d i f (Suc n)"
proof
  fix j show "blit (d(i := f 0)) (Suc i) (\<lambda>j. f (Suc j)) n j = blit d i f (Suc n) j"
    by (cases "j = i") (auto simp: blit_def Suc_diff_Suc)
qed

lemma copyinstr_page_clean:
  "(\<forall>j < n. ptr_at m p j \<noteq> 0) \<Longrightarrow>
   copyinstr_page m p dst i n mx = (False, blit dst i (ptr_at m p) n, i + n, mx - of_nat n)"
proof (induction n arbitrary: p dst i mx)
  case (Suc n)
  have s: "ptr_at m (p + 1) = (\<lambda>j. ptr_at m p (Suc j))" by (simp add: ptr_at_def fun_eq_iff add.assoc)
  have "m p \<noteq> 0" using Suc.prems by (auto simp: ptr_at_def dest: spec[of _ 0])
  moreover have "\<forall>j < n. ptr_at m (p + 1) j \<noteq> 0" using Suc.prems by (simp add: s)
  moreover have "blit (dst(i := m p)) (Suc i) (ptr_at m (p + 1)) n = blit dst i (ptr_at m p) (Suc n)"
    using blit_upd[of dst i "ptr_at m p" n] unfolding s by (simp add: ptr_at_def)
  ultimately show ?case using Suc.IH[of "p + 1"] by (simp add: diff_diff_eq)
qed simp

lemma copyinstr_page_nul:
  "(\<forall>j < k. ptr_at m p j \<noteq> 0) \<Longrightarrow> ptr_at m p k = 0 \<Longrightarrow> k < n \<Longrightarrow>
   copyinstr_page m p dst i n mx = (True, blit dst i (ptr_at m p) (Suc k), i + k, mx - of_nat k)"
proof (induction k arbitrary: p dst i mx n)
  case 0
  then obtain n' where n: "n = Suc n'" by (cases n) auto
  have "dst(i := 0) = blit dst i (ptr_at m p) (Suc 0)" using 0 by (auto simp: blit_def fun_eq_iff)
  then show ?case using 0 by (simp add: n ptr_at_def)
next
  case (Suc k)
  then obtain n' where n: "n = Suc n'" by (cases n) auto
  have s: "ptr_at m (p + 1) = (\<lambda>j. ptr_at m p (Suc j))" by (simp add: ptr_at_def fun_eq_iff add.assoc)
  have "m p \<noteq> 0" using Suc.prems by (auto simp: ptr_at_def dest: spec[of _ 0])
  moreover have "\<forall>j < k. ptr_at m (p + 1) j \<noteq> 0" "ptr_at m (p + 1) k = 0" "k < n'" using Suc.prems by (simp_all add: s n)
  moreover have "blit (dst(i := m p)) (Suc i) (ptr_at m (p + 1)) (Suc k) = blit dst i (ptr_at m p) (Suc (Suc k))"
    using blit_upd[of dst i "ptr_at m p" "Suc k"] unfolding s by (simp add: ptr_at_def)
  ultimately show ?case using Suc.IH[of "p + 1" n'] by (simp add: n diff_diff_eq)
qed

lemma first_nul: "(\<forall>j < n. f j \<noteq> 0) \<or> (\<exists>k < n. f k = 0 \<and> (\<forall>j < k. f j \<noteq> 0))" for f :: cptr
proof (cases "\<exists>k < n. f k = 0")
  case True
  then obtain k where k: "k < n" "f k = 0" by blast
  let ?k = "LEAST k. f k = 0"
  have "f ?k = 0" "?k \<le> k" using k(2) by (auto intro: LeastI Least_le)
  moreover have "\<forall>j < ?k. f j \<noteq> 0" using not_less_Least by blast
  ultimately show ?thesis using k(1) by (meson order_le_less_trans)
qed blast

lemma ustr_clean:
  assumes "\<forall>j < m. uacc s r (va + of_nat j) \<and> ubyte s r (va + of_nat j) \<noteq> 0"
  shows "ustr s r va n \<longleftrightarrow> m \<le> n \<and> ustr s r (va + of_nat m) (n - m)"
proof (cases "m \<le> n")
  case True
  have "(\<forall>j \<le> n. uacc s r (va + of_nat j)) \<longleftrightarrow> (\<forall>j \<le> n - m. uacc s r (va + of_nat m + of_nat j))"
    using assms all_less_split[of m "Suc n" "\<lambda>j. uacc s r (va + of_nat j)"] True
    by (simp add: less_Suc_eq_le Suc_diff_le add.assoc)
  moreover have "(\<forall>j < n. ubyte s r (va + of_nat j) \<noteq> 0) \<longleftrightarrow> (\<forall>j < n - m. ubyte s r (va + of_nat m + of_nat j) \<noteq> 0)"
    using assms all_less_split[of m n "\<lambda>j. ubyte s r (va + of_nat j) \<noteq> 0"] True by (simp add: add.assoc)
  moreover have "va + of_nat n = va + of_nat m + of_nat (n - m)" using True by (simp add: of_nat_diff)
  ultimately show ?thesis using True by (simp add: ustr_def)
next
  case False
  with assms show ?thesis by (auto simp: ustr_def)
qed

lemma ustr_unique: "ustr s r va n \<Longrightarrow> ustr s r va m \<Longrightarrow> n = m"
  by (metis (no_types, lifting) linorder_neqE_nat ustr_def)

lemma copyinstr_loop_ok:
  assumes inv: "vm_inv s R K" and r: "r \<in> R" "kernel_only s r"
  shows "(\<forall>n < unat mx. ustr s r srcva n \<longrightarrow>
      copyinstr_loop r dst i srcva mx s = Ret (0, blit dst i (\<lambda>j. ubyte s r (srcva + of_nat j)) (Suc n)))
    \<and> ((\<forall>n < unat mx. \<not> ustr s r srcva n) \<longrightarrow> (\<exists>d. copyinstr_loop r dst i srcva mx s = Ret (-1, d)))"
proof (induction "unat mx" arbitrary: dst i srcva mx rule: less_induct)
  case less
  show ?case
  proof (cases "mx = 0")
    case True
    then show ?thesis by (simp add: copyinstr_loop.simps[of r dst i srcva])
  next
    case False
    let ?n = "span srcva mx" and ?p = "PTE2PA (lookup (ents s) r srcva) + (srcva - PGROUNDDOWN srcva)"
    let ?src = "ptr_at (mem s) ?p" and ?u = "\<lambda>j. ubyte s r (srcva + of_nat j)"
    note f = span_facts[OF False, where va = srcva]
    have w: "walkaddr r (PGROUNDDOWN srcva) s = Ret (if uacc s r srcva then PTE2PA (lookup (ents s) r srcva) else 0)"
      using walkaddr_eq[OF inv r(1), of "page_of srcva"] by (simp add: PGROUNDDOWN_page_of uacc_page lookup_page_of)
    show ?thesis
    proof (cases "uacc s r srcva")
      case no: False
      then have "\<not> ustr s r srcva n" for n by (auto simp: ustr_def dest: spec[of _ 0])
      with no False w show ?thesis by (simp add: copyinstr_loop.simps[of r dst i srcva])
    next
      case yes: True
      have ub: "?u j = ?src j" "uacc s r (srcva + of_nat j)" if "j < unat ?n" for j
        using ubyte_span[OF False that, of s r] yes by simp_all
      have bl: "m \<le> unat ?n \<Longrightarrow> blit dst i ?src m = blit dst i ?u m" for m by (rule blit_cong) (simp add: ub)
      have step: "copyinstr_loop r dst i srcva mx s =
          (case copyinstr_page (mem s) ?p dst i (unat ?n) mx of (got_null, dst, i, mx) \<Rightarrow>
             if got_null then Ret (0, dst) else copyinstr_loop r dst i (PGROUNDDOWN srcva + PGSIZE) mx s)"
        using w yes False uacc_frame_nonzero[OF inv r yes]
        by (subst copyinstr_loop.simps) (simp add: span_def Let_def)
      consider (clean) "\<forall>j < unat ?n. ?src j \<noteq> 0" | (nul) k where "k < unat ?n" "?src k = 0" "\<forall>j < k. ?src j \<noteq> 0"
        using first_nul[of "unat ?n" ?src] by blast
      then show ?thesis
      proof cases
        case nul
        have u: "ustr s r srcva k" using nul ub by (auto simp: ustr_def)
        have "copyinstr_loop r dst i srcva mx s = Ret (0, blit dst i ?u (Suc k))"
          using step copyinstr_page_nul[OF nul(3,2,1)] bl[of "Suc k"] nul(1) by simp
        moreover have "k < unat mx" using nul(1) f(2) by simp
        ultimately show ?thesis using u ustr_unique[OF _ u] by blast
      next
        case clean
        have c: "\<forall>j < unat ?n. uacc s r (srcva + of_nat j) \<and> ?u j \<noteq> 0" using clean ub by auto
        note us = ustr_clean[OF c]
        have ex: "copyinstr_loop r dst i srcva mx s =
            copyinstr_loop r (blit dst i ?u (unat ?n)) (i + unat ?n) (PGROUNDDOWN srcva + PGSIZE) (mx - ?n) s"
          using step copyinstr_page_clean[OF clean] bl[of "unat ?n"] by simp
        show ?thesis
        proof (cases "?n = mx")
          case True
          then have "\<not> ustr s r srcva n" if "n < unat mx" for n using us[of n] that by simp
          with ex True show ?thesis by (simp add: copyinstr_loop.simps[of r _ _ _ 0])
        next
          case ne: False
          let ?va = "PGROUNDDOWN srcva + PGSIZE"
          have va: "?va = srcva + of_nat (unat ?n)" by (rule f(6)[OF ne])
          note IH = less[OF span_rest[OF False, of srcva], of ?va "blit dst i ?u (unat ?n)" "i + unat ?n"]
          have bb: "blit (blit dst i ?u (unat ?n)) (i + unat ?n) (\<lambda>j. ubyte s r (?va + of_nat j)) m =
              blit dst i ?u (unat ?n + m)" for m
            using blit_blit[of dst i ?u "unat ?n" m] unfolding va by (simp add: add.assoc)
          have "copyinstr_loop r dst i srcva mx s = Ret (0, blit dst i ?u (Suc n))" if n: "n < unat mx" "ustr s r srcva n" for n
          proof -
            have "unat ?n \<le> n" "ustr s r ?va (n - unat ?n)" using us[of n] n(2) unfolding va by auto
            moreover have "n - unat ?n < unat (mx - ?n)" using calculation(1) n(1) f(7) by simp
            ultimately have "copyinstr_loop r (blit dst i ?u (unat ?n)) (i + unat ?n) ?va (mx - ?n) s =
                Ret (0, blit dst i ?u (unat ?n + Suc (n - unat ?n)))"
              using IH bb[of "Suc (n - unat ?n)"] by metis
            then show ?thesis using ex \<open>unat ?n \<le> n\<close> by simp
          qed
          moreover have "\<exists>d. copyinstr_loop r dst i srcva mx s = Ret (-1, d)" if no: "\<forall>n < unat mx. \<not> ustr s r srcva n"
          proof -
            have "\<not> ustr s r ?va m" if "m < unat (mx - ?n)" for m
              using no[rule_format, of "unat ?n + m"] us[of "unat ?n + m"] that f(7) unfolding va by auto
            then show ?thesis using ex IH by metis
          qed
          ultimately show ?thesis by blast
        qed
      qed
    qed
  qed
qed

end
