(* ===== verification/AddressSpace.thy ===== *)
theory AddressSpace
  imports UserCopy
begin

text \<open>
  What the virtual-memory code promises, over whole operations of \<^verbatim>\<open>vm.c\<close>: growing and
  shrinking a process, the copy-on-write copy \<^verbatim>\<open>fork\<close> makes, and the copies between
  the kernel and a process.  A small concrete machine shows that the states the theorems
  speak of exist.
\<close>

subsection \<open>A machine with two address spaces\<close>

text \<open>
  Eight pages of RAM: the root \<open>0x87ff8000\<close> maps address 0 to the page \<open>0x87ffb000\<close>, which holds
  the string \<open>hi\<close>, through the tables \<open>0x87ff9000\<close> and \<open>0x87ffa000\<close>; \<open>0x87ffc000\<close> is an empty root;
  the last three pages are free.
\<close>

definition demo :: phys where
  "demo = \<lparr>mem = store64 (store64 (store64 (store64 (store64 (store64 (\<lambda>_. 0)
       0x87ff8000 0x21FFE401) 0x87ff9000 0x21FFE801) 0x87ffa000 0x21FFEC1F) 0x87ffb000 0x6968)
       0x87ffd000 0x87ffe000) 0x87ffe000 0x87fff000,
     kmem_freelist = 0x87ffd000,
     refCount = (\<lambda>i. if 32760 \<le> i \<and> i < 32765 then 1 else 0), kend = 0x87ff8000\<rparr>"

definition demo_pages :: "u64 list" where
  "demo_pages = [0x87ff8000, 0x87ff9000, 0x87ffa000, 0x87ffb000, 0x87ffc000, 0x87ffd000, 0x87ffe000, 0x87fff000]"

definition demoE :: "u64 \<Rightarrow> u64" where
  "demoE t = (if t = 0x87ff8000 then 0x21FFE401 else if t = 0x87ff9000 then 0x21FFE801
     else if t = 0x87ffa000 then 0x21FFEC1F else if t = 0x87ffb000 then 0x6968
     else if t = 0x87ffd000 then 0x87ffe000 else if t = 0x87ffe000 then 0x87fff000 else 0)"

lemma demo_page_of:
  "page_of 0x87ff8000 = 0x87ff8000" "page_of 0x87ff9000 = 0x87ff9000" "page_of 0x87ffa000 = 0x87ffa000"
  "page_of 0x87ffb000 = 0x87ffb000" "page_of 0x87ffc000 = 0x87ffc000" "page_of 0x87ffd000 = 0x87ffd000"
  "page_of 0x87ffe000 = 0x87ffe000" "page_of 0x87fff000 = 0x87fff000"
  by (simp_all add: clear_low_def)

lemma load_slot0:
  assumes "page_of p = p" "page_of q = q" "k < 512"
  shows "load64 (store64 m q v) (slot p k) = (if p = q \<and> k = 0 then v else load64 m (slot p k))"
proof (cases "p = q \<and> k = 0")
  case True
  then show ?thesis by (simp add: slot_def load64_store64)
next
  case False
  then have "slot q 0 \<noteq> slot p k" using slot_inject[OF assms(2,1) _ assms(3), of 0] by auto
  then have "q \<noteq> slot p k" by (simp add: slot_def)
  with False assms show ?thesis by (auto simp: load64_store64_other)
qed

lemma ents_demo:
  assumes "page_of t = t" "k < 512"
  shows "ents demo t k = (if k = 0 then demoE t else 0)"
  using assms
  by (simp add: ents_def pte_load_def demo_def load_slot0 demo_page_of demoE_def load64_zero)

lemma page_in_range:
  fixes p a :: u64
  assumes "page_of p = p" "page_of a = a" "a \<le> p" "unat p < unat a + 4096 * n"
  shows "\<exists>k < n. p = a + of_nat (4096 * k)"
proof (intro exI conjI)
  let ?k = "(unat p - unat a) div 4096"
  have m: "unat p = 4096 * (unat p div 4096)" "unat a = 4096 * (unat a div 4096)"
    using unat_page_of[of p] unat_page_of[of a] assms by simp_all
  have le: "unat a \<le> unat p" using assms(3) by (simp add: word_le_nat_alt)
  have "unat p - unat a = 4096 * ?k" using m le by (metis diff_mult_distrib2 dvd_mult_div_cancel dvd_triv_left)
  then have "unat p = unat a + 4096 * ?k" using le by linarith
  then have "of_nat (unat p) = (of_nat (unat a) + of_nat (4096 * ?k) :: u64)" by (metis of_nat_add)
  then show "p = a + of_nat (4096 * ?k)" by simp
  show "?k < n" using assms(4) le by (intro div_less_iff_less_mult[THEN iffD2]) (auto simp: mult.commute)
qed

lemma is_page_demo: "is_page demo p \<longleftrightarrow> p \<in> set demo_pages"
proof
  assume "is_page demo p"
  then have p: "page_of p = p" "0x87ff8000 \<le> p" "p < 0x88000000"
    by (simp_all add: is_page_def demo_def PHYSTOP_val)
  then have "unat p < unat (0x87ff8000::u64) + 4096 * 8" by (simp add: word_less_nat_alt)
  then obtain k where k: "k < 8" "p = 0x87ff8000 + of_nat (4096 * k)"
    using page_in_range[OF p(1) demo_page_of(1) p(2)] by blast
  then have "k \<in> {0, 1, 2, 3, 4, 5, 6, 7}" by auto
  with k(2) show "p \<in> set demo_pages" by (auto simp: demo_pages_def)
qed (auto simp: demo_pages_def is_page_def demo_def PHYSTOP_val demo_page_of)

lemma refIdx_demo:
  "refIdx 0x87ff8000 = 32760" "refIdx 0x87ff9000 = 32761" "refIdx 0x87ffa000 = 32762" "refIdx 0x87ffb000 = 32763"
  "refIdx 0x87ffc000 = 32764" "refIdx 0x87ffd000 = 32765" "refIdx 0x87ffe000 = 32766" "refIdx 0x87fff000 = 32767"
  by (simp_all add: refIdx_def KERNBASE_def PGSIZE_def)

lemma refs_demo: "refs demo p = (if p \<in> set (take 5 demo_pages) then 1 else 0)"
proof (cases "p \<in> set demo_pages")
  case True
  then show ?thesis by (auto simp: refs_def is_page_demo) (auto simp: demo_pages_def demo_def refIdx_demo)
next
  case False
  then show ?thesis by (auto simp: refs_def is_page_demo demo_pages_def)
qed

lemma free_demo: "free_pages demo = {0x87ffd000, 0x87ffe000, 0x87fff000}"
  by (auto simp: free_pages_def is_page_demo refs_demo) (auto simp: demo_pages_def)

lemma load_demo:
  "load64 (mem demo) 0x87ffd000 = 0x87ffe000" "load64 (mem demo) 0x87ffe000 = 0x87fff000" "load64 (mem demo) 0x87fff000 = 0"
  using ents_demo[OF demo_page_of(6), of 0] ents_demo[OF demo_page_of(7), of 0] ents_demo[OF demo_page_of(8), of 0]
  by (simp_all add: ents_def pte_load_def slot_def demoE_def)

lemma kmem_demo: "kmem_ok demo"
proof -
  have "kmem_inv demo [0x87ffd000, 0x87ffe000, 0x87fff000]"
    unfolding kmem_inv_def free_demo
    using load_demo by (auto simp: refs_demo layout_ok_def) (auto simp: demo_def KERNBASE_def PHYSTOP_val)
  then show ?thesis by (auto simp: kmem_ok_def)
qed

text \<open>Its page-table tree.\<close>

abbreviation demoR :: "u64 set" where
  "demoR \<equiv> {0x87ff8000, 0x87ffc000}"

lemma demoE_bits: "bit (0x21FFE401::u64) 0" "bit (0x21FFE801::u64) 0" "bit (0x21FFEC1F::u64) 0"
    "bit (0x21FFEC1F::u64) 4" "\<not> bit (0x21FFEC1F::u64) 8"
    "PTE2PA 0x21FFE401 = 0x87ff9000" "PTE2PA 0x21FFE801 = 0x87ffa000" "PTE2PA 0x21FFEC1F = 0x87ffb000"
  by (simp_all add: PTE2PA_def bit_iff_odd_drop_bit)

lemma tbl_demo:
  "i < 512 \<Longrightarrow> tbl (ents demo) 0x87ff8000 [i] = (if i = 0 then Some 0x87ff9000 else None)"
  "i < 512 \<Longrightarrow> j < 512 \<Longrightarrow>
    tbl (ents demo) 0x87ff8000 [i, j] = (if i = 0 \<and> j = 0 then Some 0x87ffa000 else None)"
  "i < 512 \<Longrightarrow> tbl (ents demo) 0x87ffc000 (i # q) = None"
  by (simp_all add: ents_demo demo_page_of demoE_def demoE_bits)

lemma lookup_demo:
  "lookup (ents demo) 0x87ff8000 va = (if PX 2 va = 0 \<and> PX 1 va = 0 \<and> PX 0 va = 0 then 0x21FFEC1F else 0)"
  "lookup (ents demo) 0x87ffc000 va = 0"
  by (simp_all add: lookup_def vpath_def tbl_demo ents_demo demo_page_of demoE_def del: tbl.simps)

lemma UV_0: "0 \<in> UV"
  by (simp add: UV_def TRAPFRAME_val clear_low_def)

lemma PX_0: "va < MAXVA \<Longrightarrow> PX 2 va = 0 \<and> PX (Suc 0) va = 0 \<and> PX 0 va = 0 \<longleftrightarrow> page_of va = 0"
  using PX_inject[of va 0] by (simp add: PX_def MAXVA_val clear_low_def)

lemma lookup_demo_UV:
  assumes "va \<in> UV"
  shows "lookup (ents demo) 0x87ff8000 va = (if va = 0 then 0x21FFEC1F else 0)"
  using PX_0[OF UV_less[OF assms]] UV_page[OF assms] by (simp add: lookup_demo)

lemma maps_demo: "maps (ents demo) demoR p = (if p = 0x87ffb000 then {(0x87ff8000, 0)} else {})"
proof -
  have "leaf_to (lookup (ents demo) r va) p \<longleftrightarrow> r = 0x87ff8000 \<and> va = 0 \<and> p = 0x87ffb000"
    if "r \<in> demoR" "va \<in> UV" for r va
    using that by (cases "va = 0") (auto simp: lookup_demo(2) lookup_demo_UV leaf_to_def demoE_bits)
  then show ?thesis using UV_0 by (auto simp: maps_def)
qed

lemma tabs_demo:
  "tabs (ents demo) demoR t = (if t = 0x87ff8000 then {(0x87ff8000, [])} else if t = 0x87ff9000 then {(0x87ff8000, [0])}
     else if t = 0x87ffa000 then {(0x87ff8000, [0, 0])} else if t = 0x87ffc000 then {(0x87ffc000, [])} else {})"
proof -
  have key: "(r, q) \<in> tabs (ents demo) demoR t \<longleftrightarrow>
      (t, r, q) \<in> {(0x87ff8000, 0x87ff8000, []), (0x87ff9000, 0x87ff8000, [0]),
        (0x87ffa000, 0x87ff8000, [0, 0]), (0x87ffc000, 0x87ffc000, [])}" for r q
  proof -
    consider "q = []" | i where "q = [i]" | i j where "q = [i, j]" | i j k q' where "q = i # j # k # q'"
      by (metis list.exhaust)
    then show ?thesis
      by cases (auto simp: tabs_def pos_def tbl_demo split: if_splits simp del: tbl.simps(2))
  qed
  show ?thesis
  proof (rule set_eqI)
    fix x :: "u64 \<times> nat list"
    obtain r q where x: "x = (r, q)" by (cases x)
    show "x \<in> tabs (ents demo) demoR t \<longleftrightarrow> x \<in> (if t = 0x87ff8000 then {(0x87ff8000, [])}
        else if t = 0x87ff9000 then {(0x87ff8000, [0])} else if t = 0x87ffa000 then {(0x87ff8000, [0, 0])}
        else if t = 0x87ffc000 then {(0x87ffc000, [])} else {})"
      unfolding x key by simp
  qed
qed

lemma demo_inv: "vm_inv demo demoR (\<lambda>_. 0)"
  by (simp add: vm_inv_def kmem_demo refs_demo maps_demo tabs_demo demo_pages_def)

lemma uacc_demo:
  "uacc demo 0x87ff8000 va \<longleftrightarrow> va < MAXVA \<and> page_of va = 0" "\<not> uacc demo 0x87ffc000 va"
  using PX_0[of va] by (auto simp: uacc_def lookup_demo demoE_bits)

lemma demo_cow: "cow_ok (ents demo) demoR"
  by (auto simp: cow_ok_def lookup_demo(2) lookup_demo_UV maps_demo demoE_bits split: if_splits)

lemma demo_user: "r \<in> demoR \<Longrightarrow> user_ok demo demoR (\<lambda>_. 0) r"
  using UV_0 by (auto simp: user_ok_def demo_inv demo_cow held_apart_def kernel_only_def uacc_demo)

subsection \<open>Growing and shrinking a process\<close>

text \<open>C23. Growing an address space is all or nothing.  When the pages between the old and the new size are not
  mapped, \<^verbatim>\<open>uvmalloc\<close> ends without a panic; either it returns the new size and each new page is mapped with
  the permissions asked for and reads as zero, or it returns 0 and none of the pages is mapped.  In both cases no
  byte of any other page of any address space changes and every page is still accounted for.\<close>

theorem uvmalloc_all_or_nothing:
  assumes inv: "vm_inv s R K" and cow: "cow_ok (ents s) R" and r: "r \<in> R"
    and sz: "oldsz \<le> newsz" "newsz \<noteq> 0" "unat newsz \<le> 4096 * NUPAGE"
    and new: "\<And>i. npg oldsz \<le> i \<Longrightarrow> i < npg newsz \<Longrightarrow> \<not> bit (lookup (ents s) r (vpage i)) 0"
    and perm: "is_perm xperm" "\<not> bit xperm 8"
  shows "\<exists>n s'. uvmalloc r oldsz newsz xperm s = Ret (n, s') \<and> vm_inv s' R K \<and> cow_ok (ents s') R
    \<and> vm_keep s s' R K (vrange r (npg oldsz) (npg newsz))
    \<and> (if n = newsz then \<forall>i. npg oldsz \<le> i \<and> i < npg newsz \<longrightarrow> grown s' r (PTE_R OR PTE_U OR xperm) i
       else n = 0 \<and> (\<forall>i. npg oldsz \<le> i \<and> i < npg newsz \<longrightarrow> \<not> bit (lookup (ents s') r (vpage i)) 0))"
proof -
  have osz: "unat oldsz \<le> 4096 * NUPAGE" using sz by (simp add: word_le_nat_alt)
  have up: "PGROUNDUP oldsz = vpage (npg oldsz)" using PGROUNDUP_vpage[OF osz] by (simp add: npg_def)
  have b: "npg newsz \<le> NUPAGE" using PGROUNDUP_vpage[OF sz(3)] by (simp add: npg_def)
  have ex: "uvmalloc r oldsz newsz xperm s = uvmalloc_loop r (vpage (npg oldsz)) (vpage (npg oldsz)) newsz xperm s"
    using sz(1) by (auto simp: uvmalloc_def up)
  show ?thesis
    unfolding ex
    using uvmalloc_loop_ok[OF inv cow r order_refl npg_mono[OF sz(1)] b new _ refl perm] sz(2)
    by (fastforce split: if_splits)
qed

theorem uvmalloc_all_or_nothing_witness:
  "\<exists>n s'. uvmalloc 0x87ff8000 4096 8192 PTE_W demo = Ret (n, s') \<and> vm_inv s' demoR (\<lambda>_. 0)
    \<and> (if n = 8192 then grown s' 0x87ff8000 (PTE_R OR PTE_U OR PTE_W) 1 else n = 0)"
proof -
  have n: "npg 4096 = 1" "npg 8192 = 2" by (simp_all add: npg_def)
  have l: "\<not> bit (lookup (ents demo) 0x87ff8000 (vpage i)) 0" if "npg 4096 \<le> i" "i < npg 8192" for i
  proof -
    have "i = 1" using that by (simp add: n)
    moreover have "vpage 1 \<in> UV" by (simp add: NUPAGE_def)
    moreover have "vpage 1 \<noteq> 0" by (simp add: vpage_def)
    ultimately show ?thesis by (simp add: lookup_demo_UV)
  qed
  have p: "is_perm PTE_W" "\<not> bit PTE_W 8" by (simp_all add: is_perm_def pte_simps)
  show ?thesis
    using uvmalloc_all_or_nothing[of demo demoR "\<lambda>_. 0" "0x87ff8000" 4096 8192 PTE_W, OF demo_inv demo_cow _ _ _ _ l p]
    by (fastforce simp: n NUPAGE_def split: if_splits)
qed

text \<open>Shrinking an address space unmaps exactly the pages above the new size: \<^verbatim>\<open>uvmdealloc\<close> returns the new
  size, the pages between the two sizes are gone, nothing else of any address space changes, and the frames
  that lost their last mapping are free again (every reference is accounted for).\<close>

theorem uvmdealloc_correct:
  assumes inv: "vm_inv s R K" and r: "r \<in> R" and sz: "newsz \<le> oldsz" "unat oldsz \<le> 4096 * NUPAGE"
    and leaf: "\<And>i. npg newsz \<le> i \<Longrightarrow> i < npg oldsz \<Longrightarrow> is_leaf (lookup (ents s) r (vpage i))"
  shows "\<exists>s'. uvmdealloc r oldsz newsz s = Ret (newsz, s') \<and> vm_inv s' R K
    \<and> vm_keep s s' R K (vrange r (npg newsz) (npg oldsz))
    \<and> (\<forall>i. npg newsz \<le> i \<and> i < npg oldsz \<longrightarrow> lookup (ents s') r (vpage i) = 0)"
proof (rule uvmdealloc_ok[OF inv r sz leaf], goal_cases)
  case (3 s')
  then show ?case by blast
qed

theorem uvmdealloc_correct_witness:
  "\<exists>s'. uvmdealloc 0x87ff8000 4096 0 demo = Ret (0, s') \<and> vm_inv s' demoR (\<lambda>_. 0)
    \<and> lookup (ents s') 0x87ff8000 (vpage 0) = 0"
proof -
  have n: "npg 4096 = 1" "npg 0 = 0" by (simp_all add: npg_def)
  have l: "is_leaf (lookup (ents demo) 0x87ff8000 (vpage i))" if "npg 0 \<le> i" "i < npg 4096" for i
    using that UV_0 by (simp add: n vpage_def lookup_demo_UV is_leaf_def demoE_bits PTE_FLAGS_def PTE_V_def)
  show ?thesis
    using uvmdealloc_correct[of demo demoR "\<lambda>_. 0" "0x87ff8000" 0 4096, OF demo_inv _ _ _ l] by (fastforce simp: n NUPAGE_def)
qed

subsection \<open>The copy-on-write copy of fork\<close>

lemma uvmcopy_ok:
  assumes "vm_inv s R K" "cow_ok (ents s) R" "old \<in> R" "new \<in> R" "old \<noteq> new" "unat sz \<le> 4096 * NUPAGE"
    and "\<And>j. j < npg sz \<Longrightarrow> bit (lookup (ents s) old (vpage j)) 0"
    and "\<And>j. j < npg sz \<Longrightarrow> \<not> bit (lookup (ents s) new (vpage j)) 0"
  shows "\<exists>n s'. uvmcopy old new sz s = Ret (n, s') \<and> vm_inv s' R K \<and> cow_ok (ents s') R
    \<and> copy_post s s' old new 0 (npg sz) n R K"
proof -
  have b: "npg sz \<le> NUPAGE" using PGROUNDUP_vpage[OF assms(6)] by (simp add: npg_def)
  have z: "vpage 0 = 0" by (simp add: vpage_def)
  show ?thesis using uvmcopy_loop_ok[OF assms(1-5) _ b, of 0, unfolded z] assms(7,8) by (simp add: uvmcopy_def)
qed

text \<open>C1. \<^verbatim>\<open>uvmcopy\<close> gives the child the parent's memory without copying it.  For a parent whose pages up to
  \<^verbatim>\<open>sz\<close> are mapped and a child with none of them, it ends without a panic.  The parent and every other
  address space read the same bytes as before.  On success the child reads the parent's bytes in each page, both
  entries lost the write bit and carry the copy-on-write bit; on failure it returns -1 and the child maps
  none of the pages.  Reference counts stay equal to the number of mappings.\<close>

theorem uvmcopy_shares:
  assumes "vm_inv s R K" "cow_ok (ents s) R" "old \<in> R" "new \<in> R" "old \<noteq> new" "unat sz \<le> 4096 * NUPAGE"
    and "\<And>j. j < npg sz \<Longrightarrow> bit (lookup (ents s) old (vpage j)) 0"
    and "\<And>j. j < npg sz \<Longrightarrow> \<not> bit (lookup (ents s) new (vpage j)) 0"
  shows "\<exists>n s'. uvmcopy old new sz s = Ret (n, s') \<and> vm_inv s' R K \<and> cow_ok (ents s') R
    \<and> (\<forall>q \<in> R. q \<noteq> new \<longrightarrow> (\<forall>va. page_of va \<in> UV \<longrightarrow> umem s' q va = umem s q va))
    \<and> (if n = 0 then \<forall>j va. j < npg sz \<and> page_of va = vpage j \<longrightarrow> umem s' new va = umem s old va
         \<and> (\<forall>q \<in> {old, new}. \<not> bit (lookup (ents s') q va) 2 \<and> bit (lookup (ents s') q va) 8)
       else n = -1 \<and> (\<forall>j < npg sz. umem s' new (vpage j) = None))"
proof -
  obtain n s' where c: "uvmcopy old new sz s = Ret (n, s')" "vm_inv s' R K" "cow_ok (ents s') R"
    "copy_post s s' old new 0 (npg sz) n R K"
    using uvmcopy_ok[OF assms] by blast
  have "umem s' q va = umem s q va" if "q \<in> R" "q \<noteq> new" "page_of va \<in> UV" for q va
  proof (cases "q = old")
    case True
    with c(4) that show ?thesis by (simp add: copy_post_def)
  next
    case False
    with that have "(q, page_of va) \<notin> vrange old 0 (npg sz) \<union> vrange new 0 (npg sz)" by (auto simp: vrange_def)
    with c(4) that show ?thesis using vm_keepD(3)[of s s' R K _ q va] unfolding copy_post_def by blast
  qed
  moreover have "umem s' new va = umem s old va
      \<and> (\<forall>q \<in> {old, new}. \<not> bit (lookup (ents s') q va) 2 \<and> bit (lookup (ents s') q va) 8)"
    if n: "n = 0" and j: "j < npg sz" "page_of va = vpage j" for j va
  proof -
    have "shared s s' old new j" using c(4) n j(1) by (simp add: copy_post_def)
    moreover have "lookup (ents s') q va = lookup (ents s') q (vpage j)" for q using lookup_page_of j(2) by metis
    ultimately show ?thesis using j(2)
      by (auto simp: shared_def bit_cow_entry child_entry_def child_perm_def bit_or_iff bit_and_iff bit_not_iff pte_simps bit_PA2PTE)
  qed
  moreover have "n = -1 \<and> (\<forall>j < npg sz. umem s' new (vpage j) = None)" if "n \<noteq> 0"
    using c(4) that by (auto simp: copy_post_def umem_def)
  ultimately show ?thesis using c(1-3) by (intro exI[of _ n] exI[of _ s']) auto
qed

lemma demo_copy:
  "j < npg 4096 \<Longrightarrow> bit (lookup (ents demo) 0x87ff8000 (vpage j)) 0"
  "j < npg 4096 \<Longrightarrow> \<not> bit (lookup (ents demo) 0x87ffc000 (vpage j)) 0"
  using UV_0 by (simp_all add: npg_def vpage_def lookup_demo(2) lookup_demo_UV demoE_bits)

theorem uvmcopy_shares_witness:
  "\<exists>n s'. uvmcopy 0x87ff8000 0x87ffc000 4096 demo = Ret (n, s') \<and> vm_inv s' demoR (\<lambda>_. 0)
    \<and> (n = 0 \<and> umem s' 0x87ffc000 0 = umem demo 0x87ff8000 0 \<or> n = -1 \<and> umem s' 0x87ffc000 0 = None)"
proof -
  have n: "npg 4096 = 1" by (simp add: npg_def)
  have z: "page_of (0::u64) = vpage 0" "vpage 0 = 0" by (simp_all add: vpage_def clear_low_def)
  obtain m s' where c: "uvmcopy 0x87ff8000 0x87ffc000 4096 demo = Ret (m, s')" "vm_inv s' demoR (\<lambda>_. 0)"
    "if m = 0 then \<forall>j va. j < npg 4096 \<and> page_of va = vpage j \<longrightarrow> umem s' 0x87ffc000 va = umem demo 0x87ff8000 va
         \<and> (\<forall>q \<in> {0x87ff8000, 0x87ffc000}. \<not> bit (lookup (ents s') q va) 2 \<and> bit (lookup (ents s') q va) 8)
       else m = -1 \<and> (\<forall>j < npg 4096. umem s' 0x87ffc000 (vpage j) = None)"
    using uvmcopy_shares[of demo demoR "\<lambda>_. 0" "0x87ff8000" "0x87ffc000" 4096, OF demo_inv demo_cow _ _ _ _ demo_copy]
    by (auto simp: NUPAGE_def)
  have "m = 0 \<and> umem s' 0x87ffc000 0 = umem demo 0x87ff8000 0 \<or> m = -1 \<and> umem s' 0x87ffc000 0 = None"
    using c(3) n z by (cases "m = 0") (auto dest: spec[of _ 0])
  with c(1,2) show ?thesis by blast
qed

subsection \<open>Copies between the kernel and a process\<close>

lemma blit_at_0: "blit d 0 f n = (\<lambda>j. if j < n then f j else d j)"
  by (simp add: blit_def fun_eq_iff)

text \<open>C3. \<^verbatim>\<open>copyout\<close> writes a user range and nothing else, whatever pages are shared.  When the process may use
  every byte of the range and a free page is left for each page the range touches, \<^verbatim>\<open>copyout\<close> returns 0;
  the process then reads the source bytes in the range and its old bytes elsewhere, and every other address space
  reads exactly the bytes it read before, although pages of the range may have been shared with it.\<close>

theorem copyout_writes_own_copy:
  assumes "user_ok s R K r" "\<forall>j < unat len. uacc s r (dstva + of_nat j)" "pages_of dstva len \<le> card (free_pages s)"
  shows "\<exists>s'. copyout r dstva src len s = Ret (0, s') \<and> user_ok s' R K r
    \<and> (\<forall>x. page_of x \<in> UV \<longrightarrow>
        umem s' r x = (if x - dstva < len then Some (src (unat (x - dstva))) else umem s r x))
    \<and> (\<forall>q \<in> R. q \<noteq> r \<longrightarrow> (\<forall>x. page_of x \<in> UV \<longrightarrow> umem s' q x = umem s q x))"
proof -
  obtain s' where c: "copyout_loop r dstva src 0 len s = Ret (0, s')" "user_ok s' R K r" "vm_keep s s' R K ({r} \<times> UV)"
    "\<forall>x. page_of x \<in> UV \<longrightarrow>
      umem s' r x = (if x - dstva < len then Some (src (0 + unat (x - dstva))) else umem s r x)"
    using copyout_loop_ok[OF assms, of src 0] by blast
  have "umem s' q x = umem s q x" if "q \<in> R" "q \<noteq> r" "page_of x \<in> UV" for q x
    using vm_keepD(3)[OF c(3) that(1,3)] that(2) by simp
  with c show ?thesis by (intro exI[of _ s']) (simp add: copyout_def)
qed

lemma uacc_demo_small: "j < 4096 \<Longrightarrow> uacc demo 0x87ff8000 (of_nat j)"
proof -
  assume j: "j < 4096"
  then have u: "unat (of_nat j :: u64) = j" by (intro unat_of_nat_small) simp
  then have "unat (page_of (of_nat j)) = 0" using j by (simp add: unat_page_of)
  then have "page_of (of_nat j) = 0" by (simp add: unat_eq_0)
  then show ?thesis using u j by (simp add: uacc_demo word_less_nat_alt MAXVA_val)
qed

theorem copyout_writes_own_copy_witness:
  "\<exists>s'. copyout 0x87ff8000 1 (\<lambda>_. 7) 2 demo = Ret (0, s') \<and> user_ok s' demoR (\<lambda>_. 0) 0x87ff8000
    \<and> umem s' 0x87ff8000 2 = Some 7"
proof -
  have a: "\<forall>j < unat (2::u64). uacc demo 0x87ff8000 (1 + of_nat j)"
  proof (intro allI impI)
    fix j assume "j < unat (2::u64)"
    then show "uacc demo 0x87ff8000 (1 + of_nat j)" using uacc_demo_small[of "Suc j"] by simp
  qed
  have p: "pages_of 1 2 \<le> card (free_pages demo)"
    by (simp add: pages_of_def free_demo clear_low_def)
  have x: "page_of (2::u64) \<in> UV" using UV_0 by (simp add: clear_low_def)
  obtain s' where "copyout 0x87ff8000 1 (\<lambda>_. 7) 2 demo = Ret (0, s')" "user_ok s' demoR (\<lambda>_. 0) 0x87ff8000"
    "\<forall>x. page_of x \<in> UV \<longrightarrow> umem s' 0x87ff8000 x = (if x - 1 < 2 then Some 7 else umem demo 0x87ff8000 x)"
    using copyout_writes_own_copy[of demo demoR "\<lambda>_. 0" "0x87ff8000" 2 1 "\<lambda>_. 7", OF demo_user a p] by auto
  with x show ?thesis by (auto dest: spec[of _ 2])
qed

text \<open>C27. \<^verbatim>\<open>copyin\<close> returns 0 exactly when the process may use every byte of the range, and then the kernel
  buffer holds those bytes and is unchanged beyond them; otherwise it returns -1.  It never panics or faults.\<close>

theorem copyin_correct:
  assumes "vm_inv s R K" "r \<in> R" "kernel_only s r"
  shows "\<exists>d. copyin r dst srcva len s =
    (if \<forall>j < unat len. uacc s r (srcva + of_nat j)
     then Ret (0, \<lambda>j. if j < unat len then ubyte s r (srcva + of_nat j) else dst j) else Ret (-1, d))"
  using copyin_loop_ok[OF assms, of dst 0 srcva len] by (simp only: copyin_def blit_at_0)

theorem copyin_correct_witness:
  "\<exists>d. copyin 0x87ffc000 (\<lambda>_. 1) 0 3 demo = Ret (-1, d)"
proof -
  have "\<not> (\<forall>j < unat (3::u64). uacc demo 0x87ffc000 (0 + of_nat j))" using uacc_demo(2) by (auto intro: exI[of _ 0])
  then show ?thesis
    using copyin_correct[of demo demoR "\<lambda>_. 0" "0x87ffc000" "\<lambda>_. 1" 0 3, OF demo_inv _ user_okD(5)[OF demo_user]]
    by (simp only: if_False) simp
qed

text \<open>C30. \<^verbatim>\<open>copyinstr\<close> finds the NUL: when a string of \<open>n\<close> characters, with \<open>n\<close> below \<^verbatim>\<open>max\<close>, lies at
  the user address and its bytes up to the NUL may be used, \<^verbatim>\<open>copyinstr\<close> returns 0 with these \<open>n + 1\<close>
  bytes in the buffer; if there is no such string it returns -1.  No byte past the NUL is examined.\<close>

theorem copyinstr_correct:
  assumes "vm_inv s R K" "r \<in> R" "kernel_only s r"
  shows "(\<forall>n < unat mx. ustr s r srcva n \<longrightarrow> copyinstr r dst srcva mx s =
      Ret (0, \<lambda>j. if j \<le> n then ubyte s r (srcva + of_nat j) else dst j))
    \<and> ((\<forall>n < unat mx. \<not> ustr s r srcva n) \<longrightarrow> (\<exists>d. copyinstr r dst srcva mx s = Ret (-1, d)))"
  using copyinstr_loop_ok[OF assms, of mx srcva dst 0] by (simp only: copyinstr_def blit_at_0 less_Suc_eq_le)

lemma ubyte_demo: "ubyte demo 0x87ff8000 0 = 0x68" "ubyte demo 0x87ff8000 1 = 0x69" "ubyte demo 0x87ff8000 2 = 0"
proof -
  have l: "lookup (ents demo) 0x87ff8000 va = 0x21FFEC1F" if "va < 4096" for va
  proof -
    have "page_of va = 0" using page_iff[of 0 va] that by (simp add: clear_low_def)
    then show ?thesis using lookup_page_of[of "ents demo" "0x87ff8000" va] lookup_demo_UV[OF UV_0] by simp
  qed
  show "ubyte demo 0x87ff8000 0 = 0x68" "ubyte demo 0x87ff8000 1 = 0x69" "ubyte demo 0x87ff8000 2 = 0"
    by (simp_all add: ubyte_def l demoE_bits clear_low_def)
      (simp_all add: demo_def store64_def)
qed

theorem copyinstr_correct_witness:
  "copyinstr 0x87ff8000 (\<lambda>_. 9) 0 128 demo =
     Ret (0, \<lambda>j. if j \<le> 2 then ubyte demo 0x87ff8000 (0 + of_nat j) else 9)"
proof -
  have "uacc demo 0x87ff8000 (0 + of_nat j)" if "j \<le> 2" for j using uacc_demo_small[of j] that by simp
  moreover have "ubyte demo 0x87ff8000 (0 + of_nat j) \<noteq> 0" if "j < 2" for j
  proof -
    have "j = 0 \<or> j = 1" using that by auto
    then show ?thesis using ubyte_demo by auto
  qed
  ultimately have "ustr demo 0x87ff8000 0 2" using ubyte_demo(3) by (simp add: ustr_def)
  moreover have "2 < unat (128::u64)" by simp
  ultimately show ?thesis
    using copyinstr_correct[of demo demoR "\<lambda>_. 0" "0x87ff8000" 128 0 "\<lambda>_. 9", OF demo_inv] user_okD(5)[OF demo_user, of "0x87ff8000"]
    by blast
qed

text \<open>C34. \<^verbatim>\<open>copyout\<close> to an address whose page-table page does not exist ends in a null dereference in the
  kernel and not in the -1 its comment promises: since the copy-on-write change it reads the entry \<^verbatim>\<open>walk\<close> returned
  before it tests whether the page is mapped.\<close>

theorem copyout_unmapped_fault:
  assumes "vm_inv s R K" "r \<in> R" "len \<noteq> 0" "dstva < MAXVA" "tbl (ents s) r (vpath (page_of dstva)) = None"
  shows "copyout r dstva src len s = Fault ''copyout: pte''"
proof -
  have "page_of dstva \<le> dstva" by (simp add: word_le_nat_alt unat_page_of times_div_less_eq_dividend)
  then have lt: "page_of dstva < MAXVA" using assms(4) by simp
  show ?thesis
    using assms lt walkaddr_eq[OF assms(1,2)]
    by (auto simp: copyout_def copyout_loop.simps[of r dstva] PGROUNDDOWN_page_of Let_def walk_False)
qed

theorem copyout_unmapped_fault_witness:
  "copyout 0x87ffc000 0 (\<lambda>_. 7) 1 demo = Fault ''copyout: pte''"
  by (rule copyout_unmapped_fault[OF demo_inv])
    (simp_all add: MAXVA_val vpath_def tbl_demo(3) del: tbl.simps)

end
