(* ===== verification/Proc.thy ===== *)
theory Proc
  imports Spinlock AddressSpace
begin

text \<open>
  The process table of \<^verbatim>\<open>kernel/proc.c\<close> and \<^verbatim>\<open>kernel/proc.h\<close>, and the operations on it that need no file
  system: allocating and freeing a slot with its page table, switching, sleeping and waking,
  killing, accounting of time, tickets and priorities.

  A pointer to a process is the index of its slot.  The trap frame lives in its page of RAM, as in
  the code; \<open>tf_get\<close> and \<open>tf_set\<close> access its registers.  \<open>swtch\<close> is a parameter: what the machine
  does between the moment a thread is switched out and the moment it is switched back in.
\<close>

subsection \<open>Trap frames\<close>

datatype tfreg = Kernel_satp | Kernel_sp | Kernel_trap | Epc | Kernel_hartid | Ra | Sp | Gp | Tp | T0 | T1 | T2 | S0 | S1
  | A0 | A1 | A2 | A3 | A4 | A5 | A6 | A7 | S2 | S3 | S4 | S5 | S6 | S7 | S8 | S9 | S10 | S11 | T3 | T4 | T5 | T6

fun tf_index :: "tfreg \<Rightarrow> nat" where
  "tf_index Kernel_satp = 0" | "tf_index Kernel_sp = 1" | "tf_index Kernel_trap = 2" | "tf_index Epc = 3"
| "tf_index Kernel_hartid = 4" | "tf_index Ra = 5" | "tf_index Sp = 6" | "tf_index Gp = 7" | "tf_index Tp = 8"
| "tf_index T0 = 9" | "tf_index T1 = 10" | "tf_index T2 = 11" | "tf_index S0 = 12" | "tf_index S1 = 13"
| "tf_index A0 = 14" | "tf_index A1 = 15" | "tf_index A2 = 16" | "tf_index A3 = 17" | "tf_index A4 = 18"
| "tf_index A5 = 19" | "tf_index A6 = 20" | "tf_index A7 = 21" | "tf_index S2 = 22" | "tf_index S3 = 23"
| "tf_index S4 = 24" | "tf_index S5 = 25" | "tf_index S6 = 26" | "tf_index S7 = 27" | "tf_index S8 = 28"
| "tf_index S9 = 29" | "tf_index S10 = 30" | "tf_index S11 = 31" | "tf_index T3 = 32" | "tf_index T4 = 33"
| "tf_index T5 = 34" | "tf_index T6 = 35"

text \<open>The 36 registers of a trap frame, as a value: what a \<^verbatim>\<open>memmove\<close> of the structure copies.\<close>

type_synonym frame = "nat \<Rightarrow> u64"

definition frame_load :: "memory \<Rightarrow> u64 \<Rightarrow> frame" where
  "frame_load m a = (\<lambda>k. if k < 36 then load64 m (slot a k) else 0)"

fun frame_store :: "nat \<Rightarrow> frame \<Rightarrow> u64 \<Rightarrow> memory \<Rightarrow> memory" where
  "frame_store 0 f a m = m"
| "frame_store (Suc k) f a m = store64 (frame_store k f a m) (slot a k) (f k)"

subsection \<open>The process table\<close>

datatype procstate = UNUSED | USED | SLEEPING | RUNNABLE | RUNNING | ZOMBIE

text \<open>The two registers of \<^verbatim>\<open>struct context\<close> the C code sets; \<^verbatim>\<open>memset\<close> clears the others.\<close>

record kcontext =
  cx_ra :: u64
  cx_sp :: u64

record proc =
  p_lock :: spinlock
  p_state :: procstate
  p_chan :: "chan option"
  p_killed :: int
  p_xstate :: int
  p_pid :: int
  p_parent :: "nat option"
  p_kstack :: u64
  p_sz :: u64
  p_pagetable :: u64
  p_trapframe :: u64
  p_context :: kcontext
  p_ofile :: "nat \<Rightarrow> nat option"
  p_cwd :: "nat option"
  p_name :: cptr
  p_trace_mask :: int
  p_max_alarm_ticks :: int
  p_alarm_ticks :: int
  p_handler :: u64
  p_alarm_trap :: frame
  p_rtime :: uint
  p_ctime :: uint
  p_etime :: uint
  p_stime :: uint
  p_sched_ct :: int
  p_curr_wait_time :: u64
  p_in_queue :: u64
  p_queue_position :: int
  p_ticks_used :: int
  p_queue_time :: "nat \<Rightarrow> int"
  p_queue_entry :: int
  p_static_priority :: int
  p_niceness :: int
  p_tickets :: int

text \<open>
  The globals of \<^verbatim>\<open>proc.c\<close>, \<^verbatim>\<open>queue.c\<close> and \<^verbatim>\<open>trap.c\<close>; \<open>cur\<close> is \<^verbatim>\<open>mycpu()->proc\<close>, and \<open>forkret_addr\<close> the address
  of the function \<^verbatim>\<open>forkret\<close>.
\<close>

record kernel = hart +
  ptable :: "nat \<Rightarrow> proc"
  initproc :: "nat option"
  nextpid :: int
  ticks :: uint
  lfsr :: ushort
  cur :: "nat option"
  forkret_addr :: u64
  sched_queue :: "nat \<Rightarrow> nat \<Rightarrow> nat option"
  q_max_ticks :: "nat \<Rightarrow> int"
  q_size :: "nat \<Rightarrow> int"
  q_back :: "nat \<Rightarrow> int"

definition upd_proc :: "nat \<Rightarrow> (proc \<Rightarrow> proc) \<Rightarrow> 'a kernel_scheme \<Rightarrow> 'a kernel_scheme" where
  "upd_proc i f s = s\<lparr>ptable := (ptable s)(i := f (ptable s i))\<rparr>"

definition tf_get :: "tfreg \<Rightarrow> nat \<Rightarrow> 'a kernel_scheme \<Rightarrow> u64" where
  "tf_get r i s = load64 (mem s) (slot (p_trapframe (ptable s i)) (tf_index r))"

definition tf_set :: "tfreg \<Rightarrow> u64 \<Rightarrow> nat \<Rightarrow> 'a kernel_scheme \<Rightarrow> 'a kernel_scheme" where
  "tf_set r v i s = s\<lparr>mem := store64 (mem s) (slot (p_trapframe (ptable s i)) (tf_index r)) v\<rparr>"

text \<open>A use of \<^verbatim>\<open>myproc()->...\<close>: a null pointer when no process runs.\<close>

definition with_cur :: "(nat \<Rightarrow> 'a kernel_scheme \<Rightarrow> 'b kres) \<Rightarrow> 'a kernel_scheme \<Rightarrow> 'b kres" where
  "with_cur f s = (case cur s of None \<Rightarrow> Fault ''myproc'' | Some i \<Rightarrow> f i s)"

definition cpuid :: "'a kernel_scheme \<Rightarrow> nat" where
  "cpuid s = hartid s"

definition myproc :: "'a kernel_scheme \<Rightarrow> nat option" where
  "myproc s = cur s"

definition procinit :: "'a kernel_scheme \<Rightarrow> 'a kernel_scheme" where
  "procinit s = fold (\<lambda>i. upd_proc i (\<lambda>p. p\<lparr>p_lock := initlock, p_state := UNUSED, p_kstack := KSTACK i\<rparr>)) [0..<NPROC] s"

definition allocpid :: "'a kernel_scheme \<Rightarrow> int \<times> 'a kernel_scheme" where
  "allocpid s = (nextpid s, s\<lparr>nextpid := nextpid s + 1\<rparr>)"

definition proc_freepagetable :: "u64 \<Rightarrow> u64 \<Rightarrow> 'a phys_scheme \<Rightarrow> 'a phys_scheme kres" where
  "proc_freepagetable pagetable sz s =
     kbind (uvmunmap pagetable TRAMPOLINE 1 False s) (\<lambda>s.
     kbind (uvmunmap pagetable TRAPFRAME 1 False s) (\<lambda>s.
     uvmfree pagetable sz s))"

definition proc_pagetable :: "nat \<Rightarrow> 'a kernel_scheme \<Rightarrow> (u64 \<times> 'a kernel_scheme) kres" where
  "proc_pagetable i s =
     kbind (uvmcreate s) (\<lambda>(pagetable, s).
       if pagetable = 0 then Ret (0, s)
       else kbind (mappages pagetable TRAMPOLINE PGSIZE (trampoline s) (PTE_R OR PTE_X) s) (\<lambda>(r, s).
         if r < 0 then kbind (uvmfree pagetable 0 s) (\<lambda>s. Ret (0, s))
         else kbind (mappages pagetable TRAPFRAME PGSIZE (p_trapframe (ptable s i)) (PTE_R OR PTE_W) s) (\<lambda>(r, s).
           if r < 0
           then kbind (uvmunmap pagetable TRAMPOLINE 1 False s) (\<lambda>s.
                kbind (uvmfree pagetable 0 s) (\<lambda>s. Ret (0, s)))
           else Ret (pagetable, s))))"

definition freeproc :: "nat \<Rightarrow> 'a kernel_scheme \<Rightarrow> 'a kernel_scheme kres" where
  "freeproc i s =
     kbind (if p_trapframe (ptable s i) \<noteq> 0 then kfree (p_trapframe (ptable s i)) s else Ret s) (\<lambda>s.
     let s = upd_proc i (p_trapframe_update (\<lambda>_. 0)) s in
     kbind (if p_pagetable (ptable s i) \<noteq> 0
            then proc_freepagetable (p_pagetable (ptable s i)) (p_sz (ptable s i)) s else Ret s) (\<lambda>s.
     Ret (upd_proc i (\<lambda>p. p\<lparr>p_pagetable := 0, p_sz := 0, p_pid := 0, p_parent := None, p_name := (p_name p)(0 := 0),
       p_chan := None, p_killed := 0, p_xstate := 0, p_state := UNUSED, p_static_priority := 0, p_niceness := 5,
       p_rtime := 0, p_stime := 0, p_sched_ct := 0, p_etime := 0\<rparr>) s)))"

text \<open>The search loop of \<^verbatim>\<open>allocproc\<close>; it stops at the first unused slot.\<close>

fun find_slot :: "(proc \<Rightarrow> bool) \<Rightarrow> nat list \<Rightarrow> (nat \<Rightarrow> proc) \<Rightarrow> nat option" where
  "find_slot P [] tab = None"
| "find_slot P (i # is) tab = (if P (tab i) then Some i else find_slot P is tab)"

definition alloc_init :: "int \<Rightarrow> proc \<Rightarrow> proc" where
  "alloc_init pid p = p\<lparr>p_pid := pid, p_state := USED, p_queue_position := 0, p_ticks_used := 0, p_in_queue := 0,
     p_curr_wait_time := 0, p_queue_entry := 0, p_queue_time := (\<lambda>j. if j < 5 then 0 else p_queue_time p j),
     p_static_priority := 60, p_niceness := 5\<rparr>"

definition alloc_fini :: "u64 \<Rightarrow> uint \<Rightarrow> proc \<Rightarrow> proc" where
  "alloc_fini forkret now p = p\<lparr>p_context := \<lparr>cx_ra = forkret, cx_sp = p_kstack p + PGSIZE\<rparr>,
     p_max_alarm_ticks := -1, p_alarm_ticks := -1, p_handler := -1, p_rtime := 0, p_etime := 0, p_ctime := now,
     p_stime := 0, p_ticks_used := 0, p_queue_position := 0, p_in_queue := 0, p_queue_entry := 0,
     p_curr_wait_time := 0\<rparr>"

definition allocproc :: "'a kernel_scheme \<Rightarrow> (nat option \<times> 'a kernel_scheme) kres" where
  "allocproc s =
     (case find_slot (\<lambda>p. p_state p = UNUSED) [0..<NPROC] (ptable s) of
        None \<Rightarrow> Ret (None, s)
      | Some i \<Rightarrow>
          let (pid, s) = allocpid s;
              s = upd_proc i (alloc_init pid) s
          in kbind (kalloc s) (\<lambda>(tf, s).
             let s = upd_proc i (p_trapframe_update (\<lambda>_. tf)) s in
             if tf = 0 then kbind (freeproc i s) (\<lambda>s. Ret (None, s))
             else kbind (proc_pagetable i s) (\<lambda>(pt, s).
               let s = upd_proc i (p_pagetable_update (\<lambda>_. pt)) s in
               if pt = 0 then kbind (freeproc i s) (\<lambda>s. Ret (None, s))
               else Ret (Some i, upd_proc i (alloc_fini (forkret_addr s) (ticks s)) s))))"

definition growproc :: "int \<Rightarrow> 'a kernel_scheme \<Rightarrow> (int \<times> 'a kernel_scheme) kres" where
  "growproc n = with_cur (\<lambda>i s.
     let p = ptable s i; sz = p_sz p in
     if n > 0
     then kbind (uvmalloc (p_pagetable p) sz (sz + word_of_int n) PTE_W s) (\<lambda>(sz, s).
            if sz = 0 then Ret (-1, s) else Ret (0, upd_proc i (p_sz_update (\<lambda>_. sz)) s))
     else if n < 0
     then kbind (uvmdealloc (p_pagetable p) sz (sz + word_of_int n) s) (\<lambda>(sz, s).
            Ret (0, upd_proc i (p_sz_update (\<lambda>_. sz)) s))
     else Ret (0, upd_proc i (p_sz_update (\<lambda>_. sz)) s))"

end
