(* ===== verification/ProcOps.thy ===== *)
theory ProcOps
  imports Proc
begin

text \<open>
  The rest of \<^verbatim>\<open>kernel/proc.c\<close> that works on the process table alone: giving up the processor, sleeping and
  waking, killing, the accounting done at each clock tick, tickets, the pseudo-random generator, static and
  dynamic priorities, and the copies whose address may be a user's or the kernel's.
\<close>

subsection \<open>Giving up the processor\<close>

text \<open>
  \<open>swtch\<close> stands for the assembly routine together with whatever runs until this thread is chosen
  again.
\<close>

definition sched :: "('a kernel_scheme \<Rightarrow> 'a kernel_scheme kres) \<Rightarrow> 'a kernel_scheme \<Rightarrow> 'a kernel_scheme kres" where
  "sched swtch = with_cur (\<lambda>i s.
     if \<not> holding (p_lock (ptable s i)) s then Panic ''sched p->lock''
     else if noff s \<noteq> 1 then Panic ''sched locks''
     else if p_state (ptable s i) = RUNNING then Panic ''sched running''
     else if intr s then Panic ''sched interruptible''
     else let ie = intena s in kbind (swtch s) (\<lambda>s. Ret (s\<lparr>intena := ie\<rparr>)))"

definition acquire_proc :: "nat \<Rightarrow> 'a kernel_scheme \<Rightarrow> 'a kernel_scheme kres" where
  "acquire_proc i s = kbind (acquire (p_lock (ptable s i)) s) (\<lambda>(lk, s). Ret (upd_proc i (p_lock_update (\<lambda>_. lk)) s))"

definition release_proc :: "nat \<Rightarrow> 'a kernel_scheme \<Rightarrow> 'a kernel_scheme kres" where
  "release_proc i s = kbind (release (p_lock (ptable s i)) s) (\<lambda>(lk, s). Ret (upd_proc i (p_lock_update (\<lambda>_. lk)) s))"

definition yield :: "('a kernel_scheme \<Rightarrow> 'a kernel_scheme kres) \<Rightarrow> 'a kernel_scheme \<Rightarrow> 'a kernel_scheme kres" where
  "yield swtch = with_cur (\<lambda>i s.
     kbind (acquire_proc i s) (\<lambda>s.
     kbind (sched swtch (upd_proc i (p_state_update (\<lambda>_. RUNNABLE)) s)) (release_proc i)))"

text \<open>
  The lock the caller of \<^verbatim>\<open>sleep\<close> holds protects what it waits for; what happens between its release and its
  re-acquisition is part of \<open>swtch\<close>.
\<close>

definition sleep :: "('a kernel_scheme \<Rightarrow> 'a kernel_scheme kres) \<Rightarrow> chan \<Rightarrow> 'a kernel_scheme \<Rightarrow> 'a kernel_scheme kres" where
  "sleep swtch c = with_cur (\<lambda>i s.
     kbind (acquire_proc i s) (\<lambda>s.
     kbind (sched swtch (upd_proc i (\<lambda>p. p\<lparr>p_chan := Some c, p_state := SLEEPING\<rparr>) s)) (\<lambda>s.
     release_proc i (upd_proc i (p_chan_update (\<lambda>_. None)) s))))"

definition wakeup :: "chan \<Rightarrow> 'a kernel_scheme \<Rightarrow> 'a kernel_scheme" where
  "wakeup c = fold (\<lambda>i s.
     if Some i \<noteq> myproc s \<and> p_state (ptable s i) = SLEEPING \<and> p_chan (ptable s i) = Some c
     then upd_proc i (p_state_update (\<lambda>_. RUNNABLE)) s else s) [0..<NPROC]"

definition kill :: "int \<Rightarrow> 'a kernel_scheme \<Rightarrow> int \<times> 'a kernel_scheme" where
  "kill pid s =
     (case find_slot (\<lambda>p. p_pid p = pid) [0..<NPROC] (ptable s) of
        None \<Rightarrow> (-1, s)
      | Some i \<Rightarrow> (0, upd_proc i (\<lambda>p. p\<lparr>p_killed := 1,
          p_state := if p_state p = SLEEPING then RUNNABLE else p_state p\<rparr>) s))"

definition setkilled :: "nat \<Rightarrow> 'a kernel_scheme \<Rightarrow> 'a kernel_scheme" where
  "setkilled i = upd_proc i (p_killed_update (\<lambda>_. 1))"

definition killed :: "nat \<Rightarrow> 'a kernel_scheme \<Rightarrow> int" where
  "killed i s = p_killed (ptable s i)"

subsection \<open>Accounting\<close>

definition tick_proc :: "proc \<Rightarrow> proc" where
  "tick_proc p =
     (let p = (if p_state p = RUNNING \<or> p_state p = SLEEPING \<or> p_state p = RUNNABLE
               then p\<lparr>p_queue_time := (p_queue_time p)(nat (p_queue_position p) := p_queue_time p (nat (p_queue_position p)) + 1)\<rparr>
               else p);
          p = (if p_state p = SLEEPING \<or> p_state p = RUNNABLE then p\<lparr>p_curr_wait_time := p_curr_wait_time p + 1\<rparr> else p)
      in if p_state p = RUNNING then p\<lparr>p_rtime := p_rtime p + 1\<rparr>
         else if p_state p = SLEEPING then p\<lparr>p_stime := p_stime p + 1\<rparr> else p)"

definition update_time :: "'a kernel_scheme \<Rightarrow> 'a kernel_scheme" where
  "update_time = fold (\<lambda>i. upd_proc i tick_proc) [0..<NPROC]"

subsection \<open>Tickets and the pseudo-random generator\<close>

text \<open>
  A sum of type \<^verbatim>\<open>int\<close>; one that does not fit is undefined in C.
\<close>

definition add_int :: "int \<Rightarrow> int \<Rightarrow> int kres" where
  "add_int a b = (if - (2 ^ 31) \<le> a + b \<and> a + b < 2 ^ 31 then Ret (a + b) else Fault ''signed overflow'')"

definition totalTickets :: "'a kernel_scheme \<Rightarrow> int kres" where
  "totalTickets s =
     kfold (\<lambda>i total. if p_state (ptable s i) = RUNNABLE then add_int total (p_tickets (ptable s i)) else Ret total) [0..<NPROC] 0"

definition lfsr_next :: "ushort \<Rightarrow> ushort" where
  "lfsr_next l =
     (let b = (drop_bit 0 l XOR drop_bit 2 l XOR drop_bit 3 l XOR drop_bit 5 l) AND 1
      in drop_bit 1 l OR push_bit 15 b)"

definition random :: "'a kernel_scheme \<Rightarrow> uint \<times> 'a kernel_scheme" where
  "random s = (let l = lfsr_next (lfsr s) in (ucast l, s\<lparr>lfsr := l\<rparr>))"

definition settickets :: "int \<Rightarrow> 'a kernel_scheme \<Rightarrow> 'a kernel_scheme kres" where
  "settickets n = with_cur (\<lambda>i s.
     let s = upd_proc i (p_tickets_update (\<lambda>_. n)) s in
     case find_slot (\<lambda>p. p_pid p = p_pid (ptable s i)) [0..<NPROC] (ptable s) of
       None \<Rightarrow> Ret s
     | Some j \<Rightarrow> Ret (upd_proc j (p_tickets_update (\<lambda>_. n)) s))"

subsection \<open>Priorities\<close>

text \<open>
  The loop of \<^verbatim>\<open>set_static_priority\<close> returns in its first round, at \<^verbatim>\<open>return old_priority\<close>, before \<^verbatim>\<open>p++\<close>.
\<close>

definition set_prio :: "int \<Rightarrow> proc \<Rightarrow> proc" where
  "set_prio priority p = p\<lparr>p_niceness := 5, p_rtime := 0, p_stime := 0, p_static_priority := priority\<rparr>"

fun set_static_priority_loop :: "('a kernel_scheme \<Rightarrow> 'a kernel_scheme kres) \<Rightarrow> int \<Rightarrow> int \<Rightarrow> nat list \<Rightarrow>
    'a kernel_scheme \<Rightarrow> (int \<times> 'a kernel_scheme) kres" where
  "set_static_priority_loop swtch priority pid [] s = Ret (0, s)"
| "set_static_priority_loop swtch priority pid (i # is) s =
     (let p = ptable s i;
          (old_priority, s) =
            (if myproc s \<noteq> Some i
             then (p_static_priority p, if p_pid p = pid then upd_proc i (set_prio priority) s else s)
             else if p_pid p = pid then (p_static_priority p, upd_proc i (set_prio priority) s)
             else (0, s))
      in kbind (if priority < old_priority then yield swtch s else Ret s) (\<lambda>s. Ret (old_priority, s)))"

definition set_static_priority :: "('a kernel_scheme \<Rightarrow> 'a kernel_scheme kres) \<Rightarrow> int \<Rightarrow> int \<Rightarrow>
    'a kernel_scheme \<Rightarrow> (int \<times> 'a kernel_scheme) kres" where
  "set_static_priority swtch priority pid s = set_static_priority_loop swtch priority pid [0..<NPROC] s"

definition max_u64 :: "u64 \<Rightarrow> u64 \<Rightarrow> u64" where
  "max_u64 a b = (if a > b then a else b)"

definition min_u64 :: "u64 \<Rightarrow> u64 \<Rightarrow> u64" where
  "min_u64 a b = (if a < b then a else b)"

text \<open>The quotient is computed in 32 bits; a sum that wraps to zero is a division by zero.\<close>

definition get_dynamic_priority :: "nat \<Rightarrow> 'a kernel_scheme \<Rightarrow> (u64 \<times> 'a kernel_scheme) kres" where
  "get_dynamic_priority i s =
     (let p = ptable s i in
      kbind (if p_rtime p = 0 then Ret 5
             else if p_rtime p + p_stime p = 0 then Fault ''division by zero''
             else Ret (ucast ((p_stime p div (p_rtime p + p_stime p)) * 10))) (\<lambda>niceness :: u64.
      let s = upd_proc i (p_niceness_update (\<lambda>_. sint (ucast niceness :: 32 word))) s;
          min_val = min_u64 (word_of_int (p_static_priority p) - niceness + 5) 100
      in Ret (max_u64 0 min_val, s)))"

subsection \<open>Copies to and from either space\<close>

definition either_copyout :: "bool \<Rightarrow> u64 \<Rightarrow> cptr \<Rightarrow> u64 \<Rightarrow> 'a kernel_scheme \<Rightarrow> (int \<times> 'a kernel_scheme) kres" where
  "either_copyout user_dst dst src len s =
     (if user_dst then with_cur (\<lambda>i s. copyout (p_pagetable (ptable s i)) dst src len s) s
      else Ret (0, s\<lparr>mem := mem_write (mem s) dst src (ucast (ucast len :: uint))\<rparr>))"

definition either_copyin :: "cptr \<Rightarrow> bool \<Rightarrow> u64 \<Rightarrow> u64 \<Rightarrow> 'a kernel_scheme \<Rightarrow> (int \<times> cptr) kres" where
  "either_copyin dst user_src src len s =
     (if user_src then with_cur (\<lambda>i s. copyin (p_pagetable (ptable s i)) dst src len s) s
      else Ret (0, blit dst 0 (ptr_at (mem s) src) (unat (ucast len :: uint))))"

subsection \<open>Loops over the table\<close>

named_theorems proc_simps \<open>the process table after an update\<close>

lemma upd_proc_fields [simp]:
  "cur (upd_proc i f s) = cur s" "mem (upd_proc i f s) = mem s" "noff (upd_proc i f s) = noff s"
  "intr (upd_proc i f s) = intr s" "intena (upd_proc i f s) = intena s" "hartid (upd_proc i f s) = hartid s"
  "ticks (upd_proc i f s) = ticks s" "nextpid (upd_proc i f s) = nextpid s" "initproc (upd_proc i f s) = initproc s"
  "sched_queue (upd_proc i f s) = sched_queue s" "q_size (upd_proc i f s) = q_size s" "q_back (upd_proc i f s) = q_back s"
  "q_max_ticks (upd_proc i f s) = q_max_ticks s" "lfsr (upd_proc i f s) = lfsr s"
  by (simp_all add: upd_proc_def)

lemma ptable_upd_proc [simp]: "ptable (upd_proc i f s) j = (if j = i then f (ptable s i) else ptable s j)"
  by (simp add: upd_proc_def)

lemma upd_proc_id: "upd_proc i (\<lambda>p. if P p then f p else p) s = (if P (ptable s i) then upd_proc i f s else s)"
  by (simp add: upd_proc_def)

lemma fold_upd_proc:
  "fold (\<lambda>i. upd_proc i (f i)) [0..<n] s = s\<lparr>ptable := \<lambda>j. if j < n then f j (ptable s j) else ptable s j\<rparr>"
proof (induction n)
  case (Suc n)
  have "(\<lambda>j. if j < Suc n then f j (ptable s j) else ptable s j) =
      (\<lambda>j. if j < n then f j (ptable s j) else ptable s j)(n := f n (ptable s n))"
    by (auto simp: less_Suc_eq)
  with Suc show ?case by (simp add: upd_proc_def)
qed simp

lemma wakeup_eq:
  "wakeup c s = s\<lparr>ptable := \<lambda>i. if i < NPROC \<and> cur s \<noteq> Some i \<and> p_state (ptable s i) = SLEEPING \<and> p_chan (ptable s i) = Some c
     then (ptable s i)\<lparr>p_state := RUNNABLE\<rparr> else ptable s i\<rparr>"
proof -
  let ?t = "\<lambda>n i. if i < n \<and> cur s \<noteq> Some i \<and> p_state (ptable s i) = SLEEPING \<and> p_chan (ptable s i) = Some c
     then (ptable s i)\<lparr>p_state := RUNNABLE\<rparr> else ptable s i"
  have "fold (\<lambda>i s. if Some i \<noteq> myproc s \<and> p_state (ptable s i) = SLEEPING \<and> p_chan (ptable s i) = Some c
      then upd_proc i (p_state_update (\<lambda>_. RUNNABLE)) s else s) [0..<n] s = s\<lparr>ptable := ?t n\<rparr>" for n
  proof (induction n)
    case (Suc n)
    have "?t (Suc n) = (if Some n \<noteq> cur s \<and> p_state (ptable s n) = SLEEPING \<and> p_chan (ptable s n) = Some c
        then (?t n)(n := (ptable s n)\<lparr>p_state := RUNNABLE\<rparr>) else ?t n)"
      by (auto simp: fun_eq_iff less_Suc_eq)
    with Suc show ?case by (simp add: myproc_def upd_proc_def)
  qed simp
  then show ?thesis by (simp add: wakeup_def)
qed

lemma update_time_eq:
  "update_time s = s\<lparr>ptable := \<lambda>i. if i < NPROC then tick_proc (ptable s i) else ptable s i\<rparr>"
  by (simp add: update_time_def fold_upd_proc)

lemma find_slot_None: "find_slot P xs tab = None \<longleftrightarrow> (\<forall>j \<in> set xs. \<not> P (tab j))"
  by (induction xs) auto

lemma find_slot_snoc:
  "find_slot P (xs @ [y]) tab = (case find_slot P xs tab of None \<Rightarrow> if P (tab y) then Some y else None | Some i \<Rightarrow> Some i)"
  by (induction xs) auto

lemma find_slot_upt:
  "find_slot P [0..<n] tab = Some i \<longleftrightarrow> i < n \<and> P (tab i) \<and> (\<forall>j < i. \<not> P (tab j))"
proof (induction n arbitrary: i)
  case (Suc n)
  show ?case
  proof (cases "find_slot P [0..<n] tab")
    case None
    then have "\<forall>j < n. \<not> P (tab j)" by (simp add: find_slot_None)
    with None show ?thesis by (auto simp: find_slot_snoc less_Suc_eq)
  next
    case (Some k)
    then have k: "k < n" "P (tab k)" "\<forall>j < k. \<not> P (tab j)" using Suc[of k] by auto
    have "find_slot P [0..<Suc n] tab = Some k" using Some by (simp add: find_slot_snoc)
    then show ?thesis using k by auto (metis linorder_neqE_nat)+
  qed
qed simp

subsection \<open>A table of unused slots\<close>

definition proc0 :: proc where
  "proc0 = \<lparr>p_lock = initlock, p_state = UNUSED, p_chan = None, p_killed = 0, p_xstate = 0, p_pid = 0, p_parent = None,
     p_kstack = 0, p_sz = 0, p_pagetable = 0, p_trapframe = 0, p_context = \<lparr>cx_ra = 0, cx_sp = 0\<rparr>, p_ofile = (\<lambda>_. None),
     p_cwd = None, p_name = (\<lambda>_. 0), p_trace_mask = 0, p_max_alarm_ticks = 0, p_alarm_ticks = 0, p_handler = 0,
     p_alarm_trap = (\<lambda>_. 0), p_rtime = 0, p_ctime = 0, p_etime = 0, p_stime = 0, p_sched_ct = 0, p_curr_wait_time = 0,
     p_in_queue = 0, p_queue_position = 0, p_ticks_used = 0, p_queue_time = (\<lambda>_. 0), p_queue_entry = 0,
     p_static_priority = 0, p_niceness = 0, p_tickets = 0\<rparr>"

definition kernel0 :: kernel where
  "kernel0 = hart.extend hart0 \<lparr>ptable = (\<lambda>_. proc0), initproc = None, nextpid = 1, ticks = 0, lfsr = 0xACE1, cur = None,
     forkret_addr = 0, sched_queue = (\<lambda>_ _. None), q_max_ticks = (\<lambda>_. 0), q_size = (\<lambda>_. 0), q_back = (\<lambda>_. 0)\<rparr>"

lemma kernel0_fields [simp]:
  "ptable kernel0 = (\<lambda>_. proc0)" "cur kernel0 = None" "noff kernel0 = 0" "intr kernel0" "hartid kernel0 = 0"
  "sched_queue kernel0 = (\<lambda>_ _. None)" "q_size kernel0 = (\<lambda>_. 0)" "q_back kernel0 = (\<lambda>_. 0)" "ticks kernel0 = 0"
  "lfsr kernel0 = 0xACE1" "nextpid kernel0 = 1" "initproc kernel0 = None" "q_max_ticks kernel0 = (\<lambda>_. 0)"
  by (simp_all add: kernel0_def hart0_def hart.defs)

lemma proc0_fields [simp]:
  "p_lock proc0 = initlock" "p_state proc0 = UNUSED" "p_pid proc0 = 0" "p_rtime proc0 = 0" "p_stime proc0 = 0"
  "p_ctime proc0 = 0" "p_in_queue proc0 = 0" "p_queue_position proc0 = 0" "p_tickets proc0 = 0" "p_static_priority proc0 = 0"
  "p_curr_wait_time proc0 = 0" "p_sched_ct proc0 = 0" "p_parent proc0 = None" "p_chan proc0 = None"
  by (simp_all add: proc0_def)

subsection \<open>Giving up the processor never panics\<close>

lemma acquire_proc_free:
  assumes "lk_locked (p_lock (ptable s i)) = 0" "noff s = 0"
  shows "acquire_proc i s = Ret (upd_proc i (p_lock_update (\<lambda>_. (p_lock (ptable s i))\<lparr>lk_locked := 1, lk_cpu := Some (hartid s)\<rparr>))
    (s\<lparr>intr := False, intena := intr s, noff := 1\<rparr>))"
  using assms by (cases s) (simp add: acquire_proc_def acquire_def push_off_def holding_def Let_def)

lemma release_proc_held:
  assumes "holding (p_lock (ptable s i)) s" "noff s = 1" "\<not> intr s"
  shows "release_proc i s = Ret (upd_proc i (p_lock_update (\<lambda>_. (p_lock (ptable s i))\<lparr>lk_cpu := None, lk_locked := 0\<rparr>))
    (s\<lparr>noff := 0, intr := intena s\<rparr>))"
  using assms by (cases s) (simp add: release_proc_def release_def pop_off_def Let_def holding_def)

text \<open>C31. \<^verbatim>\<open>yield\<close> never panics: called by the running process with no lock held, it passes the four tests of
  \<^verbatim>\<open>sched\<close>, and when the scheduler switches the process in again (with its lock held on the hart it now
  runs on, and interrupts off) it returns with the lock released, no lock held and interrupts enabled exactly
  if they were enabled before.\<close>

theorem yield_returns:
  assumes cur: "cur s = Some i" and free: "lk_locked (p_lock (ptable s i)) = 0" "noff s = 0"
    and resume: "\<And>t. cur t = Some i \<Longrightarrow> p_state (ptable t i) = RUNNABLE \<Longrightarrow> holding (p_lock (ptable t i)) t \<Longrightarrow>
      \<exists>t'. swtch t = Ret t' \<and> holding (p_lock (ptable t' i)) t' \<and> noff t' = 1 \<and> \<not> intr t'"
  shows "\<exists>s'. yield swtch s = Ret s' \<and> lk_locked (p_lock (ptable s' i)) = 0 \<and> noff s' = 0 \<and> intr s' = intr s"
proof -
  let ?lk = "(p_lock (ptable s i))\<lparr>lk_locked := 1, lk_cpu := Some (hartid s)\<rparr>"
  let ?t = "upd_proc i (p_state_update (\<lambda>_. RUNNABLE)) (upd_proc i (p_lock_update (\<lambda>_. ?lk))
    (s\<lparr>intr := False, intena := intr s, noff := 1\<rparr>))"
  have h: "holding (p_lock (ptable ?t i)) ?t" by (simp add: holding_def)
  obtain t' where t': "swtch ?t = Ret t'" "holding (p_lock (ptable t' i)) t'" "noff t' = 1" "\<not> intr t'"
    using resume[of ?t] cur h by auto
  have "sched swtch ?t = Ret (t'\<lparr>intena := intr s\<rparr>)"
    using h t'(1) cur by (simp add: sched_def with_cur_def holding_def)
  moreover have "holding (p_lock (ptable t' i)) (t'\<lparr>intena := intr s\<rparr>)" using t'(2) by (simp add: holding_def)
  ultimately show ?thesis
    using cur t' by (simp add: yield_def with_cur_def acquire_proc_free[OF free] release_proc_held)
qed

definition running0 :: kernel where
  "running0 = upd_proc 3 (p_state_update (\<lambda>_. RUNNING)) (kernel0\<lparr>cur := Some 3\<rparr>)"

theorem yield_returns_witness:
  "\<exists>s'. yield (\<lambda>t. Ret (t\<lparr>noff := 1, intr := False\<rparr>)) running0 = Ret s' \<and> lk_locked (p_lock (ptable s' 3)) = 0 \<and> intr s'"
  using yield_returns[of running0 3 "\<lambda>t. Ret (t\<lparr>noff := 1, intr := False\<rparr>)"]
  by (auto simp: running0_def initlock_def holding_def)

subsection \<open>Priorities\<close>

lemma no_wrap_quotient:
  fixes r t :: uint
  assumes "r \<noteq> 0" "unat r + unat t < 2 ^ 32"
  shows "r + t \<noteq> 0" "t div (r + t) = 0"
proof -
  have u: "unat (r + t) = unat r + unat t" using assms(2) unat_add_lem[of r t] by simp
  have r: "0 < unat r" using assms(1) by (simp add: unat_gt_0)
  show "r + t \<noteq> 0" using u r by auto
  have "unat (t div (r + t)) = unat t div (unat r + unat t)" unfolding unat_div u ..
  also have "\<dots> = 0" using r by simp
  finally show "t div (r + t) = 0" by (simp add: unat_eq_0)
qed

text \<open>C40. The dynamic priority does not depend on how long a process slept.  As long as the two counters do not
  overflow, a process that has run at all has niceness 0 and priority \<open>static + 5\<close>, one that has not has
  niceness 5 and priority \<open>static\<close>, both cut off at 100: the integer quotient \<^verbatim>\<open>stime / (rtime + stime)\<close> is 0
  before it is multiplied by 10.\<close>

theorem dynamic_priority_ignores_sleep:
  assumes "unat (p_rtime (ptable s i)) + unat (p_stime (ptable s i)) < 2 ^ 32"
    "0 \<le> p_static_priority (ptable s i)" "p_static_priority (ptable s i) \<le> 1000"
  shows "\<exists>s'. get_dynamic_priority i s =
      Ret (word_of_int (min 100 (p_static_priority (ptable s i) + (if p_rtime (ptable s i) = 0 then 0 else 5))), s')
    \<and> p_niceness (ptable s' i) = (if p_rtime (ptable s i) = 0 then 5 else 0)"
proof -
  let ?sp = "p_static_priority (ptable s i)"
  have m: "max_u64 0 (min_u64 (word_of_int k) 100) = word_of_int (min 100 k)" if "0 \<le> k" "k \<le> 2000" for k
  proof -
    have "uint (word_of_int k :: u64) = k" using that by (simp add: uint_word_of_int)
    then have "word_of_int k < (100 :: u64) \<longleftrightarrow> k < 100" by (simp add: word_less_def)
    then show ?thesis by (auto simp: max_u64_def min_u64_def min_def word_gt_0_no)
  qed
  show ?thesis
  proof (cases "p_rtime (ptable s i) = 0")
    case True
    then show ?thesis using m[of ?sp] assms(2,3) by (simp add: get_dynamic_priority_def Let_def)
  next
    case False
    note q = no_wrap_quotient[OF False assms(1)]
    have "word_of_int ?sp + (5 :: u64) = word_of_int (?sp + 5)" by simp
    with False q show ?thesis using m[of "?sp + 5"] assms(2,3) by (simp add: get_dynamic_priority_def Let_def)
  qed
qed

theorem dynamic_priority_ignores_sleep_witness:
  "\<exists>s'. get_dynamic_priority 0 (upd_proc 0 (\<lambda>p. p\<lparr>p_static_priority := 60, p_rtime := 1, p_stime := 99\<rparr>) kernel0) = Ret (65, s')"
  using dynamic_priority_ignores_sleep[of "upd_proc 0 (\<lambda>p. p\<lparr>p_static_priority := 60, p_rtime := 1, p_stime := 99\<rparr>) kernel0" 0]
  by (auto simp: proc0_def)

text \<open>\<^verbatim>\<open>set_static_priority\<close> examines slot 0 only.  For a process in any other slot the call changes no
  process: when it does not yield it returns with the whole state unchanged, and the value returned has nothing to do
  with the process named by the pid.\<close>

theorem set_static_priority_slot0:
  assumes "p_pid (ptable s 0) \<noteq> pid" "p_static_priority (ptable s 0) \<le> priority" "0 \<le> priority"
  shows "set_static_priority swtch priority pid s =
    Ret (if myproc s = Some 0 then 0 else p_static_priority (ptable s 0), s)"
proof -
  have "[0..<NPROC] = 0 # [1..<NPROC]" by (simp add: upt_rec NPROC_def)
  then show ?thesis using assms by (simp add: set_static_priority_def Let_def del: upt_Suc)
qed

theorem set_static_priority_slot0_witness:
  "set_static_priority Ret 50 7 (upd_proc 5 (\<lambda>p. p\<lparr>p_pid := 7, p_static_priority := 60\<rparr>) kernel0) =
     Ret (0, upd_proc 5 (\<lambda>p. p\<lparr>p_pid := 7, p_static_priority := 60\<rparr>) kernel0)"
  using set_static_priority_slot0[of "upd_proc 5 (\<lambda>p. p\<lparr>p_pid := 7, p_static_priority := 60\<rparr>) kernel0" 7 50 Ret]
  by (simp add: myproc_def)

end
