(* ===== verification/Fifo.thy ===== *)
theory Fifo
  imports Prelude
begin

text \<open>
  The contract of a bounded first-in first-out buffer, shared by the run queues of the MLFQ
  scheduler and pipes: what pushing and popping do to the list of items in it.  Each component
  interprets the locale on its own operations.  Pipes, the console and UART buffers and the rings of
  the disk driver are arrays indexed by free-running counters; \<open>ring_list\<close> is what such a ring holds.
\<close>

subsection \<open>Rings with free-running counters\<close>

text \<open>The items between the read counter \<open>r\<close> and the write counter \<open>w\<close> of a ring of \<open>n\<close> slots.\<close>

definition ring_list :: "nat \<Rightarrow> (nat \<Rightarrow> 'b) \<Rightarrow> 'a::len word \<Rightarrow> 'a word \<Rightarrow> 'b list" where
  "ring_list n a r w = map (\<lambda>k. a ((unat r + k) mod n)) [0..<unat (w - r)]"

lemma length_ring_list [simp]: "length (ring_list n a r w) = unat (w - r)"
  by (simp add: ring_list_def)

lemma ring_list_empty [simp]: "ring_list n a r r = []"
  by (simp add: ring_list_def)

lemma ring_index:
  assumes "n dvd 2 ^ LENGTH('a)"
  shows "unat (x + of_nat k :: 'a::len word) mod n = (unat x + k) mod n"
proof -
  have "unat (x + of_nat k) = (unat x + k) mod 2 ^ LENGTH('a)"
    by (simp add: unat_word_ariths(1) unat_of_nat take_bit_eq_mod mod_add_right_eq)
  with assms show ?thesis by (simp only: mod_mod_cancel)
qed

text \<open>As the size divides the range of the counters, their wrap-around does no harm.\<close>

lemma ring_push:
  fixes r w :: "'a::len word"
  assumes n: "n dvd 2 ^ LENGTH('a)" "n < 2 ^ LENGTH('a)" and l: "unat (w - r) < n"
  shows "ring_list n (a(unat w mod n := x)) r (w + 1) = ring_list n a r w @ [x]"
proof -
  have "unat ((w - r) + 1) = Suc (unat (w - r))" using n(2) l by (simp add: unat_word_ariths(1))
  then have len: "unat (w + 1 - r) = Suc (unat (w - r))" by (simp add: algebra_simps)
  have w: "unat w mod n = (unat r + unat (w - r)) mod n" using ring_index[OF n(1), of r "unat (w - r)"] by simp
  have ne: "(unat r + k) mod n \<noteq> (unat r + unat (w - r)) mod n" if "k < unat (w - r)" for k
  proof
    assume "(unat r + k) mod n = (unat r + unat (w - r)) mod n"
    then have "n dvd (unat r + unat (w - r)) - (unat r + k)" by (metis mod_eq_dvd_iff_nat that add_left_mono less_imp_le)
    then have "n dvd unat (w - r) - k" by simp
    with that l show False by (auto dest: dvd_imp_le)
  qed
  show ?thesis using ne unfolding ring_list_def len by (simp add: w)
qed

lemma ring_pop:
  fixes r w :: "'a::len word"
  assumes n: "n dvd 2 ^ LENGTH('a)" and ne: "w \<noteq> r"
  shows "ring_list n a r w = a (unat r mod n) # ring_list n a (r + 1) w"
proof -
  have "w - r \<noteq> 0" using ne by simp
  then have "1 \<le> w - r" "0 < unat (w - r)" by (simp_all add: word_le_nat_alt unat_gt_0 Suc_leI)
  then have "unat (w - r) = Suc (unat (w - r - 1))" by (simp add: unat_sub)
  then have l: "unat (w - r) = Suc (unat (w - (r + 1)))" by (simp add: algebra_simps)
  have i: "(unat (r + 1) + k) mod n = (unat r + Suc k) mod n" for k
    using ring_index[OF n, of r "Suc k"] ring_index[OF n, of "r + 1" k] by (simp add: algebra_simps)
  show ?thesis unfolding ring_list_def l by (simp add: upt_conv_Cons map_Suc_upt[symmetric] i del: upt_Suc)
qed

subsection \<open>Buffers\<close>

fun pops :: "('s \<Rightarrow> ('a \<times> 's) kres) \<Rightarrow> nat \<Rightarrow> 's \<Rightarrow> ('a list \<times> 's) kres" where
  "pops pop 0 s = Ret ([], s)"
| "pops pop (Suc n) s = kbind (pop s) (\<lambda>(x, s). kbind (pops pop n s) (\<lambda>(xs, s). Ret (x # xs, s)))"

locale fifo =
  fixes push :: "'a \<Rightarrow> 's \<Rightarrow> 's kres"
    and pop :: "'s \<Rightarrow> ('a \<times> 's) kres"
    and items :: "'s \<Rightarrow> 'a list"
    and ok :: "'s \<Rightarrow> bool"
    and cap :: nat
  assumes push_ok: "ok s \<Longrightarrow> length (items s) < cap \<Longrightarrow> \<exists>s'. push x s = Ret s' \<and> ok s' \<and> items s' = items s @ [x]"
    and pop_ok: "ok s \<Longrightarrow> items s = x # xs \<Longrightarrow> \<exists>s'. pop s = Ret (x, s') \<and> ok s' \<and> items s' = xs"
begin

lemma push_list:
  "ok s \<Longrightarrow> length (items s) + length xs \<le> cap \<Longrightarrow> \<exists>s'. kfold push xs s = Ret s' \<and> ok s' \<and> items s' = items s @ xs"
proof (induction xs arbitrary: s)
  case (Cons x xs)
  obtain s1 where 1: "push x s = Ret s1" "ok s1" "items s1 = items s @ [x]" using push_ok[of s x] Cons.prems by auto
  with Cons.IH[of s1] Cons.prems show ?case by auto
qed simp

lemma pop_list:
  "ok s \<Longrightarrow> items s = xs @ ys \<Longrightarrow> \<exists>s'. pops pop (length xs) s = Ret (xs, s') \<and> ok s' \<and> items s' = ys"
proof (induction xs arbitrary: s)
  case (Cons x xs)
  obtain s1 where 1: "pop s = Ret (x, s1)" "ok s1" "items s1 = xs @ ys" using pop_ok[of s x "xs @ ys"] Cons.prems by auto
  with Cons.IH[of s1] show ?case by auto
qed simp

lemma in_order:
  assumes "ok s" "length (items s) + length xs \<le> cap"
  shows "\<exists>s'. kbind (kfold push xs s) (pops pop (length (items s) + length xs)) = Ret (items s @ xs, s') \<and> ok s' \<and> items s' = []"
proof -
  obtain s1 where 1: "kfold push xs s = Ret s1" "ok s1" "items s1 = items s @ xs" using push_list[OF assms] by blast
  with pop_list[of s1 "items s @ xs" "[]"] show ?thesis by auto
qed

end

text \<open>Any interleaving of pushes and pops from \<open>s\<close>: the items put in, those taken out, and the buffer after it.\<close>

inductive traffic :: "('a \<Rightarrow> 's \<Rightarrow> 's kres) \<Rightarrow> ('s \<Rightarrow> ('a \<times> 's) kres) \<Rightarrow> 's \<Rightarrow> 'a list \<Rightarrow> 'a list \<Rightarrow> 's \<Rightarrow> bool"
  for push pop s
where
  start: "traffic push pop s [] [] s"
| put: "traffic push pop s ws rs t \<Longrightarrow> push x t = Ret t' \<Longrightarrow> traffic push pop s (ws @ [x]) rs t'"
| get: "traffic push pop s ws rs t \<Longrightarrow> pop t = Ret (x, t') \<Longrightarrow> traffic push pop s ws (rs @ [x]) t'"

text \<open>A buffer on which a push does not go through when it is full, nor a pop when it is empty.\<close>

locale guarded_fifo = fifo +
  assumes push_full: "ok s \<Longrightarrow> cap \<le> length (items s) \<Longrightarrow> push x s \<noteq> Ret s'"
    and pop_empty: "ok s \<Longrightarrow> items s = [] \<Longrightarrow> pop s \<noteq> Ret (x, s')"
begin

lemma nothing_lost:
  "traffic push pop s ws rs t \<Longrightarrow> ok s \<Longrightarrow> ok t \<and> items s @ ws = rs @ items t"
proof (induction rule: traffic.induct)
  case (put ws rs t x t')
  then have "length (items t) < cap" using push_full[of t x t'] by (metis not_le)
  then show ?case using put push_ok[of t x] by (metis append.assoc kres.inject(1))
next
  case (get ws rs t x t')
  then obtain y ys where y: "items t = y # ys" using pop_empty[of t x t'] by (cases "items t") auto
  then show ?case using get pop_ok[of t y ys] by auto
qed simp

end

end
