(* ===== verification/Queue.thy ===== *)
theory Queue
  imports ProcOps Fifo
begin

text \<open>
  \<^verbatim>\<open>kernel/queue.c\<close>: the five run queues of the MLFQ scheduler, arrays of 64 process pointers with
  a size and a back index.  An index outside the arrays is a fault.
\<close>

definition initialize_queue :: "'a kernel_scheme \<Rightarrow> 'a kernel_scheme" where
  "initialize_queue s =
     (let (mt, _) = fold (\<lambda>j (mt, count). (mt(j := count), count * 2)) [0..<5] (q_max_ticks s, 1);
          s = s\<lparr>q_max_ticks := mt\<rparr>
      in fold (\<lambda>i s. s\<lparr>q_back := (q_back s)(i := 0), q_size := (q_size s)(i := 0),
           sched_queue := (sched_queue s)(i := fold (\<lambda>j a. a(j := None)) [0..<NPROC] (sched_queue s i))\<rparr>) [0..<5] s)"

definition push_queue :: "nat \<Rightarrow> nat \<Rightarrow> 'a kernel_scheme \<Rightarrow> 'a kernel_scheme kres" where
  "push_queue p q_pos s =
     (if \<not> q_pos < 5 \<or> q_back s q_pos < 0 \<or> q_back s q_pos \<ge> int NPROC then Fault ''sched_queue''
      else let s = s\<lparr>sched_queue := (sched_queue s)(q_pos := (sched_queue s q_pos)(nat (q_back s q_pos) := Some p))\<rparr>;
               s = upd_proc p (\<lambda>pr. pr\<lparr>p_ticks_used := 0, p_curr_wait_time := 0, p_in_queue := 1,
                     p_queue_position := int q_pos, p_queue_entry := sint (ticks s)\<rparr>) s
           in Ret (s\<lparr>q_back := (q_back s)(q_pos := q_back s q_pos + 1), q_size := (q_size s)(q_pos := q_size s q_pos + 1)\<rparr>))"

text \<open>The loop that closes the gap: it stops after copying a null pointer.\<close>

fun shift_loop :: "nat list \<Rightarrow> (nat \<Rightarrow> nat option) \<Rightarrow> nat \<Rightarrow> nat option" where
  "shift_loop [] a = a"
| "shift_loop (i # is) a = (let a' = a(i - 1 := a i) in if a' i = None then a' else shift_loop is a')"

definition pop_queue :: "nat \<Rightarrow> 'a kernel_scheme \<Rightarrow> (nat \<times> 'a kernel_scheme) kres" where
  "pop_queue q_pos s =
     (if \<not> q_pos < 5 then Fault ''sched_queue''
      else let retval = sched_queue s q_pos 0;
               a = shift_loop [1..<NPROC] ((sched_queue s q_pos)(0 := None));
               s = s\<lparr>q_size := (q_size s)(q_pos := q_size s q_pos - 1), q_back := (q_back s)(q_pos := q_back s q_pos - 1),
                     sched_queue := (sched_queue s)(q_pos := a)\<rparr>
           in case retval of None \<Rightarrow> Fault ''pop_queue: retval''
              | Some p \<Rightarrow> Ret (p, upd_proc p (p_in_queue_update (\<lambda>_. 0)) s))"

definition remove_queue :: "nat \<Rightarrow> nat \<Rightarrow> 'a kernel_scheme \<Rightarrow> 'a kernel_scheme kres" where
  "remove_queue p qpos s =
     (if \<not> qpos < 5 then Fault ''sched_queue''
      else let found = fold (\<lambda>i found. if sched_queue s qpos i = Some p then Some i else found) [0..<NPROC] None
           in case found of None \<Rightarrow> Ret s
              | Some k \<Rightarrow> Ret (s\<lparr>sched_queue := (sched_queue s)(qpos :=
                  shift_loop [k + 1..<NPROC] ((sched_queue s qpos)(k := None)))\<rparr>))"

subsection \<open>The list a queue holds\<close>

definition qlist :: "'a kernel_scheme \<Rightarrow> nat \<Rightarrow> nat list" where
  "qlist s q = map (\<lambda>i. the (sched_queue s q i)) [0..<nat (q_back s q)]"

definition queue_ok :: "nat \<Rightarrow> 'a kernel_scheme \<Rightarrow> bool" where
  "queue_ok q s \<longleftrightarrow> q < 5 \<and> q_size s q = q_back s q \<and> 0 \<le> q_back s q \<and> q_back s q \<le> int NPROC
     \<and> (\<forall>i < nat (q_back s q). sched_queue s q i \<noteq> None)"

lemma length_qlist [simp]: "length (qlist s q) = nat (q_back s q)"
  by (simp add: qlist_def)

lemma shift_loop_below: "(\<forall>i \<in> set is. Suc j < i) \<Longrightarrow> shift_loop is a j = a j"
  by (induction "is" a rule: shift_loop.induct) (auto simp: Let_def)

text \<open>The loop moves every element down until the first null one.\<close>

lemma shift_loop_eq:
  assumes "1 \<le> k" "k \<le> n" "n \<le> m" "\<forall>i. k \<le> i \<and> i < n \<longrightarrow> a i \<noteq> None" "j < n - 1"
  shows "shift_loop [k..<m] a j = (if k \<le> Suc j then a (Suc j) else a j)"
  using assms
proof (induction "n - k" arbitrary: k a)
  case 0
  then have "k = n" by simp
  with 0 have "Suc j < k" by simp
  then show ?case using shift_loop_below[of "[k..<m]" j a] by auto
next
  case (Suc d)
  then have km: "k < m" "k < n" by auto
  then have u: "[k..<m] = k # [Suc k..<m]" by (simp add: upt_rec)
  let ?a = "a(k - 1 := a k)"
  have ak: "?a k \<noteq> None" using Suc.prems km by auto
  have "shift_loop [Suc k..<m] ?a j = (if Suc k \<le> Suc j then ?a (Suc j) else ?a j)"
    using Suc.prems Suc.hyps(2) km by (intro Suc.hyps(1)) auto
  then show ?case using u ak Suc.prems by (auto simp: Let_def)
qed

lemma push_queue_ok:
  assumes ok: "queue_ok q s" and room: "length (qlist s q) < NPROC"
  shows "\<exists>s'. push_queue p q s = Ret s' \<and> queue_ok q s' \<and> qlist s' q = qlist s q @ [p]"
proof -
  have b: "q < 5" "0 \<le> q_back s q" "q_back s q < int NPROC" "q_size s q = q_back s q"
    "\<forall>i < nat (q_back s q). sched_queue s q i \<noteq> None"
    using ok room by (auto simp: queue_ok_def)
  have n: "nat (q_back s q + 1) = Suc (nat (q_back s q))" using b by simp
  show ?thesis
    using b n by (auto simp: push_queue_def queue_ok_def qlist_def less_Suc_eq Let_def)
qed

lemma pop_queue_ok:
  assumes ok: "queue_ok q s" and ne: "qlist s q = p # ps"
  shows "\<exists>s'. pop_queue q s = Ret (p, s') \<and> queue_ok q s' \<and> qlist s' q = ps"
proof -
  let ?n = "nat (q_back s q)" and ?a = "sched_queue s q"
  have b: "q < 5" "0 \<le> q_back s q" "q_back s q \<le> int NPROC" "q_size s q = q_back s q" "\<forall>i < ?n. ?a i \<noteq> None"
    using ok by (auto simp: queue_ok_def)
  have "length (qlist s q) = Suc (length ps)" by (simp add: ne)
  then have n: "?n = Suc (length ps)" by simp
  then have n0: "0 < ?n" "?n \<le> NPROC" "nat (q_back s q - 1) = ?n - 1" using b by auto
  have sh: "shift_loop [1..<NPROC] (?a(0 := None)) j = ?a (Suc j)" if "j < ?n - 1" for j
    using shift_loop_eq[of 1 ?n NPROC "?a(0 := None)" j] n0 b that by simp
  have "p = qlist s q ! 0" using ne by simp
  then have p: "?a 0 = Some p" using b n0 by (auto simp: qlist_def)
  have ps: "map (\<lambda>i. the (?a (Suc i))) [0..<?n - 1] = ps"
  proof (rule nth_equalityI)
    fix i assume "i < length (map (\<lambda>i. the (?a (Suc i))) [0..<?n - 1])"
    then have i: "i < ?n - 1" "Suc i < ?n" by auto
    then have "qlist s q ! Suc i = the (?a (Suc i))" using nth_upt[of 0 "Suc i" ?n] by (simp add: qlist_def)
    then show "map (\<lambda>i. the (?a (Suc i))) [0..<?n - 1] ! i = ps ! i" using i(1) ne by simp
  qed (simp add: n)
  have pop: "pop_queue q s = Ret (p, upd_proc p (p_in_queue_update (\<lambda>_. 0))
      (s\<lparr>q_size := (q_size s)(q := q_size s q - 1), q_back := (q_back s)(q := q_back s q - 1),
        sched_queue := (sched_queue s)(q := shift_loop [1..<NPROC] (?a(0 := None)))\<rparr>))"
    using b(1) p by (simp add: pop_queue_def Let_def del: upt_Suc)
  have "qlist (s\<lparr>q_size := (q_size s)(q := q_size s q - 1), q_back := (q_back s)(q := q_back s q - 1),
      sched_queue := (sched_queue s)(q := shift_loop [1..<NPROC] (?a(0 := None)))\<rparr>) q = ps"
    unfolding ps[symmetric] using sh n0 by (simp add: qlist_def)
  then show ?thesis unfolding pop using b n0 sh by (auto simp: queue_ok_def qlist_def)
qed

text \<open>The run queues are FIFO buffers of 64 processes.\<close>

interpretation mq: fifo "\<lambda>p. push_queue p q" "pop_queue q" "\<lambda>s. qlist s q" "queue_ok q" NPROC for q
  by unfold_locales (use push_queue_ok pop_queue_ok in blast)+

text \<open>C9. The run queues are first-in first-out: from any well-formed queue, pushing processes while there is room and
  then popping as many times as the queue has elements yields the old elements followed by the pushed ones, in
  this order, and leaves the queue empty and well-formed.\<close>

theorem run_queue_fifo:
  assumes "queue_ok q s" "length (qlist s q) + length ps \<le> NPROC"
  shows "\<exists>s'. kbind (kfold (\<lambda>p. push_queue p q) ps s) (pops (pop_queue q) (length (qlist s q) + length ps)) =
      Ret (qlist s q @ ps, s') \<and> queue_ok q s' \<and> qlist s' q = []"
  using mq.in_order[OF assms] .

theorem run_queue_fifo_witness:
  "\<exists>s'. kbind (kfold (\<lambda>p. push_queue p 2) [7, 3, 9] kernel0) (pops (pop_queue 2) 3) = Ret ([7, 3, 9], s') \<and> qlist s' 2 = []"
proof -
  have q: "qlist kernel0 2 = []" "queue_ok 2 kernel0" by (simp_all add: qlist_def queue_ok_def)
  have "length (qlist kernel0 2) + length [7, 3, 9 :: nat] \<le> NPROC" by (simp add: q NPROC_def)
  from run_queue_fifo[OF q(2) this] show ?thesis by (auto simp: q numeral_3_eq_3)
qed

subsection \<open>The queues and the process table agree\<close>

text \<open>
  Every queue is well-formed and without repetition, and a process is in queue \<open>q\<close> exactly when
  its \<^verbatim>\<open>in_queue\<close> is set and its \<^verbatim>\<open>queue_position\<close> is \<open>q\<close>.
\<close>

definition mlfq_inv :: "'a kernel_scheme \<Rightarrow> bool" where
  "mlfq_inv s \<longleftrightarrow> (\<forall>q < 5. queue_ok q s \<and> distinct (qlist s q)
     \<and> (\<forall>i. i \<in> set (qlist s q) \<longleftrightarrow> i < NPROC \<and> p_in_queue (ptable s i) \<noteq> 0 \<and> p_queue_position (ptable s i) = int q))"

lemma push_queue_frame:
  assumes "push_queue p q s = Ret s'"
  shows "q' \<noteq> q \<Longrightarrow> qlist s' q' = qlist s q'" "q' \<noteq> q \<Longrightarrow> queue_ok q' s' \<longleftrightarrow> queue_ok q' s"
    "ptable s' = (ptable s)(p := (ptable s p)\<lparr>p_ticks_used := 0, p_curr_wait_time := 0, p_in_queue := 1,
      p_queue_position := int q, p_queue_entry := sint (ticks s)\<rparr>)" "cur s' = cur s"
  using assms by (auto simp: push_queue_def Let_def qlist_def queue_ok_def upd_proc_def split: if_splits)

lemma pop_queue_frame:
  assumes "pop_queue q s = Ret (p, s')"
  shows "q' \<noteq> q \<Longrightarrow> qlist s' q' = qlist s q'" "q' \<noteq> q \<Longrightarrow> queue_ok q' s' \<longleftrightarrow> queue_ok q' s"
    "ptable s' = (ptable s)(p := (ptable s p)\<lparr>p_in_queue := 0\<rparr>)" "cur s' = cur s"
  using assms by (auto simp: pop_queue_def Let_def qlist_def queue_ok_def upd_proc_def split: if_splits option.splits)

lemma mlfq_push:
  assumes inv: "mlfq_inv s" and p: "p < NPROC" "p_in_queue (ptable s p) = 0" and q: "q < 5"
  obtains s' where "push_queue p q s = Ret s'" "mlfq_inv s'" "qlist s' = (qlist s)(q := qlist s q @ [p])"
    "ptable s' = (ptable s)(p := (ptable s p)\<lparr>p_ticks_used := 0, p_curr_wait_time := 0, p_in_queue := 1,
      p_queue_position := int q, p_queue_entry := sint (ticks s)\<rparr>)" "cur s' = cur s"
proof -
  have I: "queue_ok k s" "distinct (qlist s k)"
      "i \<in> set (qlist s k) \<longleftrightarrow> i < NPROC \<and> p_in_queue (ptable s i) \<noteq> 0 \<and> p_queue_position (ptable s i) = int k"
    if "k < 5" for k i
    using inv that by (auto simp: mlfq_inv_def)
  have np: "p \<notin> set (qlist s k)" if "k < 5" for k using I(3)[OF that] p by simp
  have "set (qlist s q) \<subseteq> {..<NPROC} - {p}" using I(3)[OF q] np[OF q] by auto
  then have "card (set (qlist s q)) \<le> card ({..<NPROC} - {p})" by (intro card_mono) auto
  then have "length (qlist s q) < NPROC" using I(2)[OF q] p(1) distinct_card[OF I(2)[OF q]] by simp
  then obtain s' where s': "push_queue p q s = Ret s'" "queue_ok q s'" "qlist s' q = qlist s q @ [p]"
    using push_queue_ok[OF I(1)[OF q]] by blast
  note fr = push_queue_frame[OF s'(1)]
  have ql: "qlist s' = (qlist s)(q := qlist s q @ [p])" using fr(1) s'(3) by (auto simp: fun_eq_iff)
  have "queue_ok k s' \<and> distinct (qlist s' k) \<and> (\<forall>i. i \<in> set (qlist s' k) \<longleftrightarrow>
      i < NPROC \<and> p_in_queue (ptable s' i) \<noteq> 0 \<and> p_queue_position (ptable s' i) = int k)" if "k < 5" for k
    using I[OF that] fr(2)[of k] s'(2) np[OF that] p that by (auto simp: ql fr(3))
  then have "mlfq_inv s'" by (simp add: mlfq_inv_def)
  with s'(1) ql fr(3,4) show thesis by (intro that[of s']) auto
qed

lemma mlfq_pop:
  assumes inv: "mlfq_inv s" and q: "q < 5" "qlist s q = p # ps"
  obtains s' where "pop_queue q s = Ret (p, s')" "mlfq_inv s'" "qlist s' = (qlist s)(q := ps)"
    "ptable s' = (ptable s)(p := (ptable s p)\<lparr>p_in_queue := 0\<rparr>)" "cur s' = cur s"
proof -
  have I: "queue_ok k s" "distinct (qlist s k)"
      "i \<in> set (qlist s k) \<longleftrightarrow> i < NPROC \<and> p_in_queue (ptable s i) \<noteq> 0 \<and> p_queue_position (ptable s i) = int k"
    if "k < 5" for k i
    using inv that by (auto simp: mlfq_inv_def)
  obtain s' where s': "pop_queue q s = Ret (p, s')" "queue_ok q s'" "qlist s' q = ps"
    using pop_queue_ok[OF I(1)[OF q(1)] q(2)] by blast
  note fr = pop_queue_frame[OF s'(1)]
  have ql: "qlist s' = (qlist s)(q := ps)" using fr(1) s'(3) by (auto simp: fun_eq_iff)
  have pq: "p_queue_position (ptable s p) = int q" "p \<notin> set ps" using I(2,3)[OF q(1)] q(2) by auto
  have "queue_ok k s' \<and> distinct (qlist s' k) \<and> (\<forall>i. i \<in> set (qlist s' k) \<longleftrightarrow>
      i < NPROC \<and> p_in_queue (ptable s' i) \<noteq> 0 \<and> p_queue_position (ptable s' i) = int k)" if k: "k < 5" for k
  proof (cases "k = q")
    case True
    with I(2,3)[OF q(1)] s'(2) pq q(2) show ?thesis by (auto simp: ql fr(3))
  next
    case False
    with I[OF k] fr(2)[of k] pq(1) show ?thesis by (auto simp: ql fr(3))
  qed
  then have "mlfq_inv s'" by (simp add: mlfq_inv_def)
  with s'(1) ql fr(3,4) show thesis by (intro that[of s']) auto
qed

text \<open>\<^verbatim>\<open>initialize_queue\<close> establishes the invariant of the run queues when no process is queued, and sets the time
  slices to 1, 2, 4, 8 and 16 ticks.\<close>

theorem initialize_queue_inv:
  assumes "\<forall>i < NPROC. p_in_queue (ptable s i) = 0"
  shows "mlfq_inv (initialize_queue s) \<and> (\<forall>q < 5. q_max_ticks (initialize_queue s) q = 2 ^ q \<and> qlist (initialize_queue s) q = [])
    \<and> ptable (initialize_queue s) = ptable s"
proof -
  have u: "[0..<5] = [0, 1, 2, 3, 4::nat]" by (simp add: upt_rec)
  have f5: "q < 5 \<Longrightarrow> q = 0 \<or> q = 1 \<or> q = 2 \<or> q = 3 \<or> q = 4" for q :: nat by auto
  have pt: "ptable (initialize_queue s) = ptable s" by (simp add: initialize_queue_def u)
  have b: "q_back (initialize_queue s) q = 0" "q_size (initialize_queue s) q = 0"
     "q_max_ticks (initialize_queue s) q = 2 ^ q" if "q < 5" for q
    using f5[OF that] by (auto simp: initialize_queue_def u)
  then have "queue_ok q (initialize_queue s)" "qlist (initialize_queue s) q = []" if "q < 5" for q
    using that by (simp_all add: queue_ok_def qlist_def)
  then show ?thesis using b assms by (auto simp: mlfq_inv_def pt)
qed

theorem initialize_queue_inv_witness:
  "mlfq_inv (initialize_queue kernel0)"
  using initialize_queue_inv[of kernel0] by simp

text \<open>C37. \<^verbatim>\<open>remove_queue\<close> breaks the queue: it takes the process out of the array but leaves \<^verbatim>\<open>size\<close> and \<^verbatim>\<open>back\<close> as
  they were.  After it removed the only element of a queue, the size still says one, and the next \<^verbatim>\<open>pop_queue\<close>
  of that queue dereferences a null pointer.\<close>

theorem remove_queue_leaves_size:
  assumes "queue_ok q s" "qlist s q = [p]" "\<forall>i. 1 \<le> i \<and> i < NPROC \<longrightarrow> sched_queue s q i = None"
  shows "\<exists>s'. remove_queue p q s = Ret s' \<and> q_size s' q = 1 \<and> pop_queue q s' = Fault ''pop_queue: retval''"
proof -
  have b: "q < 5" "nat (q_back s q) = 1" "q_size s q = q_back s q"
    using assms(1) arg_cong[OF assms(2), of length] by (auto simp: queue_ok_def)
  then have p0: "sched_queue s q 0 = Some p" using assms(1,2) by (auto simp: queue_ok_def qlist_def)
  have f: "fold (\<lambda>i found. if sched_queue s q i = Some p then Some i else found) [0..<n] None = (if n = 0 then None else Some 0)"
    if "n \<le> NPROC" for n
    using that p0 assms(3) by (induction n) auto
  have sh: "shift_loop [Suc 0..<NPROC] ((sched_queue s q)(0 := None)) = (sched_queue s q)(0 := None)"
    using assms(3) by (simp add: upt_rec NPROC_def fun_eq_iff)
  have "remove_queue p q s = Ret (s\<lparr>sched_queue := (sched_queue s)(q := (sched_queue s q)(0 := None))\<rparr>)"
    using b f[of NPROC] sh by (simp add: remove_queue_def NPROC_def del: upt_Suc)
  then show ?thesis using b by (simp add: pop_queue_def Let_def)
qed

lemma one_queued: "\<exists>s. push_queue 5 1 kernel0 = Ret s \<and> queue_ok 1 s \<and> qlist s 1 = [5] \<and>
    (\<forall>i. 1 \<le> i \<and> i < NPROC \<longrightarrow> sched_queue s 1 i = None)"
  by (auto simp: push_queue_def NPROC_def Let_def queue_ok_def qlist_def)

theorem remove_queue_leaves_size_witness:
  "\<exists>s s'. push_queue 5 1 kernel0 = Ret s \<and> remove_queue 5 1 s = Ret s' \<and> pop_queue 1 s' = Fault ''pop_queue: retval''"
  using one_queued remove_queue_leaves_size[of 1 _ 5] by blast

end
