(* ===== verification/Scheduler.thy ===== *)
theory Scheduler
  imports Queue
begin

text \<open>
  The five schedulers of \<^verbatim>\<open>scheduler()\<close> in \<^verbatim>\<open>kernel/proc.c\<close>, one of which is compiled in.  Each definition is one
  round of its \<^verbatim>\<open>for(;;)\<close>.  \<open>swtch\<close> runs the chosen process (\<^verbatim>\<open>c->proc\<close>) until it switches back.

  To say which processes a round runs, the theorems use a switch that records them: \<open>logged f\<close>
  lets the chosen process change the state by \<open>f\<close> and appends its slot to a log kept in the
  extension field of the state.
\<close>

subsection \<open>Round robin\<close>

definition dispatch :: "('a kernel_scheme \<Rightarrow> 'a kernel_scheme kres) \<Rightarrow> nat \<Rightarrow> 'a kernel_scheme \<Rightarrow> 'a kernel_scheme kres" where
  "dispatch swtch i s =
     kbind (swtch ((upd_proc i (p_state_update (\<lambda>_. RUNNING)) s)\<lparr>cur := Some i\<rparr>)) (\<lambda>s. Ret (s\<lparr>cur := None\<rparr>))"

definition rr_round :: "('a kernel_scheme \<Rightarrow> 'a kernel_scheme kres) \<Rightarrow> 'a kernel_scheme \<Rightarrow> 'a kernel_scheme kres" where
  "rr_round swtch s =
     kfold (\<lambda>i s. if p_state (ptable s i) = RUNNABLE then dispatch swtch i s else Ret s) [0..<NPROC] (s\<lparr>intr := True\<rparr>)"

subsection \<open>First come first served\<close>

text \<open>
  The local variables of one round: \<^verbatim>\<open>flag\<close>, \<^verbatim>\<open>min_ticks\<close> and \<^verbatim>\<open>p_least_time\<close>, the last kept from the round
  before.  The comparison \<^verbatim>\<open>p->ctime < min_ticks\<close> is one of unsigned values.
\<close>

definition fcfs_slot :: "('a kernel_scheme \<Rightarrow> 'a kernel_scheme kres) \<Rightarrow> nat \<Rightarrow> bool \<times> int \<times> nat \<times> 'a kernel_scheme \<Rightarrow>
    (bool \<times> int \<times> nat \<times> 'a kernel_scheme) kres" where
  "fcfs_slot swtch i = (\<lambda>(flag, min_ticks, least, s).
     let p = ptable s i;
         (flag, min_ticks, least) =
           (if p_state p = RUNNABLE
            then (if \<not> flag \<or> p_ctime p < word_of_int min_ticks then (True, sint (p_ctime p), i) else (True, min_ticks, least))
            else (flag, min_ticks, least))
     in if p_state (ptable s least) = RUNNABLE
        then kbind (dispatch swtch least s) (\<lambda>s. Ret (flag, min_ticks, least, s))
        else Ret (flag, min_ticks, least, s))"

definition fcfs_round :: "('a kernel_scheme \<Rightarrow> 'a kernel_scheme kres) \<Rightarrow> nat \<Rightarrow> 'a kernel_scheme \<Rightarrow> (nat \<times> 'a kernel_scheme) kres" where
  "fcfs_round swtch least s =
     kbind (kfold (fcfs_slot swtch) [0..<NPROC] (False, -1, least, s\<lparr>intr := True\<rparr>)) (\<lambda>(_, _, least, s). Ret (least, s))"

subsection \<open>Multi-level feedback queue\<close>

definition MAXWAITTIME :: u64 where "MAXWAITTIME = 64"

definition mlfq_age :: "nat \<Rightarrow> 'a kernel_scheme \<Rightarrow> 'a kernel_scheme kres" where
  "mlfq_age i s =
     (let p = ptable s i in
      if p_in_queue p \<noteq> 0 \<and> p_curr_wait_time p > MAXWAITTIME \<and> p_queue_position p > 0
      then kbind (remove_queue i (nat (p_queue_position p)) s) (\<lambda>s.
             push_queue i (nat (p_queue_position (ptable s i) - 1)) s)
      else Ret s)"

definition mlfq_enqueue :: "nat \<Rightarrow> 'a kernel_scheme \<Rightarrow> 'a kernel_scheme kres" where
  "mlfq_enqueue i s =
     (let p = ptable s i in
      if p_state p = RUNNABLE \<and> p_in_queue p = 0 then push_queue i (nat (p_queue_position p)) s else Ret s)"

fun mlfq_select :: "nat list \<Rightarrow> 'a kernel_scheme \<Rightarrow> (nat option \<times> 'a kernel_scheme) kres" where
  "mlfq_select [] s = Ret (None, s)"
| "mlfq_select (q # qs) s =
     (if q_size s q > 0 then kbind (pop_queue q s) (\<lambda>(p, s). Ret (Some p, s)) else mlfq_select qs s)"

definition mlfq_round :: "('a kernel_scheme \<Rightarrow> 'a kernel_scheme kres) \<Rightarrow> 'a kernel_scheme \<Rightarrow> 'a kernel_scheme kres" where
  "mlfq_round swtch s =
     kbind (kfold mlfq_age [0..<NPROC] (s\<lparr>intr := True\<rparr>)) (\<lambda>s.
     kbind (kfold mlfq_enqueue [0..<NPROC] s) (\<lambda>s.
     kbind (mlfq_select [0..<5] s) (\<lambda>(best, s).
       case best of None \<Rightarrow> Ret s
       | Some i \<Rightarrow> dispatch swtch i (upd_proc i (\<lambda>p. p\<lparr>p_sched_ct := p_sched_ct p + 1, p_curr_wait_time := 0\<rparr>) s))))"

subsection \<open>Priority based\<close>

text \<open>
  The scan keeps \<^verbatim>\<open>min_priority\<close> and \<^verbatim>\<open>minproc\<close>; the first is set once, when the second is still null.
\<close>

definition pbs_slot :: "nat \<Rightarrow> u64 \<times> nat option \<times> 'a kernel_scheme \<Rightarrow> (u64 \<times> nat option \<times> 'a kernel_scheme) kres" where
  "pbs_slot i = (\<lambda>(min_priority, minproc, s).
     if p_state (ptable s i) \<noteq> RUNNABLE then Ret (min_priority, minproc, s)
     else kbind (get_dynamic_priority i s) (\<lambda>(DP, s).
       case minproc of None \<Rightarrow> Ret (DP, Some i, s)
       | Some m \<Rightarrow>
           let p = ptable s i; mp = ptable s m in
           if DP = min_priority
           then (if p_sched_ct mp = p_sched_ct p \<and> p_ctime p < p_ctime mp then Ret (min_priority, Some i, s)
                 else if p_sched_ct mp = p_sched_ct p then Ret (min_priority, Some m, s)
                 else if p_sched_ct p \<ge> p_sched_ct mp then Ret (min_priority, Some m, s)
                 else Ret (min_priority, Some i, s))
           else if DP \<ge> min_priority then Ret (min_priority, Some m, s)
           else Ret (min_priority, Some i, s)))"

definition pbs_round :: "('a kernel_scheme \<Rightarrow> 'a kernel_scheme kres) \<Rightarrow> 'a kernel_scheme \<Rightarrow> 'a kernel_scheme kres" where
  "pbs_round swtch s =
     kbind (kfold pbs_slot [0..<NPROC] (0, None, s\<lparr>intr := True\<rparr>)) (\<lambda>(_, minproc, s).
       case minproc of None \<Rightarrow> Ret s
       | Some i \<Rightarrow> dispatch swtch i (upd_proc i (\<lambda>p. p\<lparr>p_sched_ct := p_sched_ct p + 1\<rparr>) s))"

subsection \<open>Lottery\<close>

text \<open>
  \<^verbatim>\<open>random() % total_tickets\<close> is a remainder of unsigned values, and both branches compute it; when the total is zero
  it is a division by zero.
\<close>

definition lbs_allot :: "int \<Rightarrow> int \<Rightarrow> 'a kernel_scheme \<Rightarrow> (int \<times> 'a kernel_scheme) kres" where
  "lbs_allot total_tickets tickets s =
     (let (r, s) = random s in
      if word_of_int total_tickets = (0 :: uint) then Fault ''remainder by zero''
      else Ret (sint (r mod word_of_int total_tickets) - tickets, s))"

definition lbs_slot :: "('a kernel_scheme \<Rightarrow> 'a kernel_scheme kres) \<Rightarrow> nat \<Rightarrow> 'a kernel_scheme \<Rightarrow> 'a kernel_scheme kres" where
  "lbs_slot swtch i s =
     (if p_state (ptable s i) \<noteq> RUNNABLE then Ret s
      else kbind (totalTickets s) (\<lambda>total_tickets.
           let allot = (-1 :: int)
           in kbind (if total_tickets > 0 then lbs_allot total_tickets (p_tickets (ptable s i)) s
                     else if allot < 1 then lbs_allot total_tickets (p_tickets (ptable s i)) s
                     else Ret (allot, s)) (\<lambda>(allot, s).
              if allot \<ge> 0 then Ret s
              else if p_state (ptable s i) = RUNNABLE then dispatch swtch i s else Ret s)))"

definition lbs_round :: "('a kernel_scheme \<Rightarrow> 'a kernel_scheme kres) \<Rightarrow> 'a kernel_scheme \<Rightarrow> 'a kernel_scheme kres" where
  "lbs_round swtch s = kfold (lbs_slot swtch) [0..<NPROC] (s\<lparr>intr := True\<rparr>)"

subsection \<open>Which processes a round runs\<close>

text \<open>The first \<open>n\<close> rounds of \<^verbatim>\<open>scheduler()\<close>, for the round function of the scheduler compiled in.\<close>

definition scheduler :: "('a kernel_scheme \<Rightarrow> 'a kernel_scheme kres) \<Rightarrow> nat \<Rightarrow> 'a kernel_scheme \<Rightarrow> 'a kernel_scheme kres" where
  "scheduler rnd n s = kfold (\<lambda>_. rnd) [0..<n] (s\<lparr>cur := None\<rparr>)"

type_synonym traced = "nat list kernel_scheme"

definition logged :: "(nat \<Rightarrow> traced \<Rightarrow> traced) \<Rightarrow> traced \<Rightarrow> traced kres" where
  "logged f s = (case cur s of None \<Rightarrow> Fault ''swtch'' | Some i \<Rightarrow> Ret (kernel.more_update (\<lambda>_. kernel.more s @ [i]) (f i s)))"

abbreviation runnable :: "'a kernel_scheme \<Rightarrow> nat \<Rightarrow> bool" where
  "runnable s i \<equiv> p_state (ptable s i) = RUNNABLE"

text \<open>
  A running process may wake, create or kill others, but it does not take another one off the set of runnable
  processes: on one hart only \<^verbatim>\<open>scheduler()\<close> itself moves a process from \<^verbatim>\<open>RUNNABLE\<close> to another state.
\<close>

definition keeps_runnable :: "(nat \<Rightarrow> traced \<Rightarrow> traced) \<Rightarrow> bool" where
  "keeps_runnable f \<longleftrightarrow> (\<forall>i s j. j \<noteq> i \<longrightarrow> runnable s j \<longrightarrow> runnable (f i s) j)"

text \<open>Process \<open>k\<close> makes slot \<open>i\<close> runnable (\<^verbatim>\<open>wakeup\<close>, \<^verbatim>\<open>fork\<close>, \<^verbatim>\<open>kill\<close>) in some state.\<close>

definition can_wake :: "(nat \<Rightarrow> traced \<Rightarrow> traced) \<Rightarrow> nat \<Rightarrow> nat \<Rightarrow> bool" where
  "can_wake f k i \<longleftrightarrow> (\<exists>s. \<not> runnable s i \<and> runnable (f k s) i)"

lemma upd_proc_more [simp]: "kernel.more (upd_proc i f s) = kernel.more s"
  by (simp add: upd_proc_def)

lemma dispatch_logged:
  "dispatch (logged f) i s = Ret ((kernel.more_update (\<lambda>_. kernel.more s @ [i])
     (f i ((upd_proc i (p_state_update (\<lambda>_. RUNNING)) s)\<lparr>cur := Some i\<rparr>)))\<lparr>cur := None\<rparr>)"
  by (simp add: dispatch_def logged_def)

lemma rr_log:
  assumes "keeps_runnable f" "sorted_wrt (<) xs"
  shows "\<exists>s' runs. kfold (\<lambda>i s. if runnable s i then dispatch (logged f) i s else Ret s) xs s = Ret s'
    \<and> kernel.more s' = kernel.more s @ runs \<and> sorted_wrt (<) runs \<and> set runs \<subseteq> set xs
    \<and> {i \<in> set xs. runnable s i} \<subseteq> set runs
    \<and> (\<forall>i \<in> set runs. runnable s i \<or> (\<exists>k \<in> set runs. k < i \<and> can_wake f k i))"
  using assms(2)
proof (induction xs arbitrary: s)
  case (Cons x xs)
  then have x: "sorted_wrt (<) xs" "\<forall>y \<in> set xs. x < y" by auto
  show ?case
  proof (cases "runnable s x")
    case False
    with Cons.IH[OF x(1), of s] show ?thesis by (simp add: subset_iff) blast
  next
    case True
    define t where "t = (upd_proc x (p_state_update (\<lambda>_. RUNNING)) s)\<lparr>cur := Some x\<rparr>"
    define s1 where "s1 = (kernel.more_update (\<lambda>_. kernel.more s @ [x]) (f x t))\<lparr>cur := None\<rparr>"
    have t: "runnable t i = runnable s i" if "i \<noteq> x" for i using that by (simp add: t_def)
    have keep: "runnable s1 i" if "i \<noteq> x" "runnable s i" for i
      using assms(1) that t by (simp add: keeps_runnable_def s1_def)
    have woken: "runnable s i \<or> can_wake f x i" if "i \<noteq> x" "runnable s1 i" for i
      using that t by (auto simp: can_wake_def s1_def intro!: exI[of _ t])
    obtain s' runs where IH: "kfold (\<lambda>i s. if runnable s i then dispatch (logged f) i s else Ret s) xs s1 = Ret s'"
      "kernel.more s' = kernel.more s1 @ runs" "sorted_wrt (<) runs" "set runs \<subseteq> set xs" "{i \<in> set xs. runnable s1 i} \<subseteq> set runs"
      "\<forall>i \<in> set runs. runnable s1 i \<or> (\<exists>k \<in> set runs. k < i \<and> can_wake f k i)"
      using Cons.IH[OF x(1), of s1] by blast
    have "kfold (\<lambda>i s. if runnable s i then dispatch (logged f) i s else Ret s) (x # xs) s = Ret s'"
      using True IH(1) by (simp add: dispatch_logged s1_def t_def)
    moreover have "kernel.more s' = kernel.more s @ x # runs" using IH(2) by (simp add: s1_def)
    moreover have "{i \<in> set (x # xs). runnable s i} \<subseteq> set (x # runs)" using IH(5) keep by auto
    moreover have "\<forall>i \<in> set (x # runs). runnable s i \<or> (\<exists>k \<in> set (x # runs). k < i \<and> can_wake f k i)"
      using IH(4,6) x(2) woken True by (metis list.set_intros set_ConsD subsetD)
    ultimately show ?thesis using IH(3,4) x(2) by (intro exI[of _ s'] exI[of _ "x # runs"]) auto
  qed
qed simp

text \<open>C32. A round of the round-robin scheduler on one hart, where a running process may wake, create or kill others but
  does not take another runnable process off the run set: every process that is runnable at the start of the
  round is run exactly once, in the order of the table, and a process that was not runnable then is run only
  when a process that ran before it in this round made it runnable.\<close>

theorem rr_round_runs_all:
  assumes "keeps_runnable f"
  shows "\<exists>s' runs. rr_round (logged f) s = Ret s' \<and> kernel.more s' = kernel.more s @ runs \<and> sorted_wrt (<) runs
    \<and> set runs \<subseteq> {..<NPROC} \<and> {i. i < NPROC \<and> runnable s i} \<subseteq> set runs
    \<and> (\<forall>i \<in> set runs. runnable s i \<or> (\<exists>k \<in> set runs. k < i \<and> can_wake f k i))"
  using rr_log[OF assms, of "[0..<NPROC]" "s\<lparr>intr := True\<rparr>"] by (simp add: rr_round_def atLeast0LessThan subset_iff)

definition traced0 :: traced where
  "traced0 = kernel.extend kernel0 []"

lemma traced0_fields [simp]:
  "ptable traced0 = (\<lambda>_. proc0)" "kernel.more traced0 = []" "cur traced0 = None"
  "sched_queue traced0 = (\<lambda>_ _. None)" "q_size traced0 = (\<lambda>_. 0)" "q_back traced0 = (\<lambda>_. 0)" "lfsr traced0 = 0xACE1"
  using kernel0_fields by (simp_all add: traced0_def kernel.defs)

definition make_runnable :: "nat list \<Rightarrow> 'a kernel_scheme \<Rightarrow> 'a kernel_scheme" where
  "make_runnable is s = fold (\<lambda>i. upd_proc i (p_state_update (\<lambda>_. RUNNABLE))) is s"

lemma upt_split: "k \<le> n \<Longrightarrow> [0..<n] = [0..<k] @ [k..<n]"
  using upt_add_eq_append[of 0 k "n - k"] by simp

text \<open>Process 1 wakes process 4 and process 0 while it runs, so 4 runs in the same round.\<close>

definition waker :: "nat \<Rightarrow> traced \<Rightarrow> traced" where
  "waker i s = (if i = 1 then make_runnable [0, 4] s else s)"

lemma runnable_make_runnable [simp]: "runnable (make_runnable is s) i \<longleftrightarrow> i \<in> set is \<or> runnable s i"
  by (induction "is" arbitrary: s) (auto simp: make_runnable_def)

theorem rr_round_runs_all_witness:
  "\<exists>s' runs. rr_round (logged waker) (make_runnable [1, 3] traced0) = Ret s' \<and> kernel.more s' = runs
    \<and> sorted_wrt (<) runs \<and> {1, 3} \<subseteq> set runs"
proof -
  have m: "kernel.more (make_runnable [1, 3] traced0) = []" by (simp add: make_runnable_def)
  have "keeps_runnable waker" by (simp add: keeps_runnable_def waker_def)
  from rr_round_runs_all[OF this, of "make_runnable [1, 3] traced0"] show ?thesis
    unfolding m append_Nil by (auto simp: subset_iff NPROC_def)
qed

lemma upt_at: "j < n \<Longrightarrow> [0..<n] = [0..<j] @ j # [Suc j..<n]"
  using upt_split[of j n] upt_conv_Cons[of j n] by simp

lemma fcfs_slot_log:
  "\<exists>fl' mt' le' t'. fcfs_slot (logged f) x (fl, mt, le, t) = Ret (fl', mt', le', t') \<and> (\<exists>rest. kernel.more t' = kernel.more t @ rest)"
proof -
  obtain fl' mt' le' where c: "(if runnable t x then if \<not> fl \<or> p_ctime (ptable t x) < word_of_int mt
      then (True, sint (p_ctime (ptable t x)), x) else (True, mt, le) else (fl, mt, le)) = (fl', mt', le')"
    by (metis prod_cases3)
  show ?thesis by (cases "runnable t le'") (simp_all add: fcfs_slot_def Let_def c dispatch_logged)
qed

lemma fcfs_log:
  "\<exists>fl' mt' le' t'. kfold (fcfs_slot (logged f)) xs (fl, mt, le, t) = Ret (fl', mt', le', t') \<and>
    (\<exists>rest. kernel.more t' = kernel.more t @ rest)"
proof (induction xs arbitrary: fl mt le t)
  case (Cons x xs)
  obtain fl1 mt1 le1 t1 r1 where 1: "fcfs_slot (logged f) x (fl, mt, le, t) = Ret (fl1, mt1, le1, t1)"
    "kernel.more t1 = kernel.more t @ r1"
    using fcfs_slot_log by blast
  obtain fl2 mt2 le2 t2 r2 where 2: "kfold (fcfs_slot (logged f)) xs (fl1, mt1, le1, t1) = Ret (fl2, mt2, le2, t2)"
    "kernel.more t2 = kernel.more t1 @ r2"
    using Cons by blast
  show ?case using 1 2 by (intro exI[of _ fl2] exI[of _ mt2] exI[of _ le2] exI[of _ t2]) simp
qed simp

lemma fcfs_skip:
  "\<forall>i \<in> set xs. \<not> runnable t i \<Longrightarrow> \<not> runnable t least \<Longrightarrow>
   kfold (fcfs_slot swtch) xs (False, -1, least, t) = Ret (False, -1, least, t)"
  by (induction xs) (auto simp: fcfs_slot_def)

lemma fcfs_first:
  assumes "fcfs_slot (logged f) i (False, -1, least, t) = Ret (fl, mt, l, m)" "kernel.more m = kernel.more t @ [x]"
    and "i < NPROC" "\<forall>k < i. \<not> runnable t k" "0 < i \<Longrightarrow> \<not> runnable t least"
  shows "\<exists>l' s' rest fl' mt'. kfold (fcfs_slot (logged f)) [0..<NPROC] (False, -1, least, t) = Ret (fl', mt', l', s')
    \<and> kernel.more s' = kernel.more t @ x # rest"
proof -
  obtain fl2 mt2 le2 t2 r2 where 2: "kfold (fcfs_slot (logged f)) [Suc i..<NPROC] (fl, mt, l, m) = Ret (fl2, mt2, le2, t2)"
    "kernel.more t2 = kernel.more m @ r2"
    using fcfs_log by blast
  have "kfold (fcfs_slot (logged f)) [0..<i] (False, -1, least, t) = Ret (False, -1, least, t)"
    using fcfs_skip[of "[0..<i]" t least] assms(4,5) by (cases "0 < i") auto
  then have "kfold (fcfs_slot (logged f)) [0..<NPROC] (False, -1, least, t) = Ret (fl2, mt2, le2, t2)"
    unfolding upt_at[OF assms(3)] kfold_append using assms(1) 2(1) by simp
  then show ?thesis using 2(2) assms(2) by auto
qed

text \<open>C39. The first-come-first-served scheduler does not look for the oldest process before it runs one.  Let \<open>j\<close> be
  the lowest runnable slot and \<open>least\<close> the candidate left from the round before.  The round first runs the old
  candidate, if that is still runnable and slot 0 is not, and otherwise the lowest runnable slot \<open>j\<close>: in both cases
  the creation times are not looked at.\<close>

theorem fcfs_runs_lowest_slot:
  assumes "j < NPROC" "runnable s j" "\<forall>i < j. \<not> runnable s i"
  shows "\<exists>s' l rest. fcfs_round (logged f) least s = Ret (l, s')
    \<and> kernel.more s' = kernel.more s @ (if 0 < j \<and> runnable s least then least else j) # rest"
proof -
  let ?s = "s\<lparr>intr := True\<rparr>"
  let ?i = "if runnable s least then 0 else j" and ?x = "if 0 < j \<and> runnable s least then least else j"
  have z: "0 < j \<Longrightarrow> \<not> runnable s 0" using assms(3) by blast
  have "\<exists>fl mt m. fcfs_slot (logged f) ?i (False, -1, least, ?s) = Ret (fl, mt, ?x, m) \<and> kernel.more m = kernel.more ?s @ [?x]"
    using assms(2) z by (cases "runnable s least"; cases "0 < j") (auto simp: fcfs_slot_def dispatch_logged)
  then obtain fl mt m where first: "fcfs_slot (logged f) ?i (False, -1, least, ?s) = Ret (fl, mt, ?x, m)"
    "kernel.more m = kernel.more ?s @ [?x]" by blast
  have "?i < NPROC" "\<forall>k < ?i. \<not> runnable ?s k" "0 < ?i \<Longrightarrow> \<not> runnable ?s least"
    using assms by (auto simp: NPROC_def split: if_splits)
  from fcfs_first[OF first this] show ?thesis by (auto simp: fcfs_round_def)
qed

definition fcfs_demo :: traced where
  "fcfs_demo = upd_proc 2 (p_ctime_update (\<lambda>_. 5)) (upd_proc 3 (p_ctime_update (\<lambda>_. 200)) (upd_proc 1 (p_ctime_update (\<lambda>_. 100))
     (make_runnable [1, 2, 3] traced0)))"

theorem fcfs_runs_lowest_slot_witness:
  "(\<exists>s' l rest. fcfs_round (logged (\<lambda>i s. s)) 0 fcfs_demo = Ret (l, s') \<and> kernel.more s' = 1 # rest)
   \<and> (\<exists>s' l rest. fcfs_round (logged (\<lambda>i s. s)) 3 fcfs_demo = Ret (l, s') \<and> kernel.more s' = 3 # rest)"
  using fcfs_runs_lowest_slot[of 1 fcfs_demo "\<lambda>i s. s" 0] fcfs_runs_lowest_slot[of 1 fcfs_demo "\<lambda>i s. s" 3]
  by (simp add: fcfs_demo_def make_runnable_def NPROC_def)

subsection \<open>The multi-level feedback queue runs the best queue first\<close>

lemma first_such: "\<exists>q < n. P q \<Longrightarrow> \<exists>q < n. P q \<and> (\<forall>k < q. \<not> P k)" for n :: nat
  by (metis exists_least_iff order_less_trans not_less_iff_gr_or_eq)

lemma kfold_idle: "\<forall>i \<in> set xs. g i s = Ret s \<Longrightarrow> kfold g xs s = Ret s"
  by (induction xs) auto

lemma mlfq_intr [simp]:
  "qlist (s\<lparr>intr := b\<rparr>) = qlist s" "mlfq_inv (s\<lparr>intr := b\<rparr>) \<longleftrightarrow> mlfq_inv s"
  by (auto simp: qlist_def mlfq_inv_def queue_ok_def fun_eq_iff)

text \<open>The processes the second loop of a round adds to queue \<open>q\<close>.\<close>

definition newcomers :: "'a kernel_scheme \<Rightarrow> nat \<Rightarrow> nat list \<Rightarrow> nat list" where
  "newcomers s q xs = filter (\<lambda>i. runnable s i \<and> p_in_queue (ptable s i) = 0 \<and> p_queue_position (ptable s i) = int q) xs"

lemma mlfq_enqueue_all:
  assumes "mlfq_inv s" "distinct xs" "\<forall>i \<in> set xs. i < NPROC \<and> 0 \<le> p_queue_position (ptable s i) \<and> p_queue_position (ptable s i) < 5"
  shows "\<exists>s'. kfold mlfq_enqueue xs s = Ret s' \<and> mlfq_inv s' \<and> (\<forall>q. qlist s' q = qlist s q @ newcomers s q xs)
    \<and> (\<forall>i. p_state (ptable s' i) = p_state (ptable s i) \<and> p_sched_ct (ptable s' i) = p_sched_ct (ptable s i))"
  using assms
proof (induction xs arbitrary: s)
  case Nil
  then show ?case by (simp add: newcomers_def)
next
  case (Cons x xs)
  let ?p = "ptable s x"
  show ?case
  proof (cases "runnable s x \<and> p_in_queue ?p = 0")
    case False
    then have "mlfq_enqueue x s = Ret s" "newcomers s q (x # xs) = newcomers s q xs" for q
      by (auto simp: mlfq_enqueue_def newcomers_def)
    then show ?thesis using Cons by auto
  next
    case True
    let ?q = "nat (p_queue_position ?p)"
    have q: "?q < 5" "int ?q = p_queue_position ?p" "x < NPROC" using Cons.prems by auto
    obtain s1 where 1: "push_queue x ?q s = Ret s1" "mlfq_inv s1" "qlist s1 = (qlist s)(?q := qlist s ?q @ [x])"
      "ptable s1 = (ptable s)(x := ?p\<lparr>p_ticks_used := 0, p_curr_wait_time := 0, p_in_queue := 1,
        p_queue_position := int ?q, p_queue_entry := sint (ticks s)\<rparr>)" "cur s1 = cur s"
      using mlfq_push[OF Cons.prems(1) q(3) _ q(1)] True by blast
    have m: "p_state (ptable s1 i) = p_state (ptable s i) \<and> p_sched_ct (ptable s1 i) = p_sched_ct (ptable s i)" for i
      by (simp add: 1(4))
    have eq: "mlfq_enqueue x s = Ret s1" using True 1(1) by (simp add: mlfq_enqueue_def)
    have "newcomers s1 q xs = newcomers s q xs" for q
      unfolding newcomers_def by (rule filter_cong[OF refl]) (use Cons.prems 1(4) in auto)
    moreover have "newcomers s q (x # xs) = (if q = ?q then [x] else []) @ newcomers s q xs" for q
      using True q(2) by (auto simp: newcomers_def)
    moreover have "\<forall>i \<in> set xs. i < NPROC \<and> 0 \<le> p_queue_position (ptable s1 i) \<and> p_queue_position (ptable s1 i) < 5"
      using Cons.prems 1(4) by auto
    ultimately show ?thesis using Cons.IH[OF 1(2)] Cons.prems(2) eq m 1(3) by auto
  qed
qed

lemma mlfq_size:
  assumes "mlfq_inv s" "q < 5" shows "0 < q_size s q \<longleftrightarrow> qlist s q \<noteq> []"
proof -
  have "q_size s q = q_back s q" "0 \<le> q_back s q" using assms by (auto simp: mlfq_inv_def queue_ok_def)
  then show ?thesis using length_qlist[of s q] by (cases "qlist s q") auto
qed

lemma mlfq_select_first:
  assumes "mlfq_inv s" "qs = pre @ q # post" "\<forall>k \<in> set (pre @ [q]). k < 5" "\<forall>k \<in> set pre. qlist s k = []" "qlist s q = p # ps"
  shows "\<exists>s'. mlfq_select qs s = Ret (Some p, s') \<and> mlfq_inv s' \<and> qlist s' = (qlist s)(q := ps)
    \<and> ptable s' = (ptable s)(p := (ptable s p)\<lparr>p_in_queue := 0\<rparr>)"
proof -
  obtain s' where s': "pop_queue q s = Ret (p, s')" "mlfq_inv s'" "qlist s' = (qlist s)(q := ps)"
      "ptable s' = (ptable s)(p := (ptable s p)\<lparr>p_in_queue := 0\<rparr>)"
    using mlfq_pop[OF assms(1) _ assms(5)] assms(3) by auto
  have "mlfq_select (pre @ q # post) s = mlfq_select (q # post) s"
    using assms(3,4) mlfq_size[OF assms(1)] by (induction pre) auto
  moreover have "mlfq_select (q # post) s = Ret (Some p, s')"
    using s'(1) mlfq_size[OF assms(1), of q] assms(3,5) by simp
  ultimately show ?thesis using s'(2-4) assms(2) by simp
qed

lemma mlfq_select_none:
  "mlfq_inv s \<Longrightarrow> \<forall>k \<in> set qs. k < 5 \<and> qlist s k = [] \<Longrightarrow> mlfq_select qs s = Ret (None, s)"
proof (induction qs)
  case (Cons q qs)
  then show ?case using mlfq_size[of s q] by auto
qed simp

lemma qlist_upd_proc [simp]: "qlist (upd_proc p g s) = qlist s"
  by (simp add: qlist_def upd_proc_def fun_eq_iff)

lemma queue_ok_upd_proc [simp]: "queue_ok q (upd_proc p g s) \<longleftrightarrow> queue_ok q s"
  by (simp add: queue_ok_def upd_proc_def)

lemma mlfq_scheduled: "mlfq_inv (upd_proc p (\<lambda>p. p\<lparr>p_sched_ct := c p, p_curr_wait_time := 0\<rparr>) s) \<longleftrightarrow> mlfq_inv s"
proof -
  have "p_in_queue (ptable (upd_proc p (\<lambda>p. p\<lparr>p_sched_ct := c p, p_curr_wait_time := 0\<rparr>) s) i) = p_in_queue (ptable s i)"
    "p_queue_position (ptable (upd_proc p (\<lambda>p. p\<lparr>p_sched_ct := c p, p_curr_wait_time := 0\<rparr>) s) i) = p_queue_position (ptable s i)" for i
    by (simp_all add: upd_proc_def)
  then show ?thesis by (simp only: mlfq_inv_def qlist_upd_proc queue_ok_upd_proc)
qed

text \<open>C5. A round of the MLFQ scheduler, when the queues agree with the table and no queued process has waited longer
  than 64 ticks (the promotion of such a process is the first loop of the round, which then does nothing).
  Every runnable process that is not queued joins the tail of the queue of its level, in table order.  If all queues are
  empty then, nothing is run.  Otherwise the head of the first non-empty queue is taken out of it and run, with its
  count of runs increased and its waiting time reset; when it starts, every other queued process is still in
  its place, the queues agree with the table and no process state was changed.\<close>

theorem mlfq_round_best_first:
  assumes inv: "mlfq_inv s"
    and pos: "\<forall>i < NPROC. 0 \<le> p_queue_position (ptable s i) \<and> p_queue_position (ptable s i) < 5"
    and young: "\<forall>i < NPROC. p_in_queue (ptable s i) \<noteq> 0 \<longrightarrow> p_curr_wait_time (ptable s i) \<le> MAXWAITTIME"
  shows "\<exists>s1. mlfq_inv s1 \<and> (\<forall>i. p_state (ptable s1 i) = p_state (ptable s i)) \<and>
    (if \<forall>q < 5. qlist s q @ newcomers s q [0..<NPROC] = [] then mlfq_round swtch s = Ret s1 \<and> (\<forall>q < 5. qlist s1 q = [])
     else \<exists>q < 5. \<exists>p rest. qlist s q @ newcomers s q [0..<NPROC] = p # rest
       \<and> (\<forall>k < q. qlist s k @ newcomers s k [0..<NPROC] = [])
       \<and> (\<forall>k. qlist s1 k = (if k = q then rest else qlist s k @ newcomers s k [0..<NPROC]))
       \<and> p_sched_ct (ptable s1 p) = p_sched_ct (ptable s p) + 1 \<and> p_curr_wait_time (ptable s1 p) = 0
       \<and> mlfq_round swtch s = dispatch swtch p s1)"
proof -
  let ?s = "s\<lparr>intr := True\<rparr>" and ?Q = "\<lambda>q. qlist s q @ newcomers s q [0..<NPROC]"
  have age: "kfold mlfq_age [0..<NPROC] ?s = Ret ?s"
    using young by (intro kfold_idle) (fastforce simp: mlfq_age_def Let_def)
  have nc: "newcomers ?s q xs = newcomers s q xs" for q xs by (simp add: newcomers_def)
  obtain s1 where 1: "kfold mlfq_enqueue [0..<NPROC] ?s = Ret s1" "mlfq_inv s1" "\<And>q. qlist s1 q = ?Q q"
    "\<And>i. p_state (ptable s1 i) = p_state (ptable s i) \<and> p_sched_ct (ptable s1 i) = p_sched_ct (ptable s i)"
    using mlfq_enqueue_all[of ?s "[0..<NPROC]"] inv pos by (auto simp: nc)
  show ?thesis
  proof (cases "\<forall>q < 5. ?Q q = []")
    case True
    then have "mlfq_select [0..<5] s1 = Ret (None, s1)" using 1(2,3) by (intro mlfq_select_none) auto
    then have "mlfq_round swtch s = Ret s1" by (simp add: mlfq_round_def age 1(1) del: upt_Suc)
    with True 1(2-4) show ?thesis by (intro exI[of _ s1]) simp
  next
    case False
    then obtain q where q: "q < 5" "?Q q \<noteq> []" "\<forall>k < q. ?Q k = []" using first_such[of 5 "\<lambda>q. ?Q q \<noteq> []"] by auto
    obtain p ps where p: "?Q q = p # ps" using q(2) by (meson neq_Nil_conv)
    have "\<forall>k \<in> set ([0..<q] @ [q]). k < 5" "\<forall>k \<in> set [0..<q]. qlist s1 k = []" "qlist s1 q = p # ps"
      unfolding 1(3) using q p by auto
    then obtain s2 where s2: "mlfq_select [0..<5] s1 = Ret (Some p, s2)" "mlfq_inv s2" "qlist s2 = (qlist s1)(q := ps)"
        "ptable s2 = (ptable s1)(p := (ptable s1 p)\<lparr>p_in_queue := 0\<rparr>)"
      using mlfq_select_first[OF 1(2) upt_at[OF q(1)]] by blast
    define s3 where "s3 = upd_proc p (\<lambda>p. p\<lparr>p_sched_ct := p_sched_ct p + 1, p_curr_wait_time := 0\<rparr>) s2"
    have "mlfq_round swtch s = dispatch swtch p s3"
      using s2(1) by (simp add: mlfq_round_def age 1(1) s3_def del: upt_Suc)
    moreover have "mlfq_inv s3" "\<forall>i. p_state (ptable s3 i) = p_state (ptable s i)"
      "\<forall>k. qlist s3 k = (if k = q then ps else ?Q k)" "p_sched_ct (ptable s3 p) = p_sched_ct (ptable s p) + 1"
      "p_curr_wait_time (ptable s3 p) = 0"
      using s2(2-4) 1(3,4) by (auto simp: s3_def mlfq_scheduled)
    ultimately show ?thesis using False q(1,3) p by (intro exI[of _ s3]) (simp only: if_False, blast)
  qed
qed

lemma filter_one: "i < n \<Longrightarrow> filter (\<lambda>j. j = i) [0..<n] = [i]"
  by (simp add: upt_at[of i n] filter_empty_conv)

definition mlfq_demo :: traced where
  "mlfq_demo = upd_proc 4 (p_queue_position_update (\<lambda>_. 1)) (make_runnable [4, 9] traced0)"

theorem mlfq_round_best_first_witness:
  "\<exists>s' s1. mlfq_round (logged (\<lambda>i s. s)) mlfq_demo = Ret s' \<and> mlfq_round (logged (\<lambda>i s. s)) mlfq_demo = dispatch (logged (\<lambda>i s. s)) 9 s1
    \<and> qlist s1 0 = [] \<and> qlist s1 1 = [4]"
proof -
  have b: "sched_queue mlfq_demo = (\<lambda>_ _. None)" "q_size mlfq_demo = (\<lambda>_. 0)" "q_back mlfq_demo = (\<lambda>_. 0)"
    by (simp_all add: mlfq_demo_def make_runnable_def)
  then have q: "qlist mlfq_demo q = []" for q by (simp add: qlist_def)
  have t: "p_in_queue (ptable mlfq_demo i) = 0" "p_curr_wait_time (ptable mlfq_demo i) = 0"
      "p_queue_position (ptable mlfq_demo i) = (if i = 4 then 1 else 0)" "runnable mlfq_demo i \<longleftrightarrow> i = 4 \<or> i = 9" for i
    by (auto simp: mlfq_demo_def make_runnable_def)
  have inv: "mlfq_inv mlfq_demo" using b t(1) by (simp add: mlfq_inv_def queue_ok_def q)
  have pos: "\<forall>i < NPROC. 0 \<le> p_queue_position (ptable mlfq_demo i) \<and> p_queue_position (ptable mlfq_demo i) < 5"
    and young: "\<forall>i < NPROC. p_in_queue (ptable mlfq_demo i) \<noteq> 0 \<longrightarrow> p_curr_wait_time (ptable mlfq_demo i) \<le> MAXWAITTIME"
    by (simp_all add: t)
  have f: "newcomers mlfq_demo 0 [0..<NPROC] = filter (\<lambda>i. i = 9) [0..<NPROC]"
      "newcomers mlfq_demo 1 [0..<NPROC] = filter (\<lambda>i. i = 4) [0..<NPROC]"
    unfolding newcomers_def using t by (intro filter_cong; auto)+
  have n: "newcomers mlfq_demo 0 [0..<NPROC] = [9]" "newcomers mlfq_demo 1 [0..<NPROC] = [4]"
    unfolding f by (rule filter_one, simp add: NPROC_def)+
  have ne: "\<not> (\<forall>q < 5. qlist mlfq_demo q @ newcomers mlfq_demo q [0..<NPROC] = [])" using n by (auto simp: q intro!: exI[of _ 0])
  obtain s1 k p rest where k: "qlist mlfq_demo k @ newcomers mlfq_demo k [0..<NPROC] = p # rest"
    "\<forall>l < k. qlist mlfq_demo l @ newcomers mlfq_demo l [0..<NPROC] = []"
    "\<forall>l. qlist s1 l = (if l = k then rest else qlist mlfq_demo l @ newcomers mlfq_demo l [0..<NPROC])"
    "mlfq_round (logged (\<lambda>i s. s)) mlfq_demo = dispatch (logged (\<lambda>i s. s)) p s1"
    using mlfq_round_best_first[OF inv pos young, of "logged (\<lambda>i s. s)"] unfolding if_not_P[OF ne] by blast
  have k0: "k = 0" using k(2) n by (cases k) (auto simp: q)
  then have "p = 9" "rest = []" using k(1) n(1) by (auto simp: q)
  with k0 k(3,4) n(2) show ?thesis by (intro exI[of _ s1] exI) (auto simp: q dispatch_logged)
qed

subsection \<open>The priority scheduler compares with the first process only\<close>

definition dp_of :: "proc \<Rightarrow> u64" where
  "dp_of p = (let niceness = (if p_rtime p = 0 then 5 else ucast ((p_stime p div (p_rtime p + p_stime p)) * 10))
     in max_u64 0 (min_u64 (word_of_int (p_static_priority p) - niceness + 5) 100))"

lemma dp_of_niceness [simp]: "dp_of (p\<lparr>p_niceness := n\<rparr>) = dp_of p"
  by (simp add: dp_of_def)

lemma get_dp:
  assumes "p_rtime (ptable s i) = 0 \<or> p_rtime (ptable s i) + p_stime (ptable s i) \<noteq> 0"
  shows "\<exists>n. get_dynamic_priority i s = Ret (dp_of (ptable s i), upd_proc i (p_niceness_update (\<lambda>_. n)) s)"
  using assms by (auto simp: get_dynamic_priority_def dp_of_def Let_def)

text \<open>Everything the scan looks at, for two states that differ in niceness only.\<close>

definition same_prio :: "'a kernel_scheme \<Rightarrow> 'a kernel_scheme \<Rightarrow> bool" where
  "same_prio s t \<longleftrightarrow> kernel.more s = kernel.more t \<and> (\<forall>i. runnable s i = runnable t i \<and> dp_of (ptable s i) = dp_of (ptable t i)
     \<and> p_rtime (ptable s i) = p_rtime (ptable t i) \<and> p_stime (ptable s i) = p_stime (ptable t i)
     \<and> p_sched_ct (ptable s i) = p_sched_ct (ptable t i) \<and> p_ctime (ptable s i) = p_ctime (ptable t i))"

text \<open>
  When a process \<open>p\<close> takes the place of the candidate \<open>m\<close>, with \<open>d\<close> the priority of the first runnable process; and the
  candidate that is left after the scan, which starts at the first runnable slot \<open>j\<close>.
\<close>

definition pbs_beats :: "u64 \<Rightarrow> proc \<Rightarrow> proc \<Rightarrow> bool" where
  "pbs_beats d p m \<longleftrightarrow> dp_of p < d \<or> dp_of p = d \<and>
     (p_sched_ct p < p_sched_ct m \<or> p_sched_ct p = p_sched_ct m \<and> p_ctime p < p_ctime m)"

definition pbs_choice :: "'a kernel_scheme \<Rightarrow> nat \<Rightarrow> nat list \<Rightarrow> nat" where
  "pbs_choice s j xs =
     fold (\<lambda>i m. if runnable s i \<and> pbs_beats (dp_of (ptable s j)) (ptable s i) (ptable s m) then i else m) xs j"

lemma pbs_scan:
  assumes "same_prio s t" "\<forall>i \<in> set xs. runnable s i \<longrightarrow>
    p_rtime (ptable s i) = 0 \<or> p_rtime (ptable s i) + p_stime (ptable s i) \<noteq> 0"
  shows "\<exists>t'. kfold pbs_slot xs (d, Some m, t) =
      Ret (d, Some (fold (\<lambda>i m. if runnable s i \<and> pbs_beats d (ptable s i) (ptable s m) then i else m) xs m), t') \<and> same_prio s t'"
  using assms
proof (induction xs arbitrary: m t)
  case (Cons x xs)
  have r: "runnable t i = runnable s i" "dp_of (ptable t i) = dp_of (ptable s i)"
    "p_rtime (ptable t i) = p_rtime (ptable s i)" "p_stime (ptable t i) = p_stime (ptable s i)"
    "p_sched_ct (ptable t i) = p_sched_ct (ptable s i)" "p_ctime (ptable t i) = p_ctime (ptable s i)" for i
    using Cons.prems(1) by (auto simp: same_prio_def)
  show ?case
  proof (cases "runnable s x")
    case False
    with Cons r show ?thesis by (auto simp: pbs_slot_def)
  next
    case True
    then have d: "p_rtime (ptable t x) = 0 \<or> p_rtime (ptable t x) + p_stime (ptable t x) \<noteq> 0"
      using Cons.prems(2) r by auto
    obtain n where n: "get_dynamic_priority x t = Ret (dp_of (ptable s x), upd_proc x (p_niceness_update (\<lambda>_. n)) t)"
      using get_dp[OF d] r(2) by auto
    let ?t = "upd_proc x (p_niceness_update (\<lambda>_. n)) t" and ?m = "if pbs_beats d (ptable s x) (ptable s m) then x else m"
    have sp: "same_prio s ?t" using Cons.prems(1) by (auto simp: same_prio_def)
    have q: "p_sched_ct (ptable ?t i) = p_sched_ct (ptable s i)" "p_ctime (ptable ?t i) = p_ctime (ptable s i)" for i
      using sp by (auto simp: same_prio_def)
    have "pbs_slot x (d, Some m, t) = Ret (d, Some ?m, ?t)"
      unfolding pbs_slot_def Let_def prod.case n kbind.simps option.case q pbs_beats_def using True r(1) by auto
    with Cons.IH[OF sp, of ?m] Cons.prems(2) True show ?thesis by auto
  qed
qed simp

lemma pbs_choice_no_tie:
  assumes "\<forall>i \<in> set xs. runnable s i \<longrightarrow> dp_of (ptable s i) \<noteq> dp_of (ptable s j)"
  shows "pbs_choice s j xs = last (j # filter (\<lambda>i. runnable s i \<and> dp_of (ptable s i) < dp_of (ptable s j)) xs)"
proof -
  let ?d = "dp_of (ptable s j)"
  have "fold (\<lambda>i m. if runnable s i \<and> pbs_beats ?d (ptable s i) (ptable s m) then i else m) xs m =
      last (m # filter (\<lambda>i. runnable s i \<and> dp_of (ptable s i) < ?d) xs)" for m
    using assms by (induction xs arbitrary: m) (auto simp: pbs_beats_def)
  then show ?thesis by (simp only: pbs_choice_def)
qed

lemma pbs_skip: "\<forall>i \<in> set xs. \<not> runnable t i \<Longrightarrow> kfold pbs_slot xs (d, m, t) = Ret (d, m, t)"
  by (induction xs) (auto simp: pbs_slot_def)

text \<open>C38. The priority scheduler does not run the process with the best priority.  Let \<open>j\<close> be the first
  runnable slot, and let the sum of running and sleeping time, the divisor of the niceness, not be zero for a runnable
  process that has run.  The round compares every later runnable process with the priority value of \<open>j\<close> and not with that
  of the best one found so far, because \<^verbatim>\<open>min_priority\<close> is set once: a process replaces the candidate when its value
  is below that of \<open>j\<close>, or is equal to it and the process was scheduled less often than the candidate, or as often and
  was created earlier.  The last process that replaces the candidate is run.  In particular, when no other
  runnable process has the same value as \<open>j\<close>, the last slot with a value below that of \<open>j\<close> runs, and only if there is
  none \<open>j\<close> itself.\<close>

theorem pbs_runs_last_below_first:
  assumes j: "j < NPROC" "runnable s j" "\<forall>i < j. \<not> runnable s i"
    and nodiv: "\<forall>i < NPROC. runnable s i \<longrightarrow> p_rtime (ptable s i) = 0 \<or> p_rtime (ptable s i) + p_stime (ptable s i) \<noteq> 0"
  shows "(\<exists>s'. pbs_round (logged f) s = Ret s' \<and> kernel.more s' = kernel.more s @ [pbs_choice s j [Suc j..<NPROC]])
    \<and> ((\<forall>i < NPROC. runnable s i \<and> i \<noteq> j \<longrightarrow> dp_of (ptable s i) \<noteq> dp_of (ptable s j)) \<longrightarrow>
       pbs_choice s j [Suc j..<NPROC] =
         last (j # filter (\<lambda>i. runnable s i \<and> dp_of (ptable s i) < dp_of (ptable s j)) [Suc j..<NPROC]))"
proof -
  let ?s = "s\<lparr>intr := True\<rparr>"
  obtain n where n: "get_dynamic_priority j ?s = Ret (dp_of (ptable s j), upd_proc j (p_niceness_update (\<lambda>_. n)) ?s)"
    using get_dp[of ?s j] nodiv j by auto
  let ?t = "upd_proc j (p_niceness_update (\<lambda>_. n)) ?s"
  have sp: "same_prio s ?t" by (auto simp: same_prio_def)
  have first: "pbs_slot j (0, None, ?s) = Ret (dp_of (ptable s j), Some j, ?t)"
    using j(2) n by (simp add: pbs_slot_def)
  have rest: "\<forall>i \<in> set [Suc j..<NPROC]. runnable s i \<longrightarrow>
      p_rtime (ptable s i) = 0 \<or> p_rtime (ptable s i) + p_stime (ptable s i) \<noteq> 0"
    using nodiv by auto
  obtain t' where t': "kfold pbs_slot [Suc j..<NPROC] (dp_of (ptable s j), Some j, ?t) = Ret (dp_of (ptable s j),
      Some (pbs_choice s j [Suc j..<NPROC]), t')" "same_prio s t'"
    using pbs_scan[OF sp rest, of "dp_of (ptable s j)" j] unfolding pbs_choice_def by blast
  have "kfold pbs_slot [0..<j] (0, None, ?s) = Ret (0, None, ?s)" using j(3) by (intro pbs_skip) auto
  with t' first have "\<exists>s'. pbs_round (logged f) s = Ret s' \<and> kernel.more s' = kernel.more s @ [pbs_choice s j [Suc j..<NPROC]]"
    by (simp add: pbs_round_def upt_at[OF j(1)] kfold_append dispatch_logged same_prio_def del: upt_Suc)
  then show ?thesis using pbs_choice_no_tie[of "[Suc j..<NPROC]" s j] by auto
qed

definition pbs_demo :: traced where
  "pbs_demo = upd_proc 3 (p_static_priority_update (\<lambda>_. 50)) (upd_proc 2 (p_static_priority_update (\<lambda>_. 10))
     (upd_proc 1 (p_static_priority_update (\<lambda>_. 60)) (make_runnable [1, 2, 3] traced0)))"

theorem pbs_runs_last_below_first_witness:
  "\<exists>s'. pbs_round (logged (\<lambda>i s. s)) pbs_demo = Ret s' \<and> kernel.more s' = [3]"
proof -
  have r: "runnable pbs_demo i \<longleftrightarrow> i = 1 \<or> i = 2 \<or> i = 3" for i by (auto simp: pbs_demo_def make_runnable_def)
  have d: "dp_of (ptable pbs_demo 1) = 60" "dp_of (ptable pbs_demo 2) = 10" "dp_of (ptable pbs_demo 3) = 50"
    by (simp_all add: dp_of_def pbs_demo_def make_runnable_def max_u64_def min_u64_def)
  have rt: "p_rtime (ptable pbs_demo i) = 0" for i by (auto simp: pbs_demo_def make_runnable_def)
  have S: "Suc 1 = (2::nat)" by simp
  have m: "kernel.more pbs_demo = []" by (simp add: pbs_demo_def make_runnable_def)
  have "filter (\<lambda>i. runnable pbs_demo i \<and> dp_of (ptable pbs_demo i) < dp_of (ptable pbs_demo 1)) [Suc 1..<NPROC] = filter (\<lambda>i. i = 2 \<or> i = 3) [2..<NPROC]"
    unfolding S using r d by (intro filter_cong) auto
  also have "[2..<NPROC] = [2, 3] @ [4..<NPROC]" by (simp add: upt_conv_Cons NPROC_def del: upt_Suc)
  also have "filter (\<lambda>i. i = 2 \<or> i = 3) ([2, 3] @ [4..<NPROC]) = [2, 3]" by (auto simp: filter_empty_conv)
  finally have l: "last (1 # filter (\<lambda>i. runnable pbs_demo i \<and> dp_of (ptable pbs_demo i) < dp_of (ptable pbs_demo 1)) [Suc 1..<NPROC]) = 3" by simp
  have j: "1 < NPROC" "runnable pbs_demo 1" "\<forall>i < 1. \<not> runnable pbs_demo i"
    "\<forall>i < NPROC. runnable pbs_demo i \<longrightarrow> p_rtime (ptable pbs_demo i) = 0 \<or> p_rtime (ptable pbs_demo i) + p_stime (ptable pbs_demo i) \<noteq> 0"
    and nt: "\<forall>i < NPROC. runnable pbs_demo i \<and> i \<noteq> 1 \<longrightarrow> dp_of (ptable pbs_demo i) \<noteq> dp_of (ptable pbs_demo 1)"
    using r d rt by (auto simp: NPROC_def)
  note th = pbs_runs_last_below_first[OF j, of "\<lambda>i s. s"]
  have "pbs_choice pbs_demo 1 [Suc 1..<NPROC] = 3" using conjunct2[OF th] nt l by simp
  with conjunct1[OF th] show ?thesis by (simp only: m append_Nil)
qed

subsection \<open>The lottery\<close>

definition tickets_held :: "'a kernel_scheme \<Rightarrow> int" where
  "tickets_held s = (\<Sum>i < NPROC. if runnable s i then p_tickets (ptable s i) else 0)"

lemma totalTickets_eq:
  assumes "\<forall>j < NPROC. runnable s j \<longrightarrow> 1 \<le> p_tickets (ptable s j)"
  shows "totalTickets s = (if tickets_held s < 2 ^ 31 then Ret (tickets_held s) else Fault ''signed overflow'')"
proof -
  let ?t = "\<lambda>i. if runnable s i then p_tickets (ptable s i) else 0"
  have "kfold (\<lambda>i total. if runnable s i then add_int total (p_tickets (ptable s i)) else Ret total) [0..<n] 0 =
      (if (\<Sum>i < n. ?t i) < 2 ^ 31 then Ret (\<Sum>i < n. ?t i) else Fault ''signed overflow'') \<and> 0 \<le> (\<Sum>i < n. ?t i)"
    if "n \<le> NPROC" for n
    using that
  proof (induction n)
    case (Suc n)
    then have "runnable s n \<longrightarrow> 1 \<le> p_tickets (ptable s n)" using assms by auto
    with Suc show ?case by (auto simp: kfold_append add_int_def)
  qed simp
  then show ?thesis by (simp only: totalTickets_def tickets_held_def order_refl)
qed

lemma tickets_held_pos:
  assumes "i < NPROC" "runnable s i" "\<forall>j < NPROC. runnable s j \<longrightarrow> 1 \<le> p_tickets (ptable s j)"
  shows "0 < tickets_held s"
proof -
  let ?t = "\<lambda>i. if runnable s i then p_tickets (ptable s i) else 0"
  have nn: "0 \<le> ?t j" if "j < NPROC" for j using assms(3) that by (auto dest: spec[of _ j])
  have "?t i \<le> (\<Sum>j < NPROC. ?t j)" by (rule member_le_sum) (use assms(1) nn in auto)
  then show ?thesis using assms by (auto simp: tickets_held_def dest!: spec[of _ i])
qed

lemma small_total:
  fixes t :: int and r :: uint
  assumes "0 < t" "t < 2 ^ 31"
  shows "(word_of_int t :: uint) \<noteq> 0" "sint (r mod word_of_int t) = uint r mod t"
proof -
  have u: "uint (word_of_int t :: uint) = t" using assms by (simp add: uint_word_of_int)
  then show "(word_of_int t :: uint) \<noteq> 0" using assms(1) by (metis uint_0_eq less_irrefl)
  have m: "uint (r mod word_of_int t) = uint r mod t" by (simp add: uint_mod u)
  have b: "uint r mod t < 2 ^ 31" "0 \<le> uint r mod t" using assms(2) pos_mod_bound[OF assms(1), of "uint r"] pos_mod_sign[OF assms(1)] by (linarith, blast)
  have "sint (r mod word_of_int t) = signed_take_bit 31 (uint (r mod word_of_int t))" by (simp add: sint_uint)
  also have "\<dots> = uint r mod t" unfolding m using b by (intro signed_take_bit_int_eq_self) auto
  finally show "sint (r mod word_of_int t) = uint r mod t" .
qed

text \<open>C33. The lottery, when every runnable process holds at least one ticket, as \<^verbatim>\<open>sys_settickets\<close> demands.  If all
  tickets of the runnable processes together are fewer than \<^verbatim>\<open>2^31\<close>, the scheduler reaches a runnable slot with a positive total
  (so the remainder is defined), draws the next value of the generator, and runs the process exactly when the drawn
  value modulo the total is below the number of tickets it holds.  There is no upper bound on the tickets of
  a process: from \<^verbatim>\<open>2^31\<close> tickets on, the sum of type \<^verbatim>\<open>int\<close> overflows.\<close>

theorem lbs_slot_lottery:
  assumes "i < NPROC" "runnable s i" "\<forall>j < NPROC. runnable s j \<longrightarrow> 1 \<le> p_tickets (ptable s j)"
  shows "if tickets_held s < 2 ^ 31
    then \<exists>s'. lbs_slot (logged f) i s = Ret s' \<and> kernel.more s' =
      kernel.more s @ (if uint (lfsr_next (lfsr s)) mod tickets_held s < p_tickets (ptable s i) then [i] else [])
    else lbs_slot (logged f) i s = Fault ''signed overflow''"
proof (cases "tickets_held s < 2 ^ 31")
  case True
  note b = tickets_held_pos[OF assms]
  have u: "uint (ucast (lfsr_next (lfsr s)) :: uint) = uint (lfsr_next (lfsr s))"
    using uint_lt2p[of "lfsr_next (lfsr s)"] by (simp add: unsigned_ucast_eq take_bit_eq_mod)
  have al: "lbs_allot (tickets_held s) (p_tickets (ptable s i)) s =
      Ret (uint (lfsr_next (lfsr s)) mod tickets_held s - p_tickets (ptable s i), s\<lparr>lfsr := lfsr_next (lfsr s)\<rparr>)"
    using small_total[OF b True] u by (simp add: lbs_allot_def random_def Let_def)
  have "totalTickets s = Ret (tickets_held s)" using totalTickets_eq[OF assms(3)] True by simp
  then show ?thesis using True assms(2) b by (auto simp: lbs_slot_def al dispatch_logged Let_def)
next
  case False
  then have "totalTickets s = Fault ''signed overflow''" using totalTickets_eq[OF assms(3)] by simp
  with False assms(2) show ?thesis by (simp add: lbs_slot_def)
qed

definition lbs_demo :: "int \<Rightarrow> traced" where
  "lbs_demo n = upd_proc 3 (p_tickets_update (\<lambda>_. n)) (upd_proc 5 (p_tickets_update (\<lambda>_. n)) (make_runnable [3, 5] traced0))"

theorem lbs_slot_lottery_witness:
  "(\<exists>s'. lbs_slot (logged (\<lambda>i s. s)) 3 (lbs_demo 10) = Ret s') \<and> lbs_slot (logged (\<lambda>i s. s)) 3 (lbs_demo (2 ^ 30)) = Fault ''signed overflow''"
proof -
  have r: "runnable (lbs_demo n) i \<longleftrightarrow> i = 3 \<or> i = 5" "p_tickets (ptable (lbs_demo n) 3) = n" "p_tickets (ptable (lbs_demo n) 5) = n" for i n
    by (auto simp: lbs_demo_def make_runnable_def)
  have "tickets_held (lbs_demo n) = (\<Sum>i < NPROC. (if i = 3 then n else 0) + (if i = 5 then n else 0))" for n
    unfolding tickets_held_def by (rule sum.cong) (use r in auto)
  then have h: "tickets_held (lbs_demo n) = 2 * n" for n by (simp add: sum.distrib NPROC_def)
  have N: "(3::nat) < NPROC" by (simp add: NPROC_def)
  have t: "\<forall>j < NPROC. runnable (lbs_demo n) j \<longrightarrow> 1 \<le> p_tickets (ptable (lbs_demo n) j)" if "1 \<le> n" for n
    using r that by auto
  show ?thesis
    using lbs_slot_lottery[OF N _ t[of 10], of "\<lambda>i s. s"] lbs_slot_lottery[OF N _ t[of "2 ^ 30"], of "\<lambda>i s. s"] r(1)
    by (auto simp: h)
qed

subsection \<open>The generator\<close>

lemma bit_lfsr_next:
  assumes "k < 16"
  shows "bit (lfsr_next l) k = (if k = 15 then bit l 0 \<noteq> (bit l 2 \<noteq> (bit l 3 \<noteq> bit l 5)) else bit l (Suc k))"
proof -
  let ?b = "(drop_bit 0 l XOR drop_bit 2 l XOR drop_bit 3 l XOR drop_bit 5 l) AND 1"
  have b: "bit ?b n \<longleftrightarrow> n = 0 \<and> (bit l 0 \<noteq> (bit l 2 \<noteq> (bit l 3 \<noteq> bit l 5)))" for n
    by (cases n) (auto simp: bit_and_iff bit_xor_iff bit_drop_bit_eq bit_1_iff)
  have h: "\<not> bit l 16" using bit_imp_le_length[of l 16] by auto
  have "bit (lfsr_next l) k \<longleftrightarrow> bit (drop_bit 1 l) k \<or> bit (push_bit 15 ?b) k"
    by (simp add: lfsr_next_def Let_def bit_or_iff)
  moreover have "bit (push_bit 15 ?b) k \<longleftrightarrow> k = 15 \<and> bit ?b 0"
    using assms unfolding bit_push_bit_iff by (cases "k = 15") auto
  ultimately show ?thesis using h b[of 0] by (auto simp: bit_drop_bit_eq)
qed

lemma lfsr_next_inj: "inj lfsr_next"
proof (rule injI)
  fix x y assume eq: "lfsr_next x = lfsr_next y"
  have hi: "bit x (Suc k) = bit y (Suc k)" if "k < 15" for k
    using bit_lfsr_next[of k x] bit_lfsr_next[of k y] that eq by simp
  have h: "bit x 2 = bit y 2" "bit x 3 = bit y 3" "bit x 5 = bit y 5" using hi[of 1] hi[of 2] hi[of 4] by (simp_all add: eval_nat_numeral)
  have "bit x 0 = bit y 0" using bit_lfsr_next[of 15 x] bit_lfsr_next[of 15 y] eq h by auto
  show "x = y"
  proof (rule bit_word_eqI)
    fix n assume "n < LENGTH(16)"
    with hi \<open>bit x 0 = bit y 0\<close> show "bit x n = bit y n" by (cases n) auto
  qed
qed

lemma lfsr_next_0: "lfsr_next l = 0 \<longleftrightarrow> l = 0"
proof -
  have "lfsr_next 0 = 0" by (simp add: lfsr_next_def)
  then show ?thesis using lfsr_next_inj by (metis injD)
qed

lemma inj_funpow_cycle:
  fixes f :: "'a :: finite \<Rightarrow> 'a"
  assumes "inj f" shows "\<exists>n > 0. (f ^^ n) x = x"
proof -
  have "\<not> inj (\<lambda>n. (f ^^ n) x)" using finite_imageD[of "\<lambda>n. (f ^^ n) x" UNIV] by auto
  then obtain k l where kl: "k \<noteq> l" "(f ^^ k) x = (f ^^ l) x" by (auto simp: inj_def)
  obtain i j where ij: "i < j" "(f ^^ i) x = (f ^^ j) x"
    using kl by (cases "k < l") (auto intro: that[of k l] that[of l k])
  have "(f ^^ j) x = (f ^^ i) ((f ^^ (j - i)) x)" using ij(1) funpow_add[of i "j - i" f] by simp
  with ij(2) have "(f ^^ i) ((f ^^ (j - i)) x) = (f ^^ i) x" by simp
  then have "(f ^^ (j - i)) x = x" by (rule injD[OF inj_fn[OF assms]])
  with ij(1) show ?thesis by (intro exI[of _ "j - i"]) simp
qed

text \<open>The pseudo-random generator never gets stuck: from any non-zero state it runs through a cycle that returns to that
  state and never reaches zero, the only value it could not leave.\<close>

theorem random_cycles:
  "(\<exists>n > 0. (lfsr_next ^^ n) l = l) \<and> (l \<noteq> 0 \<longrightarrow> (\<forall>n. (lfsr_next ^^ n) l \<noteq> 0)) \<and> fst (random s) = ucast (lfsr_next (lfsr s))"
proof -
  have "l \<noteq> 0 \<Longrightarrow> (lfsr_next ^^ n) l \<noteq> 0" for n by (induction n) (auto simp: lfsr_next_0)
  then show ?thesis using inj_funpow_cycle[OF lfsr_next_inj] by (simp add: random_def Let_def)
qed

theorem random_cycles_witness:
  "\<exists>n > 0. (lfsr_next ^^ n) 0xACE1 = 0xACE1 \<and> (lfsr_next ^^ n) 0xACE1 \<noteq> 0"
  using random_cycles[of "0xACE1" kernel0] by auto

end
