(* ===== verification/Sleeplock.thy ===== *)
theory Sleeplock
  imports ProcOps
begin

text \<open>
  \<^verbatim>\<open>kernel/sleeplock.c\<close>: long-term locks that put a waiting process to sleep.  An operation runs under the
  spin lock inside the sleep lock, so it is one step; the loop of \<^verbatim>\<open>acquiresleep\<close> repeats its test each time the
  process is woken, so a process that finds the lock taken waits on the lock's channel.
\<close>

record sleeplock =
  sl_locked :: uint
  sl_pid :: int

definition initsleeplock :: sleeplock where
  "initsleeplock = \<lparr>sl_locked = 0, sl_pid = 0\<rparr>"

definition acquiresleep :: "chan \<Rightarrow> sleeplock \<Rightarrow> 'a kernel_scheme \<Rightarrow> sleeplock kres" where
  "acquiresleep c lk s =
     (if sl_locked lk \<noteq> 0 then Block c
      else with_cur (\<lambda>i s. Ret (lk\<lparr>sl_locked := 1, sl_pid := p_pid (ptable s i)\<rparr>)) s)"

definition releasesleep :: "chan \<Rightarrow> sleeplock \<Rightarrow> 'a kernel_scheme \<Rightarrow> sleeplock \<times> 'a kernel_scheme" where
  "releasesleep c lk s = (lk\<lparr>sl_locked := 0, sl_pid := 0\<rparr>, wakeup c s)"

definition holdingsleep :: "sleeplock \<Rightarrow> 'a kernel_scheme \<Rightarrow> bool kres" where
  "holdingsleep lk s =
     (if sl_locked lk = 0 then Ret False else with_cur (\<lambda>i s. Ret (sl_pid lk = p_pid (ptable s i))) s)"

subsection \<open>Several processes and one lock\<close>

text \<open>
  A state is the lock and the kernel with its process table; \<open>sl_holders\<close> collects the processes that are between their
  \<^verbatim>\<open>acquiresleep\<close> and their \<^verbatim>\<open>releasesleep\<close>.  The processes \<open>P\<close> that use the lock live as long as it is watched.  In each
  step one of them that is not asleep on the lock runs: it takes the lock, it finds it taken and goes to sleep, or it holds the
  lock and releases it.  In between, the rest of the kernel may change the process table as it likes, for example
  wake a sleeper (\<^verbatim>\<open>kill\<close>), but it changes no pid of \<open>P\<close> and puts nobody to sleep on the channel of the lock.
\<close>

record sl_sys =
  sl_lock :: sleeplock
  sl_kernel :: kernel
  sl_holders :: "nat set"

definition run_as :: "nat \<Rightarrow> 'a kernel_scheme \<Rightarrow> 'a kernel_scheme" where
  "run_as i k = k\<lparr>cur := Some i\<rparr>"

definition asleep :: "chan \<Rightarrow> 'a kernel_scheme \<Rightarrow> nat \<Rightarrow> bool" where
  "asleep c k i \<longleftrightarrow> i < NPROC \<and> p_state (ptable k i) = SLEEPING \<and> p_chan (ptable k i) = Some c"

inductive sl_step :: "nat set \<Rightarrow> chan \<Rightarrow> sl_sys \<Rightarrow> sl_sys \<Rightarrow> bool" for P c where
  take: "i \<in> P \<Longrightarrow> \<not> asleep c (sl_kernel x) i \<Longrightarrow> acquiresleep c (sl_lock x) (run_as i (sl_kernel x)) = Ret lk \<Longrightarrow>
    sl_step P c x (x\<lparr>sl_lock := lk, sl_holders := insert i (sl_holders x)\<rparr>)"
| doze: "i \<in> P \<Longrightarrow> \<not> asleep c (sl_kernel x) i \<Longrightarrow> acquiresleep c (sl_lock x) (run_as i (sl_kernel x)) = Block c \<Longrightarrow>
    sl_step P c x (x\<lparr>sl_kernel := upd_proc i (\<lambda>p. p\<lparr>p_chan := Some c, p_state := SLEEPING\<rparr>) (sl_kernel x)\<rparr>)"
| free: "i \<in> sl_holders x \<Longrightarrow> \<not> asleep c (sl_kernel x) i \<Longrightarrow> releasesleep c (sl_lock x) (run_as i (sl_kernel x)) = (lk, k) \<Longrightarrow>
    sl_step P c x (x\<lparr>sl_lock := lk, sl_kernel := k, sl_holders := sl_holders x - {i}\<rparr>)"
| other: "\<forall>i \<in> P. p_pid (ptable k i) = p_pid (ptable (sl_kernel x) i) \<Longrightarrow> \<forall>i. asleep c k i \<longrightarrow> asleep c (sl_kernel x) i \<Longrightarrow>
    sl_step P c x (x\<lparr>sl_kernel := k\<rparr>)"

definition sl_inv :: "nat set \<Rightarrow> chan \<Rightarrow> sl_sys \<Rightarrow> bool" where
  "sl_inv P c x \<longleftrightarrow> inj_on (\<lambda>i. p_pid (ptable (sl_kernel x) i)) P
     \<and> (if sl_locked (sl_lock x) = 0 then sl_holders x = {} \<and> (\<forall>i. \<not> asleep c (sl_kernel x) i)
        else \<exists>i \<in> P. sl_holders x = {i} \<and> sl_pid (sl_lock x) = p_pid (ptable (sl_kernel x) i))"

lemma sl_step_inv:
  assumes "sl_step P c x y" "sl_inv P c x"
  shows "sl_inv P c y"
  using assms
proof (cases rule: sl_step.cases)
  case (take i lk)
  with assms(2) show ?thesis
    by (auto simp: sl_inv_def acquiresleep_def run_as_def with_cur_def split: if_splits)
next
  case (doze i)
  let ?k = "upd_proc i (\<lambda>p. p\<lparr>p_chan := Some c, p_state := SLEEPING\<rparr>) (sl_kernel x)"
  have "p_pid (ptable ?k j) = p_pid (ptable (sl_kernel x) j)" for j by (simp add: upd_proc_def)
  moreover have "sl_locked (sl_lock x) \<noteq> 0"
    using doze by (auto simp: acquiresleep_def run_as_def with_cur_def split: if_splits)
  ultimately show ?thesis using doze(1) assms(2) by (simp add: sl_inv_def)
next
  case (free i lk k)
  then have k: "k = wakeup c (run_as i (sl_kernel x))" "lk = (sl_lock x)\<lparr>sl_locked := 0, sl_pid := 0\<rparr>"
    by (auto simp: releasesleep_def)
  have h: "sl_holders x - {i} = {}" using free(2) assms(2) by (auto simp: sl_inv_def split: if_splits)
  have "\<not> asleep c k j" for j
    using free(3) by (auto simp: asleep_def k wakeup_eq run_as_def)
  moreover have "p_pid (ptable k j) = p_pid (ptable (sl_kernel x) j)" for j by (simp add: k wakeup_eq run_as_def)
  ultimately show ?thesis using free(1) h assms(2) by (simp add: sl_inv_def k(2))
next
  case (other k)
  have "inj_on (\<lambda>i. p_pid (ptable k i)) P \<longleftrightarrow> inj_on (\<lambda>i. p_pid (ptable (sl_kernel x) i)) P"
    by (rule inj_on_cong) (use other in auto)
  with other assms(2) show ?thesis by (auto simp: sl_inv_def split: if_splits)
qed

definition sl_init :: "kernel \<Rightarrow> sl_sys" where
  "sl_init k = \<lparr>sl_lock = initsleeplock, sl_kernel = k, sl_holders = {}\<rparr>"

lemma sl_reach_inv:
  assumes "(sl_step P c)\<^sup>*\<^sup>* (sl_init k) x" "inj_on (\<lambda>i. p_pid (ptable k i)) P" "\<forall>i. \<not> asleep c k i"
  shows "sl_inv P c x"
  using assms(1)
proof (induction rule: rtranclp_induct)
  case base
  then show ?case using assms(2,3) by (simp add: sl_inv_def sl_init_def initsleeplock_def)
qed (rule sl_step_inv)

text \<open>C12. Sleep locks neither admit two owners nor lose a wakeup.  Start from a free lock on which nobody sleeps, with
  processes \<open>P\<close> that have different pids, and let them take the lock, go to sleep on it and release it in any
  order, with other activity of the kernel in between that neither changes their pids nor puts a process to sleep on the
  lock.  Then at most one process holds the lock, \<^verbatim>\<open>holdingsleep\<close> answers yes to the holder and no to every other
  process of \<open>P\<close>, a process that calls \<^verbatim>\<open>acquiresleep\<close> has to wait exactly when some process holds the lock, and no
  process sleeps on the lock while it is free.\<close>

theorem sleeplock_no_lost_wakeup:
  assumes "(sl_step P c)\<^sup>*\<^sup>* (sl_init k) x" "inj_on (\<lambda>i. p_pid (ptable k i)) P" "\<forall>i. \<not> asleep c k i"
  shows "card (sl_holders x) \<le> 1 \<and> sl_holders x \<subseteq> P
    \<and> (\<forall>j \<in> P. holdingsleep (sl_lock x) (run_as j (sl_kernel x)) = Ret (j \<in> sl_holders x))
    \<and> (\<forall>j. acquiresleep c (sl_lock x) (run_as j (sl_kernel x)) = Block c \<longleftrightarrow> sl_holders x \<noteq> {})
    \<and> (sl_holders x = {} \<longrightarrow> (\<forall>j. \<not> asleep c (sl_kernel x) j))"
proof (cases "sl_locked (sl_lock x) = 0")
  case True
  with sl_reach_inv[OF assms] show ?thesis
    by (auto simp: sl_inv_def acquiresleep_def holdingsleep_def run_as_def with_cur_def)
next
  case False
  then obtain i where i: "i \<in> P" "sl_holders x = {i}" "sl_pid (sl_lock x) = p_pid (ptable (sl_kernel x) i)"
    "inj_on (\<lambda>i. p_pid (ptable (sl_kernel x) i)) P"
    using sl_reach_inv[OF assms] by (auto simp: sl_inv_def)
  then have "p_pid (ptable (sl_kernel x) i) = p_pid (ptable (sl_kernel x) j) \<longleftrightarrow> j = i" if "j \<in> P" for j
    using that by (auto dest: inj_onD)
  with False i show ?thesis by (auto simp: acquiresleep_def holdingsleep_def run_as_def with_cur_def)
qed

text \<open>Two processes with pids 1 and 2: the first takes the lock, the second goes to sleep on it.\<close>

definition sl_demo :: kernel where
  "sl_demo = upd_proc 5 (p_pid_update (\<lambda>_. 2)) (upd_proc 4 (p_pid_update (\<lambda>_. 1)) kernel0)"

definition sl_demo_held :: sl_sys where
  "sl_demo_held = \<lparr>sl_lock = \<lparr>sl_locked = 1, sl_pid = 1\<rparr>,
     sl_kernel = upd_proc 5 (\<lambda>p. p\<lparr>p_chan := Some (Ch_buf 0), p_state := SLEEPING\<rparr>) sl_demo, sl_holders = {4}\<rparr>"

lemma sl_demo_reach: "(sl_step {4, 5} (Ch_buf 0))\<^sup>*\<^sup>* (sl_init sl_demo) sl_demo_held"
proof -
  let ?x = "\<lparr>sl_lock = \<lparr>sl_locked = 1, sl_pid = 1\<rparr>, sl_kernel = sl_demo, sl_holders = {4}\<rparr>"
  have "sl_step {4, 5} (Ch_buf 0) (sl_init sl_demo) ?x"
    using take[of 4 "{4, 5}" "Ch_buf 0" "sl_init sl_demo" "\<lparr>sl_locked = 1, sl_pid = 1\<rparr>"]
    by (simp add: sl_init_def sl_demo_def asleep_def acquiresleep_def run_as_def with_cur_def initsleeplock_def)
  moreover have "sl_step {4, 5} (Ch_buf 0) ?x sl_demo_held"
    using doze[of 5 "{4, 5}" "Ch_buf 0" ?x]
    by (simp add: sl_demo_held_def sl_demo_def asleep_def acquiresleep_def)
  ultimately show ?thesis by simp
qed

theorem sleeplock_no_lost_wakeup_witness:
  "holdingsleep (sl_lock sl_demo_held) (run_as 4 (sl_kernel sl_demo_held)) = Ret True
   \<and> holdingsleep (sl_lock sl_demo_held) (run_as 5 (sl_kernel sl_demo_held)) = Ret False"
proof -
  have p: "inj_on (\<lambda>i. p_pid (ptable sl_demo i)) {4, 5}" "\<forall>i. \<not> asleep (Ch_buf 0) sl_demo i"
    by (simp_all add: sl_demo_def asleep_def)
  show ?thesis using sleeplock_no_lost_wakeup[OF sl_demo_reach p] by (simp add: sl_demo_held_def)
qed

end
