(* ===== verification/Bio.thy ===== *)
theory Bio
  imports Sleeplock
begin

text \<open>
  \<^verbatim>\<open>kernel/bio.c\<close>: the buffer cache, thirty buffers on a doubly linked list in order of use.  The list is the
  \<^verbatim>\<open>prev\<close> and \<^verbatim>\<open>next\<close> pointers of the code, with index 30 for \<^verbatim>\<open>bcache.head\<close>.

  The disk is the image it was booted with and the sequence of block writes it has received since; what is on it after
  a crash is what a prefix of that sequence left.  \<open>virtio_disk_rw\<close> is the promise of the driver: a write puts the
  whole block on the disk, a read returns what the last write left.
\<close>

subsection \<open>Buffers\<close>

definition NBUF :: nat where "NBUF = 30"

definition BSIZE :: nat where "BSIZE = 1024"

record buf =
  b_valid :: int
  b_dev :: uint
  b_blockno :: uint
  b_lock :: sleeplock
  b_refcnt :: uint
  b_prev :: nat
  b_next :: nat
  b_data :: cptr

record bio = kernel +
  bufs :: "nat \<Rightarrow> buf"
  disk0 :: "uint \<Rightarrow> cptr"
  dwrites :: "(uint \<times> cptr) list"

definition image :: "(uint \<Rightarrow> cptr) \<Rightarrow> (uint \<times> cptr) list \<Rightarrow> uint \<Rightarrow> cptr" where
  "image d ws = fold (\<lambda>(b, x) m. m(b := x)) ws d"

definition on_disk :: "'a bio_scheme \<Rightarrow> uint \<Rightarrow> cptr" where
  "on_disk s = image (disk0 s) (dwrites s)"

definition upd_buf :: "nat \<Rightarrow> (buf \<Rightarrow> buf) \<Rightarrow> 'a bio_scheme \<Rightarrow> 'a bio_scheme" where
  "upd_buf b f s = s\<lparr>bufs := (bufs s)(b := f (bufs s b))\<rparr>"

definition virtio_disk_rw :: "nat \<Rightarrow> bool \<Rightarrow> 'a bio_scheme \<Rightarrow> 'a bio_scheme" where
  "virtio_disk_rw b wr s =
     (if wr then s\<lparr>dwrites := dwrites s @ [(b_blockno (bufs s b), b_data (bufs s b))]\<rparr>
      else upd_buf b (b_data_update (\<lambda>_. on_disk s (b_blockno (bufs s b)))) s)"

definition binit_step :: "nat \<Rightarrow> 'a bio_scheme \<Rightarrow> 'a bio_scheme" where
  "binit_step b s =
     (let hd = b_next (bufs s NBUF);
          s = upd_buf b (\<lambda>x. x\<lparr>b_next := hd, b_prev := NBUF, b_lock := initsleeplock\<rparr>) s;
          s = upd_buf (b_next (bufs s NBUF)) (b_prev_update (\<lambda>_. b)) s
      in upd_buf NBUF (b_next_update (\<lambda>_. b)) s)"

definition binit :: "'a bio_scheme \<Rightarrow> 'a bio_scheme" where
  "binit s = fold binit_step [0..<NBUF] (upd_buf NBUF (\<lambda>x. x\<lparr>b_prev := NBUF, b_next := NBUF\<rparr>) s)"

text \<open>
  The two search loops of \<^verbatim>\<open>bget\<close>: they follow \<^verbatim>\<open>next\<close> or \<^verbatim>\<open>prev\<close> until they are back at the head.  On a list that
  does not return to the head they run forever.
\<close>

partial_function (option) scan :: "(buf \<Rightarrow> bool) \<Rightarrow> (buf \<Rightarrow> nat) \<Rightarrow> (nat \<Rightarrow> buf) \<Rightarrow> nat \<Rightarrow> nat option option" where
  "scan P dir bs b = (if b = NBUF then Some None else if P (bs b) then Some (Some b) else scan P dir bs (dir (bs b)))"

definition bget :: "uint \<Rightarrow> uint \<Rightarrow> 'a bio_scheme \<Rightarrow> (nat \<times> 'a bio_scheme) kres" where
  "bget dev blockno s =
     (case scan (\<lambda>b. b_dev b = dev \<and> b_blockno b = blockno) b_next (bufs s) (b_next (bufs s NBUF)) of
        None \<Rightarrow> Block Ch_spin
      | Some (Some b) \<Rightarrow>
          let s = upd_buf b (\<lambda>x. x\<lparr>b_refcnt := b_refcnt x + 1\<rparr>) s in
          kbind (acquiresleep (Ch_buf b) (b_lock (bufs s b)) s) (\<lambda>lk. Ret (b, upd_buf b (b_lock_update (\<lambda>_. lk)) s))
      | Some None \<Rightarrow>
          (case scan (\<lambda>b. b_refcnt b = 0) b_prev (bufs s) (b_prev (bufs s NBUF)) of
             None \<Rightarrow> Block Ch_spin
           | Some None \<Rightarrow> Panic ''bget: no buffers''
           | Some (Some b) \<Rightarrow>
               let s = upd_buf b (\<lambda>x. x\<lparr>b_dev := dev, b_blockno := blockno, b_valid := 0, b_refcnt := 1\<rparr>) s in
               kbind (acquiresleep (Ch_buf b) (b_lock (bufs s b)) s) (\<lambda>lk. Ret (b, upd_buf b (b_lock_update (\<lambda>_. lk)) s))))"

definition bread :: "uint \<Rightarrow> uint \<Rightarrow> 'a bio_scheme \<Rightarrow> (nat \<times> 'a bio_scheme) kres" where
  "bread dev blockno s =
     kbind (bget dev blockno s) (\<lambda>(b, s).
       Ret (b, if b_valid (bufs s b) = 0 then upd_buf b (b_valid_update (\<lambda>_. 1)) (virtio_disk_rw b False s) else s))"

definition bwrite :: "nat \<Rightarrow> 'a bio_scheme \<Rightarrow> 'a bio_scheme kres" where
  "bwrite b s =
     kbind (holdingsleep (b_lock (bufs s b)) s) (\<lambda>h.
       if \<not> h then Panic ''bwrite'' else Ret (virtio_disk_rw b True s))"

text \<open>Unlinking a buffer and linking it after the head, one pointer assignment after the other.\<close>

definition to_front :: "nat \<Rightarrow> 'a bio_scheme \<Rightarrow> 'a bio_scheme" where
  "to_front b s =
     (let s = upd_buf (b_next (bufs s b)) (b_prev_update (\<lambda>_. b_prev (bufs s b))) s;
          s = upd_buf (b_prev (bufs s b)) (b_next_update (\<lambda>_. b_next (bufs s b))) s;
          s = upd_buf b (b_next_update (\<lambda>_. b_next (bufs s NBUF))) s;
          s = upd_buf b (b_prev_update (\<lambda>_. NBUF)) s;
          s = upd_buf (b_next (bufs s NBUF)) (b_prev_update (\<lambda>_. b)) s
      in upd_buf NBUF (b_next_update (\<lambda>_. b)) s)"

definition brelse :: "nat \<Rightarrow> 'a bio_scheme \<Rightarrow> 'a bio_scheme kres" where
  "brelse b s =
     kbind (holdingsleep (b_lock (bufs s b)) s) (\<lambda>h.
       if \<not> h then Panic ''brelse''
       else let (lk, s) = releasesleep (Ch_buf b) (b_lock (bufs s b)) s;
                s = upd_buf b (\<lambda>x. x\<lparr>b_lock := lk, b_refcnt := b_refcnt x - 1\<rparr>) s
            in Ret (if b_refcnt (bufs s b) = 0 then to_front b s else s))"

definition bpin :: "nat \<Rightarrow> 'a bio_scheme \<Rightarrow> 'a bio_scheme" where
  "bpin b = upd_buf b (\<lambda>x. x\<lparr>b_refcnt := b_refcnt x + 1\<rparr>)"

definition bunpin :: "nat \<Rightarrow> 'a bio_scheme \<Rightarrow> 'a bio_scheme" where
  "bunpin b = upd_buf b (\<lambda>x. x\<lparr>b_refcnt := b_refcnt x - 1\<rparr>)"

subsection \<open>The linked list\<close>

text \<open>\<open>seg f a xs c\<close>: following \<open>f\<close> from \<open>a\<close> visits \<open>xs\<close> and then \<open>c\<close>.\<close>

fun seg :: "(nat \<Rightarrow> nat) \<Rightarrow> nat \<Rightarrow> nat list \<Rightarrow> nat \<Rightarrow> bool" where
  "seg f a [] c \<longleftrightarrow> f a = c"
| "seg f a (x # xs) c \<longleftrightarrow> f a = x \<and> seg f x xs c"

lemma seg_append: "seg f a (xs @ y # ys) c \<longleftrightarrow> seg f a xs y \<and> seg f y ys c"
  by (induction xs arbitrary: a) auto

lemma seg_upd: "z \<notin> set (a # xs) \<Longrightarrow> seg (f(z := v)) a xs c \<longleftrightarrow> seg f a xs c"
  by (induction xs arbitrary: a) auto

lemma seg_last: "seg f a xs c \<Longrightarrow> f (last (a # xs)) = c"
  by (induction xs arbitrary: a) auto

lemma seg_relink: "distinct (a # xs) \<Longrightarrow> seg f a xs c \<Longrightarrow> seg (f(last (a # xs) := d)) a xs d"
proof (induction xs arbitrary: a)
  case (Cons x xs)
  then have "last (x # xs) \<noteq> a" by (metis distinct.simps(2) last_in_set list.distinct(1))
  with Cons show ?case by auto
qed simp

definition nexts :: "'a bio_scheme \<Rightarrow> nat \<Rightarrow> nat" where
  "nexts s b = b_next (bufs s b)"

definition prevs :: "'a bio_scheme \<Rightarrow> nat \<Rightarrow> nat" where
  "prevs s b = b_prev (bufs s b)"

text \<open>The list holds the buffers \<open>xs\<close>, most recently used first, and all of them.\<close>

definition lru :: "'a bio_scheme \<Rightarrow> nat list \<Rightarrow> bool" where
  "lru s xs \<longleftrightarrow> distinct xs \<and> set xs = {..<NBUF} \<and> seg (nexts s) NBUF xs NBUF \<and> seg (prevs s) NBUF (rev xs) NBUF"

lemma scan_seg:
  assumes "NBUF \<notin> set xs" "seg (\<lambda>b. dir (bs b)) a xs NBUF" "\<forall>x. f x = dir (bs x)"
  shows "scan P dir bs (f a) = Some (find (\<lambda>b. P (bs b)) xs)"
  using assms(1,2)
proof (induction xs arbitrary: a)
  case Nil
  then show ?case using assms(3) by (simp add: scan.simps)
next
  case (Cons x xs)
  then have "f a = x" "x \<noteq> NBUF" using assms(3) by auto
  with Cons show ?case by (subst scan.simps) (use assms(3) in auto)
qed

lemma scan_next: "lru s xs \<Longrightarrow> scan P b_next (bufs s) (b_next (bufs s NBUF)) = Some (find (\<lambda>b. P (bufs s b)) xs)"
  using scan_seg[of xs b_next "bufs s" NBUF "nexts s" P] by (auto simp: lru_def nexts_def[abs_def])

lemma scan_prev: "lru s xs \<Longrightarrow> scan P b_prev (bufs s) (b_prev (bufs s NBUF)) = Some (find (\<lambda>b. P (bufs s b)) (rev xs))"
  using scan_seg[of "rev xs" b_prev "bufs s" NBUF "prevs s" P] by (auto simp: lru_def prevs_def[abs_def])

lemma seg_unlink:
  assumes "distinct (a # ys @ x # zs)" "seg f a (ys @ x # zs) c"
  shows "seg (f(last (a # ys) := f x)) a (ys @ zs) c"
proof (cases zs)
  case Nil
  then show ?thesis using assms seg_relink[of a ys f x "f x"] by (simp add: seg_append)
next
  case (Cons z zs')
  with assms have s: "seg f a ys x" "f x = z" "seg f z zs' c" by (auto simp: seg_append)
  have "last (a # ys) \<in> set (a # ys)" by (rule last_in_set) simp
  then have "last (a # ys) \<notin> set (z # zs')" using assms(1) Cons by auto
  from s(3) seg_upd[OF this] have "seg (f(last (a # ys) := z)) z zs' c" by blast
  moreover have "seg (f(last (a # ys) := z)) a ys z" using assms(1) s(1) by (intro seg_relink) auto
  ultimately show ?thesis unfolding Cons seg_append s(2) by blast
qed

lemma seg_push:
  assumes "distinct (a # xs)" "x \<notin> set (a # xs)" "seg f a xs c"
  shows "seg (f(x := f a, a := x)) a (x # xs) c"
  using assms by (cases xs) (auto simp: seg_upd)

lemma seg_snoc:
  assumes "distinct (a # xs)" "x \<notin> set (a # xs)" "seg f a xs c"
  shows "seg (f(x := c, last (a # xs) := x)) a (xs @ [x]) c"
proof -
  have "last (a # xs) \<noteq> x" using assms(2) last_in_set[of "a # xs"] by auto
  moreover have "seg (f(x := c)) a xs c" using assms(2,3) by (simp add: seg_upd)
  then have "seg (f(x := c, last (a # xs) := x)) a xs x" using assms(1) by (rule seg_relink[rotated])
  ultimately show ?thesis by (simp add: seg_append)
qed

lemma seg_first: "seg f a xs c \<Longrightarrow> f a = last (c # rev xs)"
  by (cases xs) auto

lemma nexts_upd: "nexts (upd_buf b f s) = (nexts s)(b := b_next (f (bufs s b)))"
  by (auto simp: nexts_def upd_buf_def)

lemma prevs_upd: "prevs (upd_buf b f s) = (prevs s)(b := b_prev (f (bufs s b)))"
  by (auto simp: prevs_def upd_buf_def)

lemma bufs_upd_buf [simp]: "bufs (upd_buf b f s) c = (if c = b then f (bufs s b) else bufs s c)"
  by (simp add: upd_buf_def)

lemma lru_upd: "lru (upd_buf b f s) xs \<longleftrightarrow> lru s xs"
  if "b_next (f (bufs s b)) = b_next (bufs s b)" "b_prev (f (bufs s b)) = b_prev (bufs s b)"
proof -
  have "nexts (upd_buf b f s) = nexts s" "prevs (upd_buf b f s) = prevs s"
    using that by (auto simp: nexts_upd prevs_upd) (auto simp: nexts_def prevs_def)
  then show ?thesis by (simp add: lru_def)
qed

lemma lru_cong: "bufs s' = bufs s \<Longrightarrow> lru s' xs = lru s xs"
proof -
  assume "bufs s' = bufs s"
  then have "nexts s' = nexts s" "prevs s' = prevs s" by (auto simp: nexts_def prevs_def)
  then show ?thesis by (simp add: lru_def)
qed

lemma lru_around:
  assumes "lru s (ys @ b # zs)"
  shows "nexts s b = last (NBUF # rev zs)" "prevs s b = last (NBUF # ys)" "nexts s b \<noteq> b" "prevs s b \<noteq> b" "b \<noteq> NBUF"
proof -
  have d: "distinct (NBUF # ys @ b # zs)" and n: "seg (nexts s) b zs NBUF" and p: "seg (prevs s) b (rev ys) NBUF"
    using assms by (auto simp: lru_def seg_append)
  show n1: "nexts s b = last (NBUF # rev zs)" using seg_first[OF n] .
  show p1: "prevs s b = last (NBUF # ys)" using seg_first[OF p] by simp
  show "b \<noteq> NBUF" using d by auto
  show "nexts s b \<noteq> b" unfolding n1 using d last_in_set[of "NBUF # rev zs"] by auto
  show "prevs s b \<noteq> b" unfolding p1 using d last_in_set[of "NBUF # ys"] by auto
qed

lemma links_upd:
  "nexts (upd_buf b (b_next_update (\<lambda>_. v)) s) = (nexts s)(b := v)"
  "nexts (upd_buf b (b_prev_update (\<lambda>_. v)) s) = nexts s"
  "prevs (upd_buf b (b_prev_update (\<lambda>_. v)) s) = (prevs s)(b := v)"
  "prevs (upd_buf b (b_next_update (\<lambda>_. v)) s) = prevs s"
  by (auto simp: nexts_def prevs_def fun_eq_iff)

lemma to_front_links:
  assumes "nexts s b \<noteq> b" "prevs s b \<noteq> b" "b \<noteq> NBUF"
  defines "n \<equiv> (nexts s)(prevs s b := nexts s b)"
  defines "p \<equiv> (prevs s)(nexts s b := prevs s b)"
  shows "nexts (to_front b s) = n(b := n NBUF, NBUF := b)" "prevs (to_front b s) = p(b := NBUF, n NBUF := b)"
proof -
  have p: "p b = prevs s b" using assms(1) by (simp add: p_def)
  have n: "(n(b := n NBUF)) NBUF = n NBUF" using assms(3) by simp
  show "nexts (to_front b s) = n(b := n NBUF, NBUF := b)" "prevs (to_front b s) = p(b := NBUF, n NBUF := b)"
    unfolding to_front_def Let_def nexts_def[symmetric] prevs_def[symmetric] links_upd
      p_def[symmetric] p n_def[symmetric] n by (rule refl)+
qed

lemma seg_push_both:
  assumes "distinct (h # xs)" "b \<notin> set (h # xs)" "seg n h xs h" "seg p h (rev xs) h"
  shows "seg (n(b := n h, h := b)) h (b # xs) h" "seg (p(b := h, n h := b)) h (rev (b # xs)) h"
proof -
  show "seg (n(b := n h, h := b)) h (b # xs) h" using assms by (intro seg_push)
  have "n h = last (h # rev xs)" using assms(3) by (rule seg_first)
  moreover have "seg (p(b := h, last (h # rev xs) := b)) h (rev xs @ [b]) h"
    using assms by (intro seg_snoc) auto
  ultimately show "seg (p(b := h, n h := b)) h (rev (b # xs)) h" by simp
qed

lemma to_front_lru:
  assumes l: "lru s (ys @ b # zs)"
  shows "lru (to_front b s) (b # ys @ zs)"
proof -
  note a = lru_around[OF l]
  have d: "distinct (NBUF # ys @ b # zs)" and st: "set (ys @ b # zs) = {..<NBUF}"
    and sn: "seg (nexts s) NBUF (ys @ b # zs) NBUF" and sp: "seg (prevs s) NBUF (rev zs @ b # rev ys) NBUF"
    using l by (auto simp: lru_def)
  define n where "n = (nexts s)(prevs s b := nexts s b)"
  define p where "p = (prevs s)(nexts s b := prevs s b)"
  have n: "seg n NBUF (ys @ zs) NBUF" unfolding n_def a(2) using seg_unlink[OF d sn] .
  have "seg p NBUF (rev zs @ rev ys) NBUF"
    unfolding p_def a(1) using d sp by (intro seg_unlink) auto
  then have p: "seg p NBUF (rev (ys @ zs)) NBUF" by simp
  have "distinct (NBUF # ys @ zs)" "b \<notin> set (NBUF # ys @ zs)" using d by auto
  from seg_push_both[OF this n p] show ?thesis
    using d st to_front_links[OF a(3-5)] by (auto simp: lru_def n_def p_def)
qed

text \<open>\<^verbatim>\<open>binit\<close> links every buffer, the last one first.\<close>

lemma binit_step_links:
  assumes "b \<noteq> NBUF"
  shows "nexts (binit_step b s) = (nexts s)(b := nexts s NBUF, NBUF := b)"
    and "prevs (binit_step b s) = (prevs s)(b := NBUF, nexts s NBUF := b)"
proof -
  define s1 where "s1 = upd_buf b (\<lambda>x. x\<lparr>b_next := nexts s NBUF, b_prev := NBUF, b_lock := initsleeplock\<rparr>) s"
  have n: "nexts s1 = (nexts s)(b := nexts s NBUF)" and p: "prevs s1 = (prevs s)(b := NBUF)"
    by (simp_all add: s1_def nexts_upd prevs_upd)
  have e: "binit_step b s = upd_buf NBUF (b_next_update (\<lambda>_. b)) (upd_buf (nexts s1 NBUF) (b_prev_update (\<lambda>_. b)) s1)"
    by (simp add: binit_step_def Let_def s1_def nexts_def[of s] nexts_def[of "upd_buf b _ _"])
  show "nexts (binit_step b s) = (nexts s)(b := nexts s NBUF, NBUF := b)"
    and "prevs (binit_step b s) = (prevs s)(b := NBUF, nexts s NBUF := b)"
    unfolding e links_upd n p using assms by simp_all
qed

lemma binit_links:
  "n \<le> NBUF \<Longrightarrow> nexts s NBUF = NBUF \<Longrightarrow> prevs s NBUF = NBUF \<Longrightarrow>
   seg (nexts (fold binit_step [0..<n] s)) NBUF (rev [0..<n]) NBUF \<and>
   seg (prevs (fold binit_step [0..<n] s)) NBUF (rev (rev [0..<n])) NBUF"
proof (induction n)
  case (Suc n)
  let ?s = "fold binit_step [0..<n] s"
  have "distinct (NBUF # rev [0..<n])" "n \<notin> set (NBUF # rev [0..<n])" using Suc.prems by auto
  then show ?case
    using seg_push_both[of NBUF "rev [0..<n]" n "nexts ?s" "prevs ?s"] Suc binit_step_links[of n ?s]
    by (simp add: fun_upd_def)
qed simp

lemma binit_lru: "lru (binit s) (rev [0..<NBUF])"
  using binit_links[of NBUF "upd_buf NBUF (\<lambda>x. x\<lparr>b_prev := NBUF, b_next := NBUF\<rparr>) s"]
  by (auto simp: lru_def binit_def nexts_upd prevs_upd)

subsection \<open>What the cache holds\<close>

text \<open>The buffer a process asked for: its count raised, its lock taken.\<close>

definition take_buf :: "nat \<Rightarrow> (buf \<Rightarrow> buf) \<Rightarrow> 'a bio_scheme \<Rightarrow> (nat \<times> 'a bio_scheme) kres" where
  "take_buf b f s =
     (let s = upd_buf b f s in
      kbind (acquiresleep (Ch_buf b) (b_lock (bufs s b)) s) (\<lambda>lk. Ret (b, upd_buf b (b_lock_update (\<lambda>_. lk)) s)))"

lemma bget_lru:
  "lru s xs \<Longrightarrow> bget dev blockno s =
     (case find (\<lambda>b. b_dev (bufs s b) = dev \<and> b_blockno (bufs s b) = blockno) xs of
        Some b \<Rightarrow> take_buf b (\<lambda>x. x\<lparr>b_refcnt := b_refcnt x + 1\<rparr>) s
      | None \<Rightarrow>
         (case find (\<lambda>b. b_refcnt (bufs s b) = 0) (rev xs) of
            None \<Rightarrow> Panic ''bget: no buffers''
          | Some b \<Rightarrow> take_buf b (\<lambda>x. x\<lparr>b_dev := dev, b_blockno := blockno, b_valid := 0, b_refcnt := 1\<rparr>) s))"
  by (simp add: bget_def scan_next scan_prev take_buf_def split: option.splits)

text \<open>
  A block has one copy in the cache at most (device 0, which \<^verbatim>\<open>binit\<close> leaves in the buffers, is no device), and a
  buffer that may be recycled has nothing the disk has not.
\<close>

definition holds :: "'a bio_scheme \<Rightarrow> nat \<Rightarrow> uint \<Rightarrow> uint \<Rightarrow> bool" where
  "holds s b dev blockno \<longleftrightarrow> b < NBUF \<and> b_dev (bufs s b) = dev \<and> b_blockno (bufs s b) = blockno"

definition one_copy :: "'a bio_scheme \<Rightarrow> bool" where
  "one_copy s \<longleftrightarrow> (\<forall>b c dev blockno. dev \<noteq> 0 \<longrightarrow> holds s b dev blockno \<longrightarrow> holds s c dev blockno \<longrightarrow> b = c)"

definition clean :: "'a bio_scheme \<Rightarrow> nat \<Rightarrow> bool" where
  "clean s b \<longleftrightarrow> (b_valid (bufs s b) \<noteq> 0 \<longrightarrow> b_data (bufs s b) = on_disk s (b_blockno (bufs s b)))"

definition cache_inv :: "'a bio_scheme \<Rightarrow> bool" where
  "cache_inv s \<longleftrightarrow> (\<exists>xs. lru s xs) \<and> one_copy s
     \<and> (\<forall>b<NBUF. b_dev (bufs s b) \<noteq> 0 \<and> b_refcnt (bufs s b) = 0 \<longrightarrow> clean s b)"

text \<open>What a block contains, for a reader who goes through the cache.\<close>

definition contents :: "'a bio_scheme \<Rightarrow> uint \<Rightarrow> uint \<Rightarrow> cptr" where
  "contents s dev blockno =
     (case find (\<lambda>b. holds s b dev blockno \<and> b_valid (bufs s b) \<noteq> 0) [0..<NBUF] of
        Some b \<Rightarrow> b_data (bufs s b)
      | None \<Rightarrow> on_disk s blockno)"

lemma on_disk_upd_buf [simp]: "on_disk (upd_buf b f s) = on_disk s"
  by (simp add: on_disk_def upd_buf_def)

lemma find_holds:
  assumes "find P xs = Some x"
  shows "x \<in> set xs" "P x"
  using assms by (auto simp: find_Some_iff)

lemma contents_cached:
  assumes "one_copy s" "dev \<noteq> 0" "holds s b dev n" "b_valid (bufs s b) \<noteq> 0"
  shows "contents s dev n = b_data (bufs s b)"
proof (cases "find (\<lambda>b. holds s b dev n \<and> b_valid (bufs s b) \<noteq> 0) [0..<NBUF]")
  case None
  with assms show ?thesis by (auto simp: find_None_iff holds_def)
next
  case (Some c)
  with find_holds[OF Some] assms have "c = b" by (auto simp: one_copy_def)
  with Some show ?thesis by (simp add: contents_def)
qed

lemma contents_uncached:
  assumes "\<And>b. holds s b dev n \<Longrightarrow> b_valid (bufs s b) = 0"
  shows "contents s dev n = on_disk s n"
  using assms by (auto simp: contents_def split: option.split dest: find_holds)

lemma contents_holder:
  assumes "one_copy s" "dev \<noteq> 0" "holds s b dev n"
  shows "contents s dev n = (if b_valid (bufs s b) = 0 then on_disk s n else b_data (bufs s b))"
proof (cases "b_valid (bufs s b) = 0")
  case True
  have "c = b" if "holds s c dev n" for c using assms that unfolding one_copy_def by blast
  with True show ?thesis using contents_uncached[of s dev n] by auto
qed (use contents_cached[OF assms] in simp)

lemma contents_cong:
  assumes "on_disk s' n = on_disk s n"
    and "\<And>b. b < NBUF \<Longrightarrow> holds s' b dev n \<and> b_valid (bufs s' b) \<noteq> 0 \<longleftrightarrow> holds s b dev n \<and> b_valid (bufs s b) \<noteq> 0"
    and "\<And>b. holds s b dev n \<Longrightarrow> b_valid (bufs s b) \<noteq> 0 \<Longrightarrow> b_data (bufs s' b) = b_data (bufs s b)"
  shows "contents s' dev n = contents s dev n"
proof -
  have "find (\<lambda>b. holds s' b dev n \<and> b_valid (bufs s' b) \<noteq> 0) [0..<NBUF] =
      find (\<lambda>b. holds s b dev n \<and> b_valid (bufs s b) \<noteq> 0) [0..<NBUF]"
    using assms(2) by (intro find_cong) auto
  then show ?thesis using assms(1,3) by (auto simp: contents_def split: option.split dest: find_holds)
qed

lemma contents_same:
  assumes "on_disk s' n = on_disk s n" "\<And>b. holds s' b dev n = holds s b dev n"
    and "\<And>b. holds s b dev n \<Longrightarrow> bufs s' b = bufs s b"
  shows "contents s' dev n = contents s dev n"
  using assms by (intro contents_cong) auto

text \<open>The lock of a buffer, held by the running process.\<close>

definition held :: "'a bio_scheme \<Rightarrow> nat \<Rightarrow> bool" where
  "held s b \<longleftrightarrow> holdingsleep (b_lock (bufs s b)) s = Ret True"

lemma take_buf_Ret:
  "take_buf b f s = Ret (c, s') \<longleftrightarrow>
     c = b \<and> (\<exists>i lk. cur s = Some i \<and> sl_locked (b_lock (f (bufs s b))) = 0
        \<and> lk = (b_lock (f (bufs s b)))\<lparr>sl_locked := 1, sl_pid := p_pid (ptable s i)\<rparr>
        \<and> s' = upd_buf b (\<lambda>x. (f x)\<lparr>b_lock := lk\<rparr>) s)"
  by (cases "cur s") (auto simp: take_buf_def Let_def acquiresleep_def with_cur_def upd_buf_def)

text \<open>How a state changes when one buffer does.\<close>

lemma cache_inv_upd:
  assumes "cache_inv s" "\<And>x. b_next (f x) = b_next x" "\<And>x. b_prev (f x) = b_prev x"
    and "b_dev (f (bufs s b)) \<noteq> 0 \<Longrightarrow> b_refcnt (f (bufs s b)) = 0 \<Longrightarrow> clean (upd_buf b f s) b"
    and "b_dev (f (bufs s b)) = b_dev (bufs s b) \<and> b_blockno (f (bufs s b)) = b_blockno (bufs s b)
      \<or> (\<forall>c. \<not> holds s c (b_dev (f (bufs s b))) (b_blockno (f (bufs s b))))"
  shows "cache_inv (upd_buf b f s)"
proof -
  have "one_copy (upd_buf b f s)"
    using assms(1,5) by (auto simp: cache_inv_def one_copy_def holds_def split: if_splits)
  moreover have "\<exists>xs. lru (upd_buf b f s) xs" using assms(1-3) by (simp add: cache_inv_def lru_upd)
  moreover have "\<forall>c<NBUF. b_dev (bufs (upd_buf b f s) c) \<noteq> 0 \<and> b_refcnt (bufs (upd_buf b f s) c) = 0 \<longrightarrow> clean (upd_buf b f s) c"
    using assms(1,4) by (auto simp: cache_inv_def clean_def)
  ultimately show ?thesis by (simp add: cache_inv_def)
qed

lemma upd_buf_twice: "upd_buf b f (upd_buf b g s) = upd_buf b (\<lambda>x. f (g x)) s"
  by (simp add: upd_buf_def)

text \<open>The buffer \<^verbatim>\<open>bread\<close> returns: the one that has the block, filled if it was empty, or a recycled one.\<close>

definition filled :: "cptr \<Rightarrow> buf \<Rightarrow> buf" where
  "filled d x = (if b_valid x = 0 then x\<lparr>b_data := d, b_valid := 1\<rparr> else x)"

lemma filled_simps [simp]:
  "b_dev (filled d x) = b_dev x" "b_blockno (filled d x) = b_blockno x" "b_next (filled d x) = b_next x"
  "b_prev (filled d x) = b_prev x" "b_refcnt (filled d x) = b_refcnt x" "b_lock (filled d x) = b_lock x"
  "b_valid (filled d x) \<noteq> 0" "b_data (filled d x) = (if b_valid x = 0 then d else b_data x)"
  by (auto simp: filled_def)

lemma upd_buf_cong: "f (bufs s b) = g (bufs s b) \<Longrightarrow> upd_buf b f s = upd_buf b g s"
  by (simp add: upd_buf_def)

lemma fill_eq:
  "(if b_valid (bufs s b) = 0 then upd_buf b (b_valid_update (\<lambda>_. 1)) (virtio_disk_rw b False s) else s) =
     upd_buf b (filled (on_disk s (b_blockno (bufs s b)))) s"
proof (cases "b_valid (bufs s b) = 0")
  case True
  then show ?thesis by (simp add: virtio_disk_rw_def upd_buf_twice) (rule upd_buf_cong, simp add: filled_def)
next
  case False
  then have "upd_buf b (filled (on_disk s (b_blockno (bufs s b)))) s = upd_buf b (\<lambda>x. x) s"
    by (intro upd_buf_cong) (simp add: filled_def)
  with False show ?thesis by (simp add: upd_buf_def)
qed

lemma bread_fill:
  "bread dev n s = Ret (b, s') \<longleftrightarrow>
     (\<exists>s1. bget dev n s = Ret (b, s1) \<and> s' = upd_buf b (filled (on_disk s1 (b_blockno (bufs s1 b)))) s1)"
  unfolding bread_def fill_eq by (auto simp del: upd_buf_def)

lemma take_buf_filled:
  assumes "take_buf b f s = Ret (c, s1)"
  obtains lk where "c = b" "on_disk s1 = on_disk s" "b_blockno (bufs s1 b) = b_blockno (f (bufs s b))"
    "held (upd_buf b (filled d) s1) b" "upd_buf b (filled d) s1 = upd_buf b (\<lambda>x. filled d ((f x)\<lparr>b_lock := lk\<rparr>)) s"
proof -
  from assms obtain i lk where c: "c = b" "cur s = Some i"
    and lk: "lk = (b_lock (f (bufs s b)))\<lparr>sl_locked := 1, sl_pid := p_pid (ptable s i)\<rparr>"
    and s1: "s1 = upd_buf b (\<lambda>x. (f x)\<lparr>b_lock := lk\<rparr>) s" unfolding take_buf_Ret by blast
  have "cur (upd_buf b g s2) = cur s2" "ptable (upd_buf b g s2) = ptable s2" for g and s2 :: "'a bio_scheme"
    by (simp_all add: upd_buf_def)
  then have "held (upd_buf b (filled d) s1) b"
    by (simp add: held_def holdingsleep_def with_cur_def s1 lk c)
  then show thesis using c s1 by (intro that[of lk]) (simp_all add: upd_buf_twice)
qed

lemma bread_cases:
  assumes l: "lru s xs" and r: "bread dev n s = Ret (b, s')"
  obtains (cached) lk where "holds s b dev n" "held s' b"
    "s' = upd_buf b (\<lambda>x. filled (on_disk s n) (x\<lparr>b_refcnt := b_refcnt x + 1, b_lock := lk\<rparr>)) s"
  | (recycled) lk where "\<And>c. \<not> holds s c dev n" "held s' b" "b < NBUF" "b_refcnt (bufs s b) = 0"
    "find (\<lambda>b. b_refcnt (bufs s b) = 0) (rev xs) = Some b"
    "s' = upd_buf b (\<lambda>x. filled (on_disk s n) (x\<lparr>b_dev := dev, b_blockno := n, b_valid := 0, b_refcnt := 1, b_lock := lk\<rparr>)) s"
proof -
  have st: "c \<in> set xs \<longleftrightarrow> c < NBUF" for c using l by (auto simp: lru_def)
  from r obtain s1 where g: "bget dev n s = Ret (b, s1)"
    and s': "s' = upd_buf b (filled (on_disk s1 (b_blockno (bufs s1 b)))) s1" by (auto simp: bread_fill)
  show thesis
  proof (cases "find (\<lambda>b. b_dev (bufs s b) = dev \<and> b_blockno (bufs s b) = n) xs")
    case (Some c)
    have c: "holds s c dev n" using find_holds[OF Some] by (simp add: holds_def st)
    from g Some have "take_buf c (\<lambda>x. x\<lparr>b_refcnt := b_refcnt x + 1\<rparr>) s = Ret (b, s1)" by (simp add: bget_lru[OF l])
    then show thesis
    proof (rule take_buf_filled[where d = "on_disk s n"], goal_cases)
      case (1 lk)
      with s' c have "s' = upd_buf b (filled (on_disk s n)) s1" by (simp add: holds_def)
      with 1 c show thesis by (intro cached[of lk]) simp_all
    qed
  next
    case None
    then have m: "\<not> holds s c dev n" for c using st by (auto simp: find_None_iff holds_def)
    with g None obtain f: "find (\<lambda>b. b_refcnt (bufs s b) = 0) (rev xs) = Some b"
      and tk: "take_buf b (\<lambda>x. x\<lparr>b_dev := dev, b_blockno := n, b_valid := 0, b_refcnt := 1\<rparr>) s = Ret (b, s1)"
      unfolding bget_lru[OF l] by (auto split: option.splits simp: take_buf_Ret)
    have "b < NBUF" "b_refcnt (bufs s b) = 0" using find_holds[OF f] st by auto
    note b = this
    show thesis
    proof (rule take_buf_filled[OF tk, where d = "on_disk s n"], goal_cases)
      case (1 lk)
      with s' have "s' = upd_buf b (filled (on_disk s n)) s1" by simp
      with 1 m f b show thesis by (intro recycled[of lk]) simp_all
    qed
  qed
qed

text \<open>The two cases change the contents of no block.\<close>

lemma contents_filled:
  assumes "cache_inv s" "cache_inv s'" "dev \<noteq> 0" "holds s b dev n"
    "s' = upd_buf b (\<lambda>x. filled (on_disk s n) (x\<lparr>b_refcnt := r x, b_lock := lk\<rparr>)) s" "d \<noteq> 0"
  shows "contents s' d m = contents s d m"
proof -
  have h: "holds s' c e k = holds s c e k" for c e k by (simp add: assms(5) holds_def)
  have oc: "one_copy s" "one_copy s'" using assms by (auto simp: cache_inv_def)
  show ?thesis
  proof (cases "d = dev \<and> m = n")
    case True
    with assms(3,4) h show ?thesis
      using contents_holder[OF oc(1), of d b m] contents_holder[OF oc(2), of d b m] by (simp add: assms(5))
  next
    case False
    then have "\<not> holds s b d m" using assms(4) by (auto simp: holds_def)
    then have "holds s c d m \<Longrightarrow> bufs s' c = bufs s c" for c by (cases "c = b") (simp_all add: assms(5))
    then show ?thesis by (rule contents_same[rotated 2]) (simp_all add: h, simp add: assms(5))
  qed
qed

lemma contents_recycled:
  assumes "cache_inv s" "cache_inv s'" "\<And>c. \<not> holds s c dev n" "b < NBUF" "b_refcnt (bufs s b) = 0"
    "s' = upd_buf b (\<lambda>x. filled (on_disk s n) (x\<lparr>b_dev := dev, b_blockno := n, b_valid := 0, b_refcnt := 1, b_lock := lk\<rparr>)) s" "d \<noteq> 0"
  shows "contents s' d m = contents s d m"
proof -
  have h: "holds s' c e k \<longleftrightarrow> (if c = b then e = dev \<and> k = n else holds s c e k)" for c e k
    using assms(4) by (auto simp: assms(6) holds_def)
  have oc: "one_copy s" "one_copy s'" using assms by (auto simp: cache_inv_def)
  consider "holds s' b d m" | "holds s b d m" "\<not> holds s' b d m" | "\<not> holds s b d m" "\<not> holds s' b d m" by blast
  then show ?thesis
  proof cases
    case 1
    then have "d = dev" "m = n" using h by auto
    with assms(3) have "contents s d m = on_disk s m" by (intro contents_uncached) auto
    with 1 show ?thesis using contents_holder[OF oc(2) assms(7) 1] \<open>m = n\<close> by (simp add: assms(6))
  next
    case 2
    have "clean s b" using assms(1,4,5,7) 2(1) by (auto simp: cache_inv_def holds_def)
    then have "contents s d m = on_disk s m"
      using contents_holder[OF oc(1) assms(7) 2(1)] 2(1) by (auto simp: clean_def holds_def)
    moreover have "\<not> holds s' c d m" for c using 2 h[of c d m] oc(1) assms(7) unfolding one_copy_def by metis
    then have "contents s' d m = on_disk s' m" by (intro contents_uncached) auto
    ultimately show ?thesis by (simp add: assms(6))
  next
    case 3
    then have "holds s c d m \<Longrightarrow> bufs s' c = bufs s c" for c by (cases "c = b") (simp_all add: assms(6))
    moreover have "holds s' c d m = holds s c d m" for c using 3 h[of c d m] by auto
    moreover have "on_disk s' m = on_disk s m" by (simp add: assms(6))
    ultimately show ?thesis by (intro contents_same)
  qed
qed

lemma bread_contents:
  assumes inv: "cache_inv s" and "dev \<noteq> 0" and cnt: "\<forall>c<NBUF. b_refcnt (bufs s c) + 1 \<noteq> 0"
    and r: "bread dev n s = Ret (b, s')"
  shows "cache_inv s'" "holds s' b dev n" "held s' b" "b_valid (bufs s' b) \<noteq> 0" "b_data (bufs s' b) = contents s dev n"
    "d \<noteq> 0 \<Longrightarrow> contents s' d m = contents s d m"
proof -
  obtain xs where l: "lru s xs" using inv by (auto simp: cache_inv_def)
  have oc: "one_copy s" using inv by (simp add: cache_inv_def)
  have "cache_inv s' \<and> holds s' b dev n \<and> held s' b \<and> b_valid (bufs s' b) \<noteq> 0 \<and> b_data (bufs s' b) = contents s dev n
      \<and> (d \<noteq> 0 \<longrightarrow> contents s' d m = contents s d m)"
    using l r
  proof (cases rule: bread_cases)
    case (cached lk)
    have b: "b < NBUF" using cached(1) by (simp add: holds_def)
    have i: "cache_inv s'" unfolding cached(3) using inv cnt b by (intro cache_inv_upd) auto
    have "b_valid (bufs s' b) \<noteq> 0 \<and> holds s' b dev n \<and> b_data (bufs s' b) = contents s dev n"
      using cached(1) contents_holder[OF oc \<open>dev \<noteq> 0\<close> cached(1)] by (simp add: cached(3) holds_def)
    with i cached(2) contents_filled[OF inv i \<open>dev \<noteq> 0\<close> cached(1,3), of d m] show ?thesis by simp
  next
    case (recycled lk)
    have i: "cache_inv s'" unfolding recycled(6) using inv recycled(1) by (intro cache_inv_upd) auto
    have "contents s dev n = on_disk s n" using recycled(1) by (intro contents_uncached) auto
    then have "b_valid (bufs s' b) \<noteq> 0 \<and> holds s' b dev n \<and> b_data (bufs s' b) = contents s dev n"
      using recycled(3) by (simp add: recycled(6) holds_def)
    with i recycled(2) contents_recycled[OF inv i recycled(1,3,4,6), of d m] show ?thesis by simp
  qed
  then show "cache_inv s'" "holds s' b dev n" "held s' b" "b_valid (bufs s' b) \<noteq> 0" "b_data (bufs s' b) = contents s dev n"
    "d \<noteq> 0 \<Longrightarrow> contents s' d m = contents s d m" by blast+
qed

lemma bread_victim:
  assumes "lru s (ys @ b # zs)" "\<forall>c. \<not> holds s c dev n" "b_refcnt (bufs s b) = 0" "\<forall>c\<in>set zs. b_refcnt (bufs s c) \<noteq> 0"
    and "sl_locked (b_lock (bufs s b)) = 0" "cur s = Some i"
  shows "\<exists>s'. bread dev n s = Ret (b, s')"
proof -
  have st: "set (ys @ b # zs) = {..<NBUF}" using assms(1) by (simp add: lru_def)
  have "\<not> (b_dev (bufs s c) = dev \<and> b_blockno (bufs s c) = n)" if "c \<in> set (ys @ b # zs)" for c
    using assms(2) that st by (auto simp: holds_def)
  then have f1: "find (\<lambda>b. b_dev (bufs s b) = dev \<and> b_blockno (bufs s b) = n) (ys @ b # zs) = None"
    unfolding find_None_iff by blast
  have "find (\<lambda>b. b_refcnt (bufs s b) = 0) (rev zs @ [b] @ rev ys) = Some b"
    using assms(3,4) by (induction zs rule: rev_induct) auto
  then have f2: "find (\<lambda>b. b_refcnt (bufs s b) = 0) (rev (ys @ b # zs)) = Some b" by simp
  let ?f = "\<lambda>x. x\<lparr>b_dev := dev, b_blockno := n, b_valid := 0, b_refcnt := 1\<rparr>"
  have "bget dev n s = take_buf b ?f s" unfolding bget_lru[OF assms(1)] f1 f2 by simp
  moreover have "\<exists>s1. take_buf b ?f s = Ret (b, s1)" using assms(5,6) by (simp add: take_buf_Ret)
  ultimately show ?thesis by (auto simp: bread_fill)
qed

subsection \<open>A cache after boot\<close>

definition bare :: "buf \<Rightarrow> buf" where
  "bare x = x\<lparr>b_next := 0, b_prev := 0, b_lock := initsleeplock\<rparr>"

lemma bare_fields:
  assumes "bare x = bare y"
  shows "b_dev x = b_dev y" "b_blockno x = b_blockno y" "b_valid x = b_valid y" "b_data x = b_data y" "b_refcnt x = b_refcnt y"
  using assms by (cases x; cases y; simp add: bare_def)+

lemma bare_upd:
  "bare (bufs (upd_buf b (b_next_update (\<lambda>_. v)) s) c) = bare (bufs s c)"
  "bare (bufs (upd_buf b (b_prev_update (\<lambda>_. v)) s) c) = bare (bufs s c)"
  "bare (bufs (upd_buf b (\<lambda>x. x\<lparr>b_next := v, b_prev := w, b_lock := k\<rparr>) s) c) = bare (bufs s c)"
  "bare (bufs (upd_buf b (\<lambda>x. x\<lparr>b_prev := w, b_next := v\<rparr>) s) c) = bare (bufs s c)"
  by (simp_all add: bare_def)

lemma bare_binit: "bare (bufs (binit s) c) = bare (bufs s c)"
proof -
  have "bare (bufs (binit_step b s) c) = bare (bufs s c)" for b and s :: "'a bio_scheme"
    by (simp only: binit_step_def Let_def bare_upd)
  then have "bare (bufs (fold binit_step xs s) c) = bare (bufs s c)" for xs and s :: "'a bio_scheme"
    by (induction xs arbitrary: s) simp_all
  then show ?thesis by (simp only: binit_def bare_upd)
qed

lemmas binit_fields = bare_fields[OF bare_binit]

lemma binit_inv:
  assumes "\<And>b. b < NBUF \<Longrightarrow> b_dev (bufs s b) = 0"
  shows "cache_inv (binit s)"
  using assms binit_lru[of s] by (auto simp: cache_inv_def one_copy_def holds_def binit_fields)

lemma cur_binit [simp]: "cur (binit s) = cur s"
proof -
  have u: "cur (upd_buf b f s) = cur s" for b f and s :: "'a bio_scheme" by (simp add: upd_buf_def)
  have "cur (fold binit_step xs s) = cur s" for xs and s :: "'a bio_scheme"
    by (induction xs arbitrary: s) (simp_all add: binit_step_def Let_def u)
  then show ?thesis by (simp only: binit_def u)
qed

lemma sl_binit:
  assumes "\<And>c. b_lock (bufs s c) = initsleeplock"
  shows "b_lock (bufs (binit s) c) = initsleeplock"
proof -
  have "b_lock (bufs (binit_step b s) c) = initsleeplock" if "\<And>c. b_lock (bufs s c) = initsleeplock"
    for b c and s :: "'a bio_scheme" using that by (simp add: binit_step_def Let_def)
  then have "b_lock (bufs (fold binit_step xs s) c) = initsleeplock" if "\<And>c. b_lock (bufs s c) = initsleeplock"
    for xs and s :: "'a bio_scheme" using that by (induction xs arbitrary: s) simp_all
  then show ?thesis using assms by (simp add: binit_def)
qed

definition buf0 :: buf where
  "buf0 = \<lparr>b_valid = 0, b_dev = 0, b_blockno = 0, b_lock = initsleeplock, b_refcnt = 0, b_prev = 0, b_next = 0, b_data = (\<lambda>_. 0)\<rparr>"

definition boot0 :: bio where
  "boot0 = kernel.extend (kernel0\<lparr>cur := Some 3\<rparr>) \<lparr>bufs = (\<lambda>_. buf0), disk0 = (\<lambda>b _. ucast b), dwrites = []\<rparr>"

definition bio_demo :: bio where
  "bio_demo = binit boot0"

lemma boot0_simps [simp]: "bufs boot0 = (\<lambda>_. buf0)" "cur boot0 = Some 3"
  by (simp_all add: boot0_def kernel.extend_def)

lemma bio_demo_fields [simp]:
  "b_dev (bufs bio_demo c) = 0" "b_blockno (bufs bio_demo c) = 0" "b_valid (bufs bio_demo c) = 0" "b_data (bufs bio_demo c) = (\<lambda>_. 0)"
  "b_refcnt (bufs bio_demo c) = 0" "b_lock (bufs bio_demo c) = initsleeplock" "cur bio_demo = Some 3"
  by (simp_all add: bio_demo_def binit_fields sl_binit) (simp_all add: buf0_def sl_binit)

lemma bio_demo_inv: "cache_inv bio_demo" "lru bio_demo (rev [Suc 0..<NBUF] @ 0 # [])"
proof -
  show "cache_inv bio_demo" unfolding bio_demo_def by (rule binit_inv) (simp add: buf0_def)
  have "rev [0..<NBUF] = rev [Suc 0..<NBUF] @ [0]" by (simp add: upt_conv_Cons NBUF_def)
  then show "lru bio_demo (rev [Suc 0..<NBUF] @ 0 # [])" using binit_lru[of boot0] by (simp add: bio_demo_def)
qed

lemma bio_demo_empty: "\<not> holds bio_demo c 1 n"
  by (simp add: holds_def)

lemma bread_demo:
  obtains s1 where "bread 1 7 bio_demo = Ret (0, s1)" "lru s1 (rev [Suc 0..<NBUF] @ 0 # [])" "b_refcnt (bufs s1 0) = 1" "clean s1 0"
proof -
  obtain s1 where r: "bread 1 7 bio_demo = Ret (0, s1)"
    using bread_victim[OF bio_demo_inv(2), of 1 7 3] bio_demo_empty by (auto simp: initsleeplock_def)
  show thesis
    using bio_demo_inv(2) r
  proof (cases rule: bread_cases)
    case (cached lk)
    then show ?thesis using bio_demo_empty by blast
  next
    case (recycled lk)
    show ?thesis using r bio_demo_inv(2)
      by (intro that[of s1]) (simp_all add: recycled(6) lru_upd clean_def)
  qed
qed

text \<open>A buffer without its links.\<close>

definition unlinked :: "buf \<Rightarrow> buf" where
  "unlinked x = x\<lparr>b_next := 0, b_prev := 0\<rparr>"

lemma unlinked_upd:
  "unlinked (bufs (upd_buf b (b_next_update (\<lambda>_. v)) s) c) = unlinked (bufs s c)"
  "unlinked (bufs (upd_buf b (b_prev_update (\<lambda>_. v)) s) c) = unlinked (bufs s c)"
  by (simp_all add: unlinked_def)

lemma unlinked_to_front: "unlinked (bufs (to_front b s) c) = unlinked (bufs s c)"
  by (simp only: to_front_def Let_def unlinked_upd)

lemma unlinked_fields:
  assumes "unlinked x = unlinked y"
  shows "b_dev x = b_dev y" "b_blockno x = b_blockno y" "b_valid x = b_valid y" "b_data x = b_data y"
    "b_refcnt x = b_refcnt y" "b_lock x = b_lock y"
  using assms by (cases x; cases y; simp add: unlinked_def)+

lemmas to_front_fields = unlinked_fields[OF unlinked_to_front]

lemma on_disk_to_front: "on_disk (to_front b s) = on_disk s"
  by (simp only: to_front_def Let_def on_disk_upd_buf)

lemmas to_front_same = to_front_fields on_disk_to_front

text \<open>A state that has the same blocks in the same buffers has the same contents.\<close>

definition same_blocks :: "'a bio_scheme \<Rightarrow> 'a bio_scheme \<Rightarrow> bool" where
  "same_blocks s s' \<longleftrightarrow> on_disk s' = on_disk s \<and>
     (\<forall>c. b_dev (bufs s' c) = b_dev (bufs s c) \<and> b_blockno (bufs s' c) = b_blockno (bufs s c)
        \<and> b_valid (bufs s' c) = b_valid (bufs s c) \<and> b_data (bufs s' c) = b_data (bufs s c))"

lemma same_blocks_contents: "same_blocks s s' \<Longrightarrow> contents s' = contents s"
  by (intro ext contents_cong) (auto simp: same_blocks_def holds_def)

lemma same_blocks_inv:
  assumes "same_blocks s s'" "cache_inv s" "\<exists>xs. lru s' xs"
    and "\<And>c. c < NBUF \<Longrightarrow> b_refcnt (bufs s' c) = 0 \<Longrightarrow> b_refcnt (bufs s c) = 0 \<or> clean s c"
  shows "cache_inv s'"
proof -
  have h: "holds s' c d n = holds s c d n" "clean s' c = clean s c" for c d n
    using assms(1) by (auto simp: same_blocks_def holds_def clean_def)
  have "one_copy s'" using assms(2) by (simp add: cache_inv_def one_copy_def h)
  moreover have "b_dev (bufs s' c) = b_dev (bufs s c)" for c using assms(1) by (simp add: same_blocks_def)
  ultimately show ?thesis using assms(2-4) by (auto simp: cache_inv_def h)
qed

lemma bufs_wakeup [simp]: "bufs (wakeup c s) = bufs s" "on_disk (wakeup c s) = on_disk s"
  by (simp_all add: wakeup_eq on_disk_def)

lemma brelse_eq:
  assumes "held s b"
  obtains s1 where "same_blocks s s1" "nexts s1 = nexts s" "prevs s1 = prevs s"
    "\<forall>c. b_refcnt (bufs s1 c) = (if c = b then b_refcnt (bufs s b) - 1 else b_refcnt (bufs s c))"
    "sl_locked (b_lock (bufs s1 b)) = 0"
    "brelse b s = Ret (if b_refcnt (bufs s b) = 1 then to_front b s1 else s1)"
proof -
  let ?s = "upd_buf b (\<lambda>x. x\<lparr>b_lock := initsleeplock, b_refcnt := b_refcnt x - 1\<rparr>) (wakeup (Ch_buf b) s)"
  have lk: "lk\<lparr>sl_locked := 0, sl_pid := 0\<rparr> = initsleeplock" for lk :: sleeplock
    by (cases lk) (simp add: initsleeplock_def)
  have z: "b_refcnt (bufs s b) - 1 = 0 \<longleftrightarrow> b_refcnt (bufs s b) = 1" by auto
  have "brelse b s = Ret (if b_refcnt (bufs s b) = 1 then to_front b ?s else ?s)"
    using assms by (simp add: brelse_def held_def releasesleep_def lk z Let_def)
  then show thesis
    by (intro that[of ?s]) (auto simp: same_blocks_def nexts_def prevs_def initsleeplock_def fun_eq_iff)
qed

text \<open>\<^verbatim>\<open>brelse\<close>: the process that holds a buffer gives it up.  The lock is free afterwards, and the buffer
  moves to the front of the list exactly when this was its last reference; the other buffers keep their order, no
  block changes its contents, and the invariant of the cache holds as long as a buffer nobody refers to any more
  agrees with the disk.
\<close>

theorem brelse_correct:
  assumes "cache_inv s" "lru s (ys @ b # zs)" "held s b" "b_refcnt (bufs s b) = 1 \<longrightarrow> clean s b" "b_refcnt (bufs s b) \<noteq> 0"
  shows "\<exists>s'. brelse b s = Ret s' \<and> lru s' (if b_refcnt (bufs s b) = 1 then b # ys @ zs else ys @ b # zs)
    \<and> sl_locked (b_lock (bufs s' b)) = 0 \<and> contents s' = contents s \<and> cache_inv s'"
proof -
  obtain s1 where sb: "same_blocks s s1" and l: "nexts s1 = nexts s" "prevs s1 = prevs s"
    and rc: "\<forall>c. b_refcnt (bufs s1 c) = (if c = b then b_refcnt (bufs s b) - 1 else b_refcnt (bufs s c))"
    and lk: "sl_locked (b_lock (bufs s1 b)) = 0"
    and r: "brelse b s = Ret (if b_refcnt (bufs s b) = 1 then to_front b s1 else s1)"
    by (rule brelse_eq[OF assms(3)])
  define s' where "s' = (if b_refcnt (bufs s b) = 1 then to_front b s1 else s1)"
  have "lru s1 (ys @ b # zs)" using assms(2) l by (simp add: lru_def)
  then have lr: "lru s' (if b_refcnt (bufs s b) = 1 then b # ys @ zs else ys @ b # zs)"
    by (simp add: s'_def to_front_lru)
  have sb': "same_blocks s s'" using sb by (simp add: s'_def same_blocks_def to_front_same)
  have "b_refcnt (bufs s' c) = b_refcnt (bufs s1 c)" for c by (simp add: s'_def to_front_same)
  then have "b_refcnt (bufs s' c) = 0 \<Longrightarrow> b_refcnt (bufs s c) = 0 \<or> clean s c" for c
    using assms(4) by (auto simp: rc split: if_splits)
  then have "cache_inv s'" using same_blocks_inv[OF sb' assms(1)] lr by blast
  moreover have "sl_locked (b_lock (bufs s' b)) = 0" using lk by (simp add: s'_def to_front_same)
  moreover have "brelse b s = Ret s'" using r by (simp add: s'_def)
  ultimately show ?thesis using lr same_blocks_contents[OF sb'] by blast
qed

theorem brelse_correct_witness:
  "\<exists>s1 s2. bread 1 7 bio_demo = Ret (0, s1) \<and> brelse 0 s1 = Ret s2 \<and> lru s2 (0 # rev [Suc 0..<NBUF]) \<and> contents s2 = contents s1"
proof -
  obtain s1 where s1: "bread 1 7 bio_demo = Ret (0, s1)" "lru s1 (rev [Suc 0..<NBUF] @ 0 # [])" "b_refcnt (bufs s1 0) = 1" "clean s1 0"
    by (rule bread_demo)
  have "cache_inv s1" "held s1 0" using bread_contents[OF bio_demo_inv(1) _ _ s1(1)] by simp_all
  from brelse_correct[OF this(1) s1(2) this(2)] s1(3,4) obtain s2
    where "brelse 0 s1 = Ret s2" "lru s2 (0 # rev [Suc 0..<NBUF])" "contents s2 = contents s1" by auto
  with s1(1) show ?thesis by blast
qed

subsection \<open>What \<^verbatim>\<open>bread\<close> returns\<close>

text \<open>C10. \<^verbatim>\<open>bread\<close> refines reading a block from a plain array of blocks: whatever the cache holds, the buffer it
  returns holds the asked block with its current contents and is locked by the caller, and neither the contents of
  any block nor the invariant of the cache (a proper list, one copy of a block, nothing unwritten in a buffer that
  may be recycled) is disturbed by the recycling.
\<close>

theorem bread_coherent:
  assumes "cache_inv s" "dev \<noteq> 0" "\<forall>c<NBUF. b_refcnt (bufs s c) + 1 \<noteq> 0" "bread dev n s = Ret (b, s')"
  shows "holds s' b dev n \<and> held s' b \<and> b_data (bufs s' b) = contents s dev n
    \<and> (\<forall>d m. d \<noteq> 0 \<longrightarrow> contents s' d m = contents s d m) \<and> cache_inv s'"
  using bread_contents[OF assms] by blast

theorem bread_coherent_witness:
  "\<exists>s1. bread 1 7 bio_demo = Ret (0, s1) \<and> b_data (bufs s1 0) = contents bio_demo 1 7 \<and> cache_inv s1"
proof -
  obtain s1 where "bread 1 7 bio_demo = Ret (0, s1)" by (rule bread_demo)
  with bread_coherent[OF bio_demo_inv(1) _ _ this] show ?thesis by simp
qed

text \<open>\<^verbatim>\<open>bread\<close> panics exactly when the block is in no buffer and every buffer is in use, and it panics with no
  other message.
\<close>

theorem bread_panic_iff:
  assumes "lru s xs"
  shows "bread dev n s = Panic m \<longleftrightarrow>
    m = ''bget: no buffers'' \<and> (\<forall>b<NBUF. \<not> holds s b dev n \<and> b_refcnt (bufs s b) \<noteq> 0)"
proof -
  have t: "take_buf b f s \<noteq> Panic m" for b f
    by (auto simp: take_buf_def Let_def acquiresleep_def with_cur_def kbind_Panic_iff split: if_splits option.splits)
  have st: "set xs = {..<NBUF}" using assms by (simp add: lru_def)
  have "bread dev n s = Panic m \<longleftrightarrow> bget dev n s = Panic m" by (auto simp: bread_def kbind_Panic_iff)
  also have "\<dots> \<longleftrightarrow> m = ''bget: no buffers''
      \<and> find (\<lambda>b. b_dev (bufs s b) = dev \<and> b_blockno (bufs s b) = n) xs = None
      \<and> find (\<lambda>b. b_refcnt (bufs s b) = 0) (rev xs) = None"
    unfolding bget_lru[OF assms] using t by (auto split: option.splits)
  finally show ?thesis using st by (auto simp: find_None_iff holds_def)
qed

theorem bread_panic_iff_witness:
  "bread 1 7 (bio_demo\<lparr>bufs := \<lambda>c. (bufs bio_demo c)\<lparr>b_refcnt := 1\<rparr>\<rparr>) = Panic ''bget: no buffers''"
proof -
  let ?s = "bio_demo\<lparr>bufs := \<lambda>c. (bufs bio_demo c)\<lparr>b_refcnt := 1\<rparr>\<rparr>"
  have "nexts ?s = nexts bio_demo" "prevs ?s = prevs bio_demo" by (simp_all add: nexts_def prevs_def fun_eq_iff)
  then have "lru ?s (rev [Suc 0..<NBUF] @ 0 # [])" using bio_demo_inv(2) by (simp add: lru_def)
  from bread_panic_iff[OF this] show ?thesis by (simp add: holds_def)
qed

text \<open>When a block is in no buffer, \<^verbatim>\<open>bread\<close> recycles the least recently used buffer of those nobody refers to:
  with one at hand, and its lock free, it returns that buffer and no other.
\<close>

theorem bread_recycles_lru:
  assumes "lru s (ys @ b # zs)" "\<forall>c. \<not> holds s c dev n" "b_refcnt (bufs s b) = 0" "\<forall>c\<in>set zs. b_refcnt (bufs s c) \<noteq> 0"
    and "sl_locked (b_lock (bufs s b)) = 0" "cur s = Some i"
  shows "\<exists>s'. bread dev n s = Ret (b, s')"
  using assms by (rule bread_victim)

theorem bread_recycles_lru_witness: "\<exists>s1. bread 1 7 bio_demo = Ret (0, s1)"
  using bread_recycles_lru[OF bio_demo_inv(2), of 1 7 3] bio_demo_empty by (simp add: initsleeplock_def)

end
