(* ===== verification/BlockCache.thy ===== *)
theory BlockCache
  imports Bio
begin

text \<open>
  The buffer cache as its clients see it: a client that holds the locks of the buffers \<open>H\<close> reads, changes, writes and
  releases blocks of one device.  The rules below say that each operation returns, and what it does to the contents
  of the blocks (\<open>contents\<close>), to the disk, and to the number of references to each block (\<open>brefs\<close>).
\<close>

definition buf_of :: "uint \<Rightarrow> 'a bio_scheme \<Rightarrow> uint \<Rightarrow> nat option" where
  "buf_of dev s n = find (\<lambda>b. holds s b dev n) [0..<NBUF]"

definition brefs :: "uint \<Rightarrow> 'a bio_scheme \<Rightarrow> uint \<Rightarrow> uint" where
  "brefs dev s n = (case buf_of dev s n of None \<Rightarrow> 0 | Some b \<Rightarrow> b_refcnt (bufs s b))"

definition bc :: "uint \<Rightarrow> 'a bio_scheme \<Rightarrow> nat set \<Rightarrow> bool" where
  "bc dev s H \<longleftrightarrow> cache_inv s \<and> dev \<noteq> 0 \<and> cur s \<noteq> None
     \<and> (\<forall>b<NBUF. (sl_locked (b_lock (bufs s b)) \<noteq> 0 \<longleftrightarrow> b \<in> H) \<and> (b_dev (bufs s b) = 0 \<or> b_dev (bufs s b) = dev)
          \<and> (b_refcnt (bufs s b) \<noteq> 0 \<longrightarrow> b_dev (bufs s b) = dev))
     \<and> (\<forall>b\<in>H. b < NBUF \<and> held s b \<and> b_valid (bufs s b) \<noteq> 0 \<and> b_refcnt (bufs s b) \<noteq> 0)"

lemma bcD:
  assumes "bc dev s H"
  shows "cache_inv s" "one_copy s" "dev \<noteq> 0" "cur s \<noteq> None" "b \<in> H \<Longrightarrow> b < NBUF" "b \<in> H \<Longrightarrow> held s b"
    "b \<in> H \<Longrightarrow> b_valid (bufs s b) \<noteq> 0" "b \<in> H \<Longrightarrow> b_refcnt (bufs s b) \<noteq> 0" "b \<in> H \<Longrightarrow> b_dev (bufs s b) = dev"
    "b < NBUF \<Longrightarrow> b_refcnt (bufs s b) \<noteq> 0 \<Longrightarrow> b_dev (bufs s b) = dev"
    "b < NBUF \<Longrightarrow> b \<notin> H \<Longrightarrow> sl_locked (b_lock (bufs s b)) = 0"
    "b < NBUF \<Longrightarrow> b_dev (bufs s b) = 0 \<or> b_dev (bufs s b) = dev"
  using assms by (auto simp: bc_def cache_inv_def)

lemma buf_of_holder:
  assumes "one_copy s" "dev \<noteq> 0" "holds s b dev n"
  shows "buf_of dev s n = Some b"
proof (cases "buf_of dev s n")
  case None
  with assms show ?thesis by (auto simp: buf_of_def find_None_iff holds_def)
next
  case (Some c)
  with find_holds[OF Some[unfolded buf_of_def]] assms show ?thesis by (auto simp: one_copy_def)
qed

lemma buf_of_None: "(\<And>b. \<not> holds s b dev n) \<Longrightarrow> buf_of dev s n = None"
  by (auto simp: buf_of_def find_None_iff)

lemma buf_of_Some: "buf_of dev s n = Some b \<Longrightarrow> holds s b dev n"
  by (auto simp: buf_of_def dest: find_holds(2))

lemma brefs_holder: "one_copy s \<Longrightarrow> dev \<noteq> 0 \<Longrightarrow> holds s b dev n \<Longrightarrow> brefs dev s n = b_refcnt (bufs s b)"
  by (simp add: brefs_def buf_of_holder)

lemma brefs_none: "(\<And>b. \<not> holds s b dev n) \<Longrightarrow> brefs dev s n = 0"
  by (simp add: brefs_def buf_of_None)

lemma holds_held: "bc dev s H \<Longrightarrow> b \<in> H \<Longrightarrow> holds s b dev (b_blockno (bufs s b))"
  by (simp add: holds_def bcD)

lemma held_block_inj: "bc dev s H \<Longrightarrow> b \<in> H \<Longrightarrow> holds s c dev (b_blockno (bufs s b)) \<Longrightarrow> c = b"
  using holds_held bcD(2,3) unfolding one_copy_def by metis

text \<open>As long as fewer blocks are in use than there are buffers, there is a buffer to recycle.\<close>

lemma idle_buffer:
  assumes "bc dev s H" "card {m. brefs dev s m \<noteq> 0} < NBUF"
  obtains b where "b < NBUF" "b_refcnt (bufs s b) = 0"
proof (cases "\<exists>b<NBUF. b_refcnt (bufs s b) = 0")
  case False
  note d = bcD[OF assms(1)]
  let ?f = "\<lambda>b. b_blockno (bufs s b)"
  have h: "holds s b dev (?f b)" if "b < NBUF" for b using False d(10) that by (auto simp: holds_def)
  have "b = c" if "b < NBUF" "c < NBUF" "?f b = ?f c" for b c
    using h[OF that(1)] h[OF that(2)] that(3) d(2,3) unfolding one_copy_def by metis
  then have "inj_on ?f {..<NBUF}" by (auto intro: inj_onI)
  then have "card (?f ` {..<NBUF}) = NBUF" by (simp add: card_image)
  moreover have "brefs dev s (?f b) \<noteq> 0" if "b < NBUF" for b
    using brefs_holder[OF d(2,3) h[OF that]] False that by auto
  then have "?f ` {..<NBUF} = {m. brefs dev s m \<noteq> 0} \<inter> ?f ` {..<NBUF}" by auto
  moreover have "{m. brefs dev s m \<noteq> 0} \<subseteq> ?f ` {..<NBUF}"
    by (auto simp: brefs_def holds_def split: option.splits dest!: buf_of_Some)
  ultimately show thesis using assms(2) by (metis inf.absorb1 less_irrefl)
qed (use that in blast)

text \<open>Only the buffers change, and the processes a release wakes up.\<close>

definition bufs_only :: "'a bio_scheme \<Rightarrow> 'a bio_scheme \<Rightarrow> bool" where
  "bufs_only s s' \<longleftrightarrow> (\<exists>B T. s' = s\<lparr>ptable := T, bufs := B\<rparr> \<and> (\<forall>i. p_pid (T i) = p_pid (ptable s i)))"

lemma bufs_only_upd: "bufs_only s (upd_buf b f s)"
  unfolding bufs_only_def upd_buf_def by (rule exI[of _ "(bufs s)(b := f (bufs s b))"], rule exI[of _ "ptable s"]) simp

lemma bufs_onlyD:
  assumes "bufs_only s s'"
  shows "on_disk s' = on_disk s" "dwrites s' = dwrites s" "disk0 s' = disk0 s" "cur s' = cur s" "p_pid (ptable s' i) = p_pid (ptable s i)"
  using assms by (auto simp: bufs_only_def on_disk_def)

lemma bufs_only_trans: "bufs_only s s' \<Longrightarrow> bufs_only s' s'' \<Longrightarrow> bufs_only s s''"
  by (fastforce simp: bufs_only_def)

lemma held_cong: "bufs_only s s' \<Longrightarrow> b_lock (bufs s' b) = b_lock (bufs s b) \<Longrightarrow> held s' b = held s b"
  using bufs_onlyD[of s s'] by (auto simp: held_def holdingsleep_def with_cur_def split: option.splits)

lemma lru_cache: "cache_inv s \<Longrightarrow> \<exists>xs. lru s xs"
  by (simp add: cache_inv_def)

lemma bget_target:
  assumes "bc dev s H" "\<forall>b\<in>H. b_blockno (bufs s b) \<noteq> n" "card {m. brefs dev s m \<noteq> 0} < NBUF \<or> brefs dev s n \<noteq> 0"
  shows "\<exists>b s'. bread dev n s = Ret (b, s')"
proof -
  note d = bcD[OF assms(1)]
  obtain xs where l: "lru s xs" using d(1) by (auto simp: cache_inv_def)
  have st: "set xs = {..<NBUF}" using l by (simp add: lru_def)
  obtain i where i: "cur s = Some i" using d(4) by auto
  have tk: "\<exists>s1. take_buf b f s = Ret (b, s1)" if "b < NBUF" "b \<notin> H" "b_lock (f (bufs s b)) = b_lock (bufs s b)" for b f
    using i d(11)[OF that(1,2)] that(3) by (auto simp: take_buf_Ret)
  show ?thesis
  proof (cases "find (\<lambda>b. b_dev (bufs s b) = dev \<and> b_blockno (bufs s b) = n) xs")
    case (Some b)
    with find_holds[OF Some] st assms(2) have "b < NBUF" "b \<notin> H" by auto
    with Some l show ?thesis using tk[of b "\<lambda>x. x\<lparr>b_refcnt := b_refcnt x + 1\<rparr>"] by (auto simp: bread_fill bget_lru)
  next
    case None
    then have "\<not> holds s b dev n" for b using st by (auto simp: find_None_iff holds_def)
    then have "card {m. brefs dev s m \<noteq> 0} < NBUF" using assms(3) brefs_none by blast
    then obtain c where "c < NBUF" "b_refcnt (bufs s c) = 0" using idle_buffer[OF assms(1)] by blast
    then obtain b where f: "find (\<lambda>b. b_refcnt (bufs s b) = 0) (rev xs) = Some b"
      using st by (cases "find (\<lambda>b. b_refcnt (bufs s b) = 0) (rev xs)") (auto simp: find_None_iff)
    with find_holds[OF f] st d(8) have "b < NBUF" "b \<notin> H" by auto
    with f None l show ?thesis
      using tk[of b "\<lambda>x. x\<lparr>b_dev := dev, b_blockno := n, b_valid := 0, b_refcnt := 1\<rparr>"] by (auto simp: bread_fill bget_lru)
  qed
qed

lemma held_locked: "held s b \<Longrightarrow> sl_locked (b_lock (bufs s b)) \<noteq> 0"
  by (auto simp: held_def holdingsleep_def)

lemma brefs_upd:
  assumes "one_copy s" "one_copy (upd_buf b f s)" "dev \<noteq> 0" "holds s b dev n"
    "b_dev (f (bufs s b)) = dev" "b_blockno (f (bufs s b)) = n"
  shows "brefs dev (upd_buf b f s) = (brefs dev s)(n := b_refcnt (f (bufs s b)))"
proof
  fix m
  have h: "holds (upd_buf b f s) c dev k = holds s c dev k" for c k
    using assms(4-6) by (auto simp: holds_def)
  show "brefs dev (upd_buf b f s) m = ((brefs dev s)(n := b_refcnt (f (bufs s b)))) m"
  proof (cases "m = n")
    case True
    with assms h show ?thesis using brefs_holder[OF assms(2,3), of b n] by simp
  next
    case False
    have "buf_of dev (upd_buf b f s) m = buf_of dev s m" by (simp add: buf_of_def h)
    moreover have "buf_of dev s m \<noteq> Some b" using False assms(4) buf_of_Some[of dev s m b] by (auto simp: holds_def)
    ultimately show ?thesis using False by (auto simp: brefs_def split: option.splits)
  qed
qed

lemma brefs_recycle:
  assumes "one_copy s" "one_copy (upd_buf b f s)" "dev \<noteq> 0" "\<And>c. \<not> holds s c dev n" "b < NBUF" "b_refcnt (bufs s b) = 0"
    "b_dev (f (bufs s b)) = dev" "b_blockno (f (bufs s b)) = n"
  shows "brefs dev (upd_buf b f s) = (brefs dev s)(n := b_refcnt (f (bufs s b)))"
proof
  fix m
  have h: "holds (upd_buf b f s) c dev k \<longleftrightarrow> (if c = b then k = n else holds s c dev k)" for c k
    using assms(5,7,8) by (auto simp: holds_def)
  consider "m = n" | c where "m \<noteq> n" "holds s c dev m" "c \<noteq> b" | "m \<noteq> n" "\<And>c. holds s c dev m \<Longrightarrow> c = b" by blast
  then show "brefs dev (upd_buf b f s) m = ((brefs dev s)(n := b_refcnt (f (bufs s b)))) m"
  proof cases
    case 1
    then show ?thesis using h brefs_holder[OF assms(2,3), of b n] by simp
  next
    case (2 c)
    with h[of c m] show ?thesis using brefs_holder[OF assms(1,3) 2(2)] brefs_holder[OF assms(2,3), of c m] by simp
  next
    case 3
    then have "brefs dev s m = 0"
      using brefs_holder[OF assms(1,3), of _ m] brefs_none[of s dev m] assms(6) by metis
    moreover have "\<not> holds (upd_buf b f s) c dev m" for c using 3 h[of c m] by auto
    then have "brefs dev (upd_buf b f s) m = 0" by (rule brefs_none)
    ultimately show ?thesis using 3(1) by simp
  qed
qed

lemma bc_upd:
  assumes "bc dev s H" "cache_inv (upd_buf b f s)" "b < NBUF" "held (upd_buf b f s) b"
    "b_dev (f (bufs s b)) = dev" "b_valid (f (bufs s b)) \<noteq> 0" "b_refcnt (f (bufs s b)) \<noteq> 0"
  shows "bc dev (upd_buf b f s) (insert b H)"
proof -
  note d = bcD[OF assms(1)]
  have c: "cur (upd_buf b f s) = cur s" by (simp add: upd_buf_def)
  have h: "held (upd_buf b f s) c = held s c" if "c \<noteq> b" for c using that by (intro held_cong bufs_only_upd) simp
  have "sl_locked (b_lock (f (bufs s b))) \<noteq> 0" using held_locked[OF assms(4)] by simp
  then have "(sl_locked (b_lock (bufs (upd_buf b f s) c)) \<noteq> 0) = (c \<in> insert b H)" if "c < NBUF" for c
    using assms(1) that by (auto simp: bc_def)
  moreover have "held (upd_buf b f s) c" if "c \<in> insert b H" for c using that h[of c] assms(4) d(6) by (cases "c = b") auto
  moreover have "b_dev (bufs (upd_buf b f s) c) = 0 \<or> b_dev (bufs (upd_buf b f s) c) = dev" if "c < NBUF" for c
    using d(12)[OF that] assms(5) by simp
  moreover have "b_dev (bufs (upd_buf b f s) c) = dev" if "c < NBUF" "b_refcnt (bufs (upd_buf b f s) c) \<noteq> 0" for c
    using d(10)[of c] assms(5) that by (auto split: if_splits)
  moreover have "c < NBUF \<and> b_valid (bufs (upd_buf b f s) c) \<noteq> 0 \<and> b_refcnt (bufs (upd_buf b f s) c) \<noteq> 0" if "c \<in> insert b H" for c
    using d(5,7,8)[of c] assms(3,6,7) that by auto
  ultimately show ?thesis using assms(2) d(3,4) unfolding bc_def c by blast
qed

definition few :: "uint \<Rightarrow> 'a bio_scheme \<Rightarrow> bool" where
  "few dev s \<longleftrightarrow> (\<forall>m. brefs dev s m < 0xffff)"

lemma few_counts: "bc dev s H \<Longrightarrow> few dev s \<Longrightarrow> \<forall>c<NBUF. b_refcnt (bufs s c) + 1 \<noteq> 0"
proof (intro allI impI)
  fix c assume a: "bc dev s H" "few dev s" "c < NBUF"
  show "b_refcnt (bufs s c) + 1 \<noteq> 0"
  proof (cases "b_refcnt (bufs s c) = 0")
    case False
    have "b_dev (bufs s c) = dev" by (rule bcD(10)[OF a(1,3) False])
    then have "brefs dev s (b_blockno (bufs s c)) = b_refcnt (bufs s c)"
      using brefs_holder[OF bcD(2,3)[OF a(1)]] a(3) by (simp add: holds_def)
    with a(2) have "b_refcnt (bufs s c) < 0xffff" by (metis few_def)
    then have "b_refcnt (bufs s c) \<noteq> - 1" by auto
    then show ?thesis by (simp add: eq_neg_iff_add_eq_0)
  qed simp
qed

lemma bread_rule:
  assumes b: "bc dev s H" "few dev s" and n: "\<forall>b\<in>H. b_blockno (bufs s b) \<noteq> n"
    and room: "card {m. brefs dev s m \<noteq> 0} < NBUF \<or> brefs dev s n \<noteq> 0"
  obtains b s' where "bread dev n s = Ret (b, s')" "b \<notin> H" "bc dev s' (insert b H)" "b_blockno (bufs s' b) = n"
    "b_data (bufs s' b) = contents s dev n" "contents s' dev = contents s dev"
    "brefs dev s' = (brefs dev s)(n := brefs dev s n + 1)" "bufs_only s s'" "\<forall>c\<in>H. bufs s' c = bufs s c"
proof -
  note d = bcD[OF b(1)]
  obtain b s' where r: "bread dev n s = Ret (b, s')" using bget_target[OF b(1) n room] by blast
  note c = bread_contents[OF d(1,3) few_counts[OF b] r]
  obtain xs where l: "lru s xs" using d(1) by (auto simp: cache_inv_def)
  have oc: "one_copy s'" using c(1) by (simp add: cache_inv_def)
  have bN: "b < NBUF" using c(2) by (simp add: holds_def)
  have cs: "contents s' dev = contents s dev" using c(6)[OF d(3)] by blast
  from l r have "\<exists>f. s' = upd_buf b f s \<and> b_refcnt (f (bufs s b)) \<noteq> 0 \<and> b \<notin> H
      \<and> brefs dev s' = (brefs dev s)(n := brefs dev s n + 1)"
  proof (cases rule: bread_cases)
    case (cached lk)
    let ?f = "\<lambda>x. filled (on_disk s n) (x\<lparr>b_refcnt := b_refcnt x + 1, b_lock := lk\<rparr>)"
    have "brefs dev s' = (brefs dev s)(n := b_refcnt (?f (bufs s b)))"
      unfolding cached(3) using oc[unfolded cached(3)] cached(1) d(2,3) by (intro brefs_upd) (auto simp: holds_def)
    moreover have "b_refcnt (bufs s b) + 1 \<noteq> 0" using few_counts[OF b] bN by blast
    moreover have "b \<notin> H" using n cached(1) by (auto simp: holds_def)
    ultimately show ?thesis using cached(3) brefs_holder[OF d(2,3) cached(1)] by auto
  next
    case (recycled lk)
    let ?f = "\<lambda>x. filled (on_disk s n) (x\<lparr>b_dev := dev, b_blockno := n, b_valid := 0, b_refcnt := 1, b_lock := lk\<rparr>)"
    have "brefs dev s' = (brefs dev s)(n := b_refcnt (?f (bufs s b)))"
      unfolding recycled(6) using oc[unfolded recycled(6)] recycled(1,4) bN d(2,3) by (intro brefs_recycle) auto
    moreover have "brefs dev s n = 0" using recycled(1) by (rule brefs_none)
    moreover have "b \<notin> H" using d(8) recycled(4) by auto
    ultimately show ?thesis using recycled(6) by auto
  qed
  then obtain f where s': "s' = upd_buf b f s" and f: "b_refcnt (f (bufs s b)) \<noteq> 0" "b \<notin> H"
    and rf: "brefs dev s' = (brefs dev s)(n := brefs dev s n + 1)" by blast
  have "bc dev s' (insert b H)" unfolding s'
    using b(1) c(1,2,3,4) f bN by (intro bc_upd) (auto simp: s' holds_def)
  moreover have "\<forall>c\<in>H. bufs s' c = bufs s c" using f(2) by (auto simp: s')
  moreover have "b_blockno (bufs s' b) = n" using c(2) by (simp add: holds_def)
  moreover have "bufs_only s s'" unfolding s' by (rule bufs_only_upd)
  ultimately show thesis using r f(2) c(5) cs rf by (intro that)
qed

text \<open>A client changes the data of a buffer it holds.\<close>

definition set_data :: "nat \<Rightarrow> cptr \<Rightarrow> 'a bio_scheme \<Rightarrow> 'a bio_scheme" where
  "set_data b d = upd_buf b (b_data_update (\<lambda>_. d))"

lemma set_data_rule:
  assumes b: "bc dev s H" "b \<in> H"
  shows "bc dev (set_data b d s) H" "contents (set_data b d s) dev = (contents s dev)(b_blockno (bufs s b) := d)"
    "brefs dev (set_data b d s) = brefs dev s" "bufs_only s (set_data b d s)"
    "bufs (set_data b d s) = (bufs s)(b := (bufs s b)\<lparr>b_data := d\<rparr>)"
proof -
  note D = bcD[OF b(1)] let ?s = "set_data b d s" let ?n = "b_blockno (bufs s b)"
  have h: "holds ?s c e k = holds s c e k" for c e k by (simp add: set_data_def holds_def)
  show bo: "bufs_only s ?s" unfolding set_data_def by (rule bufs_only_upd)
  have ci: "cache_inv ?s" unfolding set_data_def using D(1,8) b(2) by (intro cache_inv_upd) auto
  have hd: "held ?s b" using D(6)[OF b(2)] held_cong[OF bo, of b] by (simp add: set_data_def)
  have "bc dev ?s (insert b H)" unfolding set_data_def
    using b ci hd D(5,7,8,9) by (intro bc_upd) (auto simp: set_data_def)
  then show bc: "bc dev ?s H" using b(2) by (simp add: insert_absorb)
  show "bufs ?s = (bufs s)(b := (bufs s b)\<lparr>b_data := d\<rparr>)" by (auto simp: set_data_def)
  have "buf_of dev ?s = buf_of dev s" by (simp add: buf_of_def h fun_eq_iff)
  then show "brefs dev ?s = brefs dev s" by (auto simp: brefs_def fun_eq_iff set_data_def split: option.splits)
  show "contents ?s dev = (contents s dev)(?n := d)"
  proof
    fix m
    show "contents ?s dev m = ((contents s dev)(?n := d)) m"
    proof (cases "m = ?n")
      case True
      have "holds ?s b dev m" using holds_held[OF b] h True by simp
      then have "contents ?s dev m = (if b_valid (bufs ?s b) = 0 then on_disk ?s m else b_data (bufs ?s b))"
        by (rule contents_holder[OF bcD(2,3)[OF bc]])
      with True D(7)[OF b(2)] show ?thesis by (simp add: set_data_def)
    next
      case False
      then have "contents ?s dev m = contents s dev m"
        by (intro contents_same) (auto simp: h set_data_def holds_def)
      with False show ?thesis by simp
    qed
  qed
qed

definition put_block :: "uint \<Rightarrow> cptr \<Rightarrow> 'a bio_scheme \<Rightarrow> 'a bio_scheme" where
  "put_block n d s = s\<lparr>dwrites := dwrites s @ [(n, d)]\<rparr>"

lemma put_block_simps [simp]:
  "bufs (put_block n d s) = bufs s" "on_disk (put_block n d s) = (on_disk s)(n := d)" "disk0 (put_block n d s) = disk0 s"
  "dwrites (put_block n d s) = dwrites s @ [(n, d)]" "cur (put_block n d s) = cur s" "ptable (put_block n d s) = ptable s"
  by (simp_all add: put_block_def on_disk_def image_def)

lemma holds_put_block [simp]: "holds (put_block n d s) = holds s" "held (put_block n d s) = held s"
  "brefs dev (put_block n d s) = brefs dev s" "lru (put_block n d s) = lru s"
  by (auto simp: fun_eq_iff holds_def held_def holdingsleep_def with_cur_def brefs_def buf_of_def
      lru_cong[of "put_block n d s" s] split: option.splits)

lemma bwrite_rule:
  assumes b: "bc dev s H" "b \<in> H"
  defines "s' \<equiv> put_block (b_blockno (bufs s b)) (b_data (bufs s b)) s"
  shows "bwrite b s = Ret s'" "bc dev s' H" "contents s' dev = contents s dev" "clean s' b"
proof -
  note D = bcD[OF b(1)] let ?n = "b_blockno (bufs s b)"
  show "bwrite b s = Ret s'"
    using D(6)[OF b(2)] by (simp add: bwrite_def held_def virtio_disk_rw_def put_block_def s'_def)
  show "clean s' b" by (simp add: clean_def s'_def)
  have "clean s' c" if "c < NBUF" "b_dev (bufs s c) \<noteq> 0" "b_refcnt (bufs s c) = 0" for c
  proof -
    have "c \<noteq> b" using D(8)[OF b(2)] that(3) by auto
    moreover have "holds s c dev (b_blockno (bufs s c))" using D(12)[OF that(1)] that by (simp add: holds_def)
    ultimately have "b_blockno (bufs s c) \<noteq> ?n" using held_block_inj[OF b, of c] by auto
    moreover have "clean s c" using D(1) that by (auto simp: cache_inv_def)
    ultimately show ?thesis by (simp add: clean_def s'_def)
  qed
  then have ci: "cache_inv s'"
    using D(1) unfolding cache_inv_def one_copy_def by (auto simp: s'_def)
  then show bc': "bc dev s' H" using b(1) unfolding bc_def by (simp add: s'_def)
  show "contents s' dev = contents s dev"
  proof
    fix m
    show "contents s' dev m = contents s dev m"
    proof (cases "m = ?n")
      case True
      have h: "holds s b dev m" "holds s' b dev m" using holds_held[OF b] True by (simp_all add: s'_def)
      show ?thesis
        using contents_holder[OF D(2,3) h(1)] contents_holder[OF bcD(2,3)[OF bc'] h(2)] D(7)[OF b(2)] by (simp add: s'_def)
    next
      case False
      then show ?thesis by (intro contents_same) (auto simp: s'_def)
    qed
  qed
qed

lemma bufs_only_refl: "bufs_only s s"
  unfolding bufs_only_def by (rule exI[of _ "bufs s"], rule exI[of _ "ptable s"]) simp

lemma bufs_only_to_front: "bufs_only s (to_front b s)"
  unfolding to_front_def Let_def by (rule bufs_only_trans[OF _ bufs_only_upd])+ (rule bufs_only_refl)

lemma bufs_only_wakeup: "bufs_only s (wakeup c s)"
  unfolding bufs_only_def by (rule exI[of _ "bufs s"], rule exI[of _ "ptable (wakeup c s)"]) (simp add: wakeup_eq)

lemma brelse_shape:
  assumes "held s b"
  obtains s' where "brelse b s = Ret s'" "bufs_only s s'" "same_blocks s s'"
    "\<forall>c. b_refcnt (bufs s' c) = (if c = b then b_refcnt (bufs s b) - 1 else b_refcnt (bufs s c))"
    "\<forall>c. b_lock (bufs s' c) = (if c = b then initsleeplock else b_lock (bufs s c))"
    "\<forall>xs. lru s xs \<and> b \<in> set xs \<longrightarrow> (\<exists>ys. lru s' ys)"
proof -
  define s1 where "s1 = upd_buf b (\<lambda>x. x\<lparr>b_lock := initsleeplock, b_refcnt := b_refcnt x - 1\<rparr>) (wakeup (Ch_buf b) s)"
  define s' where "s' = (if b_refcnt (bufs s b) - 1 = 0 then to_front b s1 else s1)"
  have lk: "lk\<lparr>sl_locked := 0, sl_pid := 0\<rparr> = initsleeplock" for lk :: sleeplock
    by (cases lk) (simp add: initsleeplock_def)
  have r: "brelse b s = Ret s'"
    using assms by (simp add: brelse_def held_def releasesleep_def lk Let_def s1_def s'_def)
  have b1: "bufs_only s s1" unfolding s1_def by (rule bufs_only_trans[OF bufs_only_wakeup bufs_only_upd])
  then have bo: "bufs_only s s'" unfolding s'_def using bufs_only_trans[OF b1 bufs_only_to_front] by simp
  have u: "unlinked (bufs s' c) = unlinked (bufs s1 c)" for c by (simp add: s'_def unlinked_to_front)
  have d: "on_disk s' = on_disk s" using bo by (rule bufs_onlyD)
  have l1: "lru s1 xs = lru s xs" for xs
    unfolding s1_def by (subst lru_upd) (simp_all add: lru_cong[OF bufs_wakeup(1)])
  have "\<exists>ys. lru s' ys" if l: "lru s xs" "b \<in> set xs" for xs
  proof -
    obtain ys zs where "xs = ys @ b # zs" using l(2) by (auto simp: in_set_conv_decomp)
    then show ?thesis using l(1) l1 to_front_lru[of s1 ys b zs] by (auto simp: s'_def)
  qed
  moreover have "same_blocks s s'" using unlinked_fields[OF u] d by (simp add: same_blocks_def s1_def)
  moreover have "\<forall>c. b_refcnt (bufs s' c) = (if c = b then b_refcnt (bufs s b) - 1 else b_refcnt (bufs s c))"
    using unlinked_fields(5)[OF u] by (simp add: s1_def)
  moreover have "\<forall>c. b_lock (bufs s' c) = (if c = b then initsleeplock else b_lock (bufs s c))"
    using unlinked_fields(6)[OF u] by (simp add: s1_def)
  ultimately show thesis using r bo by (intro that[of s']) blast+
qed

lemma brefs_same_blocks:
  assumes "same_blocks s s'" "one_copy s" "dev \<noteq> 0" "holds s b dev n" "\<forall>c. c \<noteq> b \<longrightarrow> b_refcnt (bufs s' c) = b_refcnt (bufs s c)"
  shows "brefs dev s' = (brefs dev s)(n := b_refcnt (bufs s' b))"
proof
  fix m
  have "buf_of dev s' m = buf_of dev s m" using assms(1) by (simp add: buf_of_def holds_def same_blocks_def)
  moreover have "buf_of dev s n = Some b" using assms(2-4) by (rule buf_of_holder)
  moreover have "m \<noteq> n \<Longrightarrow> buf_of dev s m \<noteq> Some b" using assms(4) buf_of_Some[of dev s m b] by (auto simp: holds_def)
  ultimately show "brefs dev s' m = ((brefs dev s)(n := b_refcnt (bufs s' b))) m"
    using assms(5) by (auto simp: brefs_def split: option.splits)
qed

lemma brelse_rule:
  assumes b: "bc dev s H" "b \<in> H" and cl: "brefs dev s (b_blockno (bufs s b)) = 1 \<Longrightarrow> clean s b"
  obtains s' where "brelse b s = Ret s'" "bc dev s' (H - {b})" "contents s' dev = contents s dev"
    "brefs dev s' = (brefs dev s)(b_blockno (bufs s b) := brefs dev s (b_blockno (bufs s b)) - 1)" "bufs_only s s'"
    "\<forall>c. b_blockno (bufs s' c) = b_blockno (bufs s c) \<and> b_data (bufs s' c) = b_data (bufs s c) \<and> b_valid (bufs s' c) = b_valid (bufs s c)"
proof -
  note D = bcD[OF b(1)] let ?n = "b_blockno (bufs s b)"
  obtain s' where r: "brelse b s = Ret s'" and bo: "bufs_only s s'" and sb: "same_blocks s s'"
    and rc: "\<forall>c. b_refcnt (bufs s' c) = (if c = b then b_refcnt (bufs s b) - 1 else b_refcnt (bufs s c))"
    and lk: "\<forall>c. b_lock (bufs s' c) = (if c = b then initsleeplock else b_lock (bufs s c))"
    and lr: "\<forall>xs. lru s xs \<and> b \<in> set xs \<longrightarrow> (\<exists>ys. lru s' ys)"
    by (rule brelse_shape[OF D(6)[OF b(2)]])
  have hb: "holds s b dev ?n" using holds_held[OF b] .
  have rb: "brefs dev s ?n = b_refcnt (bufs s b)" using brefs_holder[OF D(2,3) hb] .
  obtain xs where "lru s xs" using D(1) by (auto simp: cache_inv_def)
  moreover from this have "b \<in> set xs" using D(5)[OF b(2)] by (simp add: lru_def)
  ultimately have "\<exists>ys. lru s' ys" using lr by blast
  then have ci: "cache_inv s'"
    by (rule same_blocks_inv[OF sb D(1)]) (use rc cl rb in \<open>auto split: if_splits\<close>)
  have f: "b_dev (bufs s' c) = b_dev (bufs s c)" "b_blockno (bufs s' c) = b_blockno (bufs s c)"
    "b_valid (bufs s' c) = b_valid (bufs s c)" "b_data (bufs s' c) = b_data (bufs s c)" for c
    using sb by (auto simp: same_blocks_def)
  have hc: "held s' c" if "c \<in> H - {b}" for c using that held_cong[OF bo, of c] lk D(6)[of c] by auto
  have cu: "cur s' \<noteq> None" using bufs_onlyD(4)[OF bo] D(4) by simp
  have "(sl_locked (b_lock (bufs s' c)) \<noteq> 0) = (c \<in> H - {b})" if "c < NBUF" for c
    using b(1) that lk by (auto simp: bc_def initsleeplock_def)
  moreover have "b_refcnt (bufs s' c) \<noteq> 0 \<longrightarrow> b_dev (bufs s' c) = dev" if "c < NBUF" for c
    using D(9)[OF b(2)] D(10)[OF that] rc f by (cases "c = b") auto
  moreover have "c < NBUF \<and> b_valid (bufs s' c) \<noteq> 0 \<and> b_refcnt (bufs s' c) \<noteq> 0" if "c \<in> H - {b}" for c
    using D(5,7,8)[of c] that rc f by auto
  ultimately have bc': "bc dev s' (H - {b})" using ci D(3,12) cu hc f unfolding bc_def by auto
  have "brefs dev s' = (brefs dev s)(?n := brefs dev s ?n - 1)"
    using brefs_same_blocks[OF sb D(2,3) hb] rc rb by simp
  then show thesis using r bc' bo f same_blocks_contents[OF sb] by (intro that[of s']) simp_all
qed

lemma pin_rule:
  assumes b: "bc dev s H" "b \<in> H" and "k \<noteq> 0"
  defines "s' \<equiv> upd_buf b (\<lambda>x. x\<lparr>b_refcnt := k\<rparr>) s"
  shows "bc dev s' H" "contents s' dev = contents s dev" "brefs dev s' = (brefs dev s)(b_blockno (bufs s b) := k)" "bufs_only s s'"
    "\<And>c. b_blockno (bufs s' c) = b_blockno (bufs s c)" "\<And>c. b_data (bufs s' c) = b_data (bufs s c)" "clean s' c = clean s c"
proof -
  note D = bcD[OF b(1)]
  have sb: "same_blocks s s'" by (simp add: same_blocks_def s'_def)
  show bo: "bufs_only s s'" unfolding s'_def by (rule bufs_only_upd)
  show "contents s' dev = contents s dev" using same_blocks_contents[OF sb] by simp
  have ci: "cache_inv s'" unfolding s'_def using D(1) assms(3) by (intro cache_inv_upd) auto
  have "held s' b" using D(6)[OF b(2)] held_cong[OF bo, of b] by (simp add: s'_def)
  then have "bc dev s' (insert b H)" using ci b D assms(3) unfolding s'_def by (intro bc_upd) auto
  then show "bc dev s' H" using b(2) by (simp add: insert_absorb)
  show "brefs dev s' = (brefs dev s)(b_blockno (bufs s b) := k)"
    using brefs_same_blocks[OF sb D(2,3) holds_held[OF b]] by (simp add: s'_def)
  show "b_blockno (bufs s' c) = b_blockno (bufs s c)" "b_data (bufs s' c) = b_data (bufs s c)" "clean s' c = clean s c" for c
    by (simp_all add: s'_def clean_def)
qed

end
