(* ===== verification/Bytes.thy ===== *)
theory Bytes
  imports Prelude
begin

text \<open>
  Integers in the bytes of a disk block, little endian: what the kernel does when it casts the data of a buffer to
  \<^verbatim>\<open>struct dinode *\<close>, \<^verbatim>\<open>struct logheader *\<close> or \<^verbatim>\<open>uint *\<close>.
\<close>

unbundle bit_operations_syntax

primrec le_get :: "nat \<Rightarrow> cptr \<Rightarrow> nat \<Rightarrow> 'w::len word" where
  "le_get 0 d off = 0"
| "le_get (Suc k) d off = ucast (d off) OR push_bit 8 (le_get k d (Suc off))"

definition le_put :: "nat \<Rightarrow> 'w::len word \<Rightarrow> nat \<Rightarrow> cptr \<Rightarrow> cptr" where
  "le_put k v off d = (\<lambda>j. if off \<le> j \<and> j < off + k then ucast (drop_bit (8 * (j - off)) v) else d j)"

definition ld16 :: "cptr \<Rightarrow> nat \<Rightarrow> ushort" where "ld16 d off = le_get 2 d off"
definition ld32 :: "cptr \<Rightarrow> nat \<Rightarrow> uint" where "ld32 d off = le_get 4 d off"
definition st16 :: "nat \<Rightarrow> ushort \<Rightarrow> cptr \<Rightarrow> cptr" where "st16 off v = le_put 2 v off"
definition st32 :: "nat \<Rightarrow> uint \<Rightarrow> cptr \<Rightarrow> cptr" where "st32 off v = le_put 4 v off"

lemma bit_le_get:
  "bit (le_get k d off :: 'w::len word) n \<longleftrightarrow> n < LENGTH('w) \<and> n < 8 * k \<and> bit (d (off + n div 8)) (n mod 8)"
proof (induction k arbitrary: off n)
  case (Suc k)
  have b: "bit (ucast (d off) :: 'w word) n \<longleftrightarrow> n < LENGTH('w) \<and> bit (d off) n"
    by (simp add: bit_ucast_iff bit_simps)
  show ?case
  proof (cases "n < 8")
    case True
    then show ?thesis by (auto simp: bit_or_iff bit_push_bit_iff b dest: bit_imp_le_length)
  next
    case False
    then have "n div 8 = Suc ((n - 8) div 8)" "n mod 8 = (n - 8) mod 8" by (simp_all add: div_if mod_if)
    moreover have "\<not> bit (d off) n" using False by (auto dest: bit_imp_le_length)
    ultimately show ?thesis using False by (auto simp: bit_or_iff bit_push_bit_iff b Suc)
  qed
qed simp

lemma le_get_put: "le_get k (le_put k v off d) off = (take_bit (8 * k) v :: 'w::len word)"
proof (rule bit_word_eqI)
  fix n assume n: "n < LENGTH('w)"
  show "bit (le_get k (le_put k v off d) off :: 'w word) n = bit (take_bit (8 * k) v) n"
  proof (cases "n < 8 * k")
    case True
    then have "n div 8 < k" by (simp add: div_less_iff_less_mult mult.commute)
    moreover have "8 * (n div 8) + n mod 8 = n" by simp
    ultimately show ?thesis
      using True n by (auto simp: bit_le_get le_put_def bit_take_bit_iff bit_ucast_iff bit_drop_bit_eq)
  qed (simp add: bit_le_get bit_take_bit_iff)
qed

lemma le_get_cong: "(\<And>j. off \<le> j \<Longrightarrow> j < off + k \<Longrightarrow> d j = d' j) \<Longrightarrow> le_get k d off = le_get k d' off"
  by (induction k arbitrary: off) auto

lemma le_get_put_other:
  "off + k \<le> off' \<or> off' + k' \<le> off \<Longrightarrow> le_get k (le_put k' v off' d) off = le_get k d off"
  by (rule le_get_cong) (auto simp: le_put_def)

lemma ld_st_same [mem_simps, simp]: "ld32 (st32 off v d) off = v" "ld16 (st16 off w d) off = w"
  using take_bit_word_eq_self[of 32 v] take_bit_word_eq_self[of 16 w]
  by (simp_all add: ld32_def st32_def ld16_def st16_def le_get_put)

lemma ld_st_other [mem_simps]:
  "off + 4 \<le> off' \<or> off' + 4 \<le> off \<Longrightarrow> ld32 (st32 off' v d) off = ld32 d off"
  "off + 4 \<le> off' \<or> off' + 2 \<le> off \<Longrightarrow> ld32 (st16 off' w d) off = ld32 d off"
  "off + 2 \<le> off' \<or> off' + 4 \<le> off \<Longrightarrow> ld16 (st32 off' v d) off = ld16 d off"
  "off + 2 \<le> off' \<or> off' + 2 \<le> off \<Longrightarrow> ld16 (st16 off' w d) off = ld16 d off"
  by (simp_all add: ld32_def st32_def ld16_def st16_def le_get_put_other)

lemma st_outside:
  "j < off \<or> off + 4 \<le> j \<Longrightarrow> st32 off v d j = d j"
  "j < off \<or> off + 2 \<le> j \<Longrightarrow> st16 off w d j = d j"
  by (auto simp: st32_def st16_def le_put_def)

end
