(* ===== verification/Log.thy ===== *)
theory Log
  imports BlockCache Bytes
begin

text \<open>
  \<^verbatim>\<open>kernel/log.c\<close>: the redo log of the file system.  The system calls between \<^verbatim>\<open>begin_op\<close> and \<^verbatim>\<open>end_op\<close> form a
  transaction; \<^verbatim>\<open>log_write\<close> notes the blocks it changed and pins them in the cache; \<^verbatim>\<open>commit\<close> writes them to the log,
  then the header, then the blocks to their places, and clears the header.

  A crash at any point leaves on the disk what a prefix of the writes of \<^verbatim>\<open>commit\<close> produced; \<^verbatim>\<open>initlog\<close> runs
  \<^verbatim>\<open>recover_from_log\<close> on that disk with an empty cache.  The theorem of \<open>Recovery\<close> is about that composition.
  Copying all the bytes of a block is an assignment of its data.
\<close>

definition MAXOPBLOCKS :: int where "MAXOPBLOCKS = 10"

definition LOGSIZE :: nat where "LOGSIZE = 30"

record superblock =
  sb_magic :: uint
  sb_size :: uint
  sb_nblocks :: uint
  sb_ninodes :: uint
  sb_nlog :: uint
  sb_logstart :: uint
  sb_inodestart :: uint
  sb_bmapstart :: uint

record log = bio +
  log_start :: int
  log_size :: int
  log_outstanding :: int
  log_committing :: int
  log_dev :: int
  lh_n :: int
  lh_block :: "nat \<Rightarrow> int"

text \<open>An element of \<^verbatim>\<open>log.lh.block\<close>, and a block number as the \<^verbatim>\<open>uint\<close> that \<^verbatim>\<open>bread\<close> takes.\<close>

definition lh_at :: "nat \<Rightarrow> 'a log_scheme \<Rightarrow> uint kres" where
  "lh_at i s = (if i < LOGSIZE then Ret (word_of_int (lh_block s i)) else Fault ''log.lh.block'')"

abbreviation ldev :: "'a log_scheme \<Rightarrow> uint" where
  "ldev s \<equiv> word_of_int (log_dev s)"

definition log_blk :: "nat \<Rightarrow> 'a log_scheme \<Rightarrow> uint" where
  "log_blk tail s = word_of_int (log_start s + int tail + 1)"

definition install_one :: "int \<Rightarrow> nat \<Rightarrow> 'a log_scheme \<Rightarrow> 'a log_scheme kres" where
  "install_one recovering tail s =
     kbind (bread (ldev s) (log_blk tail s) s) (\<lambda>(lbuf, s).
     kbind (lh_at tail s) (\<lambda>n.
     kbind (bread (ldev s) n s) (\<lambda>(dbuf, s).
     kbind (bwrite dbuf (set_data dbuf (b_data (bufs s lbuf)) s)) (\<lambda>s.
     let s = if recovering = 0 then bunpin dbuf s else s in
     kbind (brelse lbuf s) (brelse dbuf)))))"

definition install_trans :: "int \<Rightarrow> 'a log_scheme \<Rightarrow> 'a log_scheme kres" where
  "install_trans recovering s = kfold (install_one recovering) [0..<nat (lh_n s)] s"

definition read_head_one :: "cptr \<Rightarrow> nat \<Rightarrow> 'a log_scheme \<Rightarrow> 'a log_scheme kres" where
  "read_head_one d i s =
     (if i < LOGSIZE then Ret (s\<lparr>lh_block := (lh_block s)(i := sint (ld32 d (4 + 4 * i)))\<rparr>) else Fault ''log.lh.block'')"

definition read_head :: "'a log_scheme \<Rightarrow> 'a log_scheme kres" where
  "read_head s =
     kbind (bread (ldev s) (word_of_int (log_start s)) s) (\<lambda>(b, s).
     let d = b_data (bufs s b); s = s\<lparr>lh_n := sint (ld32 d 0)\<rparr> in
     kbind (kfold (read_head_one d) [0..<nat (lh_n s)] s) (brelse b))"

definition write_head_one :: "nat \<Rightarrow> nat \<Rightarrow> 'a log_scheme \<Rightarrow> 'a log_scheme kres" where
  "write_head_one b i s = kbind (lh_at i s) (\<lambda>n. Ret (set_data b (st32 (4 + 4 * i) n (b_data (bufs s b))) s))"

definition write_head :: "'a log_scheme \<Rightarrow> 'a log_scheme kres" where
  "write_head s =
     kbind (bread (ldev s) (word_of_int (log_start s)) s) (\<lambda>(b, s).
     let s = set_data b (st32 0 (word_of_int (lh_n s)) (b_data (bufs s b))) s in
     kbind (kfold (write_head_one b) [0..<nat (lh_n s)] s) (\<lambda>s.
     kbind (bwrite b s) (brelse b)))"

definition recover_from_log :: "'a log_scheme \<Rightarrow> 'a log_scheme kres" where
  "recover_from_log s =
     kbind (read_head s) (\<lambda>s.
     kbind (install_trans 1 s) (\<lambda>s.
     write_head (s\<lparr>lh_n := 0\<rparr>)))"

definition initlog :: "int \<Rightarrow> superblock \<Rightarrow> 'a log_scheme \<Rightarrow> 'a log_scheme kres" where
  "initlog dev sb s =
     (if 4 + 4 * LOGSIZE \<ge> BSIZE then Panic ''initlog: too big logheader''
      else recover_from_log (s\<lparr>log_start := sint (sb_logstart sb), log_size := sint (sb_nlog sb), log_dev := dev\<rparr>))"

definition begin_op :: "'a log_scheme \<Rightarrow> 'a log_scheme kres" where
  "begin_op s =
     (if log_committing s \<noteq> 0 then Block Ch_log
      else if lh_n s + (log_outstanding s + 1) * MAXOPBLOCKS > int LOGSIZE then Block Ch_log
      else Ret (s\<lparr>log_outstanding := log_outstanding s + 1\<rparr>))"

definition write_log_one :: "nat \<Rightarrow> 'a log_scheme \<Rightarrow> 'a log_scheme kres" where
  "write_log_one tail s =
     kbind (bread (ldev s) (log_blk tail s) s) (\<lambda>(to, s).
     kbind (lh_at tail s) (\<lambda>n.
     kbind (bread (ldev s) n s) (\<lambda>(from, s).
     kbind (bwrite to (set_data to (b_data (bufs s from)) s)) (\<lambda>s.
     kbind (brelse from s) (brelse to)))))"

definition write_log :: "'a log_scheme \<Rightarrow> 'a log_scheme kres" where
  "write_log s = kfold write_log_one [0..<nat (lh_n s)] s"

definition commit :: "'a log_scheme \<Rightarrow> 'a log_scheme kres" where
  "commit s =
     (if lh_n s > 0 then
        kbind (write_log s) (\<lambda>s.
        kbind (write_head s) (\<lambda>s.
        kbind (install_trans 0 s) (\<lambda>s.
        write_head (s\<lparr>lh_n := 0\<rparr>))))
      else Ret s)"

definition end_op :: "'a log_scheme \<Rightarrow> 'a log_scheme kres" where
  "end_op s =
     (let s = s\<lparr>log_outstanding := log_outstanding s - 1\<rparr> in
      if log_committing s \<noteq> 0 then Panic ''log.committing''
      else if log_outstanding s = 0
      then kbind (commit (s\<lparr>log_committing := 1\<rparr>)) (\<lambda>s. Ret (wakeup Ch_log (s\<lparr>log_committing := 0\<rparr>)))
      else Ret (wakeup Ch_log s))"

definition log_slot :: "uint \<Rightarrow> 'a log_scheme \<Rightarrow> nat" where
  "log_slot n s = (case find (\<lambda>i. word_of_int (lh_block s i) = n) [0..<nat (lh_n s)] of Some i \<Rightarrow> i | None \<Rightarrow> nat (lh_n s))"

definition log_write :: "nat \<Rightarrow> 'a log_scheme \<Rightarrow> 'a log_scheme kres" where
  "log_write b s =
     (if lh_n s \<ge> int LOGSIZE \<or> lh_n s \<ge> log_size s - 1 then Panic ''too big a transaction''
      else if log_outstanding s < 1 then Panic ''log_write outside of trans''
      else let n = b_blockno (bufs s b); i = log_slot n s;
               s = s\<lparr>lh_block := (lh_block s)(i := sint n)\<rparr>
           in Ret (if int i = lh_n s then (bpin b s)\<lparr>lh_n := lh_n s + 1\<rparr> else s))"

end
