(* ===== verification/Fs.thy ===== *)
theory Fs
  imports Log
begin

text \<open>
  \<^verbatim>\<open>kernel/fs.c\<close>: blocks, inodes, directories and path names, on top of the log.  An in-memory inode is named by its
  index in \<^verbatim>\<open>itable\<close>, a null pointer is \<open>None\<close>.  On-disk structures are bytes of a block at the offsets the C layout
  gives them.

  Data the kernel reads into or writes from a local variable (a \<^verbatim>\<open>struct dirent\<close>, an ELF header) is the value of that
  variable (\<open>Struct\<close>, \<open>Value\<close>); otherwise \<^verbatim>\<open>readi\<close> and \<^verbatim>\<open>writei\<close> copy to and from a user or a kernel address.  A path is
  the list of its bytes before the NUL.  The messages the functions print on the console are left out.
\<close>

unbundle bit_operations_syntax

definition NDIRECT :: nat where "NDIRECT = 12"
definition NINDIRECT :: nat where "NINDIRECT = 256"
definition MAXFILE :: nat where "MAXFILE = NDIRECT + NINDIRECT"
definition NINODE :: nat where "NINODE = 50"
definition FSMAGIC :: uint where "FSMAGIC = 0x10203040"
definition ROOTDEV :: uint where "ROOTDEV = 1"
definition ROOTINO :: uint where "ROOTINO = 1"
definition DIRSIZ :: nat where "DIRSIZ = 14"
definition T_DIR :: ushort where "T_DIR = 1"
definition T_FILE :: ushort where "T_FILE = 2"
definition T_DEVICE :: ushort where "T_DEVICE = 3"

record inode =
  i_dev :: uint
  i_inum :: uint
  i_ref :: int
  i_lock :: sleeplock
  i_valid :: int
  i_type :: ushort
  i_major :: ushort
  i_minor :: ushort
  i_nlink :: ushort
  i_size :: uint
  i_addrs :: "nat \<Rightarrow> uint"

record fs = log +
  sb :: superblock
  itable :: "nat \<Rightarrow> inode"

definition upd_inode :: "nat \<Rightarrow> (inode \<Rightarrow> inode) \<Rightarrow> 'a fs_scheme \<Rightarrow> 'a fs_scheme" where
  "upd_inode ip f s = s\<lparr>itable := (itable s)(ip := f (itable s ip))\<rparr>"

subsection \<open>The layout of the disk\<close>

definition IPB :: nat where "IPB = 16"
definition BPB :: nat where "BPB = 8192"

definition IBLOCK :: "uint \<Rightarrow> 'a fs_scheme \<Rightarrow> uint" where
  "IBLOCK i s = i div of_nat IPB + sb_inodestart (sb s)"

definition BBLOCK :: "uint \<Rightarrow> 'a fs_scheme \<Rightarrow> uint" where
  "BBLOCK b s = b div of_nat BPB + sb_bmapstart (sb s)"

definition get_sb :: "cptr \<Rightarrow> superblock" where
  "get_sb d = \<lparr>sb_magic = ld32 d 0, sb_size = ld32 d 4, sb_nblocks = ld32 d 8, sb_ninodes = ld32 d 12, sb_nlog = ld32 d 16,
     sb_logstart = ld32 d 20, sb_inodestart = ld32 d 24, sb_bmapstart = ld32 d 28\<rparr>"

text \<open>A \<^verbatim>\<open>struct dinode\<close> has 64 bytes; \<open>o\<close> is the offset of the one with number \<^verbatim>\<open>inum\<close> in its block.\<close>

definition dinode_at :: "uint \<Rightarrow> nat" where
  "dinode_at inum = 64 * (unat inum mod IPB)"

definition get_addrs :: "cptr \<Rightarrow> nat \<Rightarrow> nat \<Rightarrow> uint" where
  "get_addrs d off i = ld32 d (off + 12 + 4 * i)"

definition put_addrs :: "(nat \<Rightarrow> uint) \<Rightarrow> nat \<Rightarrow> cptr \<Rightarrow> cptr" where
  "put_addrs a off d = fold (\<lambda>i. st32 (off + 12 + 4 * i) (a i)) [0..<NDIRECT + 1] d"

definition put_dinode :: "inode \<Rightarrow> nat \<Rightarrow> cptr \<Rightarrow> cptr" where
  "put_dinode ip off d =
     put_addrs (i_addrs ip) off (st32 (off + 8) (i_size ip) (st16 (off + 6) (i_nlink ip) (st16 (off + 4) (i_minor ip)
       (st16 (off + 2) (i_major ip) (st16 off (i_type ip) d)))))"

definition get_dinode :: "cptr \<Rightarrow> nat \<Rightarrow> inode \<Rightarrow> inode" where
  "get_dinode d off ip =
     ip\<lparr>i_type := ld16 d off, i_major := ld16 d (off + 2), i_minor := ld16 d (off + 4), i_nlink := ld16 d (off + 6),
        i_size := ld32 d (off + 8), i_addrs := \<lambda>i. if i < NDIRECT + 1 then get_addrs d off i else i_addrs ip i\<rparr>"

subsection \<open>Blocks\<close>

definition readsb :: "int \<Rightarrow> 'a fs_scheme \<Rightarrow> 'a fs_scheme kres" where
  "readsb dev s =
     kbind (bread (word_of_int dev) 1 s) (\<lambda>(bp, s). brelse bp (s\<lparr>sb := get_sb (b_data (bufs s bp))\<rparr>))"

definition fsinit :: "int \<Rightarrow> 'a fs_scheme \<Rightarrow> 'a fs_scheme kres" where
  "fsinit dev s =
     kbind (readsb dev s) (\<lambda>s.
     if sb_magic (sb s) \<noteq> FSMAGIC then Panic ''invalid file system'' else initlog dev (sb s) s)"

text \<open>The end of a change to a buffer: log it and release it.\<close>

definition log_release :: "nat \<Rightarrow> 'a log_scheme \<Rightarrow> 'a log_scheme kres" where
  "log_release bp s = kbind (log_write bp s) (brelse bp)"

definition bzero :: "uint \<Rightarrow> uint \<Rightarrow> 'a fs_scheme \<Rightarrow> 'a fs_scheme kres" where
  "bzero dev bno s = kbind (bread dev bno s) (\<lambda>(bp, s). log_release bp (set_data bp (\<lambda>_. 0) s))"

definition bmask :: "nat \<Rightarrow> uchar" where
  "bmask bi = push_bit (bi mod 8) 1"

definition bit_free :: "cptr \<Rightarrow> nat \<Rightarrow> bool" where
  "bit_free d bi \<longleftrightarrow> d (bi div 8) AND bmask bi = 0"

definition mark_used :: "nat \<Rightarrow> cptr \<Rightarrow> cptr" where
  "mark_used bi d = d(bi div 8 := d (bi div 8) OR bmask bi)"

definition mark_free :: "nat \<Rightarrow> cptr \<Rightarrow> cptr" where
  "mark_free bi d = d(bi div 8 := d (bi div 8) AND NOT (bmask bi))"

fun balloc_loop :: "uint \<Rightarrow> nat list \<Rightarrow> 'a fs_scheme \<Rightarrow> (uint \<times> 'a fs_scheme) kres" where
  "balloc_loop dev [] s = Ret (0, s)"
| "balloc_loop dev (b # bs) s =
     kbind (bread dev (BBLOCK (of_nat b) s) s) (\<lambda>(bp, s).
       let d = b_data (bufs s bp) in
       case find (bit_free d) [0..<min BPB (unat (sb_size (sb s)) - b)] of
         Some bi \<Rightarrow>
           kbind (log_release bp (set_data bp (mark_used bi d) s)) (\<lambda>s.
           kbind (bzero dev (of_nat (b + bi)) s) (\<lambda>s. Ret (of_nat (b + bi), s)))
       | None \<Rightarrow> kbind (brelse bp s) (balloc_loop dev bs))"

definition balloc :: "uint \<Rightarrow> 'a fs_scheme \<Rightarrow> (uint \<times> 'a fs_scheme) kres" where
  "balloc dev s = balloc_loop dev (map (\<lambda>k. k * BPB) [0..<(unat (sb_size (sb s)) + BPB - 1) div BPB]) s"

definition bfree :: "uint \<Rightarrow> uint \<Rightarrow> 'a fs_scheme \<Rightarrow> 'a fs_scheme kres" where
  "bfree dev b s =
     kbind (bread dev (BBLOCK b s) s) (\<lambda>(bp, s).
       let bi = unat b mod BPB; d = b_data (bufs s bp) in
       if bit_free d bi then Panic ''freeing free block''
       else log_release bp (set_data bp (mark_free bi d) s))"

subsection \<open>Inodes\<close>

definition iinit :: "'a fs_scheme \<Rightarrow> 'a fs_scheme" where
  "iinit s = fold (\<lambda>i. upd_inode i (i_lock_update (\<lambda>_. initsleeplock))) [0..<NINODE] s"

text \<open>\<^verbatim>\<open>iget\<close> stops at the first entry that has the inode; the empty entry it remembers is the first one.\<close>

definition iget :: "uint \<Rightarrow> uint \<Rightarrow> 'a fs_scheme \<Rightarrow> (nat \<times> 'a fs_scheme) kres" where
  "iget dev inum s =
     (case find (\<lambda>i. i_ref (itable s i) > 0 \<and> i_dev (itable s i) = dev \<and> i_inum (itable s i) = inum) [0..<NINODE] of
        Some ip \<Rightarrow> Ret (ip, upd_inode ip (\<lambda>x. x\<lparr>i_ref := i_ref x + 1\<rparr>) s)
      | None \<Rightarrow>
         (case find (\<lambda>i. i_ref (itable s i) = 0) [0..<NINODE] of
            None \<Rightarrow> Panic ''iget: no inodes''
          | Some ip \<Rightarrow> Ret (ip, upd_inode ip (\<lambda>x. x\<lparr>i_dev := dev, i_inum := inum, i_ref := 1, i_valid := 0\<rparr>) s)))"

fun ialloc_loop :: "uint \<Rightarrow> ushort \<Rightarrow> nat list \<Rightarrow> 'a fs_scheme \<Rightarrow> (nat option \<times> 'a fs_scheme) kres" where
  "ialloc_loop dev type [] s = Ret (None, s)"
| "ialloc_loop dev type (n # ns) s =
     (let inum = of_nat n; off = dinode_at inum in
      kbind (bread dev (IBLOCK inum s) s) (\<lambda>(bp, s).
        let d = b_data (bufs s bp) in
        if ld16 d off = 0 then
          kbind (log_release bp (set_data bp (st16 off type (blit d off (\<lambda>_. 0) 64)) s)) (\<lambda>s.
          kbind (iget dev inum s) (\<lambda>(ip, s). Ret (Some ip, s)))
        else kbind (brelse bp s) (ialloc_loop dev type ns)))"

definition ialloc :: "uint \<Rightarrow> ushort \<Rightarrow> 'a fs_scheme \<Rightarrow> (nat option \<times> 'a fs_scheme) kres" where
  "ialloc dev type s = ialloc_loop dev type [1..<unat (sb_ninodes (sb s))] s"

definition iupdate :: "nat \<Rightarrow> 'a fs_scheme \<Rightarrow> 'a fs_scheme kres" where
  "iupdate ip s =
     (let x = itable s ip in
      kbind (bread (i_dev x) (IBLOCK (i_inum x) s) s) (\<lambda>(bp, s).
        log_release bp (set_data bp (put_dinode (itable s ip) (dinode_at (i_inum x)) (b_data (bufs s bp))) s)))"

definition idup :: "nat \<Rightarrow> 'a fs_scheme \<Rightarrow> 'a fs_scheme" where
  "idup ip = upd_inode ip (\<lambda>x. x\<lparr>i_ref := i_ref x + 1\<rparr>)"

definition ilock :: "nat option \<Rightarrow> 'a fs_scheme \<Rightarrow> 'a fs_scheme kres" where
  "ilock p s =
     (case p of None \<Rightarrow> Panic ''ilock''
      | Some ip \<Rightarrow>
          if i_ref (itable s ip) < 1 then Panic ''ilock''
          else kbind (acquiresleep (Ch_inode ip) (i_lock (itable s ip)) s) (\<lambda>lk.
            let s = upd_inode ip (i_lock_update (\<lambda>_. lk)) s; x = itable s ip in
            if i_valid x = 0 then
              kbind (bread (i_dev x) (IBLOCK (i_inum x) s) s) (\<lambda>(bp, s).
                let s = upd_inode ip (get_dinode (b_data (bufs s bp)) (dinode_at (i_inum x))) s in
                kbind (brelse bp s) (\<lambda>s.
                  let s = upd_inode ip (i_valid_update (\<lambda>_. 1)) s in
                  if i_type (itable s ip) = 0 then Panic ''ilock: no type'' else Ret s))
            else Ret s))"

definition iunlock :: "nat option \<Rightarrow> 'a fs_scheme \<Rightarrow> 'a fs_scheme kres" where
  "iunlock p s =
     (case p of None \<Rightarrow> Panic ''iunlock''
      | Some ip \<Rightarrow>
          kbind (holdingsleep (i_lock (itable s ip)) s) (\<lambda>h.
            if \<not> h \<or> i_ref (itable s ip) < 1 then Panic ''iunlock''
            else let (lk, s) = releasesleep (Ch_inode ip) (i_lock (itable s ip)) s
                 in Ret (upd_inode ip (i_lock_update (\<lambda>_. lk)) s)))"

text \<open>One direct block, and one entry of the indirect block, of \<^verbatim>\<open>itrunc\<close>.\<close>

definition itrunc_direct :: "nat \<Rightarrow> nat \<Rightarrow> 'a fs_scheme \<Rightarrow> 'a fs_scheme kres" where
  "itrunc_direct ip i s =
     (let x = itable s ip in
      if i_addrs x i \<noteq> 0 then
        kbind (bfree (i_dev x) (i_addrs x i) s) (\<lambda>s. Ret (upd_inode ip (\<lambda>x. x\<lparr>i_addrs := (i_addrs x)(i := 0)\<rparr>) s))
      else Ret s)"

definition itrunc_entry :: "nat \<Rightarrow> nat \<Rightarrow> nat \<Rightarrow> 'a fs_scheme \<Rightarrow> 'a fs_scheme kres" where
  "itrunc_entry ip bp j s =
     (let a = ld32 (b_data (bufs s bp)) (4 * j) in
      if a \<noteq> 0 then bfree (i_dev (itable s ip)) a s else Ret s)"

definition itrunc :: "nat \<Rightarrow> 'a fs_scheme \<Rightarrow> 'a fs_scheme kres" where
  "itrunc ip s =
     kbind (kfold (itrunc_direct ip) [0..<NDIRECT] s) (\<lambda>s.
     kbind (let x = itable s ip in
            if i_addrs x NDIRECT \<noteq> 0 then
              kbind (bread (i_dev x) (i_addrs x NDIRECT) s) (\<lambda>(bp, s).
              kbind (kfold (itrunc_entry ip bp) [0..<NINDIRECT] s) (\<lambda>s.
              kbind (brelse bp s) (\<lambda>s.
              kbind (bfree (i_dev (itable s ip)) (i_addrs (itable s ip) NDIRECT) s) (\<lambda>s.
              Ret (upd_inode ip (\<lambda>x. x\<lparr>i_addrs := (i_addrs x)(NDIRECT := 0)\<rparr>) s)))))
            else Ret s) (\<lambda>s.
     iupdate ip (upd_inode ip (i_size_update (\<lambda>_. 0)) s)))"

definition iput :: "nat \<Rightarrow> 'a fs_scheme \<Rightarrow> 'a fs_scheme kres" where
  "iput ip s =
     (let x = itable s ip in
      kbind (if i_ref x = 1 \<and> i_valid x \<noteq> 0 \<and> i_nlink x = 0 then
               kbind (acquiresleep (Ch_inode ip) (i_lock x) s) (\<lambda>lk.
               kbind (itrunc ip (upd_inode ip (i_lock_update (\<lambda>_. lk)) s)) (\<lambda>s.
               kbind (iupdate ip (upd_inode ip (i_type_update (\<lambda>_. 0)) s)) (\<lambda>s.
               let s = upd_inode ip (i_valid_update (\<lambda>_. 0)) s;
                   (lk, s) = releasesleep (Ch_inode ip) (i_lock (itable s ip)) s
               in Ret (upd_inode ip (i_lock_update (\<lambda>_. lk)) s))))
             else Ret s) (\<lambda>s.
      Ret (upd_inode ip (\<lambda>x. x\<lparr>i_ref := i_ref x - 1\<rparr>) s)))"

definition iunlockput :: "nat \<Rightarrow> 'a fs_scheme \<Rightarrow> 'a fs_scheme kres" where
  "iunlockput ip s = kbind (iunlock (Some ip) s) (iput ip)"

subsection \<open>The contents of an inode\<close>

text \<open>A block number of the inode, allocated when it is still 0; and an entry of the indirect block likewise.\<close>

definition bmap_addr :: "nat \<Rightarrow> nat \<Rightarrow> 'a fs_scheme \<Rightarrow> (uint \<times> 'a fs_scheme) kres" where
  "bmap_addr ip i s =
     (let addr = i_addrs (itable s ip) i in
      if addr = 0 then
        kbind (balloc (i_dev (itable s ip)) s) (\<lambda>(addr, s).
          Ret (if addr = 0 then (0, s) else (addr, upd_inode ip (\<lambda>x. x\<lparr>i_addrs := (i_addrs x)(i := addr)\<rparr>) s)))
      else Ret (addr, s))"

definition bmap_indirect :: "nat \<Rightarrow> uint \<Rightarrow> nat \<Rightarrow> 'a fs_scheme \<Rightarrow> (uint \<times> 'a fs_scheme) kres" where
  "bmap_indirect ip blk i s =
     kbind (bread (i_dev (itable s ip)) blk s) (\<lambda>(bp, s).
       let addr = ld32 (b_data (bufs s bp)) (4 * i) in
       kbind (if addr = 0 then
                kbind (balloc (i_dev (itable s ip)) s) (\<lambda>(addr, s).
                  if addr \<noteq> 0 then
                    kbind (log_write bp (set_data bp (st32 (4 * i) addr (b_data (bufs s bp))) s)) (\<lambda>s. Ret (addr, s))
                  else Ret (addr, s))
              else Ret (addr, s)) (\<lambda>(addr, s).
       kbind (brelse bp s) (\<lambda>s. Ret (addr, s))))"

definition bmap :: "nat \<Rightarrow> uint \<Rightarrow> 'a fs_scheme \<Rightarrow> (uint \<times> 'a fs_scheme) kres" where
  "bmap ip bn s =
     (if unat bn < NDIRECT then bmap_addr ip (unat bn) s
      else let bn = unat bn - NDIRECT in
        if bn < NINDIRECT then
          kbind (bmap_addr ip NDIRECT s) (\<lambda>(addr, s).
            if addr = 0 then Ret (0, s) else bmap_indirect ip addr bn s)
        else Panic ''bmap: out of range'')"

record stat =
  st_dev :: int
  st_ino :: uint
  st_type :: ushort
  st_nlink :: ushort
  st_size :: u64

definition stati :: "nat \<Rightarrow> 'a fs_scheme \<Rightarrow> stat" where
  "stati ip s = (let x = itable s ip in
     \<lparr>st_dev = sint (i_dev x), st_ino = i_inum x, st_type = i_type x, st_nlink = i_nlink x, st_size = ucast (i_size x)\<rparr>)"

text \<open>Where \<^verbatim>\<open>readi\<close> puts its data and where \<^verbatim>\<open>writei\<close> takes it from, at \<open>tot\<close> bytes from the start.\<close>

datatype sink = Sink bool u64 | Struct

datatype source = Source bool u64 | Value cptr

definition copy_out :: "sink \<Rightarrow> uint \<Rightarrow> cptr \<Rightarrow> uint \<Rightarrow> cptr \<Rightarrow> 'a fs_scheme \<Rightarrow> (int \<times> cptr \<times> 'a fs_scheme) kres" where
  "copy_out dst tot src m v s =
     (case dst of
        Sink user_dst a \<Rightarrow> kbind (either_copyout user_dst (a + ucast tot) src (ucast m) s) (\<lambda>(r, s). Ret (r, v, s))
      | Struct \<Rightarrow> Ret (0, blit v (unat tot) src (unat m), s))"

definition copy_in :: "cptr \<Rightarrow> source \<Rightarrow> uint \<Rightarrow> uint \<Rightarrow> 'a fs_scheme \<Rightarrow> (int \<times> cptr) kres" where
  "copy_in d src tot m s =
     (case src of
        Source user_src a \<Rightarrow> either_copyin d user_src (a + ucast tot) (ucast m) s
      | Value v \<Rightarrow> Ret (0, blit d 0 (\<lambda>j. v (unat tot + j)) (unat m)))"

definition chunk :: "uint \<Rightarrow> uint \<Rightarrow> uint" where
  "chunk rest off = min rest (of_nat BSIZE - off mod of_nat BSIZE)"

lemma chunk_progress:
  fixes tot n off :: uint
  assumes "tot < n"
  shows "unat (n - (tot + chunk (n - tot) off)) < unat (n - tot)"
proof -
  have "off mod 1024 < 1024" by (rule word_mod_less_divisor) simp
  then have "1024 - off mod 1024 \<noteq> 0" by auto
  moreover have "n - tot \<noteq> 0" using assms by auto
  ultimately have c: "chunk (n - tot) off \<noteq> 0" "chunk (n - tot) off \<le> n - tot" by (auto simp: chunk_def BSIZE_def min_def)
  have "n - (tot + chunk (n - tot) off) = (n - tot) - chunk (n - tot) off" by simp
  then have "unat (n - (tot + chunk (n - tot) off)) = unat (n - tot) - unat (chunk (n - tot) off)"
    using c(2) by (simp only: unat_sub)
  moreover have "unat (chunk (n - tot) off) \<noteq> 0" using c(1) by (simp add: unat_eq_0)
  moreover have "unat (chunk (n - tot) off) \<le> unat (n - tot)" using c(2) by (simp add: word_le_nat_alt)
  ultimately show ?thesis by linarith
qed

function readi_loop :: "nat \<Rightarrow> sink \<Rightarrow> uint \<Rightarrow> uint \<Rightarrow> uint \<Rightarrow> cptr \<Rightarrow> 'a fs_scheme \<Rightarrow> (uint \<times> cptr \<times> 'a fs_scheme) kres" where
  "readi_loop ip dst tot off n v s =
     (if tot < n then
        kbind (bmap ip (off div of_nat BSIZE) s) (\<lambda>(addr, s).
        if addr = 0 then Ret (tot, v, s)
        else kbind (bread (i_dev (itable s ip)) addr s) (\<lambda>(bp, s).
          let m = chunk (n - tot) off in
          kbind (copy_out dst tot (\<lambda>j. b_data (bufs s bp) (unat (off mod of_nat BSIZE) + j)) m v s) (\<lambda>(r, v, s).
          kbind (brelse bp s) (\<lambda>s.
          if r = -1 then Ret (-1, v, s) else readi_loop ip dst (tot + m) (off + m) n v s))))
      else Ret (tot, v, s))"
  by pat_completeness auto

termination by (relation "measure (\<lambda>(ip, dst, tot, off, n, v, s). unat (n - tot))") (auto intro: chunk_progress)

definition readi :: "nat \<Rightarrow> sink \<Rightarrow> uint \<Rightarrow> uint \<Rightarrow> 'a fs_scheme \<Rightarrow> (int \<times> cptr \<times> 'a fs_scheme) kres" where
  "readi ip dst off n s =
     (let size = i_size (itable s ip) in
      if off > size \<or> off + n < off then Ret (0, (\<lambda>_. 0), s)
      else let n = if off + n > size then size - off else n in
        kbind (readi_loop ip dst 0 off n (\<lambda>_. 0) s) (\<lambda>(tot, v, s). Ret (sint tot, v, s)))"

function writei_loop :: "nat \<Rightarrow> source \<Rightarrow> uint \<Rightarrow> uint \<Rightarrow> uint \<Rightarrow> 'a fs_scheme \<Rightarrow> (uint \<times> uint \<times> 'a fs_scheme) kres" where
  "writei_loop ip src tot off n s =
     (if tot < n then
        kbind (bmap ip (off div of_nat BSIZE) s) (\<lambda>(addr, s).
        if addr = 0 then Ret (tot, off, s)
        else kbind (bread (i_dev (itable s ip)) addr s) (\<lambda>(bp, s).
          let m = chunk (n - tot) off; k = unat (off mod of_nat BSIZE); d = b_data (bufs s bp) in
          kbind (copy_in (\<lambda>j. d (k + j)) src tot m s) (\<lambda>(r, e).
          let s = set_data bp (\<lambda>j. if j < k then d j else e (j - k)) s in
          if r = -1 then kbind (brelse bp s) (\<lambda>s. Ret (tot, off, s))
          else kbind (log_release bp s) (\<lambda>s. writei_loop ip src (tot + m) (off + m) n s))))
      else Ret (tot, off, s))"
  by pat_completeness auto

termination by (relation "measure (\<lambda>(ip, src, tot, off, n, s). unat (n - tot))") (auto intro: chunk_progress)

definition writei :: "nat \<Rightarrow> source \<Rightarrow> uint \<Rightarrow> uint \<Rightarrow> 'a fs_scheme \<Rightarrow> (int \<times> 'a fs_scheme) kres" where
  "writei ip src off n s =
     (if off > i_size (itable s ip) \<or> off + n < off then Ret (-1, s)
      else if off + n > of_nat (MAXFILE * BSIZE) then Ret (-1, s)
      else kbind (writei_loop ip src 0 off n s) (\<lambda>(tot, off, s).
        let s = if off > i_size (itable s ip) then upd_inode ip (i_size_update (\<lambda>_. off)) s else s in
        kbind (iupdate ip s) (\<lambda>s. Ret (sint tot, s))))"

declare readi_loop.simps [simp del] writei_loop.simps [simp del]

subsection \<open>Directories\<close>

definition namecmp :: "cptr \<Rightarrow> cptr \<Rightarrow> int" where
  "namecmp a b = strncmp a b (of_nat DIRSIZ)"

text \<open>A \<^verbatim>\<open>struct dirent\<close> has 16 bytes, the inode number first.\<close>

definition de_inum :: "cptr \<Rightarrow> ushort" where
  "de_inum de = ld16 de 0"

definition de_name :: "cptr \<Rightarrow> cptr" where
  "de_name de = (\<lambda>j. de (2 + j))"

definition mk_dirent :: "ushort \<Rightarrow> cptr \<Rightarrow> cptr" where
  "mk_dirent inum name = st16 0 inum (\<lambda>j. if 2 \<le> j \<and> j < 2 + DIRSIZ then name (j - 2) else 0)"

text \<open>
  The offsets of the entries of a directory.  The loops count in 32 bits; the size of a file \<^verbatim>\<open>writei\<close> has made is at most 268 blocks of 1024
  bytes, far from where the counter would wrap.
\<close>

definition dir_offsets :: "uint \<Rightarrow> nat list" where
  "dir_offsets sz = map (\<lambda>k. 16 * k) [0..<(unat sz + 15) div 16]"

fun dirlookup_loop :: "nat \<Rightarrow> cptr \<Rightarrow> nat list \<Rightarrow> 'a fs_scheme \<Rightarrow> ((nat \<times> uint) option \<times> 'a fs_scheme) kres" where
  "dirlookup_loop dp name [] s = Ret (None, s)"
| "dirlookup_loop dp name (off # offs) s =
     kbind (readi dp Struct (of_nat off) 16 s) (\<lambda>(r, de, s).
       if r \<noteq> 16 then Panic ''dirlookup read''
       else if de_inum de = 0 then dirlookup_loop dp name offs s
       else if namecmp name (de_name de) = 0 then
         kbind (iget (i_dev (itable s dp)) (ucast (de_inum de)) s) (\<lambda>(ip, s). Ret (Some (ip, of_nat off), s))
       else dirlookup_loop dp name offs s)"

text \<open>The inode a directory has under a name, and the offset of the entry (\<^verbatim>\<open>*poff\<close>).\<close>

definition dirlookup :: "nat \<Rightarrow> cptr \<Rightarrow> 'a fs_scheme \<Rightarrow> ((nat \<times> uint) option \<times> 'a fs_scheme) kres" where
  "dirlookup dp name s =
     (if i_type (itable s dp) \<noteq> T_DIR then Panic ''dirlookup not DIR''
      else dirlookup_loop dp name (dir_offsets (i_size (itable s dp))) s)"

fun dirlink_slot :: "nat \<Rightarrow> nat list \<Rightarrow> nat \<Rightarrow> 'a fs_scheme \<Rightarrow> (nat \<times> 'a fs_scheme) kres" where
  "dirlink_slot dp [] end_off s = Ret (end_off, s)"
| "dirlink_slot dp (off # offs) end_off s =
     kbind (readi dp Struct (of_nat off) 16 s) (\<lambda>(r, de, s).
       if r \<noteq> 16 then Panic ''dirlink read''
       else if de_inum de = 0 then Ret (off, s) else dirlink_slot dp offs end_off s)"

definition dirlink :: "nat \<Rightarrow> cptr \<Rightarrow> uint \<Rightarrow> 'a fs_scheme \<Rightarrow> (int \<times> 'a fs_scheme) kres" where
  "dirlink dp name inum s =
     kbind (dirlookup dp name s) (\<lambda>(r, s).
       case r of
         Some (ip, _) \<Rightarrow> kbind (iput ip s) (\<lambda>s. Ret (-1, s))
       | None \<Rightarrow>
           let offs = dir_offsets (i_size (itable s dp)) in
           kbind (dirlink_slot dp offs (16 * length offs) s) (\<lambda>(off, s).
           kbind (writei dp (Value (mk_dirent (ucast inum) (strncpy (\<lambda>_. 0) name (int DIRSIZ)))) (of_nat off) 16 s) (\<lambda>(r, s).
           Ret (if r \<noteq> 16 then -1 else 0, s))))"

subsection \<open>Paths\<close>

type_synonym path = "uchar list"

definition slash :: uchar where "slash = 47"

text \<open>
  \<^verbatim>\<open>skipelem\<close>: the rest of the path after its first element, and the buffer \<^verbatim>\<open>name\<close> with that element, cut off
  after 14 bytes and then without a NUL.
\<close>

definition skipelem :: "path \<Rightarrow> cptr \<Rightarrow> (path \<times> cptr) option" where
  "skipelem path name =
     (let path = dropWhile (\<lambda>c. c = slash) path in
      if path = [] then None
      else let e = takeWhile (\<lambda>c. c \<noteq> slash) path; len = length e;
               name = if len \<ge> DIRSIZ then blit name 0 (\<lambda>j. e ! j) DIRSIZ
                      else (blit name 0 (\<lambda>j. e ! j) len)(len := 0)
           in Some (dropWhile (\<lambda>c. c = slash) (dropWhile (\<lambda>c. c \<noteq> slash) path), name))"

lemma skipelem_shorter:
  assumes "skipelem path name = Some (rest, name')"
  shows "length rest < length path"
proof -
  let ?p = "dropWhile (\<lambda>c. c = slash) path" let ?q = "dropWhile (\<lambda>c. c \<noteq> slash) ?p"
  have p: "?p \<noteq> []" and r: "rest = dropWhile (\<lambda>c. c = slash) ?q"
    using assms by (auto simp: skipelem_def Let_def split: if_splits)
  have "hd ?p \<noteq> slash" using hd_dropWhile[OF p] by simp
  then obtain c p' where c: "?p = c # p'" "c \<noteq> slash" using p by (cases ?p) auto
  then have "length ?q \<le> length p'" by (simp add: length_dropWhile_le)
  moreover have "length rest \<le> length ?q" unfolding r by (rule length_dropWhile_le)
  moreover have "length ?p \<le> length path" by (rule length_dropWhile_le)
  ultimately show ?thesis using c by simp
qed

function namex_loop :: "nat \<Rightarrow> path \<Rightarrow> bool \<Rightarrow> cptr \<Rightarrow> 'a fs_scheme \<Rightarrow> (nat option \<times> cptr \<times> 'a fs_scheme) kres" where
  "namex_loop ip path nameiparent name s =
     (case skipelem path name of
        None \<Rightarrow> if nameiparent then kbind (iput ip s) (\<lambda>s. Ret (None, name, s)) else Ret (Some ip, name, s)
      | Some (path, name) \<Rightarrow>
          kbind (ilock (Some ip) s) (\<lambda>s.
          if i_type (itable s ip) \<noteq> T_DIR then kbind (iunlockput ip s) (\<lambda>s. Ret (None, name, s))
          else if nameiparent \<and> path = [] then kbind (iunlock (Some ip) s) (\<lambda>s. Ret (Some ip, name, s))
          else kbind (dirlookup ip name s) (\<lambda>(nxt, s).
            case nxt of
              None \<Rightarrow> kbind (iunlockput ip s) (\<lambda>s. Ret (None, name, s))
            | Some (nx, _) \<Rightarrow> kbind (iunlockput ip s) (namex_loop nx path nameiparent name))))"
  by pat_completeness auto

termination by (relation "measure (\<lambda>(ip, path, p, name, s). length path)") (auto dest!: sym[of "Some _"] skipelem_shorter)

declare namex_loop.simps [simp del]

definition namex :: "path \<Rightarrow> bool \<Rightarrow> cptr \<Rightarrow> 'a fs_scheme \<Rightarrow> (nat option \<times> cptr \<times> 'a fs_scheme) kres" where
  "namex path nameiparent name s =
     kbind (if path \<noteq> [] \<and> hd path = slash then iget ROOTDEV ROOTINO s
            else with_cur (\<lambda>i s. case p_cwd (ptable s i) of None \<Rightarrow> Fault ''idup'' | Some ip \<Rightarrow> Ret (ip, idup ip s)) s) (\<lambda>(ip, s).
     namex_loop ip path nameiparent name s)"

definition namei :: "path \<Rightarrow> 'a fs_scheme \<Rightarrow> (nat option \<times> 'a fs_scheme) kres" where
  "namei path s = kbind (namex path False (\<lambda>_. 0) s) (\<lambda>(ip, name, s). Ret (ip, s))"

definition nameiparent :: "path \<Rightarrow> cptr \<Rightarrow> 'a fs_scheme \<Rightarrow> (nat option \<times> cptr \<times> 'a fs_scheme) kres" where
  "nameiparent path name s = namex path True name s"

end
