(* ===== verification/LogOps.thy ===== *)
theory LogOps
  imports Log
begin

text \<open>
  What the steps of \<^verbatim>\<open>commit\<close> and \<^verbatim>\<open>recover_from_log\<close> do to the blocks: each returns, with the contents of the
  blocks, the references to them and the writes it sends to the disk given exactly.
\<close>

subsection \<open>What the block layer leaves alone\<close>

definition blk_only :: "'a bio_scheme \<Rightarrow> 'a bio_scheme \<Rightarrow> bool" where
  "blk_only s s' \<longleftrightarrow> (\<exists>B T W. s' = s\<lparr>ptable := T, bufs := B, dwrites := W\<rparr>)"

lemma blk_only_bufs: "bufs_only s s' \<Longrightarrow> blk_only s s'"
  unfolding bufs_only_def blk_only_def
  by (elim exE conjE, rule_tac x = B in exI, rule_tac x = T in exI, rule exI[of _ "dwrites s"]) simp

lemma blk_only_put: "blk_only s (put_block n d s)"
  unfolding put_block_def blk_only_def
  by (rule exI[of _ "bufs s"], rule exI[of _ "ptable s"], rule exI[of _ "dwrites s @ [(n, d)]"]) simp

lemma blk_only_refl: "blk_only s s"
  by (rule blk_only_bufs[OF bufs_only_refl])

lemma blk_only_trans: "blk_only s s' \<Longrightarrow> blk_only s' s'' \<Longrightarrow> blk_only s s''"
proof -
  assume "blk_only s s'" "blk_only s' s''"
  then obtain B T W B' T' W' where "s' = s\<lparr>ptable := T, bufs := B, dwrites := W\<rparr>" "s'' = s'\<lparr>ptable := T', bufs := B', dwrites := W'\<rparr>"
    unfolding blk_only_def by blast
  then have "s'' = s\<lparr>ptable := T', bufs := B', dwrites := W'\<rparr>" by simp
  then show ?thesis unfolding blk_only_def by blast
qed

lemma blk_onlyD:
  assumes "blk_only s s'"
  shows "log_start s' = log_start s" "log_size s' = log_size s" "log_dev s' = log_dev s" "lh_n s' = lh_n s"
    "lh_block s' = lh_block s" "log_outstanding s' = log_outstanding s" "log_committing s' = log_committing s"
    "disk0 s' = disk0 s"
  using assms by (auto simp: blk_only_def)

lemma clean_cong:
  "on_disk s' = on_disk s \<Longrightarrow> b_blockno (bufs s' c) = b_blockno (bufs s c) \<and> b_data (bufs s' c) = b_data (bufs s c)
     \<and> b_valid (bufs s' c) = b_valid (bufs s c) \<Longrightarrow> clean s' c = clean s c"
  by (simp add: clean_def)

lemma clean_held:
  assumes "bc dev s H" "b \<in> H" "on_disk s (b_blockno (bufs s b)) = contents s dev (b_blockno (bufs s b))"
  shows "clean s b"
  using contents_holder[OF bcD(2,3)[OF assms(1)] holds_held[OF assms(1,2)]] assms(3) bcD(7)[OF assms(1,2)]
  by (simp add: clean_def)

lemma few_small: "(\<forall>m. brefs dev s m < 8) \<Longrightarrow> few dev s"
  unfolding few_def
proof
  fix m assume "\<forall>m. brefs dev s m < 8"
  then have "brefs dev s m < 8" by blast
  also have "(8::uint) < 0xffff" by simp
  finally show "brefs dev s m < 0xffff" .
qed

subsection \<open>One block to the log, one block to its place\<close>

lemma write_log_one_rule:
  assumes bc: "bc (ldev s) s {}" and small: "\<forall>m. brefs (ldev s) s m \<le> 1"
    and room: "card {m. brefs (ldev s) s m \<noteq> 0} < NBUF" and t: "tail < LOGSIZE"
    and LB: "L = log_blk tail s" "B = word_of_int (lh_block s tail)" "L \<noteq> B"
    and rf: "brefs (ldev s) s L = 0" "brefs (ldev s) s B = 1"
  obtains s' where "write_log_one tail s = Ret s'" "bc (ldev s) s' {}" "blk_only s s'" "brefs (ldev s) s' = brefs (ldev s) s"
    "contents s' (ldev s) = (contents s (ldev s))(L := contents s (ldev s) B)"
    "dwrites s' = dwrites s @ [(L, contents s (ldev s) B)]"
proof -
  let ?D = "ldev s" let ?r = "brefs ?D s"
  have "few ?D s" using small by (intro few_small) (auto intro: le_less_trans)
  then obtain l s1 where r1: "bread ?D L s = Ret (l, s1)" and b1: "bc ?D s1 {l}" "b_blockno (bufs s1 l) = L"
    and c1: "contents s1 ?D = contents s ?D" and f1: "brefs ?D s1 = ?r(L := ?r L + 1)" and o1: "bufs_only s s1"
    by (rule bread_rule[OF bc _ _ disjI1[OF room], of L]) simp
  have "few ?D s1" unfolding f1 few_def using small rf by (auto intro: le_less_trans)
  then obtain d s2 where r2: "bread ?D B s1 = Ret (d, s2)" and b2: "d \<notin> {l}" "bc ?D s2 {d, l}" "b_blockno (bufs s2 d) = B"
    and d2: "b_data (bufs s2 d) = contents s ?D B" and c2: "contents s2 ?D = contents s ?D"
    and f2: "brefs ?D s2 = ?r(L := 1, B := 2)" and o2: "bufs_only s1 s2" and k2: "bufs s2 l = bufs s1 l"
    by (rule bread_rule[OF b1(1), of B]) (use b1(2) LB(3) rf in \<open>auto simp: c1 f1\<close>)
  let ?s3 = "set_data l (contents s ?D B) s2" let ?s4 = "put_block L (contents s ?D B) ?s3"
  note sd = set_data_rule[OF b2(2), of l "contents s ?D B", simplified]
  have l3: "b_blockno (bufs ?s3 l) = L" "b_data (bufs ?s3 l) = contents s ?D B" using sd(5) k2 b1(2) by auto
  note bw = bwrite_rule[OF sd(1), of l, simplified, unfolded l3]
  have d4: "b_blockno (bufs ?s4 d) = B" using sd(5) b2 by auto
  obtain s5 where r5: "brelse d ?s4 = Ret s5" and b5: "bc ?D s5 ({d, l} - {d})" and c5: "contents s5 ?D = contents ?s4 ?D"
    and f5: "brefs ?D s5 = (brefs ?D ?s4)(B := brefs ?D ?s4 B - 1)" and o5: "bufs_only ?s4 s5"
    and k5: "\<forall>c. b_blockno (bufs s5 c) = b_blockno (bufs ?s4 c) \<and> b_data (bufs s5 c) = b_data (bufs ?s4 c) \<and> b_valid (bufs s5 c) = b_valid (bufs ?s4 c)"
    by (rule brelse_rule[OF bw(2), of d, unfolded d4]) (use sd(3) f2 in auto)
  have l5: "b_blockno (bufs s5 l) = L" "clean s5 l" using k5 l3 bw(4) clean_cong[OF bufs_onlyD(1)[OF o5]] by auto
  obtain s6 where r6: "brelse l s5 = Ret s6" and b6: "bc ?D s6 ({l} - {l})" and c6: "contents s6 ?D = contents s5 ?D"
    and f6: "brefs ?D s6 = (brefs ?D s5)(L := brefs ?D s5 L - 1)" and o6: "bufs_only s5 s6"
    by (rule brelse_rule[of ?D s5 "{l}" l, unfolded l5]) (use b5 b2(1) l5 in \<open>auto simp: insert_Diff_if\<close>)
  have D: "log_dev s1 = log_dev s" "lh_block s1 = lh_block s" using blk_onlyD[OF blk_only_bufs[OF o1]] by auto
  have "write_log_one tail s = Ret s6"
    using r1 r2 bw(1) r5 r6 t by (simp add: write_log_one_def lh_at_def LB(1,2) D d2)
  moreover have "blk_only s s6"
    by (rule blk_only_trans[OF _ blk_only_bufs[OF o6]] blk_only_trans[OF _ blk_only_bufs[OF o5]] blk_only_trans[OF _ blk_only_put]
        blk_only_trans[OF _ blk_only_bufs[OF sd(4)]] blk_only_trans[OF _ blk_only_bufs[OF o2]] blk_only_bufs[OF o1])+
  moreover have "brefs ?D s6 = ?r" unfolding f6 f5 using rf LB(3) sd(3) f2 by (auto simp: fun_eq_iff)
  moreover have "contents s6 ?D = (contents s ?D)(L := contents s ?D B)"
    unfolding c6 c5 bw(3) sd(2) using k2 b1(2) c2 by simp
  moreover have "dwrites s6 = dwrites s @ [(L, contents s ?D B)]"
    using bufs_onlyD(2)[OF o6] bufs_onlyD(2)[OF o5] bufs_onlyD(2)[OF sd(4)] bufs_onlyD(2)[OF o2] bufs_onlyD(2)[OF o1] by simp
  ultimately show thesis using b6 by (intro that[of s6]) simp_all
qed

lemma bunpin_rule:
  assumes b: "bc dev s H" "b \<in> H" "brefs dev s (b_blockno (bufs s b)) \<noteq> 1"
  defines "n \<equiv> b_blockno (bufs s b)"
  shows "bc dev (bunpin b s) H" "contents (bunpin b s) dev = contents s dev"
    "brefs dev (bunpin b s) = (brefs dev s)(n := brefs dev s n - 1)" "bufs_only s (bunpin b s)"
    "b_blockno (bufs (bunpin b s) c) = b_blockno (bufs s c)" "clean (bunpin b s) c = clean s c"
proof -
  have k: "brefs dev s n = b_refcnt (bufs s b)"
    using brefs_holder[OF bcD(2,3)[OF b(1)] holds_held[OF b(1,2)]] by (simp add: n_def)
  have e: "bunpin b s = upd_buf b (\<lambda>x. x\<lparr>b_refcnt := b_refcnt (bufs s b) - 1\<rparr>) s"
    unfolding bunpin_def by (rule upd_buf_cong) simp
  have "b_refcnt (bufs s b) - 1 \<noteq> 0" using b(3) k by (auto simp: n_def)
  from pin_rule[OF b(1,2) this] show "bc dev (bunpin b s) H" "contents (bunpin b s) dev = contents s dev"
    "brefs dev (bunpin b s) = (brefs dev s)(n := brefs dev s n - 1)" "bufs_only s (bunpin b s)"
    "b_blockno (bufs (bunpin b s) c) = b_blockno (bufs s c)" "clean (bunpin b s) c = clean s c"
    unfolding e[symmetric] by (simp_all add: k[unfolded n_def] n_def)
qed

lemma install_one_rule:
  assumes bc: "bc (ldev s) s {}" and small: "\<forall>m. brefs (ldev s) s m \<le> 1"
    and room: "card {m. brefs (ldev s) s m \<noteq> 0} < NBUF" "brefs (ldev s) s B = 0 \<Longrightarrow> card (insert L {m. brefs (ldev s) s m \<noteq> 0}) < NBUF"
    and t: "tail < LOGSIZE" and LB: "L = log_blk tail s" "B = word_of_int (lh_block s tail)" "L \<noteq> B"
    and rf: "brefs (ldev s) s L = 0" "recovering = 0 \<Longrightarrow> brefs (ldev s) s B = 1"
    and dk: "on_disk s L = contents s (ldev s) L"
  obtains s' where "install_one recovering tail s = Ret s'" "bc (ldev s) s' {}" "blk_only s s'"
    "brefs (ldev s) s' = (if recovering = 0 then (brefs (ldev s) s)(B := 0) else brefs (ldev s) s)"
    "contents s' (ldev s) = (contents s (ldev s))(B := contents s (ldev s) L)"
    "dwrites s' = dwrites s @ [(B, contents s (ldev s) L)]"
proof -
  let ?D = "ldev s" let ?r = "brefs ?D s" let ?c = "contents s ?D L"
  have "few ?D s" using small by (intro few_small) (auto intro: le_less_trans)
  then obtain l s1 where r1: "bread ?D L s = Ret (l, s1)" and b1: "bc ?D s1 {l}" "b_blockno (bufs s1 l) = L" "b_data (bufs s1 l) = ?c"
    and c1: "contents s1 ?D = contents s ?D" and f1: "brefs ?D s1 = ?r(L := ?r L + 1)" and o1: "bufs_only s s1"
    by (rule bread_rule[OF bc _ _ disjI1[OF room(1)], of L]) simp
  have "few ?D s1" unfolding f1 few_def using small rf by (auto intro: le_less_trans)
  moreover have "{m. brefs ?D s1 m \<noteq> 0} = insert L {m. ?r m \<noteq> 0}" unfolding f1 using rf(1) by auto
  ultimately obtain d s2 where r2: "bread ?D B s1 = Ret (d, s2)" and b2: "d \<notin> {l}" "bc ?D s2 {d, l}" "b_blockno (bufs s2 d) = B"
    and c2: "contents s2 ?D = contents s ?D"
    and f2: "brefs ?D s2 = ?r(L := 1, B := ?r B + 1)" and o2: "bufs_only s1 s2" and k2: "bufs s2 l = bufs s1 l"
    by (rule_tac bread_rule[OF b1(1), of B]) (use b1(2) LB(3) rf room(2) in \<open>auto simp: c1 f1\<close>)
  let ?s3 = "set_data d ?c s2" let ?s4 = "put_block B ?c ?s3"
  note sd = set_data_rule[OF b2(2), of d ?c, simplified]
  have d3: "b_blockno (bufs ?s3 d) = B" "b_data (bufs ?s3 d) = ?c" and l3: "b_blockno (bufs ?s3 l) = L"
    using sd(5) k2 b2 b1(2) by auto
  note bw = bwrite_rule[OF sd(1), of d, simplified, unfolded d3]
  have f4: "brefs ?D ?s4 = ?r(L := 1, B := ?r B + 1)" using sd(3) f2 by simp
  define s5 where "s5 = (if recovering = 0 then bunpin d ?s4 else ?s4)"
  have rB: "brefs ?D ?s4 B = ?r B + 1" using f4 LB(3) by simp
  have "bc ?D s5 {d, l} \<and> contents s5 ?D = contents ?s4 ?D \<and> brefs ?D s5 = (if recovering = 0 then ?r(L := 1, B := 1) else ?r(L := 1, B := ?r B + 1))
      \<and> bufs_only ?s4 s5 \<and> b_blockno (bufs s5 l) = L \<and> b_blockno (bufs s5 d) = B \<and> clean s5 d"
    using bunpin_rule[OF bw(2), of d] bw l3 d3 rB rf(2) f4 unfolding s5_def by (auto simp: bufs_only_refl)
  then have b5: "bc ?D s5 {d, l}" "b_blockno (bufs s5 l) = L" "b_blockno (bufs s5 d) = B" "clean s5 d" and c5: "contents s5 ?D = contents ?s4 ?D"
    and f5: "brefs ?D s5 = (if recovering = 0 then ?r(L := 1, B := 1) else ?r(L := 1, B := ?r B + 1))" and o5: "bufs_only ?s4 s5" by auto
  have cc: "contents ?s4 ?D = (contents s ?D)(B := ?c)" unfolding bw(3) sd(2) b2(3) c2 ..
  have "on_disk s5 L = on_disk s L"
    using LB(3) bufs_onlyD(1)[OF o5] bufs_onlyD(1)[OF sd(4)] bufs_onlyD(1)[OF o2] bufs_onlyD(1)[OF o1] by simp
  then have cl: "clean s5 l" using dk LB(3) by (intro clean_held[OF b5(1)]) (simp_all add: b5(2) c5 cc)
  obtain s6 where r6: "brelse l s5 = Ret s6" and b6: "bc ?D s6 ({d, l} - {l})" and c6: "contents s6 ?D = contents s5 ?D"
    and f6: "brefs ?D s6 = (brefs ?D s5)(L := brefs ?D s5 L - 1)" and o6: "bufs_only s5 s6"
    and k6: "\<forall>c. b_blockno (bufs s6 c) = b_blockno (bufs s5 c) \<and> b_data (bufs s6 c) = b_data (bufs s5 c) \<and> b_valid (bufs s6 c) = b_valid (bufs s5 c)"
    by (rule brelse_rule[OF b5(1), of l, unfolded b5(2)]) (use cl in auto)
  have d6: "b_blockno (bufs s6 d) = B" "clean s6 d" using k6 b5 clean_cong[OF bufs_onlyD(1)[OF o6]] by auto
  have b6': "bc ?D s6 {d}" using b6 b2(1) by (simp add: insert_Diff_if)
  obtain s7 where r7: "brelse d s6 = Ret s7" and b7: "bc ?D s7 ({d} - {d})" and c7: "contents s7 ?D = contents s6 ?D"
    and f7: "brefs ?D s7 = (brefs ?D s6)(B := brefs ?D s6 B - 1)" and o7: "bufs_only s6 s7"
    by (rule brelse_rule[OF b6', of d, unfolded d6]) (use d6 in auto)
  have D: "log_dev s1 = log_dev s" "lh_block s1 = lh_block s" using blk_onlyD[OF blk_only_bufs[OF o1]] by auto
  have "install_one recovering tail s = Ret s7"
    using r1 r2 bw(1) r6 r7 t by (simp add: install_one_def lh_at_def LB(1,2)[symmetric] D k2 b1(3) s5_def[symmetric] Let_def)
  moreover have "blk_only s s7"
    by (rule blk_only_trans[OF _ blk_only_bufs[OF o7]] blk_only_trans[OF _ blk_only_bufs[OF o6]] blk_only_trans[OF _ blk_only_bufs[OF o5]]
        blk_only_trans[OF _ blk_only_put] blk_only_trans[OF _ blk_only_bufs[OF sd(4)]] blk_only_trans[OF _ blk_only_bufs[OF o2]] blk_only_bufs[OF o1])+
  moreover have "brefs ?D s7 = (if recovering = 0 then ?r(B := 0) else ?r)"
    unfolding f7 f6 f5 using rf LB(3) by (auto simp: fun_eq_iff)
  moreover have "dwrites s7 = dwrites s @ [(B, ?c)]"
    using bufs_onlyD(2)[OF o7] bufs_onlyD(2)[OF o6] bufs_onlyD(2)[OF o5] bufs_onlyD(2)[OF sd(4)] bufs_onlyD(2)[OF o2] bufs_onlyD(2)[OF o1] by simp
  ultimately show thesis using b7 c7 c6 c5 cc by (intro that[of s7]) simp_all
qed

subsection \<open>The header block\<close>

definition hdr :: "uint list \<Rightarrow> cptr \<Rightarrow> cptr" where
  "hdr bs d = fold (\<lambda>i. st32 (4 + 4 * i) (bs ! i)) [0..<length bs] (st32 0 (of_nat (length bs)) d)"

definition hdr_blocks :: "cptr \<Rightarrow> uint list" where
  "hdr_blocks d = map (\<lambda>i. ld32 d (4 + 4 * i)) [0..<nat (sint (ld32 d 0))]"

lemma hdr_fold:
  "ld32 (fold (\<lambda>i. st32 (4 + 4 * i) (f i)) [0..<k] d) 0 = ld32 d 0"
  "i < k \<Longrightarrow> ld32 (fold (\<lambda>i. st32 (4 + 4 * i) (f i)) [0..<k] d) (4 + 4 * i) = f i"
proof (induction k)
  case (Suc k)
  { case 1 show ?case using Suc(1) by (simp add: ld_st_other) }
  { case 2 then show ?case using Suc(2) by (cases "i = k") (auto simp: ld_st_other) }
qed simp_all

lemma sint_of_nat_small: "k < 2 ^ 31 \<Longrightarrow> sint (of_nat k :: uint) = int k"
  using signed_take_bit_int_eq_self[of 31 "int k"] by (simp add: signed_of_nat)

lemma hdr_blocks_hdr: "length bs \<le> LOGSIZE \<Longrightarrow> hdr_blocks (hdr bs d) = bs"
proof -
  assume l: "length bs \<le> LOGSIZE"
  have "nat (sint (ld32 (hdr bs d) 0)) = length bs"
    using l sint_of_nat_small[of "length bs"] by (simp add: hdr_def hdr_fold LOGSIZE_def)
  moreover have "ld32 (hdr bs d) (4 + 4 * i) = bs ! i" if "i < length bs" for i
    unfolding hdr_def using that by (rule hdr_fold)
  ultimately show ?thesis unfolding hdr_blocks_def by (intro nth_equalityI) auto
qed

lemma set_data_same: "set_data b (b_data (bufs s b)) s = s"
  by (simp add: set_data_def upd_buf_def)

lemma set_data_twice: "set_data b d (set_data b e s) = set_data b d s"
  by (simp add: set_data_def upd_buf_twice)

lemma set_data_data [simp]: "b_data (bufs (set_data b d s) b) = d"
  by (simp add: set_data_def)

lemma set_data_log [simp]: "lh_n (set_data b d s) = lh_n s" "lh_block (set_data b d s) = lh_block s"
  "log_dev (set_data b d s) = log_dev s" "log_start (set_data b d s) = log_start s"
  by (simp_all add: set_data_def upd_buf_def)

definition pending :: "'a log_scheme \<Rightarrow> uint list" where
  "pending s = map (\<lambda>i. word_of_int (lh_block s i)) [0..<nat (lh_n s)]"

lemma write_head_loop:
  "k \<le> LOGSIZE \<Longrightarrow> kfold (write_head_one b) [0..<k] s =
     Ret (set_data b (fold (\<lambda>i. st32 (4 + 4 * i) (word_of_int (lh_block s i))) [0..<k] (b_data (bufs s b))) s)"
proof (induction k)
  case (Suc k)
  then show ?case by (simp add: kfold_append write_head_one_def lh_at_def set_data_twice)
qed (simp add: set_data_same)

lemma write_head_rule:
  assumes bc: "bc (ldev s) s {}" and small: "\<forall>m. brefs (ldev s) s m \<le> 1"
    and room: "card {m. brefs (ldev s) s m \<noteq> 0} < NBUF" and n: "0 \<le> lh_n s" "lh_n s \<le> int LOGSIZE"
    and S: "S = word_of_int (log_start s)" and rf: "brefs (ldev s) s S = 0"
  defines "h \<equiv> hdr (pending s) (contents s (ldev s) S)"
  obtains s' where "write_head s = Ret s'" "bc (ldev s) s' {}" "blk_only s s'" "brefs (ldev s) s' = brefs (ldev s) s"
    "contents s' (ldev s) = (contents s (ldev s))(S := h)" "dwrites s' = dwrites s @ [(S, h)]"
proof -
  let ?D = "ldev s"
  have "few ?D s" using small by (intro few_small) (auto intro: le_less_trans)
  then obtain b s1 where r1: "bread ?D S s = Ret (b, s1)" and b1: "bc ?D s1 {b}" "b_blockno (bufs s1 b) = S"
    and d1: "b_data (bufs s1 b) = contents s ?D S"
    and c1: "contents s1 ?D = contents s ?D" and f1: "brefs ?D s1 = (brefs ?D s)(S := brefs ?D s S + 1)" and o1: "bufs_only s s1"
    by (rule bread_rule[OF bc _ _ disjI1[OF room], of S]) simp
  have L: "lh_n s1 = lh_n s" "lh_block s1 = lh_block s" using blk_onlyD[OF blk_only_bufs[OF o1]] by auto
  let ?s2 = "set_data b h s1" let ?s3 = "put_block S h ?s2"
  have "fold (\<lambda>i. st32 (4 + 4 * i) (word_of_int (lh_block s i))) [0..<nat (lh_n s)] (st32 0 (word_of_int (lh_n s)) (contents s ?D S)) = h"
    unfolding h_def hdr_def pending_def using n(1) by (auto intro!: fold_cong)
  then have lp: "kfold (write_head_one b) [0..<nat (lh_n s)] (set_data b (st32 0 (word_of_int (lh_n s)) (contents s ?D S)) s1) = Ret ?s2"
    using n write_head_loop[of "nat (lh_n s)" b "set_data b (st32 0 (word_of_int (lh_n s)) (contents s ?D S)) s1"]
    by (simp add: L set_data_twice)
  note sd = set_data_rule[OF b1(1), of b h, simplified]
  have n2: "b_blockno (bufs ?s2 b) = S" using sd(5) b1(2) by simp
  note bw = bwrite_rule[OF sd(1), of b, simplified, unfolded n2 set_data_data]
  obtain s4 where r4: "brelse b ?s3 = Ret s4" and b4: "bc ?D s4 ({b} - {b})" and c4: "contents s4 ?D = contents ?s3 ?D"
    and f4: "brefs ?D s4 = (brefs ?D ?s3)(S := brefs ?D ?s3 S - 1)" and o4: "bufs_only ?s3 s4"
    by (rule brelse_rule[OF bw(2), of b]) (use n2 bw(4) in auto)
  have "write_head s = Ret s4" using r1 lp bw(1) r4 by (simp add: write_head_def S[symmetric] L d1 Let_def)
  moreover have "blk_only s s4"
    by (rule blk_only_trans[OF _ blk_only_bufs[OF o4]] blk_only_trans[OF _ blk_only_put] blk_only_trans[OF _ blk_only_bufs[OF sd(4)]] blk_only_bufs[OF o1])+
  moreover have "brefs ?D s4 = brefs ?D s" unfolding f4 using rf sd(3) f1 by (auto simp: fun_eq_iff)
  moreover have "contents s4 ?D = (contents s ?D)(S := h)" unfolding c4 bw(3) sd(2) b1(2) c1 ..
  moreover have "dwrites s4 = dwrites s @ [(S, h)]"
    using bufs_onlyD(2)[OF o4] bufs_onlyD(2)[OF sd(4)] bufs_onlyD(2)[OF o1] by simp
  ultimately show thesis using b4 by (intro that[of s4]) simp_all
qed

subsection \<open>The loops\<close>

lemma image_append: "image d (xs @ ys) = image (image d xs) ys"
  by (simp add: image_def)

lemma image_Nil [simp]: "image d [] = d"
  by (simp add: image_def)

lemma image_one [simp]: "image d [(n, x)] = d(n := x)"
  by (simp add: image_def)

lemma image_snoc: "image d (xs @ [(n, x)]) = (image d xs)(n := x)"
  by (simp add: image_def)

lemma image_other: "m \<notin> fst ` set ws \<Longrightarrow> image d ws m = d m"
  by (induction ws rule: rev_induct) (auto simp: image_snoc split: prod.splits)

lemma image_at:
  assumes "distinct (map f [0..<n])" "i < n"
  shows "image d (map (\<lambda>i. (f i, g i)) [0..<n]) (f i) = g i"
  using assms by (induction n) (auto simp: image_snoc less_Suc_eq, metis atLeastLessThan_iff imageI le0)

lemma image_fst_upt: "fst ` set (map (\<lambda>i. (f i, g i)) [0..<n]) = f ` {..<n}"
  by (simp add: image_image lessThan_atLeast0)

text \<open>The blocks of the log, its header first.\<close>

definition log_area :: "'a log_scheme \<Rightarrow> uint set" where
  "log_area s = (\<lambda>k. word_of_int (log_start s + int k)) ` {..<LOGSIZE}"

lemma log_area_inj:
  assumes "j < LOGSIZE" "k < LOGSIZE" "word_of_int (x + int j) = (word_of_int (x + int k) :: uint)"
  shows "j = k"
proof -
  have "(of_nat j :: uint) = of_nat k" using assms(3) by simp
  then have "unat (of_nat j :: uint) = unat (of_nat k :: uint)" by simp
  with assms(1,2) show ?thesis by (simp add: unat_of_nat LOGSIZE_def)
qed

definition home :: "'a log_scheme \<Rightarrow> nat \<Rightarrow> uint" where
  "home s i = word_of_int (lh_block s i)"

definition homes_ok :: "'a log_scheme \<Rightarrow> bool" where
  "homes_ok s \<longleftrightarrow> 0 \<le> lh_n s \<and> lh_n s < int LOGSIZE \<and> distinct (pending s) \<and> set (pending s) \<inter> log_area s = {}"

lemma pending_home: "pending s = map (home s) [0..<nat (lh_n s)]"
  by (simp add: pending_def home_def)

lemma homes_okD:
  assumes "homes_ok s" "i < nat (lh_n s)"
  shows "i < LOGSIZE" "log_blk i s \<in> log_area s" "home s i \<notin> log_area s" "home s i \<in> set (pending s)"
    "k < nat (lh_n s) \<Longrightarrow> log_blk i s \<noteq> home s k" "j < nat (lh_n s) \<Longrightarrow> home s i = home s j \<longleftrightarrow> i = j"
    "j < nat (lh_n s) \<Longrightarrow> log_blk i s = log_blk j s \<longleftrightarrow> i = j" "word_of_int (log_start s) \<noteq> log_blk i s"
proof -
  have n: "nat (lh_n s) < LOGSIZE" using assms(1) by (auto simp: homes_ok_def)
  show i: "i < LOGSIZE" using n assms(2) by simp
  show a: "log_blk i s \<in> log_area s"
    using n assms(2) unfolding log_area_def log_blk_def by (intro image_eqI[of _ _ "Suc i"]) (auto simp: add.commute add.left_commute)
  have p: "home s k \<in> set (pending s)" if "k < nat (lh_n s)" for k using that by (simp add: pending_home)
  then show "home s i \<in> set (pending s)" using assms(2) .
  have q: "home s k \<notin> log_area s" if "k < nat (lh_n s)" for k using p[OF that] assms(1) by (auto simp: homes_ok_def)
  then show "home s i \<notin> log_area s" using assms(2) .
  show "log_blk i s \<noteq> home s k" if "k < nat (lh_n s)" using q[OF that] a by auto
  show "home s i = home s j \<longleftrightarrow> i = j" if "j < nat (lh_n s)"
    using assms that by (auto simp: homes_ok_def pending_home distinct_map inj_on_def)
  show "log_blk i s = log_blk j s \<longleftrightarrow> i = j" if "j < nat (lh_n s)"
    using log_area_inj[of "Suc i" "Suc j" "log_start s"] n assms(2) that by (auto simp: log_blk_def algebra_simps)
  show "word_of_int (log_start s) \<noteq> log_blk i s"
    using log_area_inj[of 0 "Suc i" "log_start s"] n assms(2) by (auto simp: log_blk_def algebra_simps)
qed

lemma home_blk_only: "blk_only s s' \<Longrightarrow> home s' = home s" "blk_only s s' \<Longrightarrow> log_blk i s' = log_blk i s"
  "blk_only s s' \<Longrightarrow> pending s' = pending s" "blk_only s s' \<Longrightarrow> homes_ok s' = homes_ok s"
  "blk_only s s' \<Longrightarrow> log_area s' = log_area s"
  using blk_onlyD[of s s'] by (auto simp: home_def log_blk_def pending_def homes_ok_def log_area_def)

lemma pending_card: "homes_ok s \<Longrightarrow> card (set (pending s)) < LOGSIZE"
  by (auto simp: homes_ok_def distinct_card) (simp add: pending_def)

definition to_log :: "'a log_scheme \<Rightarrow> nat \<Rightarrow> (uint \<times> cptr) list" where
  "to_log s t = map (\<lambda>i. (log_blk i s, contents s (ldev s) (home s i))) [0..<t]"

definition log_ready :: "'a log_scheme \<Rightarrow> bool" where
  "log_ready s \<longleftrightarrow> bc (ldev s) s {} \<and> homes_ok s \<and> brefs (ldev s) s = (\<lambda>m. if m \<in> set (pending s) then 1 else 0)"

lemma to_log_Suc: "to_log s (Suc t) = to_log s t @ [(log_blk t s, contents s (ldev s) (home s t))]"
  by (simp add: to_log_def)

lemma to_log_fst: "fst ` set (to_log s t) = (\<lambda>i. log_blk i s) ` {..<t}"
  unfolding to_log_def by (rule image_fst_upt)

lemma write_log_loop:
  assumes "log_ready s" "t \<le> nat (lh_n s)"
  shows "\<exists>s'. kfold write_log_one [0..<t] s = Ret s' \<and> bc (ldev s) s' {} \<and> blk_only s s' \<and> brefs (ldev s) s' = brefs (ldev s) s
    \<and> contents s' (ldev s) = image (contents s (ldev s)) (to_log s t) \<and> dwrites s' = dwrites s @ to_log s t"
  using assms(2)
proof (induction t)
  case 0
  then show ?case using assms(1) by (auto simp: log_ready_def to_log_def blk_only_refl)
next
  case (Suc t)
  let ?D = "ldev s"
  from Suc obtain s1 where r: "kfold write_log_one [0..<t] s = Ret s1" and b: "bc ?D s1 {}" and o: "blk_only s s1"
    and f: "brefs ?D s1 = brefs ?D s" and c: "contents s1 ?D = image (contents s ?D) (to_log s t)"
    and w: "dwrites s1 = dwrites s @ to_log s t" by auto
  have h: "homes_ok s" and rf: "brefs ?D s = (\<lambda>m. if m \<in> set (pending s) then 1 else 0)" using assms(1) by (auto simp: log_ready_def)
  have t: "t < nat (lh_n s)" using Suc.prems by simp
  note H = homes_okD[OF h t]
  have D: "ldev s1 = ?D" "log_blk t s1 = log_blk t s" "word_of_int (lh_block s1 t) = home s t"
    using blk_onlyD(3)[OF o] home_blk_only(1,2)[OF o] by (auto simp: home_def fun_eq_iff)
  have u: "{m. brefs ?D s m \<noteq> 0} = set (pending s)" by (auto simp: rf)
  have p: "\<forall>m. brefs ?D s m \<le> 1" "card {m. brefs ?D s m \<noteq> 0} < NBUF" "brefs ?D s (log_blk t s) = 0" "brefs ?D s (home s t) = 1"
    using pending_card[OF h] H(2,4) h unfolding u by (auto simp: rf NBUF_def LOGSIZE_def homes_ok_def)
  have cH: "contents s1 ?D (home s t) = contents s ?D (home s t)"
    unfolding c by (rule image_other) (use t homes_okD(5)[OF h _ t] in \<open>metis to_log_fst image_iff lessThan_iff order.strict_trans\<close>)
  obtain s2 where s2: "write_log_one t s1 = Ret s2" "bc ?D s2 {}" "blk_only s1 s2" "brefs ?D s2 = brefs ?D s"
    "contents s2 ?D = (contents s1 ?D)(log_blk t s := contents s ?D (home s t))"
    "dwrites s2 = dwrites s1 @ [(log_blk t s, contents s ?D (home s t))]"
    by (rule write_log_one_rule[of s1 t "log_blk t s" "home s t", unfolded D f cH, OF b p(1,2) H(1) refl refl H(5)[OF t] p(3,4)])
  have "blk_only s s2" by (rule blk_only_trans[OF o s2(3)])
  then show ?case using r w c s2 by (intro exI[of _ s2]) (simp add: kfold_append to_log_Suc image_snoc)
qed

text \<open>What installing the first \<open>t\<close> blocks writes.\<close>

definition to_home :: "'a log_scheme \<Rightarrow> nat \<Rightarrow> (uint \<times> cptr) list" where
  "to_home s t = map (\<lambda>i. (home s i, contents s (ldev s) (log_blk i s))) [0..<t]"

lemma to_home_Suc: "to_home s (Suc t) = to_home s t @ [(home s t, contents s (ldev s) (log_blk t s))]"
  by (simp add: to_home_def)

lemma to_home_fst: "fst ` set (to_home s t) = home s ` {..<t}"
  unfolding to_home_def by (rule image_fst_upt)

definition install_ready :: "int \<Rightarrow> 'a log_scheme \<Rightarrow> bool" where
  "install_ready recovering s \<longleftrightarrow> bc (ldev s) s {} \<and> homes_ok s
     \<and> (\<forall>i<nat (lh_n s). on_disk s (log_blk i s) = contents s (ldev s) (log_blk i s))
     \<and> brefs (ldev s) s = (\<lambda>m. if recovering = 0 \<and> m \<in> set (pending s) then 1 else 0)"

definition pins_left :: "int \<Rightarrow> 'a log_scheme \<Rightarrow> nat \<Rightarrow> uint \<Rightarrow> uint" where
  "pins_left recovering s t m = (if recovering = 0 \<and> m \<in> set (pending s) \<and> m \<notin> home s ` {..<t} then 1 else 0)"

lemma pins_left_facts:
  assumes "homes_ok s"
  shows "\<forall>m. pins_left r s t m \<le> 1" "card {m. pins_left r s t m \<noteq> 0} < NBUF"
    "r \<noteq> 0 \<Longrightarrow> card (insert L {m. pins_left r s t m \<noteq> 0}) < NBUF"
    "t < nat (lh_n s) \<Longrightarrow> pins_left 0 s t (home s t) = 1"
    "m \<in> log_area s \<Longrightarrow> pins_left r s t m = 0"
    "t < nat (lh_n s) \<Longrightarrow> (if r = 0 then (pins_left r s t)(home s t := 0) else pins_left r s t) = pins_left r s (Suc t)"
proof -
  show "\<forall>m. pins_left r s t m \<le> 1" by (simp add: pins_left_def)
  have "card {m. pins_left r s t m \<noteq> 0} \<le> card (set (pending s))" by (rule card_mono) (auto simp: pins_left_def)
  then show "card {m. pins_left r s t m \<noteq> 0} < NBUF" using pending_card[OF assms] by (simp add: NBUF_def LOGSIZE_def)
  show "r \<noteq> 0 \<Longrightarrow> card (insert L {m. pins_left r s t m \<noteq> 0}) < NBUF" by (simp add: pins_left_def NBUF_def)
  show "t < nat (lh_n s) \<Longrightarrow> pins_left 0 s t (home s t) = 1"
    using homes_okD(4,6)[OF assms] by (fastforce simp: pins_left_def)
  show "m \<in> log_area s \<Longrightarrow> pins_left r s t m = 0" using assms by (auto simp: pins_left_def homes_ok_def)
  show "t < nat (lh_n s) \<Longrightarrow> (if r = 0 then (pins_left r s t)(home s t := 0) else pins_left r s t) = pins_left r s (Suc t)"
    by (auto simp: pins_left_def fun_eq_iff lessThan_Suc)
qed

lemma install_loop:
  assumes "install_ready r s" "t \<le> nat (lh_n s)"
  shows "\<exists>s'. kfold (install_one r) [0..<t] s = Ret s' \<and> bc (ldev s) s' {} \<and> blk_only s s' \<and> brefs (ldev s) s' = pins_left r s t
    \<and> contents s' (ldev s) = image (contents s (ldev s)) (to_home s t) \<and> dwrites s' = dwrites s @ to_home s t"
  using assms(2)
proof (induction t)
  case 0
  then show ?case using assms(1)
    by (intro exI[of _ s]) (auto simp: install_ready_def to_home_def blk_only_refl pins_left_def fun_eq_iff)
next
  case (Suc t)
  let ?D = "ldev s" let ?L = "log_blk t s"
  from Suc obtain s1 where r: "kfold (install_one r) [0..<t] s = Ret s1" and b: "bc ?D s1 {}" and o: "blk_only s s1"
    and f: "brefs ?D s1 = pins_left r s t" and c: "contents s1 ?D = image (contents s ?D) (to_home s t)"
    and w: "dwrites s1 = dwrites s @ to_home s t" by auto
  have h: "homes_ok s" and od: "\<forall>i<nat (lh_n s). on_disk s (log_blk i s) = contents s ?D (log_blk i s)"
    using assms(1) by (auto simp: install_ready_def)
  have t: "t < nat (lh_n s)" using Suc.prems by simp
  note H = homes_okD[OF h t] and P = pins_left_facts[OF h]
  have D: "ldev s1 = ?D" "log_blk t s1 = ?L" "word_of_int (lh_block s1 t) = home s t"
    using blk_onlyD(3)[OF o] home_blk_only(1,2)[OF o] by (auto simp: home_def fun_eq_iff)
  have nt: "?L \<notin> fst ` set (to_home s t)" using H(5) t by (metis to_home_fst image_iff lessThan_iff order.strict_trans)
  have od1: "on_disk s1 = image (on_disk s) (to_home s t)" unfolding on_disk_def w blk_onlyD(8)[OF o] image_append ..
  have cL: "contents s1 ?D ?L = contents s ?D ?L" unfolding c using nt by (rule image_other)
  have "on_disk s1 ?L = contents s1 ?D ?L" unfolding od1 cL using image_other[OF nt] od t by simp
  then have od2: "on_disk s1 ?L = contents s ?D ?L" unfolding cL .
  have p: "pins_left r s t (home s t) = 0 \<Longrightarrow> card (insert ?L {m. pins_left r s t m \<noteq> 0}) < NBUF"
    using P(3)[of r ?L t] P(4)[OF t] by (cases "r = 0") auto
  have q: "r = 0 \<Longrightarrow> pins_left r s t (home s t) = 1" using P(4)[OF t] by simp
  obtain s2 where s2: "install_one r t s1 = Ret s2" "bc ?D s2 {}" "blk_only s1 s2"
    "brefs ?D s2 = (if r = 0 then (pins_left r s t)(home s t := 0) else pins_left r s t)"
    "contents s2 ?D = (contents s1 ?D)(home s t := contents s ?D ?L)" "dwrites s2 = dwrites s1 @ [(home s t, contents s ?D ?L)]"
    by (rule install_one_rule[of s1 "home s t" ?L t r, unfolded D f cL, OF b P(1,2) p H(1) refl refl H(5)[OF t] P(5)[OF H(2)] q od2])
  have "blk_only s s2" by (rule blk_only_trans[OF o s2(3)])
  then show ?case using r w c s2 P(6)[OF t, of r]
    by (intro exI[of _ s2]) (simp add: kfold_append to_home_Suc image_snoc)
qed

subsection \<open>\<^verbatim>\<open>commit\<close>\<close>

lemma bio_cong:
  assumes "bufs s' = bufs s" "cur s' = cur s" "ptable s' = ptable s" "disk0 s' = disk0 s" "dwrites s' = dwrites s"
  shows "contents s' = contents s" "brefs dev s' = brefs dev s" "bc dev s' H = bc dev s H" "on_disk s' = on_disk s" "clean s' = clean s"
proof -
  have h: "holds s' = holds s" by (simp add: holds_def fun_eq_iff assms)
  have d: "on_disk s' = on_disk s" by (simp add: on_disk_def assms)
  have l: "lru s' = lru s" by (intro ext lru_cong assms)
  have "held s' = held s" using assms by (simp add: held_def holdingsleep_def with_cur_def fun_eq_iff split: option.splits)
  with h d l show "bc dev s' H = bc dev s H" by (simp add: bc_def cache_inv_def one_copy_def clean_def assms)
  from h d show "contents s' = contents s" "brefs dev s' = brefs dev s" "on_disk s' = on_disk s" "clean s' = clean s"
    by (auto simp: contents_def brefs_def buf_of_def clean_def fun_eq_iff assms split: option.split)
qed

lemmas bio_lh_n [simp] = bio_cong[of "lh_n_update (\<lambda>_. k) s" s for k s, simplified]

lemma blk_only_lh_n: "blk_only s s' \<Longrightarrow> blk_only (s\<lparr>lh_n := k\<rparr>) (s'\<lparr>lh_n := k\<rparr>)"
proof -
  assume "blk_only s s'"
  then obtain B T W where "s' = s\<lparr>ptable := T, bufs := B, dwrites := W\<rparr>" by (auto simp: blk_only_def)
  then have "s'\<lparr>lh_n := k\<rparr> = s\<lparr>lh_n := k\<rparr>\<lparr>ptable := T, bufs := B, dwrites := W\<rparr>" by (intro log.equality) simp_all
  then show ?thesis unfolding blk_only_def by blast
qed

definition log_head :: "'a log_scheme \<Rightarrow> uint" where
  "log_head s = word_of_int (log_start s)"

definition new_blocks :: "'a log_scheme \<Rightarrow> (uint \<times> cptr) list" where
  "new_blocks s = map (\<lambda>i. (home s i, contents s (ldev s) (home s i))) [0..<nat (lh_n s)]"

definition new_header :: "'a log_scheme \<Rightarrow> cptr" where
  "new_header s = hdr (pending s) (contents s (ldev s) (log_head s))"

definition commit_writes :: "'a log_scheme \<Rightarrow> (uint \<times> cptr) list" where
  "commit_writes s = to_log s (nat (lh_n s)) @ [(log_head s, new_header s)] @ new_blocks s @ [(log_head s, hdr [] (new_header s))]"

lemma log_head_area: "log_head s \<in> log_area s"
  unfolding log_head_def log_area_def by (rule image_eqI[of _ _ 0]) (auto simp: LOGSIZE_def)

lemma head_notin:
  assumes "homes_ok s"
  shows "log_head s \<notin> fst ` set (to_log s (nat (lh_n s)))" "log_head s \<notin> home s ` {..<nat (lh_n s)}"
proof -
  show "log_head s \<notin> fst ` set (to_log s (nat (lh_n s)))"
    unfolding to_log_fst log_head_def using homes_okD(8)[OF assms] by auto
  show "log_head s \<notin> home s ` {..<nat (lh_n s)}" using homes_okD(3)[OF assms] log_head_area[of s] by auto
qed

lemma log_blks_distinct: "homes_ok s \<Longrightarrow> distinct (map (\<lambda>i. log_blk i s) [0..<nat (lh_n s)])"
  using homes_okD(7)[of s] by (auto simp: distinct_map inj_on_def)

lemma image_to_log: "homes_ok s \<Longrightarrow> i < nat (lh_n s) \<Longrightarrow> image d (to_log s (nat (lh_n s))) (log_blk i s) = contents s (ldev s) (home s i)"
  unfolding to_log_def by (rule image_at[OF log_blks_distinct])

lemma commit_rule:
  assumes ready: "log_ready s" and n: "0 < lh_n s"
  obtains s' where "commit s = Ret s'" "bc (ldev s) s' {}" "blk_only (s\<lparr>lh_n := 0\<rparr>) s'" "brefs (ldev s) s' = (\<lambda>_. 0)"
    "contents s' (ldev s) = image (contents s (ldev s)) (commit_writes s)" "dwrites s' = dwrites s @ commit_writes s"
proof -
  let ?D = "ldev s" let ?n = "nat (lh_n s)" let ?h = "new_header s" let ?S = "log_head s"
  have h: "homes_ok s" and rf: "brefs ?D s = (\<lambda>m. if m \<in> set (pending s) then 1 else 0)" using ready by (auto simp: log_ready_def)
  have u: "{m. brefs ?D s m \<noteq> 0} = set (pending s)" by (auto simp: rf)
  have small: "\<forall>m. brefs ?D s m \<le> 1" "card {m. brefs ?D s m \<noteq> 0} < NBUF" "brefs ?D s ?S = 0"
    using pending_card[OF h] h log_head_area[of s] unfolding u by (auto simp: rf NBUF_def LOGSIZE_def homes_ok_def)
  have n': "0 \<le> lh_n s" "lh_n s \<le> int LOGSIZE" using h by (auto simp: homes_ok_def)
  obtain s1 where r1: "write_log s = Ret s1" and b1: "bc ?D s1 {}" and o1: "blk_only s s1" and f1: "brefs ?D s1 = brefs ?D s"
    and c1: "contents s1 ?D = image (contents s ?D) (to_log s ?n)" and w1: "dwrites s1 = dwrites s @ to_log s ?n"
    using write_log_loop[OF ready order_refl] by (auto simp: write_log_def)
  have D1: "ldev s1 = ?D" "lh_n s1 = lh_n s" "log_start s1 = log_start s" "pending s1 = pending s"
    using blk_onlyD[OF o1] home_blk_only(3)[OF o1] by auto
  have cS: "contents s1 ?D ?S = contents s ?D ?S" unfolding c1 by (rule image_other[OF head_notin(1)[OF h]])
  obtain s2 where r2: "write_head s1 = Ret s2" and b2: "bc ?D s2 {}" and o2: "blk_only s1 s2" and f2: "brefs ?D s2 = brefs ?D s"
    and c2: "contents s2 ?D = (contents s1 ?D)(?S := ?h)" and w2: "dwrites s2 = dwrites s1 @ [(?S, ?h)]"
    by (rule write_head_rule[of s1 ?S, unfolded D1 f1 cS, OF b1 small(1,2) n' log_head_def small(3), folded new_header_def])
  have o12: "blk_only s s2" by (rule blk_only_trans[OF o1 o2])
  have D2: "ldev s2 = ?D" "lh_n s2 = lh_n s" "log_start s2 = log_start s" "home s2 = home s" "pending s2 = pending s" "\<And>i. log_blk i s2 = log_blk i s"
    using blk_onlyD[OF o12] home_blk_only[OF o12] by auto
  have cl: "contents s2 ?D (log_blk i s) = contents s ?D (home s i)" "on_disk s2 (log_blk i s) = contents s ?D (home s i)" if "i < ?n" for i
    using image_to_log[OF h that] homes_okD(8)[OF h that] w1 w2 blk_onlyD(8)[OF o12]
    by (simp_all add: c2 c1 on_disk_def image_append image_snoc log_head_def)
  have th: "to_home s2 ?n = new_blocks s" by (simp add: to_home_def new_blocks_def D2 cl)
  have ir: "install_ready 0 s2"
    unfolding install_ready_def using b2 f2 cl home_blk_only(4)[OF o12] h by (simp add: D2 rf)
  obtain s3 where r3: "install_trans 0 s2 = Ret s3" and b3: "bc ?D s3 {}" and o3: "blk_only s2 s3" and f3: "brefs ?D s3 = pins_left 0 s2 ?n"
    and c3: "contents s3 ?D = image (contents s2 ?D) (new_blocks s)" and w3: "dwrites s3 = dwrites s2 @ new_blocks s"
    using install_loop[OF ir order_refl] by (auto simp: install_trans_def D2 th)
  have f3': "brefs ?D s3 = (\<lambda>_. 0)" unfolding f3 by (auto simp: pins_left_def fun_eq_iff D2 pending_home)
  let ?s = "s3\<lparr>lh_n := 0\<rparr>"
  have o13: "blk_only s s3" by (rule blk_only_trans[OF o12 o3])
  have D3: "ldev ?s = ?D" "log_start ?s = log_start s" "lh_n ?s = 0" "pending ?s = []" using blk_onlyD[OF o13] by (auto simp: pending_def)
  have "?S \<notin> fst ` set (new_blocks s)" unfolding new_blocks_def image_fst_upt by (rule head_notin(2)[OF h])
  then have cS3: "contents s3 ?D ?S = ?h" unfolding c3 by (subst image_other) (auto simp: c2)
  obtain s4 where r4: "write_head ?s = Ret s4" and b4: "bc ?D s4 {}" and o4: "blk_only ?s s4" and f4: "brefs ?D s4 = brefs ?D ?s"
    and c4: "contents s4 ?D = (contents ?s ?D)(?S := hdr [] ?h)" and w4: "dwrites s4 = dwrites ?s @ [(?S, hdr [] ?h)]"
    by (rule write_head_rule[of ?s ?S, unfolded D3 bio_lh_n cS3 f3']) (simp_all add: b3 log_head_def NBUF_def f3')
  have "commit s = Ret s4" using n r1 r2 r3 r4 by (simp add: commit_def)
  moreover have "blk_only (s\<lparr>lh_n := 0\<rparr>) s4"
    by (rule blk_only_trans[OF blk_only_lh_n[OF o13] o4])
  moreover have "contents s4 ?D = image (contents s ?D) (commit_writes s)"
    unfolding c4 bio_lh_n c3 c2 c1 commit_writes_def image_append image_one ..
  moreover have "dwrites s4 = dwrites s @ commit_writes s"
    using w4 w3 w2 w1 by (simp add: commit_writes_def)
  ultimately show thesis using b4 f4 f3' by (intro that[of s4]) simp_all
qed

subsection \<open>\<^verbatim>\<open>recover_from_log\<close>\<close>

lemma read_head_loop:
  "k \<le> LOGSIZE \<Longrightarrow> kfold (read_head_one d) [0..<k] s =
     Ret (s\<lparr>lh_block := \<lambda>i. if i < k then sint (ld32 d (4 + 4 * i)) else lh_block s i\<rparr>)"
proof (induction k)
  case (Suc k)
  then show ?case
    by (auto simp: kfold_append read_head_one_def fun_eq_iff less_Suc_eq intro!: log.equality)
qed simp

lemma read_head_rule:
  assumes bc: "bc (ldev s) s {}" and rf: "brefs (ldev s) s = (\<lambda>_. 0)" and S: "S = log_head s"
    and od: "on_disk s S = contents s (ldev s) S" and n: "length (hdr_blocks (contents s (ldev s) S)) \<le> LOGSIZE"
    "0 \<le> sint (ld32 (contents s (ldev s) S) 0)"
  obtains s' where "read_head s = Ret s'" "bc (ldev s) s' {}" "brefs (ldev s) s' = (\<lambda>_. 0)" "contents s' (ldev s) = contents s (ldev s)"
    "dwrites s' = dwrites s" "disk0 s' = disk0 s" "log_dev s' = log_dev s" "log_start s' = log_start s"
    "pending s' = hdr_blocks (contents s (ldev s) S)" "0 \<le> lh_n s'"
proof -
  let ?D = "ldev s" let ?d = "contents s ?D S" let ?n = "sint (ld32 ?d 0)"
  have "few ?D s" using rf by (intro few_small) auto
  then obtain b s1 where r1: "bread ?D S s = Ret (b, s1)" and b1: "bc ?D s1 {b}" "b_blockno (bufs s1 b) = S"
    and d1: "b_data (bufs s1 b) = ?d" and c1: "contents s1 ?D = contents s ?D" and f1: "brefs ?D s1 = (brefs ?D s)(S := brefs ?D s S + 1)"
    and o1: "bufs_only s s1"
    by (rule bread_rule[OF bc, of S]) (auto simp: rf NBUF_def)
  define s2 where "s2 = s1\<lparr>lh_n := ?n, lh_block := \<lambda>i. if i < nat ?n then sint (ld32 ?d (4 + 4 * i)) else lh_block s1 i\<rparr>"
  note cg = bio_cong[of s2 s1, unfolded s2_def, simplified, folded s2_def]
  have nn: "nat ?n \<le> LOGSIZE" using n(1) by (simp add: hdr_blocks_def)
  have rd: "kfold (read_head_one ?d) [0..<nat ?n] (s1\<lparr>lh_n := ?n\<rparr>) = Ret s2"
    using read_head_loop[OF nn, of ?d "s1\<lparr>lh_n := ?n\<rparr>"] by (simp add: s2_def cong: if_cong)
  have b2: "bc ?D s2 {b}" "b_blockno (bufs s2 b) = S" using b1 cg by (simp_all add: s2_def)
  have "clean s2 b" using b2 od c1 cg bufs_onlyD(1)[OF o1] by (intro clean_held[OF b2(1)]) auto
  then obtain s3 where r3: "brelse b s2 = Ret s3" and b3: "bc ?D s3 ({b} - {b})" and c3: "contents s3 ?D = contents s2 ?D"
    and f3: "brefs ?D s3 = (brefs ?D s2)(S := brefs ?D s2 S - 1)" and o3: "bufs_only s2 s3"
    by (rule_tac brelse_rule[OF b2(1), of b, unfolded b2(2)]) auto
  have "read_head s = Ret s3"
    using r1 rd r3 by (simp add: read_head_def S log_head_def[symmetric] d1[unfolded S] Let_def)
  moreover have "brefs ?D s3 = (\<lambda>_. 0)" unfolding f3 cg(2) f1 rf by (auto simp: fun_eq_iff)
  moreover note blk_onlyD[OF blk_only_bufs[OF o1]] blk_onlyD[OF blk_only_bufs[OF o3]] bufs_onlyD(2)[OF o1] bufs_onlyD(2)[OF o3]
  moreover from calculation have "pending s3 = hdr_blocks ?d"
    using n(2) by (auto simp: pending_def hdr_blocks_def s2_def)
  ultimately show thesis using b3 c3 c1 cg n(2) by (intro that[of s3]) (simp_all add: s2_def)
qed

definition head_ok :: "uint list \<Rightarrow> 'a log_scheme \<Rightarrow> bool" where
  "head_ok bs s \<longleftrightarrow> hdr_blocks (on_disk s (log_head s)) = bs \<and> 0 \<le> sint (ld32 (on_disk s (log_head s)) 0)
     \<and> length bs < LOGSIZE \<and> distinct bs \<and> set bs \<inter> log_area s = {}"

definition fresh :: "'a log_scheme \<Rightarrow> bool" where
  "fresh s \<longleftrightarrow> bc (ldev s) s {} \<and> brefs (ldev s) s = (\<lambda>_. 0) \<and> contents s (ldev s) = on_disk s"

definition replay :: "uint list \<Rightarrow> 'a log_scheme \<Rightarrow> (uint \<times> cptr) list" where
  "replay bs s = map (\<lambda>i. (bs ! i, on_disk s (log_blk i s))) [0..<length bs]"

lemma recover_rule:
  assumes fr: "fresh s" and hd: "head_ok bs s"
  obtains s' where "recover_from_log s = Ret s'" "fresh s'" "log_start s' = log_start s" "log_dev s' = log_dev s" "lh_n s' = 0" "disk0 s' = disk0 s"
    "dwrites s' = dwrites s @ replay bs s @ [(log_head s, hdr [] (on_disk s (log_head s)))]"
proof -
  let ?D = "ldev s" let ?S = "log_head s" let ?d = "on_disk s ?S" let ?n = "length bs"
  have f: "bc ?D s {}" "brefs ?D s = (\<lambda>_. 0)" "contents s ?D = on_disk s" using fr by (auto simp: fresh_def)
  obtain s1 where r1: "read_head s = Ret s1" and b1: "bc ?D s1 {}" and f1: "brefs ?D s1 = (\<lambda>_. 0)" and c1: "contents s1 ?D = on_disk s"
    and w1: "dwrites s1 = dwrites s" "disk0 s1 = disk0 s" and D1: "log_dev s1 = log_dev s" "log_start s1 = log_start s" and p1: "pending s1 = bs" "0 \<le> lh_n s1"
    by (rule read_head_rule[of s ?S]) (use f hd in \<open>auto simp: head_ok_def\<close>)
  have od1: "on_disk s1 = on_disk s" by (simp add: on_disk_def w1)
  have n1: "nat (lh_n s1) = ?n" using arg_cong[OF p1(1), of length] by (simp add: pending_def)
  have S1: "log_head s1 = ?S" "log_blk i s1 = log_blk i s" "log_area s1 = log_area s" for i
    by (simp_all add: log_head_def log_blk_def log_area_def D1)
  have hm: "home s1 i = bs ! i" if "i < ?n" for i
    using arg_cong[OF p1(1), of "\<lambda>l. l ! i"] n1 that by (simp add: pending_home)
  have h1: "homes_ok s1" using hd p1 n1 by (auto simp: homes_ok_def head_ok_def S1)
  have "install_ready 1 s1" using b1 f1 c1 h1 by (simp add: install_ready_def D1 od1 S1)
  then obtain s2 where r2: "install_trans 1 s1 = Ret s2" and b2: "bc ?D s2 {}" and o2: "blk_only s1 s2" and f2: "brefs ?D s2 = pins_left 1 s1 ?n"
    and c2: "contents s2 ?D = image (on_disk s) (to_home s1 ?n)" and w2: "dwrites s2 = dwrites s @ to_home s1 ?n"
    using install_loop[of 1 s1 ?n] by (auto simp: install_trans_def n1 D1 c1 w1)
  have th: "to_home s1 ?n = replay bs s" by (simp add: to_home_def replay_def hm S1 D1 c1)
  have f2': "brefs ?D s2 = (\<lambda>_. 0)" unfolding f2 by (simp add: pins_left_def fun_eq_iff)
  let ?s = "s2\<lparr>lh_n := 0\<rparr>"
  have D3: "ldev ?s = ?D" "log_start ?s = log_start s" "lh_n ?s = 0" "pending ?s = []" using blk_onlyD[OF o2] D1 by (auto simp: pending_def)
  have "?S \<notin> home s1 ` {..<?n}" using head_notin(2)[OF h1] by (simp add: S1 n1)
  then have "?S \<notin> fst ` set (replay bs s)" by (simp add: th[symmetric] to_home_fst)
  then have cS: "contents s2 ?D ?S = ?d" unfolding c2 th by (rule image_other)
  obtain s3 where r3: "write_head ?s = Ret s3" and b3: "bc ?D s3 {}" and o3: "blk_only ?s s3" and f3: "brefs ?D s3 = brefs ?D ?s"
    and c3: "contents s3 ?D = (contents ?s ?D)(?S := hdr [] ?d)" and w3: "dwrites s3 = dwrites ?s @ [(?S, hdr [] ?d)]"
    by (rule write_head_rule[of ?s ?S, unfolded D3 bio_lh_n cS f2']) (simp_all add: b2 log_head_def NBUF_def f2')
  have k: "disk0 s3 = disk0 s" "log_start s3 = log_start s" "log_dev s3 = log_dev s" "lh_n s3 = 0"
    using blk_onlyD[OF o3] blk_onlyD[OF o2] D1 w1 by auto
  have w: "dwrites s3 = dwrites s @ replay bs s @ [(?S, hdr [] ?d)]" using w3 w2 th by simp
  have "contents s3 ?D = on_disk s3" unfolding c3 bio_lh_n c2 th on_disk_def[of s3] w k image_append image_one by (simp add: on_disk_def)
  then have "fresh s3" using b3 f3 f2' k(3) by (simp add: fresh_def)
  moreover have "recover_from_log s = Ret s3" using r1 r2 r3 by (simp add: recover_from_log_def)
  ultimately show thesis using k w by (intro that[of s3]) simp_all
qed

end
