(* ===== verification/Recovery.thy ===== *)
theory Recovery
  imports LogOps
begin

text \<open>
  Crashes.  The disk after a crash is the disk before the transaction with a prefix of the writes of \<^verbatim>\<open>commit\<close>
  applied; after the reboot the buffers are those \<^verbatim>\<open>binit\<close> links, and \<^verbatim>\<open>initlog\<close> recovers.
\<close>

subsection \<open>A machine that has just booted\<close>

definition booted :: "'a bio_scheme \<Rightarrow> bool" where
  "booted s \<longleftrightarrow> (\<forall>b. b_dev (bufs s b) = 0 \<and> b_refcnt (bufs s b) = 0 \<and> b_lock (bufs s b) = initsleeplock) \<and> cur s \<noteq> None"

lemma on_disk_binit [simp]: "on_disk (binit s) = on_disk s" "disk0 (binit s) = disk0 s" "dwrites (binit s) = dwrites s"
proof -
  have u: "disk0 (upd_buf b f s) = disk0 s" "dwrites (upd_buf b f s) = dwrites s" for b f and s :: "'a bio_scheme"
    by (simp_all add: upd_buf_def)
  have "disk0 (fold binit_step xs s) = disk0 s" "dwrites (fold binit_step xs s) = dwrites s" for xs and s :: "'a bio_scheme"
    by (induction xs arbitrary: s) (simp_all add: binit_step_def Let_def u)
  then show "disk0 (binit s) = disk0 s" "dwrites (binit s) = dwrites s" by (simp_all only: binit_def u)
  then show "on_disk (binit s) = on_disk s" by (simp add: on_disk_def)
qed

lemma booted_bc:
  assumes "booted s" "dev \<noteq> 0"
  shows "bc dev (binit s) {}" "brefs dev (binit s) = (\<lambda>_. 0)" "contents (binit s) dev = on_disk s"
proof -
  have h: "\<not> holds (binit s) b dev n" for b n using assms by (simp add: holds_def binit_fields booted_def)
  have "cache_inv (binit s)" using assms(1) by (intro binit_inv) (simp add: booted_def)
  then show "bc dev (binit s) {}"
    using assms by (auto simp: bc_def booted_def binit_fields sl_binit initsleeplock_def)
  show "brefs dev (binit s) = (\<lambda>_. 0)" using h by (intro ext brefs_none)
  have "contents (binit s) dev m = on_disk (binit s) m" for m using h by (intro contents_uncached) blast
  then show "contents (binit s) dev = on_disk s" by (intro ext) simp
qed

lemma initlog_rule:
  assumes bt: "booted t" and dev: "(word_of_int dev :: uint) \<noteq> 0"
    and hd: "head_ok bs (binit t\<lparr>log_start := sint (sb_logstart sb), log_size := sint (sb_nlog sb), log_dev := dev\<rparr>)"
  defines "s \<equiv> binit t\<lparr>log_start := sint (sb_logstart sb), log_size := sint (sb_nlog sb), log_dev := dev\<rparr>"
  obtains t' where "initlog dev sb (binit t) = Ret t'" "fresh t'" "lh_n t' = 0" "log_start t' = sint (sb_logstart sb)"
    "on_disk t' = image (on_disk t) (replay bs s @ [(sb_logstart sb, hdr [] (on_disk t (sb_logstart sb)))])"
proof -
  have cg: "bufs s = bufs (binit t)" "cur s = cur (binit t)" "ptable s = ptable (binit t)" "disk0 s = disk0 (binit t)" "dwrites s = dwrites (binit t)"
    by (simp_all add: s_def)
  have L: "log_dev s = dev" "log_start s = sint (sb_logstart sb)" by (simp_all add: s_def)
  have "fresh s" unfolding fresh_def L using bio_cong[OF cg] booted_bc[OF bt dev] by simp
  moreover have "initlog dev sb (binit t) = recover_from_log s" by (simp add: initlog_def LOGSIZE_def BSIZE_def s_def)
  moreover have S: "log_head s = sb_logstart sb" by (simp add: log_head_def s_def)
  ultimately show thesis
    using hd[folded s_def] bio_cong(4)[OF cg]
    by (elim recover_rule[of s bs]) (auto intro!: that simp: on_disk_def image_append cg L)
qed

subsection \<open>Writing a block inside a transaction\<close>

text \<open>The pattern every operation of the file system follows: read the block, change it, log it, release it.\<close>

definition txn_write :: "uint \<Rightarrow> cptr \<Rightarrow> 'a log_scheme \<Rightarrow> 'a log_scheme kres" where
  "txn_write n d s =
     kbind (bread (ldev s) n s) (\<lambda>(b, s).
     kbind (log_write b (set_data b d s)) (brelse b))"

lemma log_slot_pending:
  assumes "0 \<le> lh_n s"
  shows "n \<in> set (pending s) \<Longrightarrow> log_slot n s < nat (lh_n s) \<and> home s (log_slot n s) = n"
    and "n \<notin> set (pending s) \<Longrightarrow> log_slot n s = nat (lh_n s)"
proof -
  let ?f = "find (\<lambda>i. word_of_int (lh_block s i) = n) [0..<nat (lh_n s)]"
  show "log_slot n s < nat (lh_n s) \<and> home s (log_slot n s) = n" if "n \<in> set (pending s)"
  proof (cases ?f)
    case None
    with that show ?thesis by (auto simp: find_None_iff pending_def)
  next
    case (Some i)
    with find_holds[OF Some] show ?thesis by (simp add: log_slot_def home_def)
  qed
  show "log_slot n s = nat (lh_n s)" if "n \<notin> set (pending s)"
  proof -
    have "?f = None" using that by (auto simp: find_None_iff pending_def)
    then show ?thesis by (simp add: log_slot_def)
  qed
qed

lemma bpin_log [simp]:
  "lh_block (bpin b s) = lh_block s" "disk0 (bpin b s) = disk0 s" "dwrites (bpin b s) = dwrites s" "log_dev (bpin b s) = log_dev s"
  "log_start (bpin b s) = log_start s" "log_size (bpin b s) = log_size s" "log_outstanding (bpin b s) = log_outstanding s"
  by (simp_all add: bpin_def upd_buf_def)

text \<open>\<^verbatim>\<open>log_write\<close> on a buffer that is held: the block is in the log afterwards, and pinned once.\<close>

lemma log_write_rule:
  assumes bc: "bc dev s {b}" and n: "n = b_blockno (bufs s b)" and lh: "0 \<le> lh_n s" "lh_n s < int LOGSIZE - 1" "lh_n s < log_size s - 1"
    and o: "log_outstanding s \<ge> 1" and r: "brefs dev s n + 1 \<noteq> 0"
  obtains s' where "log_write b s = Ret s'" "bc dev s' {b}" "b_blockno (bufs s' b) = n" "contents s' dev = contents s dev"
    "brefs dev s' = (if n \<in> set (pending s) then brefs dev s else (brefs dev s)(n := brefs dev s n + 1))"
    "pending s' = (if n \<in> set (pending s) then pending s else pending s @ [n])" "0 \<le> lh_n s'" "lh_n s' = int (length (pending s'))"
    "disk0 s' = disk0 s" "dwrites s' = dwrites s" "log_dev s' = log_dev s" "log_start s' = log_start s"
    "log_size s' = log_size s" "log_outstanding s' = log_outstanding s"
proof -
  let ?i = "log_slot n s" let ?s1 = "s\<lparr>lh_block := (lh_block s)(?i := sint n)\<rparr>"
  note cg = bio_cong[of ?s1 s, simplified]
  have lw: "log_write b s = Ret (if int ?i = lh_n s then (bpin b ?s1)\<lparr>lh_n := lh_n s + 1\<rparr> else ?s1)"
    using lh o by (simp add: log_write_def Let_def n)
  note sl = log_slot_pending[OF lh(1), of n]
  show thesis
  proof (cases "n \<in> set (pending s)")
    case True
    with sl have i: "?i < nat (lh_n s)" "home s ?i = n" by auto
    have "pending ?s1 = pending s" using i by (auto simp: pending_def home_def)
    moreover have "int ?i \<noteq> lh_n s" using i by auto
    ultimately show thesis using True lw bc lh n cg by (intro that[of ?s1]) (simp_all add: pending_def)
  next
    case False
    with sl have i: "?i = nat (lh_n s)" by auto
    have b1: "bc dev ?s1 {b}" "b \<in> {b}" using bc cg by simp_all
    have rb: "brefs dev s n = b_refcnt (bufs s b)" using brefs_holder[OF bcD(2,3)[OF bc] holds_held[OF bc]] by (simp add: n)
    have e: "bpin b ?s1 = upd_buf b (\<lambda>x. x\<lparr>b_refcnt := b_refcnt (bufs s b) + 1\<rparr>) ?s1"
      unfolding bpin_def by (rule upd_buf_cong) simp
    have "b_refcnt (bufs s b) + 1 \<noteq> 0" using r rb by simp
    note pr = pin_rule[OF b1 this, folded e]
    let ?s2 = "(bpin b ?s1)\<lparr>lh_n := lh_n s + 1\<rparr>"
    have "nat (lh_n s + 1) = Suc (nat (lh_n s))" using lh(1) by simp
    then have "pending ?s2 = pending s @ [n]" using i by (auto simp: pending_def)
    then show thesis using False lw i lh pr rb cg n by (intro that[of ?s2]) (simp_all add: pending_def)
  qed
qed

lemma bufs_only_log:
  assumes "bufs_only s s'"
  shows "log_start s' = log_start s" "log_size s' = log_size s" "log_dev s' = log_dev s" "lh_n s' = lh_n s"
    "lh_block s' = lh_block s" "log_outstanding s' = log_outstanding s" "pending s' = pending s" "log_area s' = log_area s"
  using blk_onlyD[OF blk_only_bufs[OF assms]] by (simp_all add: pending_def log_area_def)

lemma txn_write_rule:
  assumes ready: "log_ready s" and lh: "lh_n s < int LOGSIZE - 1" "lh_n s < log_size s - 1" and o: "log_outstanding s \<ge> 1"
    and na: "n \<notin> log_area s"
  obtains s' where "txn_write n d s = Ret s'" "log_ready s'" "contents s' (ldev s) = (contents s (ldev s))(n := d)"
    "on_disk s' = on_disk s" "pending s' = (if n \<in> set (pending s) then pending s else pending s @ [n])"
    "log_start s' = log_start s" "log_dev s' = log_dev s"
proof -
  let ?D = "ldev s" let ?r = "brefs ?D s" let ?P = "set (pending s)"
  have bc: "bc ?D s {}" and h: "homes_ok s" and rf: "?r = (\<lambda>m. if m \<in> ?P then 1 else 0)" using ready by (auto simp: log_ready_def)
  have u: "{m. ?r m \<noteq> 0} = ?P" by (auto simp: rf)
  have room: "card {m. ?r m \<noteq> 0} < NBUF" using pending_card[OF h] unfolding u by (simp add: NBUF_def LOGSIZE_def)
  have "few ?D s" by (rule few_small) (simp add: rf)
  then obtain b s1 where r1: "bread ?D n s = Ret (b, s1)" and b1: "bc ?D s1 {b}" "b_blockno (bufs s1 b) = n"
    and c1: "contents s1 ?D = contents s ?D" and f1: "brefs ?D s1 = ?r(n := ?r n + 1)" and o1: "bufs_only s s1"
    by (rule bread_rule[OF bc _ _ disjI1[OF room], of n]) simp
  let ?s2 = "set_data b d s1"
  note sd = set_data_rule[OF b1(1), of b d, simplified]
  have n2: "n = b_blockno (bufs ?s2 b)" using sd(5) b1(2) by simp
  note L = bufs_only_log[OF bufs_only_trans[OF o1 sd(4)]] and OD = bufs_onlyD[OF bufs_only_trans[OF o1 sd(4)]]
  have "0 \<le> lh_n s" using h by (simp add: homes_ok_def)
  then obtain s3 where r3: "log_write b ?s2 = Ret s3" and b3: "bc ?D s3 {b}" "b_blockno (bufs s3 b) = n" and c3: "contents s3 ?D = contents ?s2 ?D"
    and f3: "brefs ?D s3 = (if n \<in> ?P then brefs ?D ?s2 else (brefs ?D ?s2)(n := brefs ?D ?s2 n + 1))"
    and p3: "pending s3 = (if n \<in> ?P then pending s else pending s @ [n])" "0 \<le> lh_n s3" "lh_n s3 = int (length (pending s3))"
    and k3: "disk0 s3 = disk0 s" "dwrites s3 = dwrites s" "log_dev s3 = log_dev s" "log_start s3 = log_start s"
    by (rule_tac log_write_rule[OF sd(1) n2, unfolded L OD]) (use lh o in \<open>auto simp: sd(3) f1 rf\<close>)
  have r3n: "brefs ?D s3 = ?r(n := 2)" unfolding f3 sd(3) f1 rf by (auto simp: fun_eq_iff)
  obtain s4 where r4: "brelse b s3 = Ret s4" and b4: "bc ?D s4 ({b} - {b})" and c4: "contents s4 ?D = contents s3 ?D"
    and f4: "brefs ?D s4 = (brefs ?D s3)(n := brefs ?D s3 n - 1)" and o4: "bufs_only s3 s4"
    by (rule brelse_rule[OF b3(1), of b, unfolded b3(2)]) (auto simp: r3n)
  note L4 = bufs_only_log[OF o4] and OD4 = bufs_onlyD[OF o4]
  have "log_area s4 = log_area s" by (simp add: L4 log_area_def k3)
  then have "homes_ok s4" using h na p3 lh by (auto simp: homes_ok_def L4 pending_def[of s])
  moreover have "brefs ?D s4 = (\<lambda>m. if m \<in> set (pending s4) then 1 else 0)"
    unfolding f4 r3n L4 p3 rf by (auto simp: fun_eq_iff)
  ultimately have "log_ready s4" using b4 k3(3) L4(3) by (simp add: log_ready_def)
  moreover have "txn_write n d s = Ret s4" using r1 r3 r4 by (simp add: txn_write_def)
  moreover have "on_disk s4 = on_disk s" using OD4(1) k3 by (simp add: on_disk_def)
  moreover have "contents s4 ?D = (contents s ?D)(n := d)" using c4 c3 sd(2) c1 n2 b1(2) by simp
  ultimately show thesis using L4 p3 k3 by (intro that[of s4]) simp_all
qed

text \<open>A machine with an empty disk, the log in blocks 2 to 31.\<close>

definition log_raw :: log where
  "log_raw = bio.extend (boot0\<lparr>disk0 := \<lambda>_ _. 0\<rparr>) \<lparr>log_start = 2, log_size = 30, log_outstanding = 1, log_committing = 0,
     log_dev = 1, lh_n = 0, lh_block = (\<lambda>_. 0)\<rparr>"

definition log0 :: log where
  "log0 = binit log_raw"

definition sb0 :: superblock where
  "sb0 = \<lparr>sb_magic = 0x10203040, sb_size = 2000, sb_nblocks = 1954, sb_ninodes = 200, sb_nlog = 30, sb_logstart = 2,
     sb_inodestart = 32, sb_bmapstart = 45\<rparr>"

lemma log_raw_simps [simp]:
  "bufs log_raw = (\<lambda>_. buf0)" "cur log_raw = Some 3" "disk0 log_raw = (\<lambda>_ _. 0)" "dwrites log_raw = []" "log_start log_raw = 2"
  "log_size log_raw = 30" "log_outstanding log_raw = 1" "log_dev log_raw = 1" "lh_n log_raw = 0"
  by (simp_all add: log_raw_def boot0_def bio.extend_def kernel.extend_def)

lemma binit_log [simp]:
  "log_start (binit s) = log_start s" "log_size (binit s) = log_size s" "log_outstanding (binit s) = log_outstanding s"
  "log_dev (binit s) = log_dev s" "lh_n (binit s) = lh_n s"
proof -
  have u: "log_start (upd_buf b f s) = log_start s" "log_size (upd_buf b f s) = log_size s" "log_outstanding (upd_buf b f s) = log_outstanding s"
    "log_dev (upd_buf b f s) = log_dev s" "lh_n (upd_buf b f s) = lh_n s" for b f and s :: "'a log_scheme"
    by (simp_all add: upd_buf_def)
  have "log_start (fold binit_step xs s) = log_start s \<and> log_size (fold binit_step xs s) = log_size s
     \<and> log_outstanding (fold binit_step xs s) = log_outstanding s \<and> log_dev (fold binit_step xs s) = log_dev s \<and> lh_n (fold binit_step xs s) = lh_n s"
    for xs and s :: "'a log_scheme"
    by (induction xs arbitrary: s) (simp_all add: binit_step_def Let_def u)
  then show "log_start (binit s) = log_start s" "log_size (binit s) = log_size s" "log_outstanding (binit s) = log_outstanding s"
    "log_dev (binit s) = log_dev s" "lh_n (binit s) = lh_n s" by (simp_all only: binit_def u)
qed

lemma log0_simps [simp]: "log_start log0 = 2" "log_size log0 = 30" "log_outstanding log0 = 1" "log_dev log0 = 1" "lh_n log0 = 0"
  "on_disk log0 = (\<lambda>_ _. 0)" "dwrites log0 = []" "disk0 log0 = (\<lambda>_ _. 0)"
  by (simp_all add: log0_def) (simp add: on_disk_def)

lemma booted_raw: "booted (log_raw\<lparr>disk0 := d, dwrites := []\<rparr>)" "booted log_raw"
  by (simp_all add: booted_def buf0_def)

lemma log0_ready: "log_ready log0"
  unfolding log_ready_def using booted_bc[OF booted_raw(2), of 1]
  by (auto simp: homes_ok_def pending_def log0_def[symmetric] LOGSIZE_def)

lemma log0_area: "45 \<notin> log_area log0"
proof
  assume "45 \<in> log_area log0"
  then obtain k where k: "k < LOGSIZE" "(45 :: uint) = word_of_int (2 + int k)" by (auto simp: log_area_def)
  have "word_of_int (2 + int k) = (of_nat (2 + k) :: uint)" by simp
  with k(2) have "unat (45 :: uint) = unat (of_nat (2 + k) :: uint)" by metis
  moreover have "unat (of_nat (2 + k) :: uint) = 2 + k" using k(1) by (subst unat_of_nat) (simp add: LOGSIZE_def)
  ultimately show False using k(1) by (simp add: LOGSIZE_def)
qed

lemma log1_ready:
  obtains s1 where "txn_write 45 (\<lambda>_. 7) log0 = Ret s1" "log_ready s1" "contents s1 1 45 = (\<lambda>_. 7)" "on_disk s1 = (\<lambda>_ _. 0)"
    "pending s1 = [45]" "log_start s1 = 2" "log_dev s1 = 1" "lh_n s1 = 1"
proof -
  have p0: "pending log0 = []" by (simp add: pending_def)
  obtain s1 where s1: "txn_write 45 (\<lambda>_. 7) log0 = Ret s1" "log_ready s1" "contents s1 (ldev log0) = (contents log0 (ldev log0))(45 := \<lambda>_. 7)"
    "on_disk s1 = on_disk log0" "pending s1 = (if 45 \<in> set (pending log0) then pending log0 else pending log0 @ [45])"
    "log_start s1 = log_start log0" "log_dev s1 = log_dev log0"
    by (rule txn_write_rule[OF log0_ready, of 45 "\<lambda>_. 7"]) (simp_all add: LOGSIZE_def log0_area)
  have "0 \<le> lh_n s1" using s1(2) by (simp add: log_ready_def homes_ok_def)
  moreover have "length (pending s1) = 1" using s1(5) p0 by simp
  ultimately have "lh_n s1 = 1" by (simp add: pending_def)
  then show thesis using s1 p0 by (intro that[of s1]) simp_all
qed

text \<open>C16. Inside a transaction with room for one more block, reading a block, changing it, logging it and releasing it
  succeeds: readers see the new contents at once, nothing is written to the disk, and the block is noted exactly once
  in the header in memory and pinned by exactly one reference, however often it is changed.
\<close>

theorem log_write_absorbs:
  assumes "log_ready s" "lh_n s < int LOGSIZE - 1" "lh_n s < log_size s - 1" "log_outstanding s \<ge> 1" "n \<notin> log_area s"
  shows "\<exists>s'. txn_write n d s = Ret s' \<and> log_ready s' \<and> contents s' (ldev s) = (contents s (ldev s))(n := d)
    \<and> on_disk s' = on_disk s \<and> pending s' = (if n \<in> set (pending s) then pending s else pending s @ [n])"
  using txn_write_rule[OF assms] by blast

theorem log_write_absorbs_witness:
  "\<exists>s1. txn_write 45 (\<lambda>_. 7) log0 = Ret s1 \<and> log_ready s1 \<and> pending s1 = [45] \<and> contents s1 1 45 = (\<lambda>_. 7)"
  using log_write_absorbs[OF log0_ready, of 45 "\<lambda>_. 7"] by (auto simp: LOGSIZE_def log0_area pending_def)

subsection \<open>A crash during \<^verbatim>\<open>commit\<close>\<close>

text \<open>The log between transactions: no home blocks in the header on the disk.\<close>

definition log_idle :: "'a log_scheme \<Rightarrow> bool" where
  "log_idle s \<longleftrightarrow> ld32 (on_disk s (log_head s)) 0 = 0"

definition after :: "'a log_scheme \<Rightarrow> uint \<Rightarrow> cptr" where
  "after s m = (if m \<in> set (pending s) then contents s (ldev s) m else on_disk s m)"

lemma to_log_area: "homes_ok s \<Longrightarrow> fst ` set (take k (to_log s (nat (lh_n s)))) \<subseteq> log_area s - {log_head s}"
proof -
  assume h: "homes_ok s"
  have "fst ` set (take k (to_log s (nat (lh_n s)))) \<subseteq> fst ` set (to_log s (nat (lh_n s)))"
    by (intro image_mono set_take_subset)
  then show ?thesis using homes_okD(2)[OF h] head_notin(1)[OF h] by (auto simp: to_log_fst)
qed

lemma to_log_outside:
  assumes "homes_ok s" "m \<notin> log_area s - {log_head s}"
  shows "image d (take k (to_log s (nat (lh_n s)))) m = d m" "image d (to_log s (nat (lh_n s))) m = d m"
proof -
  show *: "image d (take k (to_log s (nat (lh_n s)))) m = d m" for k
    using to_log_area[OF assms(1), of k] assms(2) by (intro image_other) blast
  show "image d (to_log s (nat (lh_n s))) m = d m" using *[of "nat (lh_n s)"] by (simp add: to_log_def)
qed

lemma new_blocks_fst: "fst ` set (new_blocks s) = set (pending s)"
  unfolding new_blocks_def image_fst_upt pending_home by (auto simp: lessThan_atLeast0)

lemma image_new_blocks:
  assumes "homes_ok s" "m \<in> set (pending s)"
  shows "image d (new_blocks s) m = contents s (ldev s) m"
proof -
  obtain i where i: "i < nat (lh_n s)" "m = home s i" using assms(2) by (auto simp: pending_home)
  have "distinct (map (home s) [0..<nat (lh_n s)])" using assms(1) by (simp add: homes_ok_def pending_home)
  from image_at[OF this i(1)] show ?thesis by (simp add: new_blocks_def i(2))
qed

lemma hdr_Nil: "hdr [] d = st32 0 0 d"
  by (simp add: hdr_def)

lemma hdr_blocks_zero: "ld32 d 0 = 0 \<Longrightarrow> hdr_blocks d = []"
  by (simp add: hdr_blocks_def)

lemma hdr_count: "length bs < LOGSIZE \<Longrightarrow> sint (ld32 (hdr bs d) 0) = int (length bs)"
  using sint_of_nat_small[of "length bs"] by (simp add: hdr_def hdr_fold LOGSIZE_def)

text \<open>What a prefix of the writes of \<^verbatim>\<open>commit\<close> leaves on the disk.\<close>

definition crash_disk :: "nat \<Rightarrow> 'a log_scheme \<Rightarrow> uint \<Rightarrow> cptr" where
  "crash_disk k s = image (on_disk s) (take k (commit_writes s))"

lemma crash_early:
  assumes "homes_ok s" "k \<le> nat (lh_n s)"
  shows "m \<notin> log_area s - {log_head s} \<Longrightarrow> crash_disk k s m = on_disk s m"
proof -
  have "take k (commit_writes s) = take k (to_log s (nat (lh_n s)))" using assms(2) by (simp add: commit_writes_def to_log_def)
  then show "m \<notin> log_area s - {log_head s} \<Longrightarrow> crash_disk k s m = on_disk s m"
    unfolding crash_disk_def using to_log_outside(1)[OF assms(1)] by simp
qed

lemma crash_middle:
  assumes h: "homes_ok s" and k: "nat (lh_n s) < k" "k \<le> 2 * nat (lh_n s) + 1"
  shows "crash_disk k s (log_head s) = new_header s"
    and "i < nat (lh_n s) \<Longrightarrow> crash_disk k s (log_blk i s) = contents s (ldev s) (home s i)"
    and "m \<notin> log_area s \<Longrightarrow> m \<notin> set (pending s) \<Longrightarrow> crash_disk k s m = on_disk s m"
proof -
  let ?n = "nat (lh_n s)" let ?d = "(image (on_disk s) (to_log s ?n))(log_head s := new_header s)"
  let ?w = "take (k - Suc ?n) (new_blocks s)"
  have "take k (commit_writes s) = to_log s ?n @ [(log_head s, new_header s)] @ ?w"
    using k by (simp add: commit_writes_def to_log_def new_blocks_def take_Cons')
  then have e: "crash_disk k s = image ?d ?w" by (simp only: crash_disk_def image_append image_one)
  have "fst ` set ?w \<subseteq> fst ` set (new_blocks s)" by (intro image_mono set_take_subset)
  then have w: "fst ` set ?w \<subseteq> set (pending s)" by (simp add: new_blocks_fst)
  have a: "crash_disk k s m = ?d m" if "m \<in> log_area s" for m
    unfolding e using w that h by (intro image_other) (auto simp: homes_ok_def)
  show "crash_disk k s (log_head s) = new_header s" using a[OF log_head_area] by simp
  show "crash_disk k s (log_blk i s) = contents s (ldev s) (home s i)" if "i < ?n"
    using a[OF homes_okD(2)[OF h that]] image_to_log[OF h that] homes_okD(8)[OF h that] by (simp add: log_head_def)
  assume m: "m \<notin> log_area s" "m \<notin> set (pending s)"
  then have "crash_disk k s m = ?d m" unfolding e using w by (intro image_other) auto
  also have "\<dots> = on_disk s m"
    using m(1) log_head_area[of s] to_log_outside(2)[OF h, of m] by auto
  finally show "crash_disk k s m = on_disk s m" .
qed

lemma crash_late:
  assumes h: "homes_ok s" and k: "2 * nat (lh_n s) + 1 < k"
  shows "crash_disk k s (log_head s) = hdr [] (new_header s)" and "m \<notin> log_area s \<Longrightarrow> crash_disk k s m = after s m"
proof -
  let ?n = "nat (lh_n s)" let ?d = "(image (on_disk s) (to_log s ?n))(log_head s := new_header s)"
  have "take k (commit_writes s) = commit_writes s" using k by (simp add: commit_writes_def to_log_def new_blocks_def)
  then have e: "crash_disk k s = (image ?d (new_blocks s))(log_head s := hdr [] (new_header s))"
    by (simp only: crash_disk_def commit_writes_def image_append image_one)
  show "crash_disk k s (log_head s) = hdr [] (new_header s)" by (simp add: e)
  assume m: "m \<notin> log_area s"
  have "image (on_disk s) (to_log s ?n) m = on_disk s m" using m to_log_outside(2)[OF h] by simp
  then show "crash_disk k s m = after s m"
    using m log_head_area[of s] image_new_blocks[OF h, of m ?d] image_other[of m "new_blocks s" ?d]
    by (auto simp: e after_def new_blocks_fst)
qed

lemma crash_head:
  fixes k :: nat
  assumes h: "homes_ok s" and idle: "log_idle s"
  defines "bs \<equiv> if nat (lh_n s) < k \<and> k \<le> 2 * nat (lh_n s) + 1 then pending s else []"
  shows "hdr_blocks (crash_disk k s (log_head s)) = bs" "0 \<le> sint (ld32 (crash_disk k s (log_head s)) 0)"
    and "m \<notin> log_area s \<Longrightarrow> image (crash_disk k s) (map (\<lambda>i. (bs ! i, crash_disk k s (log_blk i s))) [0..<length bs]) m =
      (if k \<le> nat (lh_n s) then on_disk s m else after s m)"
proof -
  have l: "length (pending s) < LOGSIZE" using h by (auto simp: homes_ok_def pending_def)
  consider "k \<le> nat (lh_n s)" | "nat (lh_n s) < k" "k \<le> 2 * nat (lh_n s) + 1" | "2 * nat (lh_n s) + 1 < k" by linarith
  then have "hdr_blocks (crash_disk k s (log_head s)) = bs \<and> 0 \<le> sint (ld32 (crash_disk k s (log_head s)) 0)
    \<and> (m \<notin> log_area s \<longrightarrow> image (crash_disk k s) (map (\<lambda>i. (bs ! i, crash_disk k s (log_blk i s))) [0..<length bs]) m =
      (if k \<le> nat (lh_n s) then on_disk s m else after s m))"
  proof cases
    case 1
    then show ?thesis using crash_early[OF h 1] idle by (simp add: bs_def log_idle_def hdr_blocks_zero)
  next
    case 2
    note M = crash_middle[OF h 2]
    have b: "bs = pending s" using 2 by (simp add: bs_def)
    have r: "map (\<lambda>i. (bs ! i, crash_disk k s (log_blk i s))) [0..<length bs] = new_blocks s"
      unfolding b by (auto simp: new_blocks_def pending_home M(2))
    have "image (crash_disk k s) (new_blocks s) m = after s m" if "m \<notin> log_area s"
      using image_new_blocks[OF h, of m "crash_disk k s"] image_other[of m "new_blocks s" "crash_disk k s"] M(3)[OF that]
      by (auto simp: after_def new_blocks_fst)
    then show ?thesis using 2 l M(1) hdr_count[OF l] unfolding r by (simp add: b new_header_def hdr_blocks_hdr)
  next
    case 3
    then show ?thesis using crash_late[OF h 3] by (simp add: bs_def hdr_Nil hdr_blocks_zero)
  qed
  then show "hdr_blocks (crash_disk k s (log_head s)) = bs" "0 \<le> sint (ld32 (crash_disk k s (log_head s)) 0)"
    and "m \<notin> log_area s \<Longrightarrow> image (crash_disk k s) (map (\<lambda>i. (bs ! i, crash_disk k s (log_blk i s))) [0..<length bs]) m =
      (if k \<le> nat (lh_n s) then on_disk s m else after s m)" by auto
qed

lemma recover_crash:
  assumes ready: "log_ready s" and idle: "log_idle s" and bt: "booted t" and d: "on_disk t = crash_disk k s"
    and start: "log_start s = sint (sb_logstart sb)"
  shows "\<exists>t'. initlog (log_dev s) sb (binit t) = Ret t' \<and> log_idle t'
     \<and> (\<forall>m. m \<notin> log_area s \<longrightarrow> on_disk t' m = (if k \<le> nat (lh_n s) then on_disk s m else after s m))"
proof -
  define u where "u = binit t\<lparr>log_start := sint (sb_logstart sb), log_size := sint (sb_nlog sb), log_dev := log_dev s\<rparr>"
  define bs where "bs = (if nat (lh_n s) < k \<and> k \<le> 2 * nat (lh_n s) + 1 then pending s else [])"
  have h: "homes_ok s" and dev: "ldev s \<noteq> 0" using ready by (auto simp: log_ready_def bc_def)
  have u: "log_head u = log_head s" "log_area u = log_area s" "log_blk i u = log_blk i s" "log_head s = sb_logstart sb" for i
    by (simp_all add: u_def log_head_def log_area_def log_blk_def start)
  have ud: "on_disk u = crash_disk k s"
    using bio_cong(4)[of u "binit t"] d by (simp add: u_def)
  note ch = crash_head[OF h idle, where k = k, folded bs_def]
  have "head_ok bs u"
    unfolding head_ok_def u(1-3) ud using h ch(1,2) by (auto simp: bs_def homes_ok_def pending_def LOGSIZE_def)
  then obtain t' where t': "initlog (log_dev s) sb (binit t) = Ret t'" "log_start t' = sint (sb_logstart sb)"
    "on_disk t' = image (on_disk t) (replay bs u @ [(sb_logstart sb, hdr [] (on_disk t (sb_logstart sb)))])"
    by (rule_tac initlog_rule[OF bt dev, of bs sb, folded u_def])
  have hd: "log_head t' = log_head s" using t'(2) by (simp add: log_head_def start)
  have od: "on_disk t' = (image (crash_disk k s) (map (\<lambda>i. (bs ! i, crash_disk k s (log_blk i s))) [0..<length bs]))
      (log_head s := hdr [] (crash_disk k s (log_head s)))"
    unfolding t'(3) d replay_def u(1-3) ud u(4)[symmetric] image_append image_one by simp
  have "log_idle t'" unfolding log_idle_def hd od by (simp add: hdr_Nil)
  moreover have "on_disk t' m = (if k \<le> nat (lh_n s) then on_disk s m else after s m)" if "m \<notin> log_area s" for m
    using ch(3)[OF that] that log_head_area[of s] unfolding od by auto
  ultimately show ?thesis using t'(1) by blast
qed

text \<open>C2. A transaction is atomic with respect to crashes.  \<^verbatim>\<open>commit\<close> returns; and if the machine stops after any
  number of the block writes it makes, then after the reboot \<^verbatim>\<open>initlog\<close> returns, and outside the log the disk is
  either exactly as before the transaction (as long as the header was not written) or exactly with all the blocks of
  the transaction in place (afterwards).  The log is empty again.
\<close>

theorem commit_crash_safe:
  fixes s :: "'a log_scheme"
  assumes "log_ready s" "0 < lh_n s" "log_idle s" "log_start s = sint (sb_logstart sb)"
  shows "\<exists>s'. commit s = Ret s' \<and>
    (\<forall>j\<ge>length (dwrites s). \<forall>t :: 'a log_scheme. booted t \<and> on_disk t = image (disk0 s) (take j (dwrites s')) \<longrightarrow>
       (\<exists>t'. initlog (log_dev s) sb (binit t) = Ret t' \<and> log_idle t' \<and>
          (\<forall>m. m \<notin> log_area s \<longrightarrow>
             on_disk t' m = (if j \<le> length (dwrites s) + nat (lh_n s) then on_disk s m else after s m))))"
proof -
  obtain s' where c: "commit s = Ret s'" and w: "dwrites s' = dwrites s @ commit_writes s"
    using commit_rule[OF assms(1,2)] by blast
  have "\<exists>t'. initlog (log_dev s) sb (binit t) = Ret t' \<and> log_idle t' \<and> (\<forall>m. m \<notin> log_area s \<longrightarrow>
             on_disk t' m = (if j \<le> length (dwrites s) + nat (lh_n s) then on_disk s m else after s m))"
    if j: "length (dwrites s) \<le> j" and t: "booted t" "on_disk t = image (disk0 s) (take j (dwrites s'))" for j and t :: "'a log_scheme"
  proof -
    have "on_disk t = crash_disk (j - length (dwrites s)) s"
      unfolding t(2) w crash_disk_def on_disk_def[of s] using j by (simp add: image_append)
    from recover_crash[OF assms(1,3) t(1) this assms(4)] show ?thesis using j by (simp add: le_diff_conv add.commute)
  qed
  with c show ?thesis by blast
qed

text \<open>One block committed, and a crash after two of the four writes, before the block is in its place.\<close>

theorem commit_crash_safe_witness:
  "\<exists>s1 s' t'. txn_write 45 (\<lambda>_. 7) log0 = Ret s1 \<and> commit s1 = Ret s'
     \<and> initlog 1 sb0 (binit (log_raw\<lparr>disk0 := image (disk0 s1) (take (length (dwrites s1) + 2) (dwrites s')), dwrites := []\<rparr>)) = Ret t'
     \<and> on_disk t' 45 = (\<lambda>_. 7)"
proof -
  obtain s1 where s1: "txn_write 45 (\<lambda>_. 7) log0 = Ret s1" "log_ready s1" "contents s1 1 45 = (\<lambda>_. 7)" "on_disk s1 = (\<lambda>_ _. 0)"
    "pending s1 = [45]" "log_start s1 = 2" "log_dev s1 = 1" "lh_n s1 = 1" by (rule log1_ready)
  have idle: "log_idle s1" by (simp add: log_idle_def s1(4) ld32_def eval_nat_numeral)
  have "log_area s1 = log_area log0" by (simp add: log_area_def s1(6))
  then have na: "45 \<notin> log_area s1" using log0_area by simp
  have "0 < lh_n s1" "log_start s1 = sint (sb_logstart sb0)" using s1 by (simp_all add: sb0_def)
  from commit_crash_safe[OF s1(2) this(1) idle this(2)] obtain s' where c: "commit s1 = Ret s'"
    and r: "\<And>j (t :: log). length (dwrites s1) \<le> j \<Longrightarrow> booted t \<Longrightarrow> on_disk t = image (disk0 s1) (take j (dwrites s')) \<Longrightarrow>
       \<exists>t'. initlog (log_dev s1) sb0 (binit t) = Ret t' \<and> log_idle t' \<and> (\<forall>m. m \<notin> log_area s1 \<longrightarrow>
          on_disk t' m = (if j \<le> length (dwrites s1) + nat (lh_n s1) then on_disk s1 m else after s1 m))" by blast
  let ?t = "log_raw\<lparr>disk0 := image (disk0 s1) (take (length (dwrites s1) + 2) (dwrites s')), dwrites := []\<rparr>"
  have "on_disk ?t = image (disk0 s1) (take (length (dwrites s1) + 2) (dwrites s'))" by (simp add: on_disk_def)
  from r[OF _ booted_raw(1) this] na show ?thesis using s1 c by (auto simp: after_def)
qed

end
