(* ===== verification/FsLayout.thy ===== *)
theory FsLayout
  imports Fs Recovery
begin

text \<open>
  The parts of the file system that are about representations: inodes in the bytes of a block, the free bitmap,
  directory entries, the elements of a path, and the table of in-memory inodes.
\<close>

subsection \<open>Inodes on the disk\<close>

lemma put_addrs_outside: "j < off + 12 \<or> off + 64 \<le> j \<Longrightarrow> put_addrs a off d j = d j"
proof -
  assume j: "j < off + 12 \<or> off + 64 \<le> j"
  have "fold (\<lambda>i. st32 (off + 12 + 4 * i) (a i)) [0..<k] d j = d j" if "k \<le> NDIRECT + 1" for k
    using that j by (induction k) (auto simp: st_outside NDIRECT_def)
  then show ?thesis unfolding put_addrs_def by blast
qed

lemma ld_put_addrs:
  "off' + 4 \<le> off + 12 \<Longrightarrow> ld32 (put_addrs a off d) off' = ld32 d off'"
  "off' + 2 \<le> off + 12 \<Longrightarrow> ld16 (put_addrs a off d) off' = ld16 d off'"
  by (simp_all add: ld32_def ld16_def le_get_cong[of _ _ "put_addrs a off d" d] put_addrs_outside)

lemma get_put_addrs: "i < NDIRECT + 1 \<Longrightarrow> get_addrs (put_addrs a off d) off i = a i"
proof -
  have "i < k \<Longrightarrow> ld32 (fold (\<lambda>i. st32 (off + 12 + 4 * i) (a i)) [0..<k] d) (off + 12 + 4 * i) = a i" for k
    by (induction k) (auto simp: ld_st_other less_Suc_eq)
  then show "i < NDIRECT + 1 \<Longrightarrow> get_addrs (put_addrs a off d) off i = a i"
    unfolding get_addrs_def put_addrs_def by blast
qed

lemma put_dinode_outside: "j < off \<or> off + 64 \<le> j \<Longrightarrow> put_dinode ip off d j = d j"
  by (auto simp: put_dinode_def put_addrs_outside st_outside)

lemma dinode_at_other:
  assumes "unat m mod IPB \<noteq> unat n mod IPB" "j < 64"
  shows "dinode_at m + j < dinode_at n \<or> dinode_at n + 64 \<le> dinode_at m + j"
  using assms unfolding dinode_at_def by (cases "unat m mod IPB < unat n mod IPB") linarith+

lemma get_dinode_cong: "(\<And>j. off \<le> j \<Longrightarrow> j < off + 64 \<Longrightarrow> d j = d' j) \<Longrightarrow> get_dinode d off ip = get_dinode d' off ip"
proof -
  assume a: "\<And>j. off \<le> j \<Longrightarrow> j < off + 64 \<Longrightarrow> d j = d' j"
  have l: "ld16 d (off + k) = ld16 d' (off + k)" if "k \<le> 62" for k
    using that a unfolding ld16_def by (intro le_get_cong) auto
  have m: "ld32 d (off + k) = ld32 d' (off + k)" if "k \<le> 60" for k
    using that a unfolding ld32_def by (intro le_get_cong) auto
  show ?thesis using l[of 0] l[of 2] l[of 4] l[of 6] m[of 8] m[of "12 + 4 * i" for i]
    by (auto simp: get_dinode_def get_addrs_def NDIRECT_def fun_eq_iff add.assoc)
qed

lemma get_put_dinode:
  "i_type (get_dinode (put_dinode ip off d) off x) = i_type ip" "i_major (get_dinode (put_dinode ip off d) off x) = i_major ip"
  "i_minor (get_dinode (put_dinode ip off d) off x) = i_minor ip" "i_nlink (get_dinode (put_dinode ip off d) off x) = i_nlink ip"
  "i_size (get_dinode (put_dinode ip off d) off x) = i_size ip"
  unfolding get_dinode_def put_dinode_def by (simp_all add: ld_put_addrs ld_st_other)

text \<open>C19. What \<^verbatim>\<open>iupdate\<close> writes is what \<^verbatim>\<open>ilock\<close> reads back: every field of the inode that lives on the disk, with
  all its block addresses, survives the encoding in its 64 bytes; and the other inodes of the same block are not
  touched.\<close>

theorem dinode_roundtrip:
  fixes ip x :: inode and d :: cptr
  assumes "unat m mod IPB \<noteq> unat n mod IPB"
  defines "d' \<equiv> put_dinode ip (dinode_at n) d"
  shows "i_type (get_dinode d' (dinode_at n) x) = i_type ip \<and> i_major (get_dinode d' (dinode_at n) x) = i_major ip
    \<and> i_minor (get_dinode d' (dinode_at n) x) = i_minor ip \<and> i_nlink (get_dinode d' (dinode_at n) x) = i_nlink ip
    \<and> i_size (get_dinode d' (dinode_at n) x) = i_size ip
    \<and> map (i_addrs (get_dinode d' (dinode_at n) x)) [0..<13] = map (i_addrs ip) [0..<13]
    \<and> get_dinode d' (dinode_at m) x = get_dinode d (dinode_at m) x"
proof -
  have "get_dinode d' (dinode_at m) x = get_dinode d (dinode_at m) x"
  proof (rule get_dinode_cong)
    fix j assume "dinode_at m \<le> j" "j < dinode_at m + 64"
    then show "d' j = d j" using dinode_at_other[OF assms(1), of "j - dinode_at m"]
      unfolding d'_def by (intro put_dinode_outside) auto
  qed
  moreover have "map (i_addrs (get_dinode d' (dinode_at n) x)) [0..<13] = map (i_addrs ip) [0..<13]"
    using get_put_addrs[of _ "i_addrs ip"] by (auto simp: d'_def put_dinode_def get_dinode_def NDIRECT_def)
  ultimately show ?thesis
    using get_put_dinode[of ip "dinode_at n" d x, folded d'_def] by blast
qed

definition inode0 :: inode where
  "inode0 = \<lparr>i_dev = 0, i_inum = 0, i_ref = 0, i_lock = initsleeplock, i_valid = 0, i_type = 0, i_major = 0, i_minor = 0,
     i_nlink = 0, i_size = 0, i_addrs = (\<lambda>_. 0)\<rparr>"

theorem dinode_roundtrip_witness:
  "i_size (get_dinode (put_dinode (inode0\<lparr>i_size := 70000\<rparr>) (dinode_at 3) (\<lambda>_. 9)) (dinode_at 3) inode0) = 70000
   \<and> get_dinode (put_dinode (inode0\<lparr>i_size := 70000\<rparr>) (dinode_at 3) (\<lambda>_. 9)) (dinode_at 4) inode0 = get_dinode (\<lambda>_. 9) (dinode_at 4) inode0"
  using dinode_roundtrip[of 4 3 "inode0\<lparr>i_size := 70000\<rparr>" "\<lambda>_. 9" inode0] by (simp add: IPB_def)

subsection \<open>The bitmap\<close>

lemma bit_bmask: "bit (bmask bi) k \<longleftrightarrow> k = bi mod 8"
  by (auto simp: bmask_def bit_exp_iff possible_bit_word)

lemma bit_free_iff: "bit_free d bi \<longleftrightarrow> \<not> bit (d (bi div 8)) (bi mod 8)"
proof
  assume "bit_free d bi"
  then have "\<not> bit (d (bi div 8) AND bmask bi) (bi mod 8)" by (simp add: bit_free_def)
  then show "\<not> bit (d (bi div 8)) (bi mod 8)" by (simp add: bit_and_iff bit_bmask)
next
  assume "\<not> bit (d (bi div 8)) (bi mod 8)"
  then show "bit_free d bi" unfolding bit_free_def by (intro bit_word_eqI) (auto simp: bit_and_iff bit_bmask)
qed

lemma bit_mark:
  "bit (mark_used bi d (k div 8)) (k mod 8) \<longleftrightarrow> k = bi \<or> bit (d (k div 8)) (k mod 8)"
  "bit (mark_free bi d (k div 8)) (k mod 8) \<longleftrightarrow> k \<noteq> bi \<and> bit (d (k div 8)) (k mod 8)"
proof -
  have k: "k = bi \<longleftrightarrow> k div 8 = bi div 8 \<and> k mod 8 = bi mod 8" by (metis mult_div_mod_eq)
  show "bit (mark_used bi d (k div 8)) (k mod 8) \<longleftrightarrow> k = bi \<or> bit (d (k div 8)) (k mod 8)"
    unfolding k by (auto simp: mark_used_def bit_or_iff bit_bmask)
  show "bit (mark_free bi d (k div 8)) (k mod 8) \<longleftrightarrow> k \<noteq> bi \<and> bit (d (k div 8)) (k mod 8)"
    unfolding k by (auto simp: mark_free_def bit_and_iff bit_not_iff bit_bmask possible_bit_word)
qed

lemma bit_free_mark [simp]:
  "bit_free (mark_used bi d) k \<longleftrightarrow> k \<noteq> bi \<and> bit_free d k"
  "bit_free (mark_free bi d) k \<longleftrightarrow> k = bi \<or> bit_free d k"
  by (auto simp: bit_free_iff bit_mark)

subsection \<open>Path names\<close>

text \<open>The elements of a path: what is between its slashes.\<close>

function elems :: "path \<Rightarrow> path list" where
  "elems p = (let q = dropWhile (\<lambda>c. c = slash) p in
     if q = [] then [] else takeWhile (\<lambda>c. c \<noteq> slash) q # elems (dropWhile (\<lambda>c. c \<noteq> slash) q))"
  by pat_completeness auto

termination
proof (relation "measure length", goal_cases)
  case (2 p q)
  then have "q = dropWhile (\<lambda>c. c = slash) p" "q \<noteq> []" by auto
  then have "hd q \<noteq> slash" using hd_dropWhile[of "\<lambda>c. c = slash" p] by simp
  then obtain c r where "q = c # r" "c \<noteq> slash" using \<open>q \<noteq> []\<close> by (cases q) auto
  then have "length (dropWhile (\<lambda>c. c \<noteq> slash) q) < length q" using length_dropWhile_le[of "\<lambda>c. c \<noteq> slash" r] by simp
  also have "length q \<le> length p" using \<open>q = dropWhile (\<lambda>c. c = slash) p\<close> by (simp add: length_dropWhile_le)
  finally show ?case by simp
qed simp

declare elems.simps [simp del]

lemma elems_slashes: "elems (dropWhile (\<lambda>c. c = slash) p) = elems p"
  by (simp add: elems.simps[of p] elems.simps[of "dropWhile (\<lambda>c. c = slash) p"])

text \<open>
  The buffer \<open>name\<close> holds the element \<open>e\<close>: its first \<^verbatim>\<open>DIRSIZ\<close> bytes, with a NUL after them if it is shorter than
  that.  The memory behind the \<^verbatim>\<open>DIRSIZ\<close> bytes of the buffer is as it was in \<open>old\<close>.
\<close>

definition holds_elem :: "cptr \<Rightarrow> cptr \<Rightarrow> path \<Rightarrow> bool" where
  "holds_elem old name e \<longleftrightarrow> (\<forall>j<min DIRSIZ (length e). name j = e ! j) \<and> (length e < DIRSIZ \<longrightarrow> name (length e) = 0)
     \<and> (\<forall>j\<ge>DIRSIZ. name j = old j)"

lemma holds_elem_trans: "holds_elem a b e \<Longrightarrow> holds_elem b = holds_elem a"
  by (simp add: holds_elem_def fun_eq_iff)

lemma skipelem_elems:
  "skipelem path name = None \<longleftrightarrow> elems path = []"
  "skipelem path name = Some (rest, name') \<Longrightarrow>
     \<exists>e. elems path = e # elems rest \<and> holds_elem name name' e \<and> (rest = [] \<longleftrightarrow> elems rest = [])"
proof -
  let ?q = "dropWhile (\<lambda>c. c = slash) path"
  show "skipelem path name = None \<longleftrightarrow> elems path = []" by (subst elems.simps) (simp add: skipelem_def Let_def)
  assume a: "skipelem path name = Some (rest, name')"
  define q where "q = ?q"
  define e where "e = takeWhile (\<lambda>c. c \<noteq> slash) q"
  have sk: "skipelem path name = (if q = [] then None else Some (dropWhile (\<lambda>c. c = slash) (dropWhile (\<lambda>c. c \<noteq> slash) q),
      if length e \<ge> DIRSIZ then blit name 0 (\<lambda>j. e ! j) DIRSIZ else (blit name 0 (\<lambda>j. e ! j) (length e))(length e := 0)))"
    unfolding skipelem_def Let_def q_def e_def by (rule refl)
  have q: "q \<noteq> []" using a sk by (cases "q = []") simp_all
  have r: "rest = dropWhile (\<lambda>c. c = slash) (dropWhile (\<lambda>c. c \<noteq> slash) q)"
    and n: "name' = (if length e \<ge> DIRSIZ then blit name 0 (\<lambda>j. e ! j) DIRSIZ else (blit name 0 (\<lambda>j. e ! j) (length e))(length e := 0))"
    using a q unfolding sk by simp_all
  have "elems path = (if q = [] then [] else e # elems (dropWhile (\<lambda>c. c \<noteq> slash) q))"
    by (subst elems.simps) (simp only: Let_def q_def e_def)
  then have "elems path = e # elems rest" unfolding r elems_slashes using q by simp
  moreover have "holds_elem name name' e" unfolding n holds_elem_def by (simp add: blit_def)
  moreover have "elems rest = [] \<longleftrightarrow> dropWhile (\<lambda>c. c = slash) rest = []" by (simp add: elems.simps[of rest] Let_def)
  then have "rest = [] \<longleftrightarrow> elems rest = []" unfolding r by simp
  ultimately show "\<exists>e. elems path = e # elems rest \<and> holds_elem name name' e \<and> (rest = [] \<longleftrightarrow> elems rest = [])" by blast
qed

text \<open>Iterating \<^verbatim>\<open>skipelem\<close>, as the loop of \<^verbatim>\<open>namex\<close> does: the contents of \<^verbatim>\<open>name\<close> after each call.\<close>

function path_names :: "path \<Rightarrow> cptr \<Rightarrow> cptr list" where
  "path_names path name = (case skipelem path name of None \<Rightarrow> [] | Some (rest, name') \<Rightarrow> name' # path_names rest name')"
  by pat_completeness auto

termination by (relation "measure (\<lambda>(path, name). length path)") (auto dest!: sym[of "Some _"] skipelem_shorter)

declare path_names.simps [simp del]

text \<open>C20. The loop over \<^verbatim>\<open>skipelem\<close> in \<^verbatim>\<open>namex\<close> visits exactly the elements of the path, in order, whatever the number
  of slashes between and around them: the \<open>k\<close>-th call leaves the \<open>k\<close>-th element in \<^verbatim>\<open>name\<close>, cut off after 14 bytes and
  followed by a NUL if it is shorter, and no call writes behind the 14 bytes of the buffer.\<close>

theorem skipelem_visits_elements: "list_all2 (holds_elem name) (path_names path name) (elems path)"
proof (induction path name rule: path_names.induct)
  case (1 path name)
  show ?case
  proof (cases "skipelem path name")
    case None
    then show ?thesis using skipelem_elems(1)[of path name] by (simp add: path_names.simps[of path name])
  next
    case (Some r)
    obtain rest name' where r: "r = (rest, name')" by fastforce
    from skipelem_elems(2)[OF Some[unfolded r]] obtain e where e: "elems path = e # elems rest" "holds_elem name name' e" by blast
    from 1[OF Some r[symmetric]] have "list_all2 (holds_elem name) (path_names rest name') (elems rest)"
      unfolding holds_elem_trans[OF e(2)] .
    with e Some r show ?thesis by (simp add: path_names.simps[of path name])
  qed
qed

subsection \<open>The table of in-memory inodes\<close>

text \<open>An inode that is in use has one entry.\<close>

definition itable_inv :: "'a fs_scheme \<Rightarrow> bool" where
  "itable_inv s \<longleftrightarrow> (\<forall>i<NINODE. i_ref (itable s i) \<ge> 0) \<and>
     (\<forall>i<NINODE. \<forall>j<NINODE. i_ref (itable s i) > 0 \<longrightarrow> i_ref (itable s j) > 0 \<longrightarrow> i_dev (itable s i) = i_dev (itable s j) \<longrightarrow>
        i_inum (itable s i) = i_inum (itable s j) \<longrightarrow> i = j)"

definition entry_for :: "uint \<Rightarrow> uint \<Rightarrow> inode \<Rightarrow> bool" where
  "entry_for dev inum x \<longleftrightarrow> i_ref x > 0 \<and> i_dev x = dev \<and> i_inum x = inum"

lemma itable_upd [simp]: "itable (upd_inode ip f s) i = (if i = ip then f (itable s ip) else itable s i)"
  by (simp add: upd_inode_def)

lemma find_upt:
  "find P [0..<n] = Some i \<Longrightarrow> i < n \<and> P i" "find P [0..<n] = None \<longleftrightarrow> (\<forall>i<n. \<not> P i)"
  using find_holds[of P "[0..<n]" i] by (auto simp: find_None_iff)

lemma iget_cases:
  "iget dev inum s =
     (case find (\<lambda>i. entry_for dev inum (itable s i)) [0..<NINODE] of
        Some ip \<Rightarrow> Ret (ip, upd_inode ip (\<lambda>x. x\<lparr>i_ref := i_ref x + 1\<rparr>) s)
      | None \<Rightarrow>
         (case find (\<lambda>i. i_ref (itable s i) = 0) [0..<NINODE] of
            None \<Rightarrow> Panic ''iget: no inodes''
          | Some ip \<Rightarrow> Ret (ip, upd_inode ip (\<lambda>x. x\<lparr>i_dev := dev, i_inum := inum, i_ref := 1, i_valid := 0\<rparr>) s)))"
  by (simp add: iget_def entry_for_def)

text \<open>C21. \<^verbatim>\<open>iget\<close> keeps one entry per inode: it returns the entry that is in use for the inode, with one more
  reference, when there is one, and otherwise an unused entry that no other user has, marked as not yet read; it
  panics exactly when every entry is in use for another inode.\<close>

theorem iget_one_entry:
  assumes "itable_inv s"
  shows "(case iget dev inum s of
      Ret (ip, s') \<Rightarrow> itable_inv s' \<and> ip < NINODE \<and> entry_for dev inum (itable s' ip)
        \<and> (\<forall>j<NINODE. entry_for dev inum (itable s j) \<longrightarrow> j = ip \<and> i_ref (itable s' ip) = i_ref (itable s j) + 1)
        \<and> ((\<forall>j<NINODE. \<not> entry_for dev inum (itable s j)) \<longrightarrow> i_ref (itable s' ip) = 1 \<and> i_valid (itable s' ip) = 0 \<and> i_ref (itable s ip) = 0)
        \<and> (\<forall>j. j \<noteq> ip \<longrightarrow> itable s' j = itable s j)
    | Panic m \<Rightarrow> \<forall>j<NINODE. i_ref (itable s j) \<noteq> 0 \<and> \<not> entry_for dev inum (itable s j)
    | _ \<Rightarrow> False)"
proof (cases "find (\<lambda>i. entry_for dev inum (itable s i)) [0..<NINODE]")
  case (Some ip)
  with find_upt(1)[OF Some] assms show ?thesis
    by (auto simp: iget_cases itable_inv_def entry_for_def)
next
  case None
  then have none: "\<forall>i<NINODE. \<not> entry_for dev inum (itable s i)" by (simp add: find_upt(2))
  show ?thesis
  proof (cases "find (\<lambda>i. i_ref (itable s i) = 0) [0..<NINODE]")
    case None2: None
    then have "\<forall>i<NINODE. i_ref (itable s i) \<noteq> 0" by (simp add: find_upt(2))
    then show ?thesis using None None2 none by (simp add: iget_cases)
  next
    case (Some ip)
    with find_upt(1)[OF Some] None none assms show ?thesis
      by (auto simp: iget_cases itable_inv_def entry_for_def)
  qed
qed

definition fs0 :: fs where
  "fs0 = log.extend log0 \<lparr>sb = sb0, itable = (\<lambda>_. inode0)\<rparr>"

lemma fs0_simps [simp]: "itable fs0 = (\<lambda>_. inode0)" "sb fs0 = sb0"
  by (simp_all add: fs0_def log.extend_def)

lemma iget_fs0: "iget dev inum fs0 = Ret (0, upd_inode 0 (\<lambda>x. x\<lparr>i_dev := dev, i_inum := inum, i_ref := 1, i_valid := 0\<rparr>) fs0)"
proof -
  have "find (\<lambda>i. i_ref (itable fs0 i) = 0) [0..<NINODE] = Some 0" by (simp add: inode0_def NINODE_def upt_conv_Cons)
  moreover have "find (\<lambda>i. entry_for dev inum (itable fs0 i)) [0..<NINODE] = None"
    by (simp add: find_upt(2) entry_for_def inode0_def)
  ultimately show ?thesis by (simp add: iget_cases)
qed

theorem iget_one_entry_witness:
  "\<exists>s'. iget 1 1 fs0 = Ret (0, s') \<and> itable_inv s' \<and> entry_for 1 1 (itable s' 0) \<and> i_valid (itable s' 0) = 0"
proof -
  have "itable_inv fs0" by (simp add: itable_inv_def inode0_def)
  from iget_one_entry[OF this, of 1 1] show ?thesis by (simp add: iget_fs0 entry_for_def)
qed

end
