(* ===== verification/Pipe.thy ===== *)
theory Pipe
  imports Fs Fifo
begin

text \<open>
  \<^verbatim>\<open>kernel/pipe.c\<close> without \<^verbatim>\<open>pipealloc\<close>, which needs the file table.  A pipe is named by the address of the page it
  lives in.  The section of a loop between two calls of \<^verbatim>\<open>sleep\<close> runs under the lock of the pipe; what other
  processes do while this one sleeps is the parameter \<open>swtch\<close> of \<^verbatim>\<open>sleep\<close>.
\<close>

definition PIPESIZE :: nat where "PIPESIZE = 512"

record pipe =
  pi_data :: "nat \<Rightarrow> uchar"
  pi_nread :: uint
  pi_nwrite :: uint
  pi_readopen :: int
  pi_writeopen :: int

datatype ftype = FD_NONE | FD_PIPE | FD_INODE | FD_DEVICE

record kfile =
  f_type :: ftype
  f_ref :: int
  f_readable :: uchar
  f_writable :: uchar
  f_pipe :: u64
  f_ip :: "nat option"
  f_off :: uint
  f_major :: ushort

record files = fs +
  pipes :: "u64 \<Rightarrow> pipe"
  ftable :: "nat \<Rightarrow> kfile"

definition upd_pipe :: "u64 \<Rightarrow> (pipe \<Rightarrow> pipe) \<Rightarrow> 'a files_scheme \<Rightarrow> 'a files_scheme" where
  "upd_pipe pi f s = s\<lparr>pipes := (pipes s)(pi := f (pipes s pi))\<rparr>"

definition pipe_put :: "uchar \<Rightarrow> pipe \<Rightarrow> pipe" where
  "pipe_put ch p = p\<lparr>pi_data := (pi_data p)(unat (pi_nwrite p) mod PIPESIZE := ch), pi_nwrite := pi_nwrite p + 1\<rparr>"

definition pipe_get :: "pipe \<Rightarrow> uchar \<times> pipe" where
  "pipe_get p = (pi_data p (unat (pi_nread p) mod PIPESIZE), p\<lparr>pi_nread := pi_nread p + 1\<rparr>)"

definition pipe_full :: "pipe \<Rightarrow> bool" where
  "pipe_full p \<longleftrightarrow> pi_nwrite p = pi_nread p + of_nat PIPESIZE"

definition pipe_empty :: "pipe \<Rightarrow> bool" where
  "pipe_empty p \<longleftrightarrow> pi_nread p = pi_nwrite p"

definition pipeclose :: "u64 \<Rightarrow> bool \<Rightarrow> 'a files_scheme \<Rightarrow> 'a files_scheme kres" where
  "pipeclose pi writable s =
     (let s = if writable then wakeup (Ch_pipe_nread pi) (upd_pipe pi (pi_writeopen_update (\<lambda>_. 0)) s)
              else wakeup (Ch_pipe_nwrite pi) (upd_pipe pi (pi_readopen_update (\<lambda>_. 0)) s)
      in if pi_readopen (pipes s pi) = 0 \<and> pi_writeopen (pipes s pi) = 0 then kfree pi s else Ret s)"

partial_function (option) pipewrite_loop ::
  "('a files_scheme \<Rightarrow> 'a files_scheme kres) \<Rightarrow> nat \<Rightarrow> u64 \<Rightarrow> u64 \<Rightarrow> int \<Rightarrow> int \<Rightarrow> 'a files_scheme \<Rightarrow> (int \<times> 'a files_scheme) kres option"
where
  "pipewrite_loop swtch pr pi addr n i s =
     (if i < n then
        if pi_readopen (pipes s pi) = 0 \<or> killed pr s \<noteq> 0 then Some (Ret (-1, s))
        else if pipe_full (pipes s pi) then
          obind (sleep swtch (Ch_pipe_nwrite pi) (wakeup (Ch_pipe_nread pi) s)) (pipewrite_loop swtch pr pi addr n i)
        else
          obind (copyin (p_pagetable (ptable s pr)) (\<lambda>_. 0) (addr + word_of_int i) 1 s) (\<lambda>(r, ch).
            if r = -1 then Some (Ret (i, wakeup (Ch_pipe_nread pi) s))
            else pipewrite_loop swtch pr pi addr n (i + 1) (upd_pipe pi (pipe_put (ch 0)) s))
      else Some (Ret (i, wakeup (Ch_pipe_nread pi) s)))"

definition pipewrite :: "('a files_scheme \<Rightarrow> 'a files_scheme kres) \<Rightarrow> u64 \<Rightarrow> u64 \<Rightarrow> int \<Rightarrow> 'a files_scheme \<Rightarrow> (int \<times> 'a files_scheme) kres" where
  "pipewrite swtch pi addr n = with_cur (\<lambda>pr s. returns (pipewrite_loop swtch pr pi addr n 0 s))"

partial_function (option) piperead_wait ::
  "('a files_scheme \<Rightarrow> 'a files_scheme kres) \<Rightarrow> nat \<Rightarrow> u64 \<Rightarrow> 'a files_scheme \<Rightarrow> (bool \<times> 'a files_scheme) kres option" where
  "piperead_wait swtch pr pi s =
     (if pipe_empty (pipes s pi) \<and> pi_writeopen (pipes s pi) \<noteq> 0 then
        if killed pr s \<noteq> 0 then Some (Ret (False, s))
        else obind (sleep swtch (Ch_pipe_nread pi) s) (piperead_wait swtch pr pi)
      else Some (Ret (True, s)))"

fun piperead_copy :: "nat \<Rightarrow> u64 \<Rightarrow> u64 \<Rightarrow> nat \<Rightarrow> int \<Rightarrow> 'a files_scheme \<Rightarrow> (int \<times> 'a files_scheme) kres" where
  "piperead_copy pr pi addr 0 i s = Ret (i, s)"
| "piperead_copy pr pi addr (Suc k) i s =
     (if pipe_empty (pipes s pi) then Ret (i, s)
      else let (ch, p) = pipe_get (pipes s pi); s = upd_pipe pi (\<lambda>_. p) s in
        kbind (copyout (p_pagetable (ptable s pr)) (addr + word_of_int i) (\<lambda>_. ch) 1 s) (\<lambda>(r, s).
          if r = -1 then Ret (i, s) else piperead_copy pr pi addr k (i + 1) s))"

definition piperead :: "('a files_scheme \<Rightarrow> 'a files_scheme kres) \<Rightarrow> u64 \<Rightarrow> u64 \<Rightarrow> int \<Rightarrow> 'a files_scheme \<Rightarrow> (int \<times> 'a files_scheme) kres" where
  "piperead swtch pi addr n = with_cur (\<lambda>pr s.
     kbind (returns (piperead_wait swtch pr pi s)) (\<lambda>(ready, s).
       if \<not> ready then Ret (-1, s)
       else kbind (piperead_copy pr pi addr (nat n) 0 s) (\<lambda>(i, s). Ret (i, wakeup (Ch_pipe_nwrite pi) s))))"

end
