(* ===== verification/File.thy ===== *)
theory File
  imports Pipe
begin

text \<open>
  \<^verbatim>\<open>kernel/file.c\<close> and \<^verbatim>\<open>pipealloc\<close> of \<^verbatim>\<open>kernel/pipe.c\<close>.  A \<^verbatim>\<open>struct file *\<close> is an index of the file table.  The device
  table \<^verbatim>\<open>devsw\<close> holds functions of the kernel state and is a parameter of the operations that call through it.
\<close>

definition NFILE :: nat where "NFILE = 100"
definition NOFILE :: nat where "NOFILE = 16"
definition NDEV :: int where "NDEV = 10"

definition upd_file :: "nat \<Rightarrow> (kfile \<Rightarrow> kfile) \<Rightarrow> 'a files_scheme \<Rightarrow> 'a files_scheme" where
  "upd_file f g s = s\<lparr>ftable := (ftable s)(f := g (ftable s f))\<rparr>"

definition filealloc :: "'a files_scheme \<Rightarrow> nat option \<times> 'a files_scheme" where
  "filealloc s =
     (case find (\<lambda>f. f_ref (ftable s f) = 0) [0..<NFILE] of
        None \<Rightarrow> (None, s)
      | Some f \<Rightarrow> (Some f, upd_file f (f_ref_update (\<lambda>_. 1)) s))"

definition filedup :: "nat \<Rightarrow> 'a files_scheme \<Rightarrow> 'a files_scheme kres" where
  "filedup f s =
     (if f_ref (ftable s f) < 1 then Panic ''filedup''
      else Ret (upd_file f (f_ref_update (\<lambda>n. n + 1)) s))"

text \<open>Dropping the last reference releases what the file stands for.\<close>

definition fileclose :: "nat \<Rightarrow> 'a files_scheme \<Rightarrow> 'a files_scheme kres" where
  "fileclose f s =
     (if f_ref (ftable s f) < 1 then Panic ''fileclose''
      else let s = upd_file f (f_ref_update (\<lambda>n. n - 1)) s in
        if f_ref (ftable s f) > 0 then Ret s
        else let ff = ftable s f; s = upd_file f (\<lambda>x. x\<lparr>f_ref := 0, f_type := FD_NONE\<rparr>) s in
          if f_type ff = FD_PIPE then pipeclose (f_pipe ff) (f_writable ff \<noteq> 0) s
          else if f_type ff = FD_INODE \<or> f_type ff = FD_DEVICE then
            kbind (begin_op s) (\<lambda>s.
              case f_ip ff of None \<Rightarrow> Fault ''iput'' | Some ip \<Rightarrow> kbind (iput ip s) end_op)
          else Ret s)"

text \<open>
  \<^verbatim>\<open>struct stat\<close> as \<^verbatim>\<open>copyout\<close> sees it: 24 bytes, of which the bytes 12 to 15 are padding and keep what was on the
  kernel stack.
\<close>

definition put_stat :: "stat \<Rightarrow> cptr \<Rightarrow> cptr" where
  "put_stat st = le_put 8 (st_size st) 16 \<circ> st16 10 (st_nlink st) \<circ> st16 8 (st_type st) \<circ> st32 4 (st_ino st)
     \<circ> st32 0 (word_of_int (st_dev st))"

definition filestat :: "cptr \<Rightarrow> nat \<Rightarrow> u64 \<Rightarrow> 'a files_scheme \<Rightarrow> (int \<times> 'a files_scheme) kres" where
  "filestat stack f addr = with_cur (\<lambda>p s.
     if f_type (ftable s f) = FD_INODE \<or> f_type (ftable s f) = FD_DEVICE then
       case f_ip (ftable s f) of None \<Rightarrow> Panic ''ilock'' | Some ip \<Rightarrow>
         kbind (ilock (Some ip) s) (\<lambda>s. let st = stati ip s in
         kbind (iunlock (Some ip) s) (\<lambda>s.
         kbind (copyout (p_pagetable (ptable s p)) addr (put_stat st stack) 24 s) (\<lambda>(r, s).
           Ret (if r < 0 then -1 else 0, s))))
     else Ret (-1, s))"

type_synonym 's dev_op = "bool \<Rightarrow> u64 \<Rightarrow> int \<Rightarrow> 's \<Rightarrow> (int \<times> 's) kres"

record 's devsw =
  d_read :: "'s dev_op option"
  d_write :: "'s dev_op option"

definition dev_op :: "('s devsw \<Rightarrow> 's dev_op option) \<Rightarrow> (nat \<Rightarrow> 's devsw) \<Rightarrow> ushort \<Rightarrow> 's dev_op option" where
  "dev_op sel devsw major = (if sint major < 0 \<or> sint major \<ge> NDEV then None else sel (devsw (unat major)))"

definition fileread ::
  "('a files_scheme \<Rightarrow> 'a files_scheme kres) \<Rightarrow> (nat \<Rightarrow> 'a files_scheme devsw) \<Rightarrow> nat \<Rightarrow> u64 \<Rightarrow> int \<Rightarrow> 'a files_scheme \<Rightarrow> (int \<times> 'a files_scheme) kres" where
  "fileread swtch devsw f addr n s =
     (let x = ftable s f in
      if f_readable x = 0 then Ret (-1, s)
      else case f_type x of
        FD_PIPE \<Rightarrow> piperead swtch (f_pipe x) addr n s
      | FD_DEVICE \<Rightarrow> (case dev_op d_read devsw (f_major x) of None \<Rightarrow> Ret (-1, s) | Some rd \<Rightarrow> rd True addr n s)
      | FD_INODE \<Rightarrow>
          (case f_ip x of None \<Rightarrow> Panic ''ilock'' | Some ip \<Rightarrow>
             kbind (ilock (Some ip) s) (\<lambda>s.
             kbind (readi ip (Sink True addr) (f_off (ftable s f)) (word_of_int n) s) (\<lambda>(r, v, s).
             let s = if r > 0 then upd_file f (f_off_update (\<lambda>off. off + word_of_int r)) s else s in
             kbind (iunlock (Some ip) s) (\<lambda>s. Ret (r, s)))))
      | FD_NONE \<Rightarrow> Panic ''fileread'')"

text \<open>
  A write to an inode goes in pieces of at most three blocks, each a transaction of its own, so that a piece with its
  inode, indirect block and allocation blocks fits into the log.
\<close>

definition max_write :: int where
  "max_write = ((MAXOPBLOCKS - 1 - 1 - 2) div 2) * int BSIZE"

function filewrite_loop :: "nat \<Rightarrow> nat \<Rightarrow> u64 \<Rightarrow> int \<Rightarrow> int \<Rightarrow> 'a files_scheme \<Rightarrow> (int \<times> 'a files_scheme) kres" where
  "filewrite_loop f ip addr n i s =
     (if i < n then
        let n1 = min (n - i) max_write in
        kbind (begin_op s) (\<lambda>s.
        kbind (ilock (Some ip) s) (\<lambda>s.
        kbind (writei ip (Source True (addr + word_of_int i)) (f_off (ftable s f)) (word_of_int n1) s) (\<lambda>(r, s).
        let s = if r > 0 then upd_file f (f_off_update (\<lambda>off. off + word_of_int r)) s else s in
        kbind (iunlock (Some ip) s) (\<lambda>s.
        kbind (end_op s) (\<lambda>s.
        if r \<noteq> n1 then Ret (i, s) else filewrite_loop f ip addr n (i + n1) s)))))
      else Ret (i, s))"
  by pat_completeness auto

termination
  by (relation "measure (\<lambda>(f, ip, addr, n, i, s). nat (n - i))") (auto simp: max_write_def MAXOPBLOCKS_def BSIZE_def)

declare filewrite_loop.simps [simp del]

definition filewrite ::
  "('a files_scheme \<Rightarrow> 'a files_scheme kres) \<Rightarrow> (nat \<Rightarrow> 'a files_scheme devsw) \<Rightarrow> nat \<Rightarrow> u64 \<Rightarrow> int \<Rightarrow> 'a files_scheme \<Rightarrow> (int \<times> 'a files_scheme) kres" where
  "filewrite swtch devsw f addr n s =
     (let x = ftable s f in
      if f_writable x = 0 then Ret (-1, s)
      else case f_type x of
        FD_PIPE \<Rightarrow> pipewrite swtch (f_pipe x) addr n s
      | FD_DEVICE \<Rightarrow> (case dev_op d_write devsw (f_major x) of None \<Rightarrow> Ret (-1, s) | Some wr \<Rightarrow> wr True addr n s)
      | FD_INODE \<Rightarrow>
          (case f_ip x of
             None \<Rightarrow> if 0 < n then kbind (begin_op s) (\<lambda>s. Panic ''ilock'') else Ret (if n = 0 then n else -1, s)
           | Some ip \<Rightarrow> kbind (filewrite_loop f ip addr n 0 s) (\<lambda>(i, s). Ret (if i = n then n else -1, s)))
      | FD_NONE \<Rightarrow> Panic ''filewrite'')"

subsection \<open>Making a pipe\<close>

definition pipe_fields :: "pipe \<Rightarrow> pipe" where
  "pipe_fields p = p\<lparr>pi_readopen := 1, pi_writeopen := 1, pi_nwrite := 0, pi_nread := 0\<rparr>"

definition close_opt :: "nat option \<Rightarrow> 'a files_scheme \<Rightarrow> 'a files_scheme kres" where
  "close_opt f s = (case f of None \<Rightarrow> Ret s | Some f \<Rightarrow> fileclose f s)"

definition pipealloc :: "'a files_scheme \<Rightarrow> ((nat \<times> nat) option \<times> 'a files_scheme) kres" where
  "pipealloc s =
     (let (f0, s) = filealloc s in
      case f0 of None \<Rightarrow> Ret (None, s) | Some f0 \<Rightarrow>
        let (f1, s) = filealloc s in
        case f1 of None \<Rightarrow> kbind (close_opt (Some f0) s) (\<lambda>s. Ret (None, s)) | Some f1 \<Rightarrow>
          kbind (kalloc s) (\<lambda>(pi, s).
          if pi = 0 then kbind (close_opt (Some f0) s) (\<lambda>s. kbind (close_opt (Some f1) s) (\<lambda>s. Ret (None, s)))
          else let s = upd_pipe pi pipe_fields s;
                   s = upd_file f0 (\<lambda>f. f\<lparr>f_type := FD_PIPE, f_readable := 1, f_writable := 0, f_pipe := pi\<rparr>) s;
                   s = upd_file f1 (\<lambda>f. f\<lparr>f_type := FD_PIPE, f_readable := 0, f_writable := 1, f_pipe := pi\<rparr>) s
               in Ret (Some (f0, f1), s)))"

end
