(* ===== verification/ProcLife.thy ===== *)
theory ProcLife
  imports File
begin

text \<open>
  The life of a process, \<^verbatim>\<open>kernel/proc.c\<close>: \<^verbatim>\<open>userinit\<close>, \<^verbatim>\<open>fork\<close>, \<^verbatim>\<open>exit\<close>, \<^verbatim>\<open>wait\<close> and \<^verbatim>\<open>waitx\<close>.  \<^verbatim>\<open>wait\<close> scans the process
  table under \<^verbatim>\<open>wait_lock\<close> and sleeps between two scans; its loop may run for ever, so the result is optional.
\<close>

definition initcode :: "uchar list" where
  "initcode = [0x17, 0x05, 0x00, 0x00, 0x13, 0x05, 0x45, 0x02, 0x97, 0x05, 0x00, 0x00, 0x93, 0x85, 0x35, 0x02,
     0x93, 0x08, 0x70, 0x00, 0x73, 0x00, 0x00, 0x00, 0x93, 0x08, 0x20, 0x00, 0x73, 0x00, 0x00, 0x00,
     0xef, 0xf0, 0x9f, 0xff, 0x2f, 0x69, 0x6e, 0x69, 0x74, 0x00, 0x00, 0x24, 0x00, 0x00, 0x00, 0x00,
     0x00, 0x00, 0x00, 0x00]"

definition cstr :: "uchar list \<Rightarrow> cptr" where
  "cstr xs = (\<lambda>j. if j < length xs then xs ! j else 0)"

definition DEFAULT_TICKETS :: int where "DEFAULT_TICKETS = 1"

text \<open>The text ''initcode''.\<close>

definition initcode_name :: "uchar list" where
  "initcode_name = [105, 110, 105, 116, 99, 111, 100, 101]"

definition userinit :: "'a files_scheme \<Rightarrow> 'a files_scheme kres" where
  "userinit s =
     kbind (allocproc s) (\<lambda>(p, s).
     let s = s\<lparr>initproc := p\<rparr> in
     case p of None \<Rightarrow> Fault ''userinit'' | Some i \<Rightarrow>
       kbind (uvmfirst (p_pagetable (ptable s i)) (cstr initcode) (of_nat (length initcode)) s) (\<lambda>s.
       let s = upd_proc i (p_sz_update (\<lambda>_. PGSIZE)) s;
           s = tf_set Sp PGSIZE i (tf_set Epc 0 i s);
           s = upd_proc i (p_name_update (\<lambda>nm. safestrcpy nm (cstr initcode_name) 16)) s in
       kbind (namei [slash] s) (\<lambda>(cwd, s).
       Ret (upd_proc i (\<lambda>p. p\<lparr>p_cwd := cwd, p_state := RUNNABLE, p_tickets := DEFAULT_TICKETS\<rparr>) s))))"

text \<open>The loop of \<^verbatim>\<open>fork\<close> over the descriptors.\<close>

definition inherit_fd :: "nat \<Rightarrow> nat \<Rightarrow> nat \<Rightarrow> 'a files_scheme \<Rightarrow> 'a files_scheme kres" where
  "inherit_fd p np fd s =
     (case p_ofile (ptable s p) fd of None \<Rightarrow> Ret s
      | Some f \<Rightarrow> kbind (filedup f s) (\<lambda>s. Ret (upd_proc np (p_ofile_update (\<lambda>fds. fds(fd := Some f))) s)))"

text \<open>The assignments of \<^verbatim>\<open>fork\<close> before and after the loop over the descriptors.\<close>

definition fork_state :: "nat \<Rightarrow> nat \<Rightarrow> 'a files_scheme \<Rightarrow> 'a files_scheme" where
  "fork_state p np s =
     (let s = upd_proc np (p_sz_update (\<lambda>_. p_sz (ptable s p))) s;
          s = s\<lparr>mem := memmove (mem s) (p_trapframe (ptable s np)) (p_trapframe (ptable s p)) 288\<rparr>;
          s = upd_proc np (\<lambda>x. x\<lparr>p_tickets := p_tickets (ptable s p), p_trace_mask := p_trace_mask (ptable s p)\<rparr>) s
      in tf_set A0 0 np s)"

definition fork_publish :: "nat \<Rightarrow> nat \<Rightarrow> nat \<Rightarrow> 'a files_scheme \<Rightarrow> int \<times> 'a files_scheme" where
  "fork_publish p np cwd s =
     (let s = upd_proc np (p_cwd_update (\<lambda>_. Some cwd)) (idup cwd s);
          s = upd_proc np (p_name_update (\<lambda>nm. safestrcpy nm (p_name (ptable s p)) 16)) s;
          pid = p_pid (ptable s np);
          s = upd_proc np (p_parent_update (\<lambda>_. Some p)) s;
          s = upd_proc np (p_state_update (\<lambda>_. RUNNABLE)) s
      in (pid, s))"

definition fork :: "'a files_scheme \<Rightarrow> (int \<times> 'a files_scheme) kres" where
  "fork = with_cur (\<lambda>p s.
     kbind (allocproc s) (\<lambda>(np, s).
     case np of None \<Rightarrow> Ret (-1, s) | Some np \<Rightarrow>
       kbind (uvmcopy (p_pagetable (ptable s p)) (p_pagetable (ptable s np)) (p_sz (ptable s p)) s) (\<lambda>(r, s).
       if r < 0 then kbind (freeproc np s) (\<lambda>s. Ret (-1, s))
       else
         kbind (kfold (inherit_fd p np) [0..<NOFILE] (fork_state p np s)) (\<lambda>s.
         case p_cwd (ptable s p) of None \<Rightarrow> Fault ''idup'' | Some cwd \<Rightarrow> Ret (fork_publish p np cwd s)))))"

text \<open>\<^verbatim>\<open>wakeup\<close> of a pointer that may be null.\<close>

definition wakeup_ptr :: "chan option \<Rightarrow> 'a kernel_scheme \<Rightarrow> 'a kernel_scheme" where
  "wakeup_ptr c = fold (\<lambda>i s.
     if Some i \<noteq> myproc s \<and> p_state (ptable s i) = SLEEPING \<and> p_chan (ptable s i) = c
     then upd_proc i (p_state_update (\<lambda>_. RUNNABLE)) s else s) [0..<NPROC]"

definition reparent_one :: "nat \<Rightarrow> nat \<Rightarrow> 'a kernel_scheme \<Rightarrow> 'a kernel_scheme" where
  "reparent_one p pp s =
     (if p_parent (ptable s pp) = Some p
      then wakeup_ptr (map_option Ch_proc (initproc s)) (upd_proc pp (p_parent_update (\<lambda>_. initproc s)) s) else s)"

definition reparent :: "nat \<Rightarrow> 'a kernel_scheme \<Rightarrow> 'a kernel_scheme" where
  "reparent p s = fold (reparent_one p) [0..<NPROC] s"

definition close_fd :: "nat \<Rightarrow> nat \<Rightarrow> 'a files_scheme \<Rightarrow> 'a files_scheme kres" where
  "close_fd p fd s =
     (case p_ofile (ptable s p) fd of None \<Rightarrow> Ret s
      | Some f \<Rightarrow> kbind (fileclose f s) (\<lambda>s. Ret (upd_proc p (p_ofile_update (\<lambda>fds. fds(fd := None))) s)))"

text \<open>Everything \<^verbatim>\<open>exit\<close> does before it gives up the processor for good.\<close>

definition exit_prepare :: "nat \<Rightarrow> int \<Rightarrow> 'a files_scheme \<Rightarrow> 'a files_scheme kres" where
  "exit_prepare p status s =
     (if Some p = initproc s then Panic ''init exiting''
      else
        kbind (kfold (close_fd p) [0..<NOFILE] s) (\<lambda>s.
        kbind (begin_op s) (\<lambda>s.
        case p_cwd (ptable s p) of None \<Rightarrow> Fault ''iput'' | Some cwd \<Rightarrow>
          kbind (iput cwd s) (\<lambda>s.
          kbind (end_op s) (\<lambda>s.
          let s = reparent p (upd_proc p (p_cwd_update (\<lambda>_. None)) s);
              s = wakeup_ptr (map_option Ch_proc (p_parent (ptable s p))) s in
          kbind (acquire_proc p s) (\<lambda>s.
          Ret (upd_proc p (\<lambda>x. x\<lparr>p_xstate := status, p_state := ZOMBIE, p_etime := ticks s\<rparr>) s)))))))"

definition exit :: "('a files_scheme \<Rightarrow> 'a files_scheme kres) \<Rightarrow> int \<Rightarrow> 'a files_scheme \<Rightarrow> 'a files_scheme kres" where
  "exit swtch status = with_cur (\<lambda>p s.
     kbind (exit_prepare p status s) (\<lambda>s. kbind (sched swtch s) (\<lambda>s. Panic ''zombie exit'')))"

text \<open>A zombie that was found: hand its status to the parent and free its slot; \<open>False\<close> is the failed \<^verbatim>\<open>copyout\<close>.\<close>

definition reap :: "nat \<Rightarrow> u64 \<Rightarrow> nat \<Rightarrow> 'a kernel_scheme \<Rightarrow> (bool \<times> 'a kernel_scheme) kres" where
  "reap p addr pp s =
     kbind (if addr = 0 then Ret (0, s)
            else copyout (p_pagetable (ptable s p)) addr (st32 0 (word_of_int (p_xstate (ptable s pp))) (\<lambda>_. 0)) 4 s) (\<lambda>(r, s).
       if r < 0 then Ret (False, s) else kbind (freeproc pp s) (\<lambda>s. Ret (True, s)))"

text \<open>One scan of the table: the value to return with, if any, and whether there are children.\<close>

fun wait_scan :: "nat \<Rightarrow> u64 \<Rightarrow> nat list \<Rightarrow> bool \<Rightarrow> 'a kernel_scheme \<Rightarrow> (int option \<times> bool \<times> 'a kernel_scheme) kres" where
  "wait_scan p addr [] havekids s = Ret (None, havekids, s)"
| "wait_scan p addr (pp # pps) havekids s =
     (if p_parent (ptable s pp) = Some p then
        if p_state (ptable s pp) = ZOMBIE then
          let pid = p_pid (ptable s pp) in
          kbind (reap p addr pp s) (\<lambda>(ok, s). Ret (Some (if ok then pid else -1), True, s))
        else wait_scan p addr pps True s
      else wait_scan p addr pps havekids s)"

partial_function (option) wait_loop ::
  "('a kernel_scheme \<Rightarrow> 'a kernel_scheme kres) \<Rightarrow> nat \<Rightarrow> u64 \<Rightarrow> 'a kernel_scheme \<Rightarrow> (int \<times> 'a kernel_scheme) kres option" where
  "wait_loop swtch p addr s =
     obind (wait_scan p addr [0..<NPROC] False s) (\<lambda>(r, havekids, s).
       case r of Some pid \<Rightarrow> Some (Ret (pid, s))
       | None \<Rightarrow>
           if \<not> havekids \<or> killed p s \<noteq> 0 then Some (Ret (-1, s))
           else obind (sleep swtch (Ch_proc p) s) (wait_loop swtch p addr))"

definition wait :: "('a kernel_scheme \<Rightarrow> 'a kernel_scheme kres) \<Rightarrow> u64 \<Rightarrow> 'a kernel_scheme \<Rightarrow> (int \<times> 'a kernel_scheme) kres" where
  "wait swtch addr = with_cur (\<lambda>p s. returns (wait_loop swtch p addr s))"

text \<open>\<^verbatim>\<open>waitx\<close> also reports the waiting and running time of the child through \<^verbatim>\<open>wtime\<close> and \<^verbatim>\<open>rtime\<close>.\<close>

fun waitx_scan :: "nat \<Rightarrow> u64 \<Rightarrow> nat list \<Rightarrow> bool \<Rightarrow> uint \<times> uint \<Rightarrow> 'a kernel_scheme
    \<Rightarrow> (int option \<times> bool \<times> (uint \<times> uint) \<times> 'a kernel_scheme) kres" where
  "waitx_scan p addr [] havekids tm s = Ret (None, havekids, tm, s)"
| "waitx_scan p addr (np # nps) havekids tm s =
     (if p_parent (ptable s np) = Some p then
        if p_state (ptable s np) = ZOMBIE then
          let x = ptable s np; tm = (p_etime x - p_ctime x - p_rtime x, p_rtime x) in
          kbind (reap p addr np s) (\<lambda>(ok, s). Ret (Some (if ok then p_pid x else -1), True, tm, s))
        else waitx_scan p addr nps True tm s
      else waitx_scan p addr nps havekids tm s)"

partial_function (option) waitx_loop ::
  "('a kernel_scheme \<Rightarrow> 'a kernel_scheme kres) \<Rightarrow> nat \<Rightarrow> u64 \<Rightarrow> uint \<times> uint \<Rightarrow> 'a kernel_scheme
    \<Rightarrow> (int \<times> (uint \<times> uint) \<times> 'a kernel_scheme) kres option" where
  "waitx_loop swtch p addr tm s =
     obind (waitx_scan p addr [0..<NPROC] False tm s) (\<lambda>(r, havekids, tm, s).
       case r of Some pid \<Rightarrow> Some (Ret (pid, tm, s))
       | None \<Rightarrow>
           if \<not> havekids \<or> p_killed (ptable s p) \<noteq> 0 then Some (Ret (-1, tm, s))
           else obind (sleep swtch (Ch_proc p) s) (waitx_loop swtch p addr tm))"

definition waitx :: "('a kernel_scheme \<Rightarrow> 'a kernel_scheme kres) \<Rightarrow> u64 \<Rightarrow> uint \<times> uint \<Rightarrow> 'a kernel_scheme
    \<Rightarrow> (int \<times> (uint \<times> uint) \<times> 'a kernel_scheme) kres" where
  "waitx swtch addr tm = with_cur (\<lambda>p s. returns (waitx_loop swtch p addr tm s))"

end
