(* ===== verification/Console.thy ===== *)
theory Console
  imports ProcLife
begin

text \<open>
  The console: \<^verbatim>\<open>kernel/uart.c\<close>, \<^verbatim>\<open>kernel/console.c\<close> and \<^verbatim>\<open>kernel/printf.c\<close>.  The UART itself is hardware.  It appears as three
  lists: the values its line status register gives on the reads to come, the bytes it receives, and the bytes the
  kernel has written to its transmit register, in this order.
\<close>

unbundle bit_operations_syntax

definition UART_TX_BUF_SIZE :: nat where "UART_TX_BUF_SIZE = 32"
definition INPUT_BUF_SIZE :: nat where "INPUT_BUF_SIZE = 128"

record console = files +
  lsr :: "uchar list"
  rhr :: "uchar list"
  thr :: "uchar list"
  uart_tx_buf :: "nat \<Rightarrow> uchar"
  uart_tx_w :: u64
  uart_tx_r :: u64
  panicked :: int
  cons_buf :: "nat \<Rightarrow> uchar"
  cons_r :: uint
  cons_w :: uint
  cons_e :: uint

subsection \<open>The UART driver\<close>

definition LSR_RX_READY :: uchar where "LSR_RX_READY = 1"
definition LSR_TX_IDLE :: uchar where "LSR_TX_IDLE = 32"

definition read_lsr :: "'a console_scheme \<Rightarrow> uchar \<times> 'a console_scheme" where
  "read_lsr s = (case lsr s of [] \<Rightarrow> (0, s) | x # xs \<Rightarrow> (x, s\<lparr>lsr := xs\<rparr>))"

definition write_thr :: "uchar \<Rightarrow> 'a console_scheme \<Rightarrow> 'a console_scheme" where
  "write_thr c s = s\<lparr>thr := thr s @ [c]\<rparr>"

text \<open>The busy wait of \<^verbatim>\<open>uartputc_sync\<close>: the status reads it uses up, or no end when the UART never becomes idle.\<close>

fun wait_idle :: "uchar list \<Rightarrow> uchar list option" where
  "wait_idle [] = None"
| "wait_idle (x # xs) = (if x AND LSR_TX_IDLE = 0 then wait_idle xs else Some xs)"

definition uartputc_sync :: "uchar \<Rightarrow> 'a console_scheme \<Rightarrow> 'a console_scheme kres" where
  "uartputc_sync c s =
     (let s = push_off s in
      if panicked s \<noteq> 0 then Block Ch_spin
      else case wait_idle (lsr s) of None \<Rightarrow> Block Ch_spin | Some xs \<Rightarrow> pop_off (write_thr c (s\<lparr>lsr := xs\<rparr>)))"

lemma wakeup_console [simp]:
  "uart_tx_w (wakeup c s) = uart_tx_w s" "uart_tx_r (wakeup c s) = uart_tx_r s"
proof -
  have "uart_tx_w (fold (\<lambda>i s. if Some i \<noteq> myproc s \<and> p_state (ptable s i) = SLEEPING \<and> p_chan (ptable s i) = Some c
     then upd_proc i (p_state_update (\<lambda>_. RUNNABLE)) s else s) xs s) = uart_tx_w s \<and>
     uart_tx_r (fold (\<lambda>i s. if Some i \<noteq> myproc s \<and> p_state (ptable s i) = SLEEPING \<and> p_chan (ptable s i) = Some c
     then upd_proc i (p_state_update (\<lambda>_. RUNNABLE)) s else s) xs s) = uart_tx_r s" for xs
    by (induction xs arbitrary: s) (simp_all add: upd_proc_def)
  then show "uart_tx_w (wakeup c s) = uart_tx_w s" "uart_tx_r (wakeup c s) = uart_tx_r s" by (simp_all add: wakeup_def)
qed

lemma read_lsr_tx [simp]:
  "uart_tx_w (snd (read_lsr s)) = uart_tx_w s" "uart_tx_r (snd (read_lsr s)) = uart_tx_r s"
  by (simp_all add: read_lsr_def split: list.split)

lemma tx_measure: "w \<noteq> r \<Longrightarrow> unat (w - (r + 1)) < unat (w - r)" for w r :: u64
proof -
  assume "w \<noteq> r"
  define d where "d = w - r"
  have d: "d \<noteq> 0" "w - (r + 1) = d - 1" using \<open>w \<noteq> r\<close> by (simp_all add: d_def)
  have "unat d \<noteq> 0" using d(1) by (simp add: unat_eq_0)
  moreover have "unat (d - 1) = unat d - 1" using calculation by (simp add: unat_sub word_le_nat_alt)
  ultimately show ?thesis unfolding d(2) by (simp add: d_def[symmetric])
qed

function uartstart :: "'a console_scheme \<Rightarrow> 'a console_scheme" where
  "uartstart s =
     (if uart_tx_w s = uart_tx_r s then s
      else let x = fst (read_lsr s); s1 = snd (read_lsr s) in
        if x AND LSR_TX_IDLE = 0 then s1
        else let c = uart_tx_buf s1 (unat (uart_tx_r s1) mod UART_TX_BUF_SIZE) in
          uartstart (write_thr c (wakeup Ch_uart_tx_r (s1\<lparr>uart_tx_r := uart_tx_r s1 + 1\<rparr>))))"
  by pat_completeness auto

termination
  by (relation "measure (\<lambda>s. unat (uart_tx_w s - uart_tx_r s))") (auto simp: write_thr_def intro: tx_measure)

declare uartstart.simps [simp del]

text \<open>\<^verbatim>\<open>uartputc\<close> sleeps while the buffer is full.\<close>

partial_function (option) uart_wait ::
  "('a console_scheme \<Rightarrow> 'a console_scheme kres) \<Rightarrow> 'a console_scheme \<Rightarrow> 'a console_scheme kres option" where
  "uart_wait swtch s =
     (if uart_tx_w s = uart_tx_r s + of_nat UART_TX_BUF_SIZE then obind (sleep swtch Ch_uart_tx_r s) (uart_wait swtch)
      else Some (Ret s))"

definition uart_put :: "uchar \<Rightarrow> 'a console_scheme \<Rightarrow> 'a console_scheme" where
  "uart_put c s = s\<lparr>uart_tx_buf := (uart_tx_buf s)(unat (uart_tx_w s) mod UART_TX_BUF_SIZE := c), uart_tx_w := uart_tx_w s + 1\<rparr>"

definition uartputc :: "('a console_scheme \<Rightarrow> 'a console_scheme kres) \<Rightarrow> uchar \<Rightarrow> 'a console_scheme \<Rightarrow> 'a console_scheme kres" where
  "uartputc swtch c s =
     (if panicked s \<noteq> 0 then Block Ch_spin
      else kbind (returns (uart_wait swtch s)) (\<lambda>s. Ret (uartstart (uart_put c s))))"

definition uartgetc :: "'a console_scheme \<Rightarrow> int \<times> 'a console_scheme" where
  "uartgetc s =
     (let x = fst (read_lsr s); s = snd (read_lsr s) in
      if x AND LSR_RX_READY \<noteq> 0 then (case rhr s of [] \<Rightarrow> (0, s) | c # cs \<Rightarrow> (uint c, s\<lparr>rhr := cs\<rparr>))
      else (-1, s))"

subsection \<open>printf\<close>

definition BACKSPACE :: int where "BACKSPACE = 0x100"

definition consputc :: "int \<Rightarrow> 'a console_scheme \<Rightarrow> 'a console_scheme kres" where
  "consputc c s =
     (if c = BACKSPACE
      then kbind (uartputc_sync 8 s) (\<lambda>s. kbind (uartputc_sync 32 s) (uartputc_sync 8))
      else uartputc_sync (word_of_int c) s)"

definition consputs :: "uchar list \<Rightarrow> 'a console_scheme \<Rightarrow> 'a console_scheme kres" where
  "consputs cs = kfold (\<lambda>c. consputc (uint c)) cs"

definition digit :: "nat \<Rightarrow> uchar" where
  "digit d = (if d < 10 then 48 + of_nat d else 87 + of_nat d)"

text \<open>
  The digit loop of \<^verbatim>\<open>printint\<close>, last digit first; \<open>room\<close> is what is left of the 16 bytes of \<^verbatim>\<open>buf\<close>, and a store behind
  its end is a fault.
\<close>

fun printint_digits :: "nat \<Rightarrow> uint \<Rightarrow> uint \<Rightarrow> uchar list kres" where
  "printint_digits 0 x base = Fault ''buf''"
| "printint_digits (Suc room) x base =
     (if x div base \<noteq> 0 then kbind (printint_digits room (x div base) base) (\<lambda>ds. Ret (digit (unat (x mod base)) # ds))
      else Ret [digit (unat (x mod base))])"

definition printint_text :: "int \<Rightarrow> uint \<Rightarrow> bool \<Rightarrow> uchar list kres" where
  "printint_text xx base sign =
     (let sign = sign \<and> xx < 0; x = (if sign then word_of_int (- xx) else word_of_int xx) in
      kbind (printint_digits 16 x base) (\<lambda>buf.
        if sign \<and> length buf = 16 then Fault ''buf'' else Ret (rev (if sign then buf @ [45] else buf))))"

definition printint :: "int \<Rightarrow> uint \<Rightarrow> bool \<Rightarrow> 'a console_scheme \<Rightarrow> 'a console_scheme kres" where
  "printint xx base sign s = kbind (printint_text xx base sign) (\<lambda>cs. consputs cs s)"

definition printptr_text :: "u64 \<Rightarrow> uchar list" where
  "printptr_text x = [48, 120] @ map (\<lambda>i. digit (unat (drop_bit 60 (push_bit (4 * i) x)))) [0..<16]"

definition printptr :: "u64 \<Rightarrow> 'a console_scheme \<Rightarrow> 'a console_scheme kres" where
  "printptr x = consputs (printptr_text x)"

text \<open>An argument of a variadic call: a register, or a string; a null string is \<open>None\<close>.\<close>

datatype vararg = Num u64 | Str "uchar list option"

definition va_int :: "vararg \<Rightarrow> int kres" where
  "va_int a = (case a of Num w \<Rightarrow> Ret (sint (ucast w :: uint)) | Str _ \<Rightarrow> Fault ''va_arg'')"

definition va_u64 :: "vararg \<Rightarrow> u64 kres" where
  "va_u64 a = (case a of Num w \<Rightarrow> Ret w | Str _ \<Rightarrow> Fault ''va_arg'')"

text \<open>The text ''(null)''.\<close>

definition null_text :: "uchar list" where
  "null_text = [40, 110, 117, 108, 108, 41]"

definition va_str :: "vararg \<Rightarrow> uchar list kres" where
  "va_str a = (case a of Num _ \<Rightarrow> Fault ''va_arg'' | Str None \<Rightarrow> Ret null_text | Str (Some cs) \<Rightarrow> Ret cs)"

text \<open>The loop over the format; the codes are those of \<open>% d x p s\<close>.  A conversion without an argument is a fault.\<close>

fun printf_loop :: "uchar list \<Rightarrow> vararg list \<Rightarrow> 'a console_scheme \<Rightarrow> 'a console_scheme kres" where
  "printf_loop [] args s = Ret s"
| "printf_loop (c # fmt) args s =
     (if c \<noteq> 37 then kbind (consputc (uint c) s) (printf_loop fmt args)
      else case fmt of
        [] \<Rightarrow> Ret s
      | d # fmt \<Rightarrow>
          if d = 100 \<or> d = 120 \<or> d = 112 \<or> d = 115 then
            case args of
              [] \<Rightarrow> Fault ''va_arg''
            | a # args \<Rightarrow>
                kbind (if d = 100 then kbind (va_int a) (\<lambda>xx. printint xx 10 True s)
                       else if d = 120 then kbind (va_int a) (\<lambda>xx. printint xx 16 True s)
                       else if d = 112 then kbind (va_u64 a) (\<lambda>x. printptr x s)
                       else kbind (va_str a) (\<lambda>cs. consputs cs s))
                  (printf_loop fmt args)
          else if d = 37 then kbind (consputc 37 s) (printf_loop fmt args)
          else kbind (consputc 37 s) (\<lambda>s. kbind (consputc (uint d) s) (printf_loop fmt args)))"

definition ascii :: "string \<Rightarrow> uchar list" where
  "ascii cs = map (\<lambda>c. of_nat (of_char c)) cs"

definition printf :: "string \<Rightarrow> vararg list \<Rightarrow> 'a console_scheme \<Rightarrow> 'a console_scheme kres" where
  "printf fmt args = printf_loop (ascii fmt) args"

text \<open>What \<^verbatim>\<open>panic\<close> leaves on the console before it stops the machine.\<close>

definition panic_state :: "string \<Rightarrow> 'a console_scheme \<Rightarrow> 'a console_scheme kres" where
  "panic_state msg s =
     kbind (printf ''panic: '' [] s) (\<lambda>s. kbind (printf msg [] s) (\<lambda>s. kbind (printf [CHR 0x0A] [] s) (\<lambda>s. Ret (s\<lparr>panicked := 1\<rparr>))))"

subsection \<open>The console\<close>

fun consolewrite_loop :: "('a console_scheme \<Rightarrow> 'a console_scheme kres) \<Rightarrow> bool \<Rightarrow> u64 \<Rightarrow> nat \<Rightarrow> int \<Rightarrow> 'a console_scheme \<Rightarrow> (int \<times> 'a console_scheme) kres" where
  "consolewrite_loop swtch user_src src 0 i s = Ret (i, s)"
| "consolewrite_loop swtch user_src src (Suc k) i s =
     kbind (either_copyin (\<lambda>_. 0) user_src (src + word_of_int i) 1 s) (\<lambda>(r, c).
       if r = -1 then Ret (i, s)
       else kbind (uartputc swtch (c 0) s) (consolewrite_loop swtch user_src src k (i + 1)))"

definition consolewrite :: "('a console_scheme \<Rightarrow> 'a console_scheme kres) \<Rightarrow> bool \<Rightarrow> u64 \<Rightarrow> int \<Rightarrow> 'a console_scheme \<Rightarrow> (int \<times> 'a console_scheme) kres" where
  "consolewrite swtch user_src src n s = consolewrite_loop swtch user_src src (nat n) 0 s"

text \<open>Waiting for input; \<open>False\<close> when the process was killed.\<close>

partial_function (option) cons_wait ::
  "('a console_scheme \<Rightarrow> 'a console_scheme kres) \<Rightarrow> nat \<Rightarrow> 'a console_scheme \<Rightarrow> (bool \<times> 'a console_scheme) kres option" where
  "cons_wait swtch p s =
     (if cons_r s = cons_w s then
        if killed p s \<noteq> 0 then Some (Ret (False, s)) else obind (sleep swtch Ch_cons_r s) (cons_wait swtch p)
      else Some (Ret (True, s)))"

definition ctrl_D :: uchar where "ctrl_D = 4"
definition newline :: uchar where "newline = 10"

text \<open>
  The loop of \<^verbatim>\<open>consoleread\<close>: \<open>n\<close> is how many bytes are still wanted of \<open>target\<close>, and \<open>dst\<close> where the next one goes.  A
  control-D after some bytes stays in the buffer, so that the next read returns 0.
\<close>

fun consoleread_loop :: "('a console_scheme \<Rightarrow> 'a console_scheme kres) \<Rightarrow> nat \<Rightarrow> bool \<Rightarrow> nat \<Rightarrow> u64 \<Rightarrow> nat \<Rightarrow> 'a console_scheme \<Rightarrow> (int \<times> 'a console_scheme) kres" where
  "consoleread_loop swtch p user_dst target dst 0 s = Ret (int target, s)"
| "consoleread_loop swtch p user_dst target dst (Suc n) s =
     kbind (returns (cons_wait swtch p s)) (\<lambda>(ready, s).
     if \<not> ready then Ret (-1, s)
     else let c = cons_buf s (unat (cons_r s) mod INPUT_BUF_SIZE); s = s\<lparr>cons_r := cons_r s + 1\<rparr> in
       if c = ctrl_D then Ret (int target - int (Suc n), if Suc n < target then s\<lparr>cons_r := cons_r s - 1\<rparr> else s)
       else kbind (either_copyout user_dst dst (\<lambda>_. c) 1 s) (\<lambda>(r, s).
         if r = -1 then Ret (int target - int (Suc n), s)
         else if c = newline then Ret (int target - int n, s)
         else consoleread_loop swtch p user_dst target (dst + 1) n s))"

definition consoleread :: "('a console_scheme \<Rightarrow> 'a console_scheme kres) \<Rightarrow> bool \<Rightarrow> u64 \<Rightarrow> int \<Rightarrow> 'a console_scheme \<Rightarrow> (int \<times> 'a console_scheme) kres" where
  "consoleread swtch user_dst dst n s =
     (if n \<le> 0 then Ret (0, s) else with_cur (\<lambda>p. consoleread_loop swtch p user_dst (nat n) dst (nat n)) s)"

text \<open>\<^verbatim>\<open>procdump\<close>, run on control-P.\<close>

definition state_text :: "procstate \<Rightarrow> string" where
  "state_text st = (case st of UNUSED \<Rightarrow> ''unused'' | USED \<Rightarrow> ''used'' | SLEEPING \<Rightarrow> ''sleep '' | RUNNABLE \<Rightarrow> ''runble''
     | RUNNING \<Rightarrow> ''run   '' | ZOMBIE \<Rightarrow> ''zombie'')"

text \<open>The bytes of a name up to its NUL; the array has 16.\<close>

definition name_text :: "cptr \<Rightarrow> uchar list" where
  "name_text nm = takeWhile (\<lambda>c. c \<noteq> 0) (map nm [0..<16])"

definition procdump_line :: "nat \<Rightarrow> 'a console_scheme \<Rightarrow> 'a console_scheme kres" where
  "procdump_line i s =
     (let p = ptable s i in
      if p_state p = UNUSED then Ret s
      else kbind (printf ''%d %s %s'' [Num (word_of_int (p_pid p)), Str (Some (ascii (state_text (p_state p)))),
                    Str (Some (name_text (p_name p)))] s) (printf [CHR 0x0A] []))"

definition procdump :: "'a console_scheme \<Rightarrow> 'a console_scheme kres" where
  "procdump s = kbind (printf [CHR 0x0A] [] s) (kfold procdump_line [0..<NPROC])"

text \<open>The loop behind control-U, with the edit index as loop variable.\<close>

function kill_line :: "uint \<Rightarrow> uint \<Rightarrow> 'a console_scheme \<Rightarrow> 'a console_scheme kres" where
  "kill_line w e s =
     (if e \<noteq> w \<and> cons_buf s (unat (e - 1) mod INPUT_BUF_SIZE) \<noteq> newline
      then kbind (consputc BACKSPACE (s\<lparr>cons_e := e - 1\<rparr>)) (kill_line w (e - 1))
      else Ret s)"
  by pat_completeness auto

termination
proof (relation "measure (\<lambda>(w, e, s). unat (e - w))", goal_cases)
  case (2 w e s)
  define d where "d = e - w"
  have d: "d \<noteq> 0" "(e - 1) - w = d - 1" using 2 by (simp_all add: d_def)
  have "unat d \<noteq> 0" using d(1) by (simp add: unat_eq_0)
  moreover have "unat (d - 1) = unat d - 1" using calculation by (simp add: unat_sub word_le_nat_alt)
  ultimately show ?case by (simp add: d(2) d_def[symmetric] del: diff_diff_eq)
qed simp

declare kill_line.simps [simp del]

definition cons_put :: "uchar \<Rightarrow> 'a console_scheme \<Rightarrow> 'a console_scheme" where
  "cons_put c s = s\<lparr>cons_buf := (cons_buf s)(unat (cons_e s) mod INPUT_BUF_SIZE := c), cons_e := cons_e s + 1\<rparr>"

definition consoleintr :: "int \<Rightarrow> 'a console_scheme \<Rightarrow> 'a console_scheme kres" where
  "consoleintr c s =
     (if c = 16 then procdump s
      else if c = 21 then kill_line (cons_w s) (cons_e s) s
      else if c = 8 \<or> c = 0x7f then
        if cons_e s \<noteq> cons_w s then consputc BACKSPACE (s\<lparr>cons_e := cons_e s - 1\<rparr>) else Ret s
      else if c \<noteq> 0 \<and> cons_e s - cons_r s < of_nat INPUT_BUF_SIZE then
        let c = (if c = 13 then 10 else c) in
        kbind (consputc c s) (\<lambda>s.
        let s = cons_put (word_of_int c) s in
        Ret (if c = 10 \<or> c = 4 \<or> cons_e s - cons_r s = of_nat INPUT_BUF_SIZE
             then wakeup Ch_cons_r (s\<lparr>cons_w := cons_e s\<rparr>) else s))
      else Ret s)"

partial_function (option) uart_input :: "'a console_scheme \<Rightarrow> 'a console_scheme kres option" where
  "uart_input s =
     (let c = fst (uartgetc s); s = snd (uartgetc s) in
      if c = -1 then Some (Ret s) else obind (consoleintr c s) uart_input)"

definition uartintr :: "'a console_scheme \<Rightarrow> 'a console_scheme kres" where
  "uartintr s = kbind (returns (uart_input s)) (\<lambda>s. Ret (uartstart s))"

definition CONSOLE :: nat where "CONSOLE = 1"

text \<open>The device table after \<^verbatim>\<open>consoleinit\<close>.\<close>

definition console_devsw :: "('a console_scheme \<Rightarrow> 'a console_scheme kres) \<Rightarrow> nat \<Rightarrow> 'a console_scheme devsw" where
  "console_devsw swtch i =
     (if i = CONSOLE then \<lparr>d_read = Some (consoleread swtch), d_write = Some (consolewrite swtch)\<rparr>
      else \<lparr>d_read = None, d_write = None\<rparr>)"

end
