(* ===== verification/SysArg.thy ===== *)
theory SysArg
  imports Console
begin

text \<open>
  The arguments of system calls: the helpers of \<^verbatim>\<open>kernel/syscall.c\<close> that read registers of the trap frame and user memory.
\<close>

definition fetchaddr :: "u64 \<Rightarrow> u64 \<Rightarrow> 'a kernel_scheme \<Rightarrow> (int \<times> u64) kres" where
  "fetchaddr addr ip = with_cur (\<lambda>p s.
     if addr \<ge> p_sz (ptable s p) \<or> addr + 8 > p_sz (ptable s p) then Ret (-1, ip)
     else kbind (copyin (p_pagetable (ptable s p)) (le_put 8 ip 0 (\<lambda>_. 0)) addr 8 s) (\<lambda>(r, d).
       Ret (if r \<noteq> 0 then -1 else 0, le_get 8 d 0)))"

text \<open>\<^verbatim>\<open>strlen\<close> of a buffer without a NUL would run on behind its end.\<close>

definition fetchstr :: "u64 \<Rightarrow> cptr \<Rightarrow> int \<Rightarrow> 'a kernel_scheme \<Rightarrow> (int \<times> cptr) kres" where
  "fetchstr addr buf mx = with_cur (\<lambda>p s.
     kbind (copyinstr (p_pagetable (ptable s p)) buf addr (word_of_int mx) s) (\<lambda>(r, buf).
       if r < 0 then Ret (-1, buf)
       else case strlen buf of None \<Rightarrow> Fault ''strlen'' | Some n \<Rightarrow> Ret (int n, buf)))"

definition argraw :: "nat \<Rightarrow> 'a kernel_scheme \<Rightarrow> u64 kres" where
  "argraw n = with_cur (\<lambda>p s.
     if n = 0 then Ret (tf_get A0 p s) else if n = 1 then Ret (tf_get A1 p s)
     else if n = 2 then Ret (tf_get A2 p s) else if n = 3 then Ret (tf_get A3 p s)
     else if n = 4 then Ret (tf_get A4 p s) else if n = 5 then Ret (tf_get A5 p s)
     else Panic ''argraw'')"

definition argint :: "nat \<Rightarrow> 'a kernel_scheme \<Rightarrow> int kres" where
  "argint n s = kbind (argraw n s) (\<lambda>v. Ret (sint (ucast v :: uint)))"

definition argaddr :: "nat \<Rightarrow> 'a kernel_scheme \<Rightarrow> u64 kres" where
  "argaddr n s = argraw n s"

definition argstr :: "nat \<Rightarrow> cptr \<Rightarrow> int \<Rightarrow> 'a kernel_scheme \<Rightarrow> (int \<times> cptr) kres" where
  "argstr n buf mx s = kbind (argaddr n s) (\<lambda>addr. fetchstr addr buf mx s)"

definition MAXPATH :: int where "MAXPATH = 128"
definition MAXARG :: nat where "MAXARG = 32"

text \<open>A path argument as the bytes before its NUL; \<open>stack\<close> is what the local array held before.\<close>

definition argpath :: "cptr \<Rightarrow> nat \<Rightarrow> 'a kernel_scheme \<Rightarrow> uchar list option kres" where
  "argpath stack n s = kbind (argstr n stack MAXPATH s) (\<lambda>(r, buf).
     Ret (if r < 0 then None else Some (map buf [0..<nat r])))"

end
