(* ===== verification/Exec.thy ===== *)
theory Exec
  imports SysArg
begin

text \<open>
  \<^verbatim>\<open>kernel/exec.c\<close>.  The ELF header and the program headers are read from the file as bytes.  The argument strings are
  lists of bytes; a jump to \<^verbatim>\<open>bad\<close> is the value \<open>None\<close> of the stage it leaves.
\<close>

unbundle bit_operations_syntax

definition flags2perm :: "uint \<Rightarrow> u64" where
  "flags2perm flags = (if flags AND 1 \<noteq> 0 then PTE_X else 0) OR (if flags AND 2 \<noteq> 0 then PTE_W else 0)"

text \<open>The loop of \<^verbatim>\<open>loadseg\<close>; the 32-bit counter wraps when \<^verbatim>\<open>sz\<close> is in the last page, so the loop might not end.\<close>

partial_function (option) loadseg_loop ::
  "u64 \<Rightarrow> u64 \<Rightarrow> nat \<Rightarrow> uint \<Rightarrow> uint \<Rightarrow> uint \<Rightarrow> 'a fs_scheme \<Rightarrow> (int \<times> 'a fs_scheme) kres option" where
  "loadseg_loop pagetable va ip offset sz i s =
     (if i < sz then
        obind (walkaddr pagetable (va + ucast i) s) (\<lambda>pa.
        if pa = 0 then Some (Panic ''loadseg: address should exist'')
        else let n = (if sz - i < 4096 then sz - i else 4096) in
          obind (readi ip (Sink False pa) (offset + i) n s) (\<lambda>(r, v, s).
          if word_of_int r \<noteq> n then Some (Ret (-1, s)) else loadseg_loop pagetable va ip offset sz (i + 4096) s))
      else Some (Ret (0, s)))"

definition loadseg :: "u64 \<Rightarrow> u64 \<Rightarrow> nat \<Rightarrow> uint \<Rightarrow> uint \<Rightarrow> 'a fs_scheme \<Rightarrow> (int \<times> 'a fs_scheme) kres" where
  "loadseg pagetable va ip offset sz s = returns (loadseg_loop pagetable va ip offset sz 0 s)"

definition ELF_MAGIC :: uint where "ELF_MAGIC = 0x464C457F"
definition ELF_PROG_LOAD :: uint where "ELF_PROG_LOAD = 1"

record elfhdr =
  e_magic :: uint
  e_entry :: u64
  e_phoff :: u64
  e_phnum :: ushort

definition get_elfhdr :: "cptr \<Rightarrow> elfhdr" where
  "get_elfhdr d = \<lparr>e_magic = ld32 d 0, e_entry = le_get 8 d 24, e_phoff = le_get 8 d 32, e_phnum = ld16 d 56\<rparr>"

record proghdr =
  ph_type :: uint
  ph_flags :: uint
  ph_off :: u64
  ph_vaddr :: u64
  ph_filesz :: u64
  ph_memsz :: u64

definition get_proghdr :: "cptr \<Rightarrow> proghdr" where
  "get_proghdr d = \<lparr>ph_type = ld32 d 0, ph_flags = ld32 d 4, ph_off = le_get 8 d 8, ph_vaddr = le_get 8 d 16,
     ph_filesz = le_get 8 d 32, ph_memsz = le_get 8 d 40\<rparr>"

text \<open>Loading the segments: the size of the image if all went well, and the size to free otherwise.\<close>

fun exec_load :: "nat \<Rightarrow> u64 \<Rightarrow> nat \<Rightarrow> uint \<Rightarrow> u64 \<Rightarrow> 'a fs_scheme \<Rightarrow> (bool \<times> u64 \<times> 'a fs_scheme) kres" where
  "exec_load ip pagetable 0 off sz s = Ret (True, sz, s)"
| "exec_load ip pagetable (Suc k) off sz s =
     kbind (readi ip Struct off 56 s) (\<lambda>(r, d, s).
     if r \<noteq> 56 then Ret (False, sz, s)
     else let ph = get_proghdr d in
       if ph_type ph \<noteq> ELF_PROG_LOAD then exec_load ip pagetable k (off + 56) sz s
       else if ph_memsz ph < ph_filesz ph \<or> ph_vaddr ph + ph_memsz ph < ph_vaddr ph \<or> ph_vaddr ph mod PGSIZE \<noteq> 0
       then Ret (False, sz, s)
       else kbind (uvmalloc pagetable sz (ph_vaddr ph + ph_memsz ph) (flags2perm (ph_flags ph)) s) (\<lambda>(sz1, s).
         if sz1 = 0 then Ret (False, sz, s)
         else kbind (loadseg pagetable (ph_vaddr ph) ip (ucast (ph_off ph)) (ucast (ph_filesz ph)) s) (\<lambda>(r, s).
           if r < 0 then Ret (False, sz1, s) else exec_load ip pagetable k (off + 56) sz1 s)))"

text \<open>
  Pushing the argument strings: the stack pointer and the addresses of the strings.  The zero that ends \<^verbatim>\<open>ustack\<close> is stored behind
  the last address, which is outside the array when there are \<^verbatim>\<open>MAXARG\<close> arguments.
\<close>

fun push_args :: "u64 \<Rightarrow> u64 \<Rightarrow> uchar list list \<Rightarrow> nat \<Rightarrow> u64 \<Rightarrow> u64 list \<Rightarrow> 'a phys_scheme \<Rightarrow> ((u64 \<times> u64 list) option \<times> 'a phys_scheme) kres" where
  "push_args pagetable stackbase [] argc sp ustack s = (if argc \<ge> MAXARG then Fault ''ustack'' else Ret (Some (sp, ustack), s))"
| "push_args pagetable stackbase (arg # args) argc sp ustack s =
     (if argc \<ge> MAXARG then Ret (None, s)
      else let sp = sp - (of_nat (length arg) + 1); sp = sp - sp mod 16 in
        if sp < stackbase then Ret (None, s)
        else kbind (copyout pagetable sp (cstr arg) (of_nat (length arg) + 1) s) (\<lambda>(r, s).
          if r < 0 then Ret (None, s) else push_args pagetable stackbase args (Suc argc) sp (ustack @ [sp]) s))"

definition words :: "u64 list \<Rightarrow> cptr" where
  "words ws = (\<lambda>j. ucast (drop_bit (8 * (j mod 8)) (ws ! (j div 8))))"

definition push_argv :: "u64 \<Rightarrow> u64 \<Rightarrow> u64 \<Rightarrow> u64 list \<Rightarrow> 'a phys_scheme \<Rightarrow> (u64 option \<times> 'a phys_scheme) kres" where
  "push_argv pagetable stackbase sp ustack s =
     (let n = of_nat (length ustack) + 1; sp = sp - n * 8; sp = sp - sp mod 16 in
      if sp < stackbase then Ret (None, s)
      else kbind (copyout pagetable sp (words (ustack @ [0])) (n * 8) s) (\<lambda>(r, s). Ret (if r < 0 then None else Some sp, s)))"

text \<open>The part of a path after its last slash.\<close>

definition last_elem :: "uchar list \<Rightarrow> uchar list" where
  "last_elem path = rev (takeWhile (\<lambda>c. c \<noteq> slash) (rev path))"

text \<open>The exit at the label \<^verbatim>\<open>bad\<close>.\<close>

definition exec_bad :: "u64 \<Rightarrow> u64 \<Rightarrow> nat option \<Rightarrow> 'a fs_scheme \<Rightarrow> (int \<times> 'a fs_scheme) kres" where
  "exec_bad pagetable sz ip s =
     kbind (if pagetable \<noteq> 0 then proc_freepagetable pagetable sz s else Ret s) (\<lambda>s.
     kbind (case ip of None \<Rightarrow> Ret s | Some ip \<Rightarrow> kbind (iunlockput ip s) end_op) (\<lambda>s. Ret (-1, s)))"

text \<open>The new image is complete: the process switches to it and the old one is freed.\<close>

definition exec_commit :: "nat \<Rightarrow> uchar list \<Rightarrow> u64 \<Rightarrow> u64 \<Rightarrow> u64 \<Rightarrow> u64 \<Rightarrow> 'a fs_scheme \<Rightarrow> 'a fs_scheme kres" where
  "exec_commit p path pagetable sz sp entry s =
     (let oldsz = p_sz (ptable s p);
          s = tf_set A1 sp p s;
          s = upd_proc p (p_name_update (\<lambda>nm. safestrcpy nm (cstr (last_elem path)) 16)) s;
          old = p_pagetable (ptable s p);
          s = upd_proc p (\<lambda>x. x\<lparr>p_pagetable := pagetable, p_sz := sz\<rparr>) s;
          s = tf_set Sp sp p (tf_set Epc entry p s)
      in proc_freepagetable old oldsz s)"

text \<open>The stack: two pages, the lower one a guard, with the arguments on the upper one.\<close>

definition exec_stack :: "nat \<Rightarrow> uchar list \<Rightarrow> uchar list list \<Rightarrow> u64 \<Rightarrow> u64 \<Rightarrow> u64 \<Rightarrow> 'a fs_scheme \<Rightarrow> (int \<times> 'a fs_scheme) kres" where
  "exec_stack p path argv pagetable sz entry s =
     (let sz = PGROUNDUP sz in
      kbind (uvmalloc pagetable sz (sz + 2 * PGSIZE) PTE_W s) (\<lambda>(sz1, s).
      if sz1 = 0 then exec_bad pagetable sz None s
      else kbind (uvmclear pagetable (sz1 - 2 * PGSIZE) s) (\<lambda>s.
        let stackbase = sz1 - PGSIZE in
        kbind (push_args pagetable stackbase argv 0 sz1 [] s) (\<lambda>(r, s).
        case r of None \<Rightarrow> exec_bad pagetable sz1 None s
        | Some (sp, ustack) \<Rightarrow>
            kbind (push_argv pagetable stackbase sp ustack s) (\<lambda>(r, s).
            case r of None \<Rightarrow> exec_bad pagetable sz1 None s
            | Some sp \<Rightarrow> kbind (exec_commit p path pagetable sz1 sp entry s) (\<lambda>s. Ret (int (length argv), s)))))))"

definition exec :: "uchar list \<Rightarrow> uchar list list \<Rightarrow> 'a fs_scheme \<Rightarrow> (int \<times> 'a fs_scheme) kres" where
  "exec path argv = with_cur (\<lambda>p s.
     kbind (begin_op s) (\<lambda>s.
     kbind (namei path s) (\<lambda>(ip, s).
     case ip of None \<Rightarrow> kbind (end_op s) (\<lambda>s. Ret (-1, s))
     | Some ip \<Rightarrow>
         kbind (ilock (Some ip) s) (\<lambda>s.
         kbind (readi ip Struct 0 64 s) (\<lambda>(r, d, s).
         if r \<noteq> 64 then exec_bad 0 0 (Some ip) s
         else let elf = get_elfhdr d in
           if e_magic elf \<noteq> ELF_MAGIC then exec_bad 0 0 (Some ip) s
           else kbind (proc_pagetable p s) (\<lambda>(pagetable, s).
             if pagetable = 0 then exec_bad 0 0 (Some ip) s
             else kbind (exec_load ip pagetable (unat (e_phnum elf)) (ucast (e_phoff elf)) 0 s) (\<lambda>(ok, sz, s).
               if \<not> ok then exec_bad pagetable sz (Some ip) s
               else kbind (iunlockput ip s) (\<lambda>s. kbind (end_op s) (exec_stack p path argv pagetable sz (e_entry elf))))))))))"

end
