(* ===== verification/Sysproc.thy ===== *)
theory Sysproc
  imports SysArg
begin

text \<open>
  \<^verbatim>\<open>kernel/sysproc.c\<close>: the system calls on processes.  A result is the 64-bit value for register \<^verbatim>\<open>a0\<close>; an \<^verbatim>\<open>int\<close> is
  sign-extended to it.
\<close>

type_synonym 's swtch = "'s \<Rightarrow> 's kres"

abbreviation ret_int :: "int \<times> 's \<Rightarrow> (u64 \<times> 's) kres" where
  "ret_int \<equiv> \<lambda>(r, s). Ret (word_of_int r, s)"

definition sys_exit :: "'a files_scheme swtch \<Rightarrow> 'a files_scheme \<Rightarrow> (u64 \<times> 'a files_scheme) kres" where
  "sys_exit swtch s = kbind (argint 0 s) (\<lambda>n. kbind (exit swtch n s) (\<lambda>s. Ret (0, s)))"

definition sys_getpid :: "'a kernel_scheme \<Rightarrow> (u64 \<times> 'a kernel_scheme) kres" where
  "sys_getpid = with_cur (\<lambda>p s. Ret (word_of_int (p_pid (ptable s p)), s))"

definition sys_fork :: "'a files_scheme \<Rightarrow> (u64 \<times> 'a files_scheme) kres" where
  "sys_fork s = kbind (fork s) ret_int"

definition sys_wait :: "'a kernel_scheme swtch \<Rightarrow> 'a kernel_scheme \<Rightarrow> (u64 \<times> 'a kernel_scheme) kres" where
  "sys_wait swtch s = kbind (argaddr 0 s) (\<lambda>addr. kbind (wait swtch addr s) ret_int)"

definition sys_sbrk :: "'a kernel_scheme \<Rightarrow> (u64 \<times> 'a kernel_scheme) kres" where
  "sys_sbrk s = kbind (argint 0 s) (\<lambda>n. with_cur (\<lambda>p s.
     let addr = p_sz (ptable s p) in
     kbind (growproc n s) (\<lambda>(r, s). Ret (if r < 0 then -1 else addr, s))) s)"

text \<open>The comparison of \<^verbatim>\<open>ticks - ticks0\<close> with the \<^verbatim>\<open>int\<close> argument is unsigned.\<close>

partial_function (option) sleep_loop :: "'a kernel_scheme swtch \<Rightarrow> nat \<Rightarrow> uint \<Rightarrow> int \<Rightarrow> 'a kernel_scheme \<Rightarrow> (u64 \<times> 'a kernel_scheme) kres option" where
  "sleep_loop swtch p ticks0 n s =
     (if ticks s - ticks0 < word_of_int n then
        if killed p s \<noteq> 0 then Some (Ret (-1, s)) else obind (sleep swtch Ch_ticks s) (sleep_loop swtch p ticks0 n)
      else Some (Ret (0, s)))"

definition sys_sleep :: "'a kernel_scheme swtch \<Rightarrow> 'a kernel_scheme \<Rightarrow> (u64 \<times> 'a kernel_scheme) kres" where
  "sys_sleep swtch s = kbind (argint 0 s) (\<lambda>n. with_cur (\<lambda>p s. returns (sleep_loop swtch p (ticks s) n s)) s)"

definition sys_kill :: "'a kernel_scheme \<Rightarrow> (u64 \<times> 'a kernel_scheme) kres" where
  "sys_kill s = kbind (argint 0 s) (\<lambda>pid. ret_int (kill pid s))"

definition sys_uptime :: "'a kernel_scheme \<Rightarrow> (u64 \<times> 'a kernel_scheme) kres" where
  "sys_uptime s = Ret (ucast (ticks s), s)"

definition sys_trace :: "'a kernel_scheme \<Rightarrow> (u64 \<times> 'a kernel_scheme) kres" where
  "sys_trace s = kbind (argint 0 s) (\<lambda>num. with_cur (\<lambda>p s. Ret (0, upd_proc p (p_trace_mask_update (\<lambda>_. num)) s)) s)"

text \<open>The handler passes through an \<^verbatim>\<open>int\<close>: only its low 32 bits survive.\<close>

definition sys_sigalarm :: "'a kernel_scheme \<Rightarrow> (u64 \<times> 'a kernel_scheme) kres" where
  "sys_sigalarm s =
     kbind (argint 0 s) (\<lambda>tk. kbind (argint 1 s) (\<lambda>handle.
       if tk \<ge> 0
       then with_cur (\<lambda>p s. Ret (0, upd_proc p (\<lambda>x. x\<lparr>p_handler := word_of_int handle, p_alarm_ticks := 0, p_max_alarm_ticks := tk\<rparr>) s)) s
       else Ret (-1, s)))"

text \<open>The registers of a trap frame, saved and put back as a whole.\<close>

definition get_frame :: "nat \<Rightarrow> 'a kernel_scheme \<Rightarrow> frame" where
  "get_frame p s = (\<lambda>k. load64 (mem s) (slot (p_trapframe (ptable s p)) k))"

definition put_frame :: "frame \<Rightarrow> nat \<Rightarrow> 'a kernel_scheme \<Rightarrow> 'a kernel_scheme" where
  "put_frame fr p s = fold (\<lambda>k s. s\<lparr>mem := store64 (mem s) (slot (p_trapframe (ptable s p)) k) (fr k)\<rparr>) [0..<36] s"

definition sys_sigreturn :: "'a kernel_scheme \<Rightarrow> (u64 \<times> 'a kernel_scheme) kres" where
  "sys_sigreturn = with_cur (\<lambda>p s.
     if p_alarm_ticks (ptable s p) = -1
     then Ret (0, put_frame (p_alarm_trap (ptable s p)) p (upd_proc p (p_alarm_ticks_update (\<lambda>_. 0)) s))
     else Ret (-1, s))"

text \<open>\<open>stack\<close> is what the locals \<^verbatim>\<open>wtime\<close> and \<^verbatim>\<open>rtime\<close> hold before the call; they are copied out even when it fails.\<close>

definition sys_waitx :: "uint \<times> uint \<Rightarrow> 'a kernel_scheme swtch \<Rightarrow> 'a kernel_scheme \<Rightarrow> (u64 \<times> 'a kernel_scheme) kres" where
  "sys_waitx stack swtch s =
     kbind (argaddr 0 s) (\<lambda>addr. kbind (argaddr 1 s) (\<lambda>addr1. kbind (argaddr 2 s) (\<lambda>addr2.
     kbind (waitx swtch addr stack s) (\<lambda>(ret, (wtime, rtime), s).
     with_cur (\<lambda>p s.
       kbind (copyout (p_pagetable (ptable s p)) addr1 (st32 0 wtime (\<lambda>_. 0)) 4 s) (\<lambda>(r, s).
       if r < 0 then Ret (-1, s)
       else kbind (copyout (p_pagetable (ptable s p)) addr2 (st32 0 rtime (\<lambda>_. 0)) 4 s) (\<lambda>(r, s).
         if r < 0 then Ret (-1, s) else Ret (word_of_int ret, s)))) s))))"

definition sys_set_priority :: "'a kernel_scheme swtch \<Rightarrow> 'a kernel_scheme \<Rightarrow> (u64 \<times> 'a kernel_scheme) kres" where
  "sys_set_priority swtch s =
     kbind (argint 0 s) (\<lambda>priority. kbind (argint 1 s) (\<lambda>pid. kbind (set_static_priority swtch priority pid s) ret_int))"

definition sys_settickets :: "'a kernel_scheme \<Rightarrow> (u64 \<times> 'a kernel_scheme) kres" where
  "sys_settickets s =
     kbind (argint 0 s) (\<lambda>num. if num \<ge> 1 then kbind (settickets num s) (\<lambda>s. Ret (0, s)) else Ret (-1, s))"

end
