(* ===== verification/Sysfile.thy ===== *)
theory Sysfile
  imports Exec Sysproc
begin

text \<open>
  \<^verbatim>\<open>kernel/sysfile.c\<close>: the system calls on files.  \<open>stack\<close> stands for the contents of uninitialised local buffers.
\<close>

unbundle bit_operations_syntax

definition O_WRONLY :: uint where "O_WRONLY = 1"
definition O_RDWR :: uint where "O_RDWR = 2"
definition O_CREATE :: uint where "O_CREATE = 0x200"
definition O_TRUNC :: uint where "O_TRUNC = 0x400"

subsection \<open>Descriptors\<close>

definition argfd :: "nat \<Rightarrow> 'a files_scheme \<Rightarrow> (nat \<times> nat) option kres" where
  "argfd n s = kbind (argint n s) (\<lambda>fd. with_cur (\<lambda>p s.
     if fd < 0 \<or> fd \<ge> int NOFILE then Ret None
     else Ret (map_option (\<lambda>f. (nat fd, f)) (p_ofile (ptable s p) (nat fd)))) s)"

definition fdalloc :: "nat \<Rightarrow> 'a files_scheme \<Rightarrow> (int \<times> 'a files_scheme) kres" where
  "fdalloc f = with_cur (\<lambda>p s.
     case find (\<lambda>fd. p_ofile (ptable s p) fd = None) [0..<NOFILE] of
       None \<Rightarrow> Ret (-1, s)
     | Some fd \<Rightarrow> Ret (int fd, upd_proc p (p_ofile_update (\<lambda>fds. fds(fd := Some f))) s))"

definition sys_dup :: "'a files_scheme \<Rightarrow> (u64 \<times> 'a files_scheme) kres" where
  "sys_dup s = kbind (argfd 0 s) (\<lambda>r. case r of None \<Rightarrow> Ret (-1, s) | Some (_, f) \<Rightarrow>
     kbind (fdalloc f s) (\<lambda>(fd, s). if fd < 0 then Ret (-1, s)
       else kbind (filedup f s) (\<lambda>s. Ret (word_of_int fd, s))))"

definition sys_read :: "'a files_scheme swtch \<Rightarrow> (nat \<Rightarrow> 'a files_scheme devsw) \<Rightarrow> 'a files_scheme \<Rightarrow> (u64 \<times> 'a files_scheme) kres" where
  "sys_read swtch devsw s = kbind (argaddr 1 s) (\<lambda>a. kbind (argint 2 s) (\<lambda>n. kbind (argfd 0 s) (\<lambda>r.
     case r of None \<Rightarrow> Ret (-1, s) | Some (_, f) \<Rightarrow> kbind (fileread swtch devsw f a n s) ret_int)))"

definition sys_write :: "'a files_scheme swtch \<Rightarrow> (nat \<Rightarrow> 'a files_scheme devsw) \<Rightarrow> 'a files_scheme \<Rightarrow> (u64 \<times> 'a files_scheme) kres" where
  "sys_write swtch devsw s = kbind (argaddr 1 s) (\<lambda>a. kbind (argint 2 s) (\<lambda>n. kbind (argfd 0 s) (\<lambda>r.
     case r of None \<Rightarrow> Ret (-1, s) | Some (_, f) \<Rightarrow> kbind (filewrite swtch devsw f a n s) ret_int)))"

definition clear_fd :: "nat \<Rightarrow> nat \<Rightarrow> 'a files_scheme \<Rightarrow> 'a files_scheme" where
  "clear_fd p fd = upd_proc p (p_ofile_update (\<lambda>fds. fds(fd := None)))"

definition sys_close :: "'a files_scheme \<Rightarrow> (u64 \<times> 'a files_scheme) kres" where
  "sys_close s = kbind (argfd 0 s) (\<lambda>r. case r of None \<Rightarrow> Ret (-1, s) | Some (fd, f) \<Rightarrow>
     with_cur (\<lambda>p s. kbind (fileclose f (clear_fd p fd s)) (\<lambda>s. Ret (0, s))) s)"

definition sys_fstat :: "cptr \<Rightarrow> 'a files_scheme \<Rightarrow> (u64 \<times> 'a files_scheme) kres" where
  "sys_fstat stack s = kbind (argaddr 1 s) (\<lambda>st. kbind (argfd 0 s) (\<lambda>r.
     case r of None \<Rightarrow> Ret (-1, s) | Some (_, f) \<Rightarrow> kbind (filestat stack f st s) ret_int))"

subsection \<open>Directories\<close>

text \<open>The end of a system call in a transaction: \<^verbatim>\<open>end_op\<close> and the return.\<close>

definition end_ret :: "u64 \<Rightarrow> 'a log_scheme \<Rightarrow> (u64 \<times> 'a log_scheme) kres" where
  "end_ret r s = kbind (end_op s) (\<lambda>s. Ret (r, s))"

definition link_bad :: "nat \<Rightarrow> 'a fs_scheme \<Rightarrow> (u64 \<times> 'a fs_scheme) kres" where
  "link_bad ip s =
     kbind (ilock (Some ip) s) (\<lambda>s.
     kbind (iupdate ip (upd_inode ip (i_nlink_update (\<lambda>n. n - 1)) s)) (\<lambda>s.
     kbind (iunlockput ip s) (end_ret (-1))))"

definition sys_link :: "cptr \<Rightarrow> 'a fs_scheme \<Rightarrow> (u64 \<times> 'a fs_scheme) kres" where
  "sys_link stack s =
     kbind (argpath stack 0 s) (\<lambda>old. case old of None \<Rightarrow> Ret (-1, s) | Some old \<Rightarrow>
     kbind (argpath stack 1 s) (\<lambda>new. case new of None \<Rightarrow> Ret (-1, s) | Some new \<Rightarrow>
     kbind (begin_op s) (\<lambda>s.
     kbind (namei old s) (\<lambda>(ip, s).
     case ip of None \<Rightarrow> end_ret (-1) s | Some ip \<Rightarrow>
       kbind (ilock (Some ip) s) (\<lambda>s.
       if i_type (itable s ip) = T_DIR then kbind (iunlockput ip s) (end_ret (-1))
       else
         kbind (iupdate ip (upd_inode ip (i_nlink_update (\<lambda>n. n + 1)) s)) (\<lambda>s.
         kbind (iunlock (Some ip) s) (\<lambda>s.
         kbind (nameiparent new (\<lambda>_. 0) s) (\<lambda>(dp, name, s).
         case dp of None \<Rightarrow> link_bad ip s | Some dp \<Rightarrow>
           kbind (ilock (Some dp) s) (\<lambda>s.
           if i_dev (itable s dp) \<noteq> i_dev (itable s ip) then kbind (iunlockput dp s) (link_bad ip)
           else kbind (dirlink dp name (i_inum (itable s ip)) s) (\<lambda>(r, s).
             if r < 0 then kbind (iunlockput dp s) (link_bad ip)
             else kbind (iunlockput dp s) (\<lambda>s. kbind (iput ip s) (end_ret 0))))))))))))"

fun isdirempty_loop :: "nat \<Rightarrow> nat list \<Rightarrow> 'a fs_scheme \<Rightarrow> (bool \<times> 'a fs_scheme) kres" where
  "isdirempty_loop dp [] s = Ret (True, s)"
| "isdirempty_loop dp (off # offs) s =
     kbind (readi dp Struct (of_nat off) 16 s) (\<lambda>(r, de, s).
       if r \<noteq> 16 then Panic ''isdirempty: readi''
       else if de_inum de \<noteq> 0 then Ret (False, s) else isdirempty_loop dp offs s)"

text \<open>The entries from the third on; the first two are for the directory itself and its parent.\<close>

definition isdirempty :: "nat \<Rightarrow> 'a fs_scheme \<Rightarrow> (bool \<times> 'a fs_scheme) kres" where
  "isdirempty dp s = isdirempty_loop dp (drop 2 (dir_offsets (i_size (itable s dp)))) s"

definition dot :: cptr where "dot = cstr [46]"
definition dotdot :: cptr where "dotdot = cstr [46, 46]"

definition sys_unlink :: "cptr \<Rightarrow> 'a fs_scheme \<Rightarrow> (u64 \<times> 'a fs_scheme) kres" where
  "sys_unlink stack s =
     kbind (argpath stack 0 s) (\<lambda>path. case path of None \<Rightarrow> Ret (-1, s) | Some path \<Rightarrow>
     kbind (begin_op s) (\<lambda>s.
     kbind (nameiparent path (\<lambda>_. 0) s) (\<lambda>(dp, name, s).
     case dp of None \<Rightarrow> end_ret (-1) s | Some dp \<Rightarrow>
       kbind (ilock (Some dp) s) (\<lambda>s.
       if namecmp name dot = 0 \<or> namecmp name dotdot = 0 then kbind (iunlockput dp s) (end_ret (-1))
       else kbind (dirlookup dp name s) (\<lambda>(r, s).
         case r of None \<Rightarrow> kbind (iunlockput dp s) (end_ret (-1))
         | Some (ip, off) \<Rightarrow>
             kbind (ilock (Some ip) s) (\<lambda>s.
             if sint (i_nlink (itable s ip)) < 1 then Panic ''unlink: nlink < 1''
             else kbind (if i_type (itable s ip) = T_DIR then isdirempty ip s else Ret (True, s)) (\<lambda>(empty, s).
               if \<not> empty then kbind (iunlockput ip s) (\<lambda>s. kbind (iunlockput dp s) (end_ret (-1)))
               else kbind (writei dp (Value (\<lambda>_. 0)) off 16 s) (\<lambda>(r, s).
                 if r \<noteq> 16 then Panic ''unlink: writei''
                 else
                   kbind (if i_type (itable s ip) = T_DIR then iupdate dp (upd_inode dp (i_nlink_update (\<lambda>n. n - 1)) s) else Ret s) (\<lambda>s.
                   kbind (iunlockput dp s) (\<lambda>s.
                   kbind (iupdate ip (upd_inode ip (i_nlink_update (\<lambda>n. n - 1)) s)) (\<lambda>s.
                   kbind (iunlockput ip s) (end_ret 0))))))))))))"

text \<open>The exit of \<^verbatim>\<open>create\<close> at the label \<^verbatim>\<open>fail\<close>.\<close>

definition create_fail :: "nat \<Rightarrow> nat \<Rightarrow> 'a fs_scheme \<Rightarrow> (nat option \<times> 'a fs_scheme) kres" where
  "create_fail ip dp s =
     kbind (iupdate ip (upd_inode ip (i_nlink_update (\<lambda>_. 0)) s)) (\<lambda>s.
     kbind (iunlockput ip s) (\<lambda>s. kbind (iunlockput dp s) (\<lambda>s. Ret (None, s))))"

text \<open>A new directory gets its entries for itself and for its parent.\<close>

definition link_dots :: "nat \<Rightarrow> nat \<Rightarrow> 'a fs_scheme \<Rightarrow> (bool \<times> 'a fs_scheme) kres" where
  "link_dots ip dp s =
     kbind (dirlink ip dot (i_inum (itable s ip)) s) (\<lambda>(r, s).
     if r < 0 then Ret (False, s)
     else kbind (dirlink ip dotdot (i_inum (itable s dp)) s) (\<lambda>(r, s). Ret (\<not> r < 0, s)))"

definition create :: "path \<Rightarrow> ushort \<Rightarrow> ushort \<Rightarrow> ushort \<Rightarrow> 'a fs_scheme \<Rightarrow> (nat option \<times> 'a fs_scheme) kres" where
  "create path type major minor s =
     kbind (nameiparent path (\<lambda>_. 0) s) (\<lambda>(dp, name, s).
     case dp of None \<Rightarrow> Ret (None, s) | Some dp \<Rightarrow>
       kbind (ilock (Some dp) s) (\<lambda>s.
       kbind (dirlookup dp name s) (\<lambda>(r, s).
       case r of
         Some (ip, _) \<Rightarrow>
           kbind (iunlockput dp s) (\<lambda>s.
           kbind (ilock (Some ip) s) (\<lambda>s.
           if type = T_FILE \<and> (i_type (itable s ip) = T_FILE \<or> i_type (itable s ip) = T_DEVICE) then Ret (Some ip, s)
           else kbind (iunlockput ip s) (\<lambda>s. Ret (None, s))))
       | None \<Rightarrow>
           kbind (ialloc (i_dev (itable s dp)) type s) (\<lambda>(ip, s).
           case ip of None \<Rightarrow> kbind (iunlockput dp s) (\<lambda>s. Ret (None, s)) | Some ip \<Rightarrow>
             kbind (ilock (Some ip) s) (\<lambda>s.
             kbind (iupdate ip (upd_inode ip (\<lambda>x. x\<lparr>i_major := major, i_minor := minor, i_nlink := 1\<rparr>) s)) (\<lambda>s.
             kbind (if type = T_DIR then link_dots ip dp s else Ret (True, s)) (\<lambda>(ok, s).
             if \<not> ok then create_fail ip dp s
             else kbind (dirlink dp name (i_inum (itable s ip)) s) (\<lambda>(r, s).
               if r < 0 then create_fail ip dp s
               else
                 kbind (if type = T_DIR then iupdate dp (upd_inode dp (i_nlink_update (\<lambda>n. n + 1)) s) else Ret s) (\<lambda>s.
                 kbind (iunlockput dp s) (\<lambda>s. Ret (Some ip, s)))))))))))"

subsection \<open>open and its relatives\<close>

definition file_of_inode :: "nat \<Rightarrow> uint \<Rightarrow> inode \<Rightarrow> kfile \<Rightarrow> kfile" where
  "file_of_inode ip omode x f =
     (let f = (if i_type x = T_DEVICE then f\<lparr>f_type := FD_DEVICE, f_major := i_major x\<rparr> else f\<lparr>f_type := FD_INODE, f_off := 0\<rparr>)
      in f\<lparr>f_ip := Some ip,
           f_readable := (if omode AND O_WRONLY = 0 then 1 else 0),
           f_writable := (if omode AND O_WRONLY \<noteq> 0 \<or> omode AND O_RDWR \<noteq> 0 then 1 else 0)\<rparr>)"

text \<open>The second half of \<^verbatim>\<open>sys_open\<close>, with the inode locked.\<close>

definition open_inode :: "nat \<Rightarrow> uint \<Rightarrow> 'a files_scheme \<Rightarrow> (u64 \<times> 'a files_scheme) kres" where
  "open_inode ip omode s =
     (let x = itable s ip in
      if i_type x = T_DEVICE \<and> (sint (i_major x) < 0 \<or> sint (i_major x) \<ge> NDEV)
      then kbind (iunlockput ip s) (end_ret (-1))
      else let (f, s) = filealloc s in
        case f of None \<Rightarrow> kbind (iunlockput ip s) (end_ret (-1))
        | Some f \<Rightarrow>
            kbind (fdalloc f s) (\<lambda>(fd, s).
            if fd < 0 then kbind (fileclose f s) (\<lambda>s. kbind (iunlockput ip s) (end_ret (-1)))
            else let s = upd_file f (file_of_inode ip omode x) s in
              kbind (if omode AND O_TRUNC \<noteq> 0 \<and> i_type x = T_FILE then itrunc ip s else Ret s) (\<lambda>s.
              kbind (iunlock (Some ip) s) (end_ret (word_of_int fd)))))"

definition sys_open :: "cptr \<Rightarrow> 'a files_scheme \<Rightarrow> (u64 \<times> 'a files_scheme) kres" where
  "sys_open stack s =
     kbind (argint 1 s) (\<lambda>om.
     kbind (argpath stack 0 s) (\<lambda>path. case path of None \<Rightarrow> Ret (-1, s) | Some path \<Rightarrow>
     let omode = word_of_int om :: uint in
     kbind (begin_op s) (\<lambda>s.
     if omode AND O_CREATE \<noteq> 0 then
       kbind (create path T_FILE 0 0 s) (\<lambda>(ip, s). case ip of None \<Rightarrow> end_ret (-1) s | Some ip \<Rightarrow> open_inode ip omode s)
     else
       kbind (namei path s) (\<lambda>(ip, s). case ip of None \<Rightarrow> end_ret (-1) s | Some ip \<Rightarrow>
         kbind (ilock (Some ip) s) (\<lambda>s.
         if i_type (itable s ip) = T_DIR \<and> omode \<noteq> 0 then kbind (iunlockput ip s) (end_ret (-1))
         else open_inode ip omode s)))))"

definition put_created :: "nat option \<times> 'a fs_scheme \<Rightarrow> (u64 \<times> 'a fs_scheme) kres" where
  "put_created r = (case r of (None, s) \<Rightarrow> end_ret (-1) s | (Some ip, s) \<Rightarrow> kbind (iunlockput ip s) (end_ret 0))"

definition sys_mkdir :: "cptr \<Rightarrow> 'a fs_scheme \<Rightarrow> (u64 \<times> 'a fs_scheme) kres" where
  "sys_mkdir stack s =
     kbind (begin_op s) (\<lambda>s. kbind (argpath stack 0 s) (\<lambda>path.
     case path of None \<Rightarrow> end_ret (-1) s | Some path \<Rightarrow> kbind (create path T_DIR 0 0 s) put_created))"

definition sys_mknod :: "cptr \<Rightarrow> 'a fs_scheme \<Rightarrow> (u64 \<times> 'a fs_scheme) kres" where
  "sys_mknod stack s =
     kbind (begin_op s) (\<lambda>s. kbind (argint 1 s) (\<lambda>major. kbind (argint 2 s) (\<lambda>minor. kbind (argpath stack 0 s) (\<lambda>path.
     case path of None \<Rightarrow> end_ret (-1) s
     | Some path \<Rightarrow> kbind (create path T_DEVICE (word_of_int major) (word_of_int minor) s) put_created))))"

definition sys_chdir :: "cptr \<Rightarrow> 'a fs_scheme \<Rightarrow> (u64 \<times> 'a fs_scheme) kres" where
  "sys_chdir stack = with_cur (\<lambda>p s.
     kbind (begin_op s) (\<lambda>s. kbind (argpath stack 0 s) (\<lambda>path.
     case path of None \<Rightarrow> end_ret (-1) s | Some path \<Rightarrow>
       kbind (namei path s) (\<lambda>(ip, s). case ip of None \<Rightarrow> end_ret (-1) s | Some ip \<Rightarrow>
         kbind (ilock (Some ip) s) (\<lambda>s.
         if i_type (itable s ip) \<noteq> T_DIR then kbind (iunlockput ip s) (end_ret (-1))
         else kbind (iunlock (Some ip) s) (\<lambda>s.
           case p_cwd (ptable s p) of None \<Rightarrow> Fault ''iput'' | Some cwd \<Rightarrow>
             kbind (iput cwd s) (\<lambda>s. kbind (end_op s) (\<lambda>s.
             Ret (0, upd_proc p (p_cwd_update (\<lambda>_. Some ip)) s)))))))))"

subsection \<open>exec and pipe\<close>

text \<open>
  The loop of \<^verbatim>\<open>sys_exec\<close> over the argument pointers, with \<open>k\<close> entries of \<^verbatim>\<open>argv\<close> left: whether it reached the null pointer,
  the pages allocated so far and the strings in them.  A string goes to a page of its own; its bytes are kept as a value.
\<close>

fun fetch_args :: "nat \<Rightarrow> u64 \<Rightarrow> (u64 \<times> uchar list) list \<Rightarrow> 'a kernel_scheme \<Rightarrow> (bool \<times> (u64 \<times> uchar list) list \<times> 'a kernel_scheme) kres" where
  "fetch_args 0 uargv acc s = Ret (False, acc, s)"
| "fetch_args (Suc k) uargv acc s =
     kbind (fetchaddr (uargv + 8 * of_nat (length acc)) 0 s) (\<lambda>(r, uarg).
     if r < 0 then Ret (False, acc, s)
     else if uarg = 0 then Ret (True, acc, s)
     else kbind (kalloc s) (\<lambda>(pg, s).
       if pg = 0 then Ret (False, acc, s)
       else kbind (fetchstr uarg (ptr_at (mem s) pg) 4096 s) (\<lambda>(r, buf).
         if r < 0 then Ret (False, acc @ [(pg, [])], s)
         else fetch_args k uargv (acc @ [(pg, map buf [0..<nat r])]) s)))"

definition sys_exec :: "cptr \<Rightarrow> 'a fs_scheme \<Rightarrow> (u64 \<times> 'a fs_scheme) kres" where
  "sys_exec stack s =
     kbind (argaddr 1 s) (\<lambda>uargv. kbind (argpath stack 0 s) (\<lambda>path. case path of None \<Rightarrow> Ret (-1, s) | Some path \<Rightarrow>
     kbind (fetch_args MAXARG uargv [] s) (\<lambda>(ok, argv, s).
     kbind (if ok then exec path (map snd argv) s else Ret (-1, s)) (\<lambda>(ret, s).
     kbind (kfold kfree (map fst argv) s) (\<lambda>s. Ret (word_of_int ret, s))))))"

definition close_both :: "nat \<Rightarrow> nat \<Rightarrow> 'a files_scheme \<Rightarrow> (u64 \<times> 'a files_scheme) kres" where
  "close_both rfile wfile s = kbind (fileclose rfile s) (\<lambda>s. kbind (fileclose wfile s) (\<lambda>s. Ret (-1, s)))"

definition sys_pipe :: "'a files_scheme \<Rightarrow> (u64 \<times> 'a files_scheme) kres" where
  "sys_pipe = with_cur (\<lambda>p s.
     kbind (argaddr 0 s) (\<lambda>fdarray.
     kbind (pipealloc s) (\<lambda>(r, s). case r of None \<Rightarrow> Ret (-1, s) | Some (rfile, wfile) \<Rightarrow>
     kbind (fdalloc rfile s) (\<lambda>(fd0, s).
     if fd0 < 0 then close_both rfile wfile s
     else kbind (fdalloc wfile s) (\<lambda>(fd1, s).
       if fd1 < 0 then close_both rfile wfile (clear_fd p (nat fd0) s)
       else
         let undo = \<lambda>s. close_both rfile wfile (clear_fd p (nat fd1) (clear_fd p (nat fd0) s)) in
         kbind (copyout (p_pagetable (ptable s p)) fdarray (st32 0 (word_of_int fd0) (\<lambda>_. 0)) 4 s) (\<lambda>(r, s).
         if r < 0 then undo s
         else kbind (copyout (p_pagetable (ptable s p)) (fdarray + 4) (st32 0 (word_of_int fd1) (\<lambda>_. 0)) 4 s) (\<lambda>(r, s).
           if r < 0 then undo s else Ret (0, s))))))))"

end
