(* ===== verification/Syscall.thy ===== *)
theory Syscall
  imports Sysfile
begin

text \<open>
  The system call dispatcher of \<^verbatim>\<open>kernel/syscall.c\<close> with its three tables.
\<close>

text \<open>The table of handlers; \<open>stack\<close> and \<open>tms\<close> are the contents of uninitialised locals of the handlers.\<close>

definition syscalls :: "'a console_scheme swtch \<Rightarrow> cptr \<Rightarrow> uint \<times> uint \<Rightarrow> int \<Rightarrow> ('a console_scheme \<Rightarrow> (u64 \<times> 'a console_scheme) kres) option" where
  "syscalls swtch stack tms num =
     (if num = 1 then Some sys_fork else if num = 2 then Some (sys_exit swtch) else if num = 3 then Some (sys_wait swtch)
      else if num = 4 then Some sys_pipe else if num = 5 then Some (sys_read swtch (console_devsw swtch))
      else if num = 6 then Some sys_kill else if num = 7 then Some (sys_exec stack) else if num = 8 then Some (sys_fstat stack)
      else if num = 9 then Some (sys_chdir stack) else if num = 10 then Some sys_dup else if num = 11 then Some sys_getpid
      else if num = 12 then Some sys_sbrk else if num = 13 then Some (sys_sleep swtch) else if num = 14 then Some sys_uptime
      else if num = 15 then Some (sys_open stack) else if num = 16 then Some (sys_write swtch (console_devsw swtch))
      else if num = 17 then Some (sys_mknod stack) else if num = 18 then Some (sys_unlink stack)
      else if num = 19 then Some (sys_link stack) else if num = 20 then Some (sys_mkdir stack) else if num = 21 then Some sys_close
      else if num = 22 then Some sys_trace else if num = 23 then Some sys_sigalarm else if num = 24 then Some sys_sigreturn
      else if num = 25 then Some (sys_waitx tms swtch) else if num = 26 then Some (sys_set_priority swtch)
      else if num = 27 then Some sys_settickets else None)"

definition syscall_name :: "int \<Rightarrow> string option" where
  "syscall_name num = map_of [(1, ''fork''), (2, ''exit''), (3, ''wait''), (4, ''pipe''), (5, ''read''), (6, ''kill''), (7, ''exec''),
     (8, ''fstat''), (9, ''chdir''), (10, ''dup''), (11, ''getpid''), (12, ''sbrk''), (13, ''sleep''), (14, ''uptime''),
     (15, ''open''), (16, ''write''), (17, ''mknod''), (18, ''unlink''), (19, ''link''), (20, ''mkdir''), (21, ''close''),
     (22, ''trace''), (25, ''waitx''), (26, ''set_priority''), (27, ''settickets'')] num"

definition syscall_argc :: "int \<Rightarrow> nat" where
  "syscall_argc num = (\<lambda>r. case r of None \<Rightarrow> 0 | Some n \<Rightarrow> n) (map_of [(1, 0), (2, 1), (3, 1), (4, 1), (5, 3), (6, 1), (7, 2), (8, 2), (9, 1), (10, 1), (11, 0),
     (12, 1), (13, 1), (14, 0), (15, 2), (16, 3), (17, 1), (18, 1), (19, 2), (20, 2), (21, 1), (22, 1), (25, 3), (26, 1), (27, 1)] num)"

text \<open>What \<^verbatim>\<open>strace\<close> prints; the first register it shows is the result, which has replaced the first argument.\<close>

definition trace_arg :: "nat \<Rightarrow> nat \<Rightarrow> int \<Rightarrow> tfreg \<Rightarrow> 'a console_scheme \<Rightarrow> 'a console_scheme kres" where
  "trace_arg p k num r s =
     (if syscall_argc num > k then printf (if k = 0 then ''%d'' else '' %d'') [Num (tf_get r p s)] s else Ret s)"

definition trace_line :: "nat \<Rightarrow> int \<Rightarrow> 'a console_scheme \<Rightarrow> 'a console_scheme kres" where
  "trace_line p num s =
     kbind (printf ''%d: syscall %s ('' [Num (word_of_int (p_pid (ptable s p))), Str (map_option ascii (syscall_name num))] s) (\<lambda>s.
     kbind (kfold (\<lambda>(k, r). trace_arg p k num r) [(0, A0), (1, A1), (2, A2), (3, A3), (4, A4), (5, A5)] s) (\<lambda>s.
     kbind (printf '') '' [] s) (\<lambda>s.
     printf (''-> %d'' @ [CHR 0x0A]) [Num (tf_get A0 p s)] s)))"

definition syscall :: "'a console_scheme swtch \<Rightarrow> cptr \<Rightarrow> uint \<times> uint \<Rightarrow> 'a console_scheme \<Rightarrow> 'a console_scheme kres" where
  "syscall swtch stack tms = with_cur (\<lambda>p s.
     let num = sint (ucast (tf_get A7 p s) :: uint) in
     case syscalls swtch stack tms num of
       Some f \<Rightarrow>
         kbind (f s) (\<lambda>(r, s).
         let s = tf_set A0 r p s in
         if bit (p_trace_mask (ptable s p)) (nat num) then trace_line p num s else Ret s)
     | None \<Rightarrow>
         kbind (printf (''%d %s: unknown sys call %d'' @ [CHR 0x0A])
                  [Num (word_of_int (p_pid (ptable s p))), Str (Some (name_text (p_name (ptable s p)))), Num (word_of_int num)] s) (\<lambda>s.
         Ret (tf_set A0 (-1) p s)))"

end
