(* ===== verification/Trap.thy ===== *)
theory Trap
  imports Syscall Queue
begin

text \<open>
  \<^verbatim>\<open>kernel/trap.c\<close>, with \<^verbatim>\<open>forkret\<close> of \<^verbatim>\<open>kernel/proc.c\<close>.  The supervisor registers the handlers use are fields of the
  state.  The addresses of the assembly entry points are constants of the state; the interrupt controller and the disk
  driver, which are not modelled, appear as the interrupt number \<open>irq\<close> that was claimed and the function \<open>disk_intr\<close>.
  Returning to user space ends a handler, so \<^verbatim>\<open>usertrapret\<close> gives the state in which the process goes on.
\<close>

unbundle bit_operations_syntax

record machine = console +
  scause :: u64
  stval :: u64
  sepc :: u64
  spp :: bool
  spie :: bool
  stvec :: u64
  satp :: u64
  kernelvec :: u64
  uservec_off :: u64
  usertrap_addr :: u64
  forkret_first :: bool

datatype sched_kind = RR | MLFQ | PBS | FCFS | LBS

text \<open>The parameters of the handlers.\<close>

record 's env =
  e_sched :: sched_kind
  e_swtch :: "'s \<Rightarrow> 's kres"
  e_stack :: cptr
  e_times :: "uint \<times> uint"
  e_irq :: int
  e_disk_intr :: "'s \<Rightarrow> 's kres"

definition trapinithart :: "'a machine_scheme \<Rightarrow> 'a machine_scheme" where
  "trapinithart s = s\<lparr>stvec := kernelvec s\<rparr>"

definition usertrapret :: "'a machine_scheme \<Rightarrow> 'a machine_scheme kres" where
  "usertrapret = with_cur (\<lambda>p s.
     let s = s\<lparr>intr := False\<rparr>;
         s = s\<lparr>stvec := TRAMPOLINE + uservec_off s\<rparr>;
         s = tf_set Kernel_satp (satp s) p s;
         s = tf_set Kernel_sp (p_kstack (ptable s p) + PGSIZE) p s;
         s = tf_set Kernel_trap (usertrap_addr s) p s;
         s = tf_set Kernel_hartid (of_nat (hartid s)) p s;
         s = s\<lparr>spp := False, spie := True\<rparr>;
         s = s\<lparr>sepc := tf_get Epc p s\<rparr>
     in Ret (s\<lparr>satp := MAKE_SATP (p_pagetable (ptable s p))\<rparr>))"

definition forkret :: "'a machine_scheme \<Rightarrow> 'a machine_scheme kres" where
  "forkret = with_cur (\<lambda>p s.
     kbind (release_proc p s) (\<lambda>s.
     kbind (if forkret_first s then fsinit (uint ROOTDEV) (s\<lparr>forkret_first := False\<rparr>) else Ret s) usertrapret))"

definition clockintr :: "'a kernel_scheme \<Rightarrow> 'a kernel_scheme" where
  "clockintr s = wakeup Ch_ticks (update_time (s\<lparr>ticks := ticks s + 1\<rparr>))"

definition UART0_IRQ :: int where "UART0_IRQ = 10"
definition VIRTIO0_IRQ :: int where "VIRTIO0_IRQ = 1"

definition devintr :: "'a machine_scheme env \<Rightarrow> 'a machine_scheme \<Rightarrow> (int \<times> 'a machine_scheme) kres" where
  "devintr e s =
     (if scause s AND 0x8000000000000000 \<noteq> 0 \<and> scause s AND 0xff = 9 then
        kbind (if e_irq e = UART0_IRQ then uartintr s
               else if e_irq e = VIRTIO0_IRQ then e_disk_intr e s
               else if e_irq e \<noteq> 0 then printf (''unexpected interrupt irq=%d'' @ [CHR 0x0A]) [Num (word_of_int (e_irq e))] s
               else Ret s) (\<lambda>s. Ret (1, s))
      else if scause s = 0x8000000000000001 then Ret (2, if cpuid s = 0 then clockintr s else s)
      else Ret (0, s))"

text \<open>
  The MLFQ part of a timer tick.  The loop looks for a non-empty queue of higher priority; it reads the level of the
  process again after each \<^verbatim>\<open>yield\<close>.
\<close>

partial_function (option) mlfq_preempt :: "('a kernel_scheme \<Rightarrow> 'a kernel_scheme kres) \<Rightarrow> nat \<Rightarrow> nat \<Rightarrow> 'a kernel_scheme \<Rightarrow> 'a kernel_scheme kres option" where
  "mlfq_preempt swtch p i s =
     (if int i < p_queue_position (ptable s p) then
        if q_size s i \<noteq> 0 then
          obind (push_queue p (nat (p_queue_position (ptable s p))) (upd_proc p (p_ticks_used_update (\<lambda>_. 0)) s)) (\<lambda>s.
          obind (yield swtch s) (mlfq_preempt swtch p (Suc i)))
        else mlfq_preempt swtch p (Suc i) s
      else Some (Ret s))"

text \<open>A used-up time slice; \<open>nxt\<close> is the queue the process goes to, which the two handlers compute differently.\<close>

definition next_user :: "int \<Rightarrow> nat" where
  "next_user q = (if q \<le> 3 then nat (q + 1) else 4)"

definition next_kernel :: "int \<Rightarrow> nat" where
  "next_kernel q = (if q \<noteq> 4 then nat (q + 1) else 4)"

definition mlfq_expire :: "(int \<Rightarrow> nat) \<Rightarrow> ('a kernel_scheme \<Rightarrow> 'a kernel_scheme kres) \<Rightarrow> nat \<Rightarrow> 'a kernel_scheme \<Rightarrow> 'a kernel_scheme kres" where
  "mlfq_expire nxt swtch p s =
     (let q = p_queue_position (ptable s p) in
      if p_ticks_used (ptable s p) \<ge> q_max_ticks s (nat q)
      then kbind (push_queue p (nxt q) (upd_proc p (p_ticks_used_update (\<lambda>_. 0)) s)) (yield swtch)
      else Ret s)"

definition mlfq_tick :: "(int \<Rightarrow> nat) \<Rightarrow> ('a kernel_scheme \<Rightarrow> 'a kernel_scheme kres) \<Rightarrow> 'a kernel_scheme \<Rightarrow> 'a kernel_scheme kres" where
  "mlfq_tick nxt swtch s =
     (case cur s of None \<Rightarrow> Ret s | Some p \<Rightarrow>
        if p_state (ptable s p) \<noteq> RUNNING then Ret s
        else kbind (returns (mlfq_preempt swtch p 0 (upd_proc p (p_ticks_used_update (\<lambda>n. n + 1)) s))) (mlfq_expire nxt swtch p))"

text \<open>The end of \<^verbatim>\<open>usertrap\<close>, from the label \<^verbatim>\<open>bad\<close> on.\<close>

definition usertrap_end :: "'a machine_scheme env \<Rightarrow> nat \<Rightarrow> int \<Rightarrow> 'a machine_scheme \<Rightarrow> 'a machine_scheme kres" where
  "usertrap_end e p which_dev s =
     kbind (if p_killed (ptable s p) \<ge> 1 then exit (e_swtch e) (-1) s else Ret s) (\<lambda>s.
     kbind (if killed p s \<noteq> 0 then exit (e_swtch e) (-1) s else Ret s) (\<lambda>s.
     kbind (if e_sched e = RR \<and> which_dev = 2 then yield (e_swtch e) s
            else if e_sched e = MLFQ \<and> which_dev = 2 then mlfq_tick next_user (e_swtch e) s else Ret s) usertrapret))"

text \<open>
  The alarm of a process: count the tick and, when it is due, save the registers and continue in the handler.  The
  boolean says that the handler runs now.
\<close>

definition alarm_tick :: "nat \<Rightarrow> 'a kernel_scheme \<Rightarrow> bool \<times> 'a kernel_scheme" where
  "alarm_tick p s =
     (let s = (if p_max_alarm_ticks (ptable s p) \<ge> 1 \<and> p_alarm_ticks (ptable s p) > -1
               then upd_proc p (p_alarm_ticks_update (\<lambda>n. n + 1)) s else s) in
      if p_max_alarm_ticks (ptable s p) \<ge> 1 \<and> p_alarm_ticks (ptable s p) = p_max_alarm_ticks (ptable s p)
      then let s = upd_proc p (\<lambda>x. x\<lparr>p_alarm_ticks := -1, p_alarm_trap := get_frame p s\<rparr>) s
           in (True, tf_set Epc (p_handler (ptable s p)) p s)
      else (False, s))"

text \<open>
  The store page fault: a copy-on-write page is replaced by a copy.  The entry is read without a test that there is one,
  and so is the new page.
\<close>

datatype cow_result = Cow_done | Cow_err | Cow_bad

definition cow_fault :: "nat \<Rightarrow> 'a machine_scheme \<Rightarrow> (cow_result \<times> 'a machine_scheme) kres" where
  "cow_fault p s =
     (let pt = p_pagetable (ptable s p); va = PGROUNDDOWN (stval s) in
      kbind (walk pt va False s) (\<lambda>(pte, s).
      if pte = 0 then Fault ''pte''
      else if pte_load pte s AND PTE_COW = 0 then Ret (Cow_err, s)
      else let pa = PTE2PA (pte_load pte s) in
        kbind (kalloc s) (\<lambda>(pg, s).
        if pg = 0 \<or> pa = 0 then Fault ''memmove''
        else kbind (mappages pt va PGSIZE pg (PTE_R OR PTE_W OR PTE_X OR PTE_U) (s\<lparr>mem := memmove (mem s) pg pa 4096\<rparr>)) (\<lambda>(r, s).
          if r \<noteq> 0 then kbind (printf (''ERROR'' @ [CHR 0x0A]) [] s) (\<lambda>s. Ret (Cow_bad, upd_proc p (p_killed_update (\<lambda>_. 1)) s))
          else kbind (kfree pa s) (\<lambda>s. Ret (Cow_done, s))))))"

definition unexpected :: "nat \<Rightarrow> 'a machine_scheme \<Rightarrow> 'a machine_scheme kres" where
  "unexpected p s =
     kbind (printf (''error in usertrap(): unexpected scause %p pid=%d'' @ [CHR 0x0A]) [Num (scause s), Num (word_of_int (p_pid (ptable s p)))] s) (\<lambda>s.
     kbind (printf (''            sepc=%p stval=%p'' @ [CHR 0x0A]) [Num (sepc s), Num (stval s)] s) (\<lambda>s.
     Ret (setkilled p s)))"

definition usertrap :: "'a machine_scheme env \<Rightarrow> 'a machine_scheme \<Rightarrow> 'a machine_scheme kres" where
  "usertrap e s =
     (if spp s then Panic ''usertrap: not from user mode''
      else with_cur (\<lambda>p s.
        let s = tf_set Epc (sepc s) p s in
        if scause s = 8 then
          kbind (if killed p s \<noteq> 0 then exit (e_swtch e) (-1) s else Ret s) (\<lambda>s.
          kbind (syscall (e_swtch e) (e_stack e) (e_times e) ((tf_set Epc (tf_get Epc p s + 4) p s)\<lparr>intr := True\<rparr>)) (usertrap_end e p 0))
        else
          kbind (devintr e s) (\<lambda>(which_dev, s).
          if which_dev \<noteq> 0 then
            if which_dev = 2 then
              (case alarm_tick p s of
                 (True, s) \<Rightarrow> usertrapret s
               | (False, s) \<Rightarrow> kbind (yield (e_swtch e) s) (usertrap_end e p which_dev))
            else usertrap_end e p which_dev s
          else if scause s = 15 then
            kbind (cow_fault p s) (\<lambda>(r, s).
            if r = Cow_err then kbind (unexpected p s) (usertrap_end e p 0) else usertrap_end e p 0 s)
          else kbind (unexpected p s) (usertrap_end e p 0))) (s\<lparr>stvec := kernelvec s\<rparr>))"

definition kerneltrap :: "'a machine_scheme env \<Rightarrow> 'a machine_scheme \<Rightarrow> 'a machine_scheme kres" where
  "kerneltrap e s =
     (let pc = sepc s; pp = spp s; pie = spie s in
      if \<not> spp s then Panic ''kerneltrap: not from supervisor mode''
      else if intr s then Panic ''kerneltrap: interrupts enabled''
      else kbind (devintr e s) (\<lambda>(which_dev, s).
        if which_dev = 0 then
          kbind (printf (''scause %p'' @ [CHR 0x0A]) [Num (scause s)] s) (\<lambda>s.
          kbind (printf (''sepc=%p stval=%p'' @ [CHR 0x0A]) [Num (sepc s), Num (stval s)] s) (\<lambda>s. Panic ''kerneltrap''))
        else
          kbind (if e_sched e = RR then
                   (case cur s of Some p \<Rightarrow> if which_dev = 2 \<and> p_state (ptable s p) = RUNNING then yield (e_swtch e) s else Ret s
                    | None \<Rightarrow> Ret s)
                 else if e_sched e = MLFQ \<and> which_dev = 2 then mlfq_tick next_kernel (e_swtch e) s
                 else Ret s) (\<lambda>s.
          Ret (s\<lparr>sepc := pc, spp := pp, spie := pie, intr := False\<rparr>))))"

end
