(* ===== verification/VmFrame.thy ===== *)
theory VmFrame
  imports Vm
begin

text \<open>
  The memory system touches RAM, the free list and the reference counts, and nothing else of the kernel: whatever record
  a state is extended by (the process table, the buffer cache, the file table) is the same after each of its operations.
\<close>

named_theorems vm_frame "operations that keep the rest of the kernel state"

lemma more_pte_store [simp]: "phys.more (pte_store p v s) = phys.more s"
  by (simp add: pte_store_def)

lemma more_zero_page [simp]: "phys.more (zero_page p s) = phys.more s"
  by (simp add: zero_page_def)

lemma ref_upd_frame [vm_frame]: "ref_upd f pa s = Ret s' \<Longrightarrow> phys.more s' = phys.more s"
  by (auto simp: ref_upd_def split: if_splits)

lemma refInc_frame [vm_frame]: "refInc pa s = Ret s' \<Longrightarrow> phys.more s' = phys.more s"
  by (auto simp: refInc_def dest: ref_upd_frame)

lemma kfree_frame [vm_frame]: "kfree pa s = Ret s' \<Longrightarrow> phys.more s' = phys.more s"
  by (auto simp: kfree_def kbind_Ret_iff Let_def dest!: ref_upd_frame split: if_splits)

lemma kalloc_frame [vm_frame]: "kalloc s = Ret (p, s') \<Longrightarrow> phys.more s' = phys.more s"
  by (auto simp: kalloc_def kbind_Ret_iff Let_def dest!: ref_upd_frame split: if_splits)

lemma walk_loop_frame [vm_frame]: "walk_loop l t va al s = Ret (p, s') \<Longrightarrow> phys.more s' = phys.more s"
  by (induction l arbitrary: t s) (auto simp: Let_def dest!: kalloc_frame split: if_splits)

lemma walk_frame [vm_frame]: "walk t va al s = Ret (p, s') \<Longrightarrow> phys.more s' = phys.more s"
  by (auto simp: walk_def dest: walk_loop_frame split: if_splits)

lemma mappages_loop_frame [vm_frame]: "mappages_loop t a lst pa perm s = Ret (r, s') \<Longrightarrow> phys.more s' = phys.more s"
proof (induction t a lst pa perm s rule: mappages_loop.induct)
  case (1 t a lst pa perm s)
  from 1(2) obtain pte s1 where w: "walk t a True s = Ret (pte, s1)"
    unfolding mappages_loop.simps[of t a] by auto
  note IH = 1(1)[OF w refl]
  from 1(2) IH walk_frame[OF w] show ?case
    unfolding mappages_loop.simps[of t a] w by (auto simp: Let_def split: if_splits)
qed

lemma mappages_frame [vm_frame]: "mappages t va sz pa perm s = Ret (r, s') \<Longrightarrow> phys.more s' = phys.more s"
  by (auto simp: mappages_def dest: mappages_loop_frame split: if_splits)

lemma uvmunmap_loop_frame [vm_frame]: "uvmunmap_loop t a aend fr s = Ret s' \<Longrightarrow> phys.more s' = phys.more s"
proof (induction t a aend fr s rule: uvmunmap_loop.induct)
  case (1 t a aend fr s)
  show ?case
  proof (cases "a < aend")
    case True
    from 1(2) True obtain pte s1 s2 where w: "walk t a False s = Ret (pte, s1)"
        "(if fr then kfree (PTE2PA (pte_load pte s1)) s1 else Ret s1) = Ret s2"
        "uvmunmap_loop t (a + PGSIZE) aend fr (pte_store pte 0 s2) = Ret s'" "pte \<noteq> 0" "pte_load pte s1 AND PTE_V \<noteq> 0"
        "PTE_FLAGS (pte_load pte s1) \<noteq> PTE_V"
      unfolding uvmunmap_loop.simps[of t a] by (auto split: if_splits)
    have "phys.more s2 = phys.more s" using w(2) walk_frame[OF w(1)] by (auto split: if_splits dest: kfree_frame)
    with 1(1)[OF True w(1) refl w(4-6,2,3)] show ?thesis by simp
  next
    case False
    with 1(2) show ?thesis unfolding uvmunmap_loop.simps[of t a] by simp
  qed
qed

lemma uvmunmap_frame [vm_frame]: "uvmunmap t va n fr s = Ret s' \<Longrightarrow> phys.more s' = phys.more s"
  by (auto simp: uvmunmap_def dest: uvmunmap_loop_frame split: if_splits)

lemma uvmcreate_frame [vm_frame]: "uvmcreate s = Ret (t, s') \<Longrightarrow> phys.more s' = phys.more s"
  by (auto simp: uvmcreate_def dest!: kalloc_frame split: if_splits)

lemma uvmfirst_frame [vm_frame]: "uvmfirst t src sz s = Ret s' \<Longrightarrow> phys.more s' = phys.more s"
  by (auto simp: uvmfirst_def dest!: kalloc_frame mappages_frame split: if_splits)

lemma uvmdealloc_frame [vm_frame]: "uvmdealloc t old new s = Ret (r, s') \<Longrightarrow> phys.more s' = phys.more s"
  by (auto simp: uvmdealloc_def Let_def dest!: uvmunmap_frame split: if_splits)

lemma freewalk_from_frame: "freewalk_from t i s = Some (Ret s') \<Longrightarrow> phys.more s' = phys.more s"
proof -
  have "\<forall>s'. r = Ret s' \<longrightarrow> phys.more s' = phys.more s" if "freewalk_from t i s = Some r" for r
    using that
  proof (rule freewalk_from.raw_induct[rotated])
    fix f :: "u64 \<Rightarrow> nat \<Rightarrow> 'a phys_scheme \<Rightarrow> 'a phys_scheme kres option" and t i s r
    assume IH: "\<And>t i s r. f t i s = Some r \<Longrightarrow> \<forall>s'. r = Ret s' \<longrightarrow> phys.more s' = phys.more s"
      and r: "(if i < 512 then
        let pte = pte_load (slot t i) s in
        if pte AND PTE_V \<noteq> 0 \<and> pte AND (PTE_R OR PTE_W OR PTE_X) = 0
        then Option.bind (f (PTE2PA pte) 0 s) (\<lambda>r. case r of Ret s \<Rightarrow> f t (Suc i) (pte_store (slot t i) 0 s) | _ \<Rightarrow> Some r)
        else if pte AND PTE_V \<noteq> 0 then Some (Panic ''freewalk: leaf'') else f t (Suc i) s
      else Some (kfree t s)) = Some r"
    from r show "\<forall>s'. r = Ret s' \<longrightarrow> phys.more s' = phys.more s"
      by (auto simp: Let_def bind_eq_Some_conv split: if_splits kres.split_asm dest!: IH dest: kfree_frame)
        (metis IH kres.exhaust more_pte_store)
  qed
  then show "freewalk_from t i s = Some (Ret s') \<Longrightarrow> phys.more s' = phys.more s" by simp
qed

lemma freewalk_frame [vm_frame]: "freewalk t s = Ret s' \<Longrightarrow> phys.more s' = phys.more s"
  by (auto simp: freewalk_def dest: freewalk_from_frame split: option.splits)

lemma uvmfree_frame [vm_frame]: "uvmfree t sz s = Ret s' \<Longrightarrow> phys.more s' = phys.more s"
  by (auto simp: uvmfree_def dest!: uvmunmap_frame freewalk_frame split: if_splits)

lemma uvmcopy_loop_frame [vm_frame]: "uvmcopy_loop old new i sz s = Ret (r, s') \<Longrightarrow> phys.more s' = phys.more s"
proof (induction old new i sz s rule: uvmcopy_loop.induct)
  case (1 old new i sz s)
  show ?case
  proof (cases "i < sz")
    case True
    let ?st = "\<lambda>pte s1. pte_store pte ((pte_load pte s1 OR PTE_COW) AND NOT PTE_W) s1"
    let ?mp = "\<lambda>pte s1. mappages new i PGSIZE (PTE2PA (pte_load pte s1))
      ((PTE_FLAGS (pte_load pte s1) OR PTE_COW) AND NOT (PTE_W OR PTE_V)) (?st pte s1)"
    from 1(2) True obtain pte s1 where w: "walk old i False s = Ret (pte, s1)" "pte \<noteq> 0" "pte_load pte s1 AND PTE_V \<noteq> 0"
      unfolding uvmcopy_loop.simps[of old new i] by (auto split: if_splits)
    from 1(2) True w obtain q s2 where m: "?mp pte s1 = Ret (q, s2)"
      unfolding uvmcopy_loop.simps[of old new i] by (auto simp: Let_def)
    have s2: "phys.more s2 = phys.more s" using mappages_frame[OF m] walk_frame[OF w(1)] by simp
    show ?thesis
    proof (cases "q = 0")
      case q: True
      from 1(2) True w m q obtain s3 where r: "refInc (PTE2PA (pte_load pte s1)) s2 = Ret s3"
        and l: "uvmcopy_loop old new (i + PGSIZE) sz s3 = Ret (r, s')"
        unfolding uvmcopy_loop.simps[of old new i] by (auto simp: Let_def)
      have "phys.more s' = phys.more s3"
        by (rule 1(1)[OF True w(1) refl w(2,3) refl refl refl refl m refl _ r l]) (simp add: q)
      with refInc_frame[OF r] s2 show ?thesis by simp
    next
      case False
      with 1(2) True w m s2 show ?thesis
        unfolding uvmcopy_loop.simps[of old new i] by (auto simp: Let_def dest!: uvmunmap_frame)
    qed
  next
    case False
    with 1(2) show ?thesis unfolding uvmcopy_loop.simps[of old new i] by simp
  qed
qed

lemma uvmcopy_frame [vm_frame]: "uvmcopy old new sz s = Ret (r, s') \<Longrightarrow> phys.more s' = phys.more s"
  by (simp add: uvmcopy_def uvmcopy_loop_frame)

lemma copyout_cow_frame [vm_frame]: "copyout_cow t va pa s = Ret (ok, s') \<Longrightarrow> phys.more s' = phys.more s"
  by (auto simp: copyout_cow_def dest!: kalloc_frame mappages_frame kfree_frame split: if_splits)

lemma copyout_loop_frame [vm_frame]: "copyout_loop t va src i len s = Ret (r, s') \<Longrightarrow> phys.more s' = phys.more s"
proof (induction "unat len" arbitrary: va i len s rule: less_induct)
  case less
  let ?va0 = "PGROUNDDOWN va" and ?n = "min (PGSIZE - (va - PGROUNDDOWN va)) len"
  show ?case
  proof (cases "len = 0 \<or> MAXVA \<le> ?va0")
    case True
    with less.prems show ?thesis unfolding copyout_loop.simps[of t va] by (auto simp: Let_def split: if_splits)
  next
    case False
    with less.prems obtain pa0 pte s1 ok s2 where w: "walk t ?va0 False s = Ret (pte, s1)" "pte \<noteq> 0"
      and c: "(if PTE_FLAGS (pte_load pte s1) AND PTE_COW \<noteq> 0 then copyout_cow t ?va0 pa0 s1 else Ret (True, s1)) = Ret (ok, s2)"
      and k: "(if \<not> ok then Ret (-1, s2) else kbind (walkaddr t ?va0 s2) (\<lambda>pa0. if pa0 = 0 then Ret (-1, s2)
         else copyout_loop t (?va0 + PGSIZE) src (i + unat ?n) (len - ?n)
           (s2\<lparr>mem := mem_write (mem s2) (pa0 + (va - ?va0)) (\<lambda>j. src (i + j)) ?n\<rparr>))) = Ret (r, s')"
      unfolding copyout_loop.simps[of t va] by (auto simp: Let_def split: if_splits)
    have s2: "phys.more s2 = phys.more s" using c walk_frame[OF w(1)] by (auto split: if_splits dest: copyout_cow_frame)
    have "unat (len - ?n) < unat len" using False by (intro rest_measure) auto
    from k s2 less.hyps[OF this] show ?thesis by (auto split: if_splits)
  qed
qed

lemma copyout_frame [vm_frame]: "copyout t va src len s = Ret (r, s') \<Longrightarrow> phys.more s' = phys.more s"
  by (simp add: copyout_def copyout_loop_frame)

end
