(* ===== verification/PipeProps.thy ===== *)
theory PipeProps
  imports Pipe FsLayout AddressSpace
begin

text \<open>
  A pipe is a first-in first-out buffer of 512 bytes.  Its counters run modulo \<open>2 ^ 32\<close> and index the buffer modulo
  512; as 512 divides \<open>2 ^ 32\<close>, the wrap-around of the counters does no harm.
\<close>

subsection \<open>The ring\<close>

definition pipe_len :: "pipe \<Rightarrow> nat" where
  "pipe_len p = unat (pi_nwrite p - pi_nread p)"

definition pipe_bytes :: "pipe \<Rightarrow> uchar list" where
  "pipe_bytes p = ring_list PIPESIZE (pi_data p) (pi_nread p) (pi_nwrite p)"

definition pipe_ok :: "pipe \<Rightarrow> bool" where
  "pipe_ok p \<longleftrightarrow> pipe_len p \<le> PIPESIZE"

lemma length_pipe_bytes [simp]: "length (pipe_bytes p) = pipe_len p"
  by (simp add: pipe_bytes_def pipe_len_def)

lemma pipe_ring: "PIPESIZE dvd 2 ^ LENGTH(32)" "PIPESIZE < 2 ^ LENGTH(32)"
  by (simp_all add: PIPESIZE_def)

lemma pipe_full_len: "pipe_ok p \<Longrightarrow> pipe_full p \<longleftrightarrow> pipe_len p = PIPESIZE"
proof -
  have "pipe_full p \<longleftrightarrow> pi_nwrite p - pi_nread p = 512"
    unfolding pipe_full_def PIPESIZE_def by (auto simp: algebra_simps)
  also have "\<dots> \<longleftrightarrow> pipe_len p = PIPESIZE" by (simp add: pipe_len_def PIPESIZE_def word_unat_eq_iff)
  finally show ?thesis .
qed

lemma pipe_empty_len: "pipe_empty p \<longleftrightarrow> pipe_len p = 0"
  by (auto simp: pipe_empty_def pipe_len_def unat_eq_0)

lemma pipe_put_fifo:
  assumes "pipe_len p < PIPESIZE"
  shows "pipe_bytes (pipe_put ch p) = pipe_bytes p @ [ch]" "pipe_ok (pipe_put ch p)"
proof -
  show b: "pipe_bytes (pipe_put ch p) = pipe_bytes p @ [ch]"
    using ring_push[OF pipe_ring, where r = "pi_nread p" and w = "pi_nwrite p"] assms
    by (simp add: pipe_bytes_def pipe_put_def pipe_len_def)
  show "pipe_ok (pipe_put ch p)" using arg_cong[OF b, of length] assms by (simp add: pipe_ok_def)
qed

lemma pipe_get_fifo:
  assumes "pipe_ok p" "pipe_bytes p = x # xs"
  shows "fst (pipe_get p) = x" "pipe_bytes (snd (pipe_get p)) = xs" "pipe_ok (snd (pipe_get p))"
proof -
  have ne: "pi_nwrite p \<noteq> pi_nread p" using assms(2) by (auto simp: pipe_bytes_def)
  show "fst (pipe_get p) = x" and b: "pipe_bytes (snd (pipe_get p)) = xs"
    using ring_pop[OF pipe_ring(1) ne, of "pi_data p"] assms(2) by (simp_all add: pipe_bytes_def pipe_get_def)
  show "pipe_ok (snd (pipe_get p))"
    using arg_cong[OF b, of length] arg_cong[OF assms(2), of length] assms(1) by (simp add: pipe_ok_def)
qed

text \<open>What one round of \<^verbatim>\<open>pipewrite\<close> and one of \<^verbatim>\<open>piperead\<close> do to the ring; on a full or an empty ring they wait.\<close>

definition pipe_push :: "uchar \<Rightarrow> pipe \<Rightarrow> pipe kres" where
  "pipe_push ch p = (if pipe_full p then Block Ch_spin else Ret (pipe_put ch p))"

definition pipe_pop :: "pipe \<Rightarrow> (uchar \<times> pipe) kres" where
  "pipe_pop p = (if pipe_empty p then Block Ch_spin else Ret (pipe_get p))"

interpretation pq: guarded_fifo pipe_push pipe_pop pipe_bytes pipe_ok PIPESIZE
proof (unfold_locales, goal_cases)
  case (1 s x)
  then have "pipe_len s < PIPESIZE" by simp
  with 1(1) show ?case using pipe_put_fifo[of s x] by (simp add: pipe_push_def pipe_full_len)
next
  case (2 s x xs)
  then have "\<not> pipe_empty s" by (metis length_0_conv length_pipe_bytes list.distinct(1) pipe_empty_len)
  with pipe_get_fifo[OF 2] show ?case by (cases "pipe_get s") (simp add: pipe_pop_def)
next
  case (3 s x s')
  then show ?case by (auto simp: pipe_push_def pipe_full_len pipe_ok_def)
next
  case (4 s x s')
  then show ?case by (metis kres.distinct(6) length_pipe_bytes list.size(3) pipe_empty_len pipe_pop_def)
qed

subsection \<open>The operations\<close>

text \<open>The page tables and the user memory of a state are those of its physical part.\<close>

lemma phys_part:
  "ents (phys.truncate s) = ents s" "refs (phys.truncate s) = refs s" "free_pages (phys.truncate s) = free_pages s"
  "kmem_ok (phys.truncate s) = kmem_ok s" "mem (phys.truncate s) = mem s"
proof -
  show m: "mem (phys.truncate s) = mem s" by (simp add: phys.truncate_def)
  have l: "kend (phys.truncate s) = kend s" "kmem_freelist (phys.truncate s) = kmem_freelist s"
    "refCount (phys.truncate s) = refCount s" by (simp_all add: phys.truncate_def)
  have p: "is_page (phys.truncate s) = is_page s" by (rule ext) (simp add: is_page_def l)
  show "ents (phys.truncate s) = ents s" by (intro ext) (simp add: ents_def pte_load_def m)
  show r: "refs (phys.truncate s) = refs s" by (rule ext) (simp add: refs_def p l)
  show f: "free_pages (phys.truncate s) = free_pages s" by (simp add: free_pages_def p r)
  show "kmem_ok (phys.truncate s) = kmem_ok s"
    by (simp add: kmem_ok_def kmem_inv_def layout_ok_def l m r f)
qed

lemma vm_inv_part: "vm_inv (phys.truncate s) R K = vm_inv s R K"
  by (simp add: vm_inv_def phys_part)

lemma uacc_part: "uacc (phys.truncate s) = uacc s"
  by (intro ext) (simp add: uacc_def phys_part)

lemma ubyte_part: "ubyte (phys.truncate s) = ubyte s"
  by (intro ext) (simp add: ubyte_def phys_part)

lemma kernel_only_part: "kernel_only (phys.truncate s) r = kernel_only s r"
  by (simp add: kernel_only_def uacc_part)

lemmas user_part = vm_inv_part uacc_part ubyte_part kernel_only_part

lemma truncate_upd_pipe [simp]: "phys.truncate (upd_pipe pi f s) = phys.truncate s"
  by (simp add: upd_pipe_def phys.truncate_def)

lemma user_upd_pipe:
  "vm_inv (upd_pipe pi f s) R K = vm_inv s R K" "uacc (upd_pipe pi f s) = uacc s"
  "ubyte (upd_pipe pi f s) = ubyte s" "kernel_only (upd_pipe pi f s) r = kernel_only s r"
  using user_part[of "upd_pipe pi f s"] user_part[of s] by simp_all

lemma upd_pipe_sel [simp]:
  "ptable (upd_pipe pi f s) = ptable s" "cur (upd_pipe pi f s) = cur s" "pipes (upd_pipe pi f s) = (pipes s)(pi := f (pipes s pi))"
  by (simp_all add: upd_pipe_def)

lemma wakeup_pipes [simp]: "pipes (wakeup c s) = pipes s"
proof -
  have "pipes (fold (\<lambda>i s. if Some i \<noteq> myproc s \<and> p_state (ptable s i) = SLEEPING \<and> p_chan (ptable s i) = Some c
     then upd_proc i (p_state_update (\<lambda>_. RUNNABLE)) s else s) xs s) = pipes s" for xs
    by (induction xs arbitrary: s) (simp_all add: upd_proc_def)
  then show ?thesis by (simp add: wakeup_def)
qed

lemma copyin_byte:
  assumes "vm_inv s R K" "r \<in> R" "kernel_only s r"
  shows "\<exists>d. copyin r (\<lambda>_. 0) va 1 s = (if uacc s r va then Ret (0, d(0 := ubyte s r va)) else Ret (-1, d))"
proof (cases "uacc s r va")
  case True
  then show ?thesis using copyin_loop_ok[OF assms, of "\<lambda>_. 0" 0 va 1]
    by (intro exI[of _ "\<lambda>_. 0"]) (auto simp: copyin_def blit_def fun_eq_iff)
next
  case False
  then show ?thesis using copyin_loop_ok[OF assms, of "\<lambda>_. 0" 0 va 1] by (auto simp: copyin_def)
qed

text \<open>A write that fits is done without waiting: byte by byte it goes to the end of the ring.\<close>

lemma pipewrite_loop_room:
  assumes "vm_inv s R K" "p_pagetable (ptable s pr) \<in> R" "kernel_only s (p_pagetable (ptable s pr))"
    and "pipe_ok (pipes s pi)" "pi_readopen (pipes s pi) \<noteq> 0" "p_killed (ptable s pr) = 0"
    and "pipe_len (pipes s pi) + m \<le> PIPESIZE"
    and "\<forall>j < m. uacc s (p_pagetable (ptable s pr)) (addr + of_nat (i + j))"
  shows "\<exists>s'. pipewrite_loop swtch pr pi addr (int (i + m)) (int i) s = Some (Ret (int (i + m), s'))
     \<and> pipe_ok (pipes s' pi)
     \<and> pipe_bytes (pipes s' pi) = pipe_bytes (pipes s pi) @ map (\<lambda>j. ubyte s (p_pagetable (ptable s pr)) (addr + of_nat (i + j))) [0..<m]"
  using assms
proof (induction m arbitrary: i s)
  case 0
  then show ?case by (subst pipewrite_loop.simps) simp
next
  case (Suc m)
  let ?r = "p_pagetable (ptable s pr)"
  let ?c = "ubyte s ?r (addr + of_nat i)"
  let ?s = "upd_pipe pi (pipe_put ?c) s"
  have u: "uacc s ?r (addr + of_nat i)" using Suc.prems(8) by fastforce
  obtain d where d: "copyin ?r (\<lambda>_. 0) (addr + of_nat i) 1 s = Ret (0, d(0 := ?c))"
    using copyin_byte[OF Suc.prems(1-3), of "addr + of_nat i"] u by auto
  have l: "pipe_len (pipes s pi) < PIPESIZE" using Suc.prems(7) by simp
  note put = pipe_put_fifo[OF l, of ?c] arg_cong[OF pipe_put_fifo(1)[OF l, of ?c], of length, simplified]
  have "pipewrite_loop swtch pr pi addr (int (i + Suc m)) (int i) s = pipewrite_loop swtch pr pi addr (int (Suc i + m)) (int (Suc i)) ?s"
    using Suc.prems(4-6) l d by (subst pipewrite_loop.simps) (simp add: killed_def pipe_full_len add.commute)
  moreover have "pi_readopen (pipe_put ?c (pipes s pi)) \<noteq> 0" using Suc.prems(5) by (simp add: pipe_put_def)
  moreover have "\<forall>j < m. uacc s ?r (addr + of_nat (Suc i + j))"
    using Suc.prems(8) by (metis Suc_mono add_Suc_shift)
  ultimately show ?case
    using Suc.IH[of ?s "Suc i"] Suc.prems(1-3,6,7) put
    by (simp add: user_upd_pipe map_upt_Suc algebra_simps del: upt_Suc)
qed

text \<open>C11. A pipe is a byte stream: after any interleaving of the rounds of its writers and readers, from any state of the
  ring, the bytes taken out are, in order, the first of those that were in it and were put in, and the rest is still in
  the ring, which never holds more than 512; the counters may wrap around on the way.\<close>

theorem pipe_stream:
  assumes "pipe_ok p" "traffic pipe_push pipe_pop p ws rs q"
  shows "pipe_bytes p @ ws = rs @ pipe_bytes q \<and> length (pipe_bytes q) \<le> 512"
  using pq.nothing_lost[OF assms(2,1)] by (simp add: pipe_ok_def PIPESIZE_def)

text \<open>C17. A write to a pipe that has room for it, from memory the process may read, returns the count without waiting
  and appends exactly the bytes of the process's memory at the address to the pipe.\<close>

theorem pipewrite_appends:
  assumes "vm_inv s R K" "cur s = Some pr" "p_pagetable (ptable s pr) = r" "r \<in> R" "kernel_only s r"
    and "pipe_ok (pipes s pi)" "pi_readopen (pipes s pi) \<noteq> 0" "p_killed (ptable s pr) = 0"
    and "length (pipe_bytes (pipes s pi)) + n \<le> 512" "\<forall>j < n. uacc s r (addr + of_nat j)"
  shows "\<exists>s'. pipewrite swtch pi addr (int n) s = Ret (int n, s') \<and> pipe_ok (pipes s' pi)
     \<and> pipe_bytes (pipes s' pi) = pipe_bytes (pipes s pi) @ map (\<lambda>j. ubyte s r (addr + of_nat j)) [0..<n]"
proof -
  obtain s' where "pipewrite_loop swtch pr pi addr (int n) 0 s = Some (Ret (int n, s'))" "pipe_ok (pipes s' pi)"
    "pipe_bytes (pipes s' pi) = pipe_bytes (pipes s pi) @ map (\<lambda>j. ubyte s r (addr + of_nat j)) [0..<n]"
    using pipewrite_loop_room[of s R K pr pi n addr 0 swtch] assms by (auto simp: PIPESIZE_def)
  then show ?thesis using assms(2) by (simp add: pipewrite_def with_cur_def returns_def)
qed

text \<open>The example machine with an open pipe whose counters are about to wrap.\<close>

definition pipe0 :: pipe where
  "pipe0 = \<lparr>pi_data = (\<lambda>_. 0), pi_nread = 0xFFFFFFFF, pi_nwrite = 0xFFFFFFFF, pi_readopen = 1, pi_writeopen = 1\<rparr>"

definition file0 :: kfile where
  "file0 = \<lparr>f_type = FD_NONE, f_ref = 0, f_readable = 0, f_writable = 0, f_pipe = 0, f_ip = None, f_off = 0, f_major = 0\<rparr>"

definition files0 :: files where
  "files0 = (fs.extend fs0 \<lparr>pipes = (\<lambda>_. pipe0), ftable = (\<lambda>_. file0)\<rparr>)
     \<lparr>mem := mem demo, kmem_freelist := kmem_freelist demo, refCount := refCount demo, kend := kend demo,
      cur := Some 3, ptable := (\<lambda>_. proc0\<lparr>p_pagetable := 0x87ff8000\<rparr>)\<rparr>"

lemma files0_simps [simp]:
  "cur files0 = Some 3" "ptable files0 = (\<lambda>_. proc0\<lparr>p_pagetable := 0x87ff8000\<rparr>)" "pipes files0 = (\<lambda>_. pipe0)"
  "ftable files0 = (\<lambda>_. file0)" "phys.truncate files0 = demo"
  by (simp_all add: files0_def fs.extend_def phys.truncate_def)

lemma files0_user:
  "vm_inv files0 demoR (\<lambda>_. 0)" "uacc files0 = uacc demo" "ubyte files0 = ubyte demo" "r \<in> demoR \<Longrightarrow> kernel_only files0 r"
  using user_part[of files0] demo_inv demo_user[of r] by (simp_all add: user_ok_def)

lemma pipe0_simps: "pipe_ok pipe0" "pipe_bytes pipe0 = []"
  by (simp_all add: pipe0_def pipe_ok_def pipe_bytes_def pipe_len_def)

theorem pipe_stream_witness:
  "traffic pipe_push pipe_pop pipe0 [7, 8] [7] (snd (pipe_get (pipe_put 8 (pipe_put 7 pipe0))))
   \<and> pipe_bytes (snd (pipe_get (pipe_put 8 (pipe_put 7 pipe0)))) = [8]"
proof -
  have 1: "pipe_push 7 pipe0 = Ret (pipe_put 7 pipe0)" "pipe_push 8 (pipe_put 7 pipe0) = Ret (pipe_put 8 (pipe_put 7 pipe0))"
    by (simp_all add: pipe_push_def pipe_full_def pipe_put_def pipe0_def PIPESIZE_def)
  have 2: "pipe_pop (pipe_put 8 (pipe_put 7 pipe0)) = Ret (7, snd (pipe_get (pipe_put 8 (pipe_put 7 pipe0))))"
    by (simp add: pipe_pop_def pipe_empty_def pipe_get_def pipe_put_def pipe0_def PIPESIZE_def)
  have t: "traffic pipe_push pipe_pop pipe0 [7, 8] [7] (snd (pipe_get (pipe_put 8 (pipe_put 7 pipe0))))"
    using traffic.get[OF traffic.put[OF traffic.put[OF traffic.start[of pipe_push pipe_pop pipe0] 1(1)] 1(2)] 2] by simp
  with pipe_stream[OF pipe0_simps(1) t] show ?thesis by (simp add: pipe0_simps)
qed

theorem pipewrite_appends_witness:
  "\<exists>s'. pipewrite Ret 0x87fff000 0 2 files0 = Ret (2, s') \<and> pipe_bytes (pipes s' 0x87fff000) = [0x68, 0x69]"
proof -
  have u: "\<forall>j < 2. uacc files0 0x87ff8000 (0 + of_nat j)"
    by (auto simp: files0_user uacc_demo MAXVA_val less_2_cases_iff clear_low_def)
  have b: "map (\<lambda>j. ubyte files0 0x87ff8000 (0 + of_nat j)) [0..<2] = [0x68, 0x69]"
    by (simp add: files0_user ubyte_demo numeral_2_eq_2)
  have k: "p_killed proc0 = 0" by (simp add: proc0_def)
  from pipewrite_appends[OF files0_user(1), of 3 "0x87ff8000" "0x87fff000" 2 0 Ret] u b k show ?thesis
    by (simp add: files0_user(4) pipe0_simps) (auto simp: pipe0_def)
qed

end
