(* ===== verification/FileRefs.thy ===== *)
theory FileRefs
  imports ProcLife VmFrame PipeProps
begin

text \<open>
  The reference count of an open file is the number of file descriptors that stand for it, over all processes, plus the
  references that kernel code in flight holds.  \<^verbatim>\<open>fork\<close> keeps it so: it gives the child the descriptors of the parent
  and counts each.
\<close>

subsection \<open>Descriptors and reference counts\<close>

definition fds :: "(nat \<Rightarrow> proc) \<Rightarrow> nat \<Rightarrow> (nat \<times> nat) set" where
  "fds tab f = {(i, fd). i < NPROC \<and> fd < NOFILE \<and> p_ofile (tab i) fd = Some f}"

definition fds_inv :: "'a files_scheme \<Rightarrow> (nat \<Rightarrow> int) \<Rightarrow> bool" where
  "fds_inv s K \<longleftrightarrow> (\<forall>f. 0 \<le> K f \<and> f_ref (ftable s f) = int (card (fds (ptable s) f)) + K f)"

lemma finite_fds [simp]: "finite (fds tab f)"
  by (rule finite_subset[of _ "{..<NPROC} \<times> {..<NOFILE}"]) (auto simp: fds_def)

lemma fds_same: "(\<And>i. p_ofile (tab' i) = p_ofile (tab i)) \<Longrightarrow> fds tab' f = fds tab f"
  by (simp add: fds_def)

lemma fds_open:
  assumes "i < NPROC" "fd < NOFILE" "p_ofile (tab i) fd = None" "p_ofile p = (p_ofile (tab i))(fd := Some f)"
  shows "fds (tab(i := p)) g = (if g = f then insert (i, fd) (fds tab f) else fds tab g)"
  using assms by (auto simp: fds_def split: if_splits)

lemma upd_file_sel [simp]:
  "ptable (upd_file f g s) = ptable s" "ftable (upd_file f g s) = (ftable s)(f := g (ftable s f))"
  "cur (upd_file f g s) = cur s" "itable (upd_file f g s) = itable s" "mem (upd_file f g s) = mem s"
  by (simp_all add: upd_file_def)

lemma upd_proc_files [simp]: "ftable (upd_proc i h s) = ftable s"
  by (simp add: upd_proc_def)

lemma upd_proc_sel [simp]:
  "ptable (upd_proc i h s) = (ptable s)(i := h (ptable s i))" "cur (upd_proc i h s) = cur s" "ticks (upd_proc i h s) = ticks s"
  "nextpid (upd_proc i h s) = nextpid s" "forkret_addr (upd_proc i h s) = forkret_addr s"
  by (simp_all add: upd_proc_def)

text \<open>Opening a further descriptor for a file: \<^verbatim>\<open>filedup\<close> and the store into the table of the process.\<close>

lemma dup_counted:
  assumes inv: "fds_inv s K" and i: "i < NPROC" "fd < NOFILE" "p_ofile (ptable s i) fd = None"
    and f: "fds (ptable s) f \<noteq> {}"
  shows "filedup f s = Ret (upd_file f (f_ref_update (\<lambda>n. n + 1)) s)"
    and "fds_inv (upd_proc i (p_ofile_update (\<lambda>fds. fds(fd := Some f))) (upd_file f (f_ref_update (\<lambda>n. n + 1)) s)) K"
proof -
  have "1 \<le> card (fds (ptable s) f)" using f by (simp add: card_gt_0_iff Suc_le_eq)
  moreover have "f_ref (ftable s f) = int (card (fds (ptable s) f)) + K f" "0 \<le> K f" using inv by (simp_all add: fds_inv_def)
  ultimately show "filedup f s = Ret (upd_file f (f_ref_update (\<lambda>n. n + 1)) s)" by (simp add: filedup_def)
  have "(i, fd) \<notin> fds (ptable s) f" using i(3) by (simp add: fds_def)
  then show "fds_inv (upd_proc i (p_ofile_update (\<lambda>fds. fds(fd := Some f))) (upd_file f (f_ref_update (\<lambda>n. n + 1)) s)) K"
    using inv fds_open[where tab = "ptable s", OF i, of "p_ofile_update (\<lambda>fds. fds(fd := Some f)) (ptable s i)" f]
    by (simp add: fds_inv_def)
qed

subsection \<open>The descriptors of a child\<close>

lemma inherit_fd_ok:
  assumes "fds_inv s K" "p < NPROC" "np < NPROC" "fd < NOFILE" "p_ofile (ptable s np) fd = None"
  shows "\<exists>s'. inherit_fd p np fd s = Ret s' \<and> fds_inv s' K
     \<and> ptable s' = (ptable s)(np := p_ofile_update (\<lambda>fds. fds(fd := p_ofile (ptable s p) fd)) (ptable s np))"
proof (cases "p_ofile (ptable s p) fd")
  case None
  with assms(5) have "p_ofile_update (\<lambda>fds. fds(fd := p_ofile (ptable s p) fd)) (ptable s np) = ptable s np"
    by (simp add: fun_upd_idem)
  with None assms(1) show ?thesis by (simp add: inherit_fd_def)
next
  case (Some f)
  then have "fds (ptable s) f \<noteq> {}" using assms(2,4) by (auto simp: fds_def)
  with dup_counted[OF assms(1,3-5)] Some show ?thesis by (simp add: inherit_fd_def)
qed

lemma inherit_ok:
  assumes "fds_inv s K" "p < NPROC" "np < NPROC" "p \<noteq> np" "n \<le> NOFILE" "p_ofile (ptable s np) = (\<lambda>_. None)"
  shows "\<exists>s'. kfold (inherit_fd p np) [0..<n] s = Ret s' \<and> fds_inv s' K
     \<and> ptable s' = (ptable s)(np := p_ofile_update (\<lambda>_ fd. if fd < n then p_ofile (ptable s p) fd else None) (ptable s np))"
  using assms(5)
proof (induction n)
  case 0
  have "p_ofile_update (\<lambda>_ fd. None) (ptable s np) = ptable s np" using assms(6) by (metis proc.surjective proc.update_convs(13) proc.select_convs(13))
  with assms(1) show ?case by simp
next
  case (Suc n)
  then obtain s1 where s1: "kfold (inherit_fd p np) [0..<n] s = Ret s1" "fds_inv s1 K"
    "ptable s1 = (ptable s)(np := p_ofile_update (\<lambda>_ fd. if fd < n then p_ofile (ptable s p) fd else None) (ptable s np))"
    using Suc.IH Suc.prems Suc_leD by blast
  have "n < NOFILE" using Suc.prems by simp
  from inherit_fd_ok[OF s1(2) assms(2,3) this] s1(3) obtain s2 where
    "inherit_fd p np n s1 = Ret s2" "fds_inv s2 K"
    "ptable s2 = (ptable s1)(np := p_ofile_update (\<lambda>fds. fds(n := p_ofile (ptable s1 p) n)) (ptable s1 np))" by auto
  moreover have "(\<lambda>fd. if fd < n then p_ofile (ptable s p) fd else None)(n := p_ofile (ptable s p) n)
     = (\<lambda>fd. if fd < Suc n then p_ofile (ptable s p) fd else None)" by (auto simp: less_Suc_eq)
  ultimately show ?case using s1 assms(4) by (auto simp: kfold_append)
qed

subsection \<open>fork\<close>

lemma kernel_more:
  "phys.more s' = phys.more s \<Longrightarrow>
     ptable s' = ptable s \<and> cur s' = cur s \<and> initproc s' = initproc s \<and> ticks s' = ticks s \<and> nextpid s' = nextpid s"
  by (cases s, cases s') simp

lemma files_more:
  "phys.more s' = phys.more s \<Longrightarrow> ftable s' = ftable s \<and> itable s' = itable s \<and> pipes s' = pipes s"
  by (cases s, cases s') simp

lemma find_slot_Some: "find_slot P is tab = Some i \<Longrightarrow> i \<in> set is \<and> P (tab i)"
  by (induction "is") (auto split: if_splits)

text \<open>What \<^verbatim>\<open>allocproc\<close> and \<^verbatim>\<open>freeproc\<close> leave alone.\<close>

definition same_fds :: "'a files_scheme \<Rightarrow> 'a files_scheme \<Rightarrow> bool" where
  "same_fds s s' \<longleftrightarrow> ftable s' = ftable s \<and> cur s' = cur s \<and> (\<forall>i. p_ofile (ptable s' i) = p_ofile (ptable s i))"

lemma same_fds_refl: "same_fds s s"
  by (simp add: same_fds_def)

lemma same_fds_trans [trans]: "same_fds s t \<Longrightarrow> same_fds t u \<Longrightarrow> same_fds s u"
  by (simp add: same_fds_def)

lemma same_fds_more: "phys.more s' = phys.more s \<Longrightarrow> same_fds s s'"
  by (frule kernel_more, drule files_more) (simp add: same_fds_def)

lemma same_fds_upd_proc: "(\<And>x. p_ofile (h x) = p_ofile x) \<Longrightarrow> same_fds s (upd_proc i h s)"
  by (simp add: same_fds_def)

lemma same_fds_inv: "same_fds s s' \<Longrightarrow> fds_inv s' K = fds_inv s K"
  by (simp add: fds_inv_def same_fds_def fds_same[of "ptable s'" "ptable s"])

lemma proc_freepagetable_frame [vm_frame]: "proc_freepagetable t sz s = Ret s' \<Longrightarrow> phys.more s' = phys.more s"
  by (auto simp: proc_freepagetable_def dest!: uvmunmap_frame uvmfree_frame)

lemma proc_pagetable_frame [vm_frame]: "proc_pagetable i s = Ret (t, s') \<Longrightarrow> phys.more s' = phys.more s"
  by (auto simp: proc_pagetable_def dest!: uvmcreate_frame mappages_frame uvmfree_frame uvmunmap_frame split: if_splits)

lemma freeproc_fds:
  assumes "freeproc i s = Ret s'"
  shows "same_fds s s'"
proof -
  obtain s1 where 1: "(if p_trapframe (ptable s i) \<noteq> 0 then kfree (p_trapframe (ptable s i)) s else Ret s) = Ret s1"
    using assms by (auto simp: freeproc_def Let_def)
  let ?s1 = "upd_proc i (p_trapframe_update (\<lambda>_. 0)) s1"
  obtain s2 where 2: "(if p_pagetable (ptable ?s1 i) \<noteq> 0
      then proc_freepagetable (p_pagetable (ptable ?s1 i)) (p_sz (ptable ?s1 i)) ?s1 else Ret ?s1) = Ret s2"
    using assms 1 by (auto simp: freeproc_def Let_def)
  have "same_fds s s1" using 1 by (auto split: if_splits intro: same_fds_refl same_fds_more dest: kfree_frame)
  also have "same_fds s1 ?s1" by (rule same_fds_upd_proc) simp
  also have "same_fds ?s1 s2"
    using 2 by (auto split: if_splits intro: same_fds_refl same_fds_more dest: proc_freepagetable_frame)
  finally show ?thesis using assms 1 2
    by (auto simp: freeproc_def Let_def elim!: same_fds_trans intro!: same_fds_upd_proc)
qed

text \<open>The stages of \<^verbatim>\<open>allocproc\<close> on a free slot.\<close>

lemma allocproc_stages:
  assumes "allocproc s = Ret (r, s')" "find_slot (\<lambda>p. p_state p = UNUSED) [0..<NPROC] (ptable s) = Some i"
  obtains tf s1 where "kalloc (upd_proc i (alloc_init (nextpid s)) (s\<lparr>nextpid := nextpid s + 1\<rparr>)) = Ret (tf, s1)"
      "tf = 0" "r = None" "freeproc i (upd_proc i (p_trapframe_update (\<lambda>_. tf)) s1) = Ret s'"
  | tf s1 s2 where "kalloc (upd_proc i (alloc_init (nextpid s)) (s\<lparr>nextpid := nextpid s + 1\<rparr>)) = Ret (tf, s1)"
      "proc_pagetable i (upd_proc i (p_trapframe_update (\<lambda>_. tf)) s1) = Ret (0, s2)"
      "r = None" "freeproc i (upd_proc i (p_pagetable_update (\<lambda>_. 0)) s2) = Ret s'"
  | tf s1 pt s2 where "kalloc (upd_proc i (alloc_init (nextpid s)) (s\<lparr>nextpid := nextpid s + 1\<rparr>)) = Ret (tf, s1)"
      "proc_pagetable i (upd_proc i (p_trapframe_update (\<lambda>_. tf)) s1) = Ret (pt, s2)"
      "r = Some i" "s' = upd_proc i (alloc_fini (forkret_addr s2) (ticks s2)) (upd_proc i (p_pagetable_update (\<lambda>_. pt)) s2)"
  using assms by (auto simp: allocproc_def allocpid_def Let_def split: if_splits)

lemma alloc_ofile [simp]: "p_ofile (alloc_init pid x) = p_ofile x" "p_ofile (alloc_fini a b x) = p_ofile x"
  by (simp_all add: alloc_init_def alloc_fini_def)

lemma same_fds_nextpid: "same_fds s (s\<lparr>nextpid := n\<rparr>)"
  by (simp add: same_fds_def)

lemma allocproc_fds:
  assumes "allocproc s = Ret (r, s')"
  shows "same_fds s s'"
proof (cases "find_slot (\<lambda>p. p_state p = UNUSED) [0..<NPROC] (ptable s)")
  case None
  with assms show ?thesis by (simp add: allocproc_def same_fds_refl)
next
  case (Some i)
  have 0: "same_fds s (upd_proc i (alloc_init (nextpid s)) (s\<lparr>nextpid := nextpid s + 1\<rparr>))"
    by (rule same_fds_trans[OF same_fds_nextpid same_fds_upd_proc]) simp
  from allocproc_stages[OF assms Some] show ?thesis
  proof cases
    case (1 tf s1)
    then show ?thesis
      by (intro same_fds_trans[OF 0] same_fds_trans[OF same_fds_more[OF kalloc_frame[OF 1(1)]]]
          same_fds_trans[OF same_fds_upd_proc freeproc_fds[OF 1(4)]]) simp
  next
    case (2 tf s1 s2)
    show ?thesis
      by (intro same_fds_trans[OF 0] same_fds_trans[OF same_fds_more[OF kalloc_frame[OF 2(1)]]]
          same_fds_trans[OF same_fds_upd_proc same_fds_trans[OF same_fds_more[OF proc_pagetable_frame[OF 2(2)]]
          same_fds_trans[OF same_fds_upd_proc freeproc_fds[OF 2(4)]]]]) simp_all
  next
    case (3 tf s1 pt s2)
    show ?thesis unfolding 3(4)
      by (intro same_fds_trans[OF 0] same_fds_trans[OF same_fds_more[OF kalloc_frame[OF 3(1)]]]
          same_fds_trans[OF same_fds_upd_proc same_fds_trans[OF same_fds_more[OF proc_pagetable_frame[OF 3(2)]]
          same_fds_trans[OF same_fds_upd_proc same_fds_upd_proc]]]) simp_all
  qed
qed

lemma allocproc_new:
  assumes "allocproc s = Ret (Some np, s')"
  shows "np < NPROC" "p_state (ptable s np) = UNUSED" "p_pid (ptable s' np) = nextpid s"
    "j \<noteq> np \<Longrightarrow> ptable s' j = ptable s j"
proof -
  obtain i where i: "find_slot (\<lambda>p. p_state p = UNUSED) [0..<NPROC] (ptable s) = Some i"
    using assms by (cases "find_slot (\<lambda>p. p_state p = UNUSED) [0..<NPROC] (ptable s)") (auto simp: allocproc_def)
  from allocproc_stages[OF assms i] obtain tf s1 pt s2 where
    k: "kalloc (upd_proc i (alloc_init (nextpid s)) (s\<lparr>nextpid := nextpid s + 1\<rparr>)) = Ret (tf, s1)"
    and g: "proc_pagetable i (upd_proc i (p_trapframe_update (\<lambda>_. tf)) s1) = Ret (pt, s2)" and np: "np = i"
    and s': "s' = upd_proc i (alloc_fini (forkret_addr s2) (ticks s2)) (upd_proc i (p_pagetable_update (\<lambda>_. pt)) s2)"
    by cases auto
  show "np < NPROC" "p_state (ptable s np) = UNUSED" using find_slot_Some[OF i] np by auto
  have "ptable s2 = (ptable s1)(i := (ptable s1 i)\<lparr>p_trapframe := tf\<rparr>)" "ptable s1 = (ptable s)(i := alloc_init (nextpid s) (ptable s i))"
    using kernel_more[OF proc_pagetable_frame[OF g]] kernel_more[OF kalloc_frame[OF k]] by simp_all
  then show "p_pid (ptable s' np) = nextpid s" "j \<noteq> np \<Longrightarrow> ptable s' j = ptable s j"
    by (simp_all add: s' np alloc_init_def alloc_fini_def)
qed

text \<open>What the second half of \<^verbatim>\<open>fork\<close> makes of the slot \<open>np\<close>, from the state after \<^verbatim>\<open>uvmcopy\<close>.\<close>

definition child_made :: "nat \<Rightarrow> nat \<Rightarrow> (nat \<Rightarrow> int) \<Rightarrow> 'a files_scheme \<Rightarrow> int \<times> 'a files_scheme \<Rightarrow> bool" where
  "child_made p np K s r \<longleftrightarrow> (let pid = fst r; s' = snd r; x = ptable s' np in
     fds_inv s' K \<and> pid = p_pid (ptable s np) \<and> p_pid x = pid \<and> p_state x = RUNNABLE \<and> p_parent x = Some p
     \<and> p_tickets x = p_tickets (ptable s p) \<and> p_trace_mask x = p_trace_mask (ptable s p)
     \<and> (\<forall>fd < NOFILE. p_ofile x fd = p_ofile (ptable s p) fd)
     \<and> (\<forall>i. i \<noteq> np \<longrightarrow> p_ofile (ptable s' i) = p_ofile (ptable s i)))"

lemma fork_child:
  assumes inv: "fds_inv s K" and p: "p < NPROC" "np < NPROC" "p \<noteq> np" and o: "p_ofile (ptable s np) = (\<lambda>_. None)"
  shows "\<exists>s3. kfold (inherit_fd p np) [0..<NOFILE] (fork_state p np s) = Ret s3
    \<and> (\<forall>cwd. child_made p np K s (fork_publish p np cwd s3))"
proof -
  let ?t = "fork_state p np s"
  have t: "same_fds s ?t" by (simp add: same_fds_def fork_state_def tf_set_def)
  then have o': "p_ofile (ptable ?t np) = (\<lambda>_. None)" using o by (simp add: same_fds_def)
  obtain s3 where s3: "kfold (inherit_fd p np) [0..<NOFILE] ?t = Ret s3" "fds_inv s3 K"
    "ptable s3 = (ptable ?t)(np := p_ofile_update (\<lambda>_ fd. if fd < NOFILE then p_ofile (ptable ?t p) fd else None) (ptable ?t np))"
    using inherit_ok[OF _ p le_refl o', of K] inv same_fds_inv[OF t] by auto
  have "child_made p np K s (fork_publish p np cwd s3)" for cwd
  proof -
    let ?r = "fork_publish p np cwd s3"
    have "same_fds s3 (snd ?r)" by (simp add: fork_publish_def idup_def upd_inode_def same_fds_def Let_def)
    then have "fds_inv (snd ?r) K" "\<forall>i. p_ofile (ptable (snd ?r) i) = p_ofile (ptable s3 i)"
      using s3(2) same_fds_inv[of s3 "snd ?r" K] by (simp_all add: same_fds_def)
    moreover have "p_ofile (ptable s3 np) fd = p_ofile (ptable s p) fd" if "fd < NOFILE" for fd
      using s3(3) t that by (simp add: same_fds_def)
    moreover have "p_ofile (ptable s3 i) = p_ofile (ptable s i)" if "i \<noteq> np" for i
      using s3(3) t that by (simp add: same_fds_def)
    moreover have "p_tickets (ptable s3 np) = p_tickets (ptable s p)" "p_trace_mask (ptable s3 np) = p_trace_mask (ptable s p)"
      "p_pid (ptable s3 np) = p_pid (ptable s np)"
      using s3(3) p(3) by (simp_all add: fork_state_def tf_set_def)
    ultimately show ?thesis
      unfolding child_made_def Let_def by (simp add: fork_publish_def idup_def upd_inode_def Let_def)
  qed
  with s3(1) show ?thesis by blast
qed

text \<open>C13. \<^verbatim>\<open>fork\<close> keeps the reference counts of open files exact.  In a state in which every count is the number of
  descriptors for the file (plus references in flight), and unused processes have no descriptors, a \<^verbatim>\<open>fork\<close> that
  returns leaves such a state; when it succeeds, the child is a new runnable process whose parent is the caller
  and which has the caller's descriptors, tickets and trace mask, and all other descriptors are as before.\<close>

theorem fork_counts_files:
  assumes inv: "fds_inv s K" and cur: "cur s = Some p" "p < NPROC" "p_state (ptable s p) \<noteq> UNUSED"
    and unused: "\<forall>i < NPROC. p_state (ptable s i) = UNUSED \<longrightarrow> p_ofile (ptable s i) = (\<lambda>_. None)"
    and ret: "fork s = Ret (pid, s')"
  shows "fds_inv s' K \<and> (pid = -1 \<and> same_fds s s' \<or>
     (\<exists>np < NPROC. np \<noteq> p \<and> pid = nextpid s \<and> p_pid (ptable s' np) = pid \<and> p_state (ptable s' np) = RUNNABLE
        \<and> p_parent (ptable s' np) = Some p \<and> p_tickets (ptable s' np) = p_tickets (ptable s p)
        \<and> p_trace_mask (ptable s' np) = p_trace_mask (ptable s p)
        \<and> (\<forall>fd < NOFILE. p_ofile (ptable s' np) fd = p_ofile (ptable s p) fd)
        \<and> (\<forall>i. i \<noteq> np \<longrightarrow> p_ofile (ptable s' i) = p_ofile (ptable s i))))"
proof -
  obtain r s1 where al: "allocproc s = Ret (r, s1)" using ret cur by (auto simp: fork_def with_cur_def)
  note f1 = allocproc_fds[OF al]
  show ?thesis
  proof (cases r)
    case None
    with ret cur al have "pid = -1" "s' = s1" by (simp_all add: fork_def with_cur_def)
    with f1 inv show ?thesis by (simp add: same_fds_inv)
  next
    case (Some np)
    note new = allocproc_new[OF al[unfolded Some]]
    have np: "np \<noteq> p" using new(2) cur(3) by auto
    obtain e s2 where uc: "uvmcopy (p_pagetable (ptable s1 p)) (p_pagetable (ptable s1 np)) (p_sz (ptable s1 p)) s1 = Ret (e, s2)"
      using ret cur al Some by (auto simp: fork_def with_cur_def)
    have f2: "same_fds s s2" using same_fds_trans[OF f1 same_fds_more[OF uvmcopy_frame[OF uc]]] .
    have p2: "ptable s2 = ptable s1" using kernel_more[OF uvmcopy_frame[OF uc]] by simp
    show ?thesis
    proof (cases "e < 0")
      case True
      with ret cur al Some uc have "pid = -1" "freeproc np s2 = Ret s'" by (auto simp: fork_def with_cur_def)
      with same_fds_trans[OF f2 freeproc_fds, of np s'] inv show ?thesis by (simp add: same_fds_inv)
    next
      case False
      have o: "p_ofile (ptable s2 np) = (\<lambda>_. None)" using f2 unused new(1,2) by (simp add: same_fds_def)
      have i2: "fds_inv s2 K" using inv same_fds_inv[OF f2] by simp
      obtain s3 where s3: "kfold (inherit_fd p np) [0..<NOFILE] (fork_state p np s2) = Ret s3"
        and c: "\<And>cwd. child_made p np K s2 (fork_publish p np cwd s3)"
        using fork_child[OF i2 cur(2) new(1) np[symmetric] o] by blast
      from ret cur al Some uc False s3 obtain cwd where "fork_publish p np cwd s3 = (pid, s')"
        by (auto simp: fork_def with_cur_def split: option.splits)
      then have "child_made p np K s2 (pid, s')" using c by metis
      then show ?thesis using new(1,3) new(4)[OF np[symmetric]] np p2 f2 by (auto simp: child_made_def same_fds_def Let_def)
    qed
  qed
qed

text \<open>The example machine with no free page, where process 3 has the console open twice.\<close>

definition fork0 :: files where
  "fork0 = files0\<lparr>kmem_freelist := 0, ftable := (\<lambda>f. if f = 0 then file0\<lparr>f_ref := 2\<rparr> else file0),
     ptable := (\<lambda>i. if i = 3 then proc0\<lparr>p_state := RUNNING, p_ofile := (\<lambda>fd. if fd < 2 then Some 0 else None)\<rparr> else proc0)\<rparr>"

lemma fork0_counted: "fds_inv fork0 (\<lambda>_. 0)"
proof -
  have "fds (ptable fork0) f = (if f = 0 then {(3, 0), (3, 1)} else {})" for f
    by (auto simp: fds_def fork0_def NPROC_def NOFILE_def proc0_def split: if_splits)
  then show ?thesis by (auto simp: fds_inv_def fork0_def file0_def)
qed

theorem fork_counts_files_witness:
  "\<exists>s'. fork fork0 = Ret (-1, s') \<and> fds_inv s' (\<lambda>_. 0)"
proof -
  let ?t = "upd_proc 0 (alloc_init (nextpid fork0)) (fork0\<lparr>nextpid := nextpid fork0 + 1\<rparr>)"
  have f: "kmem_freelist fork0 = 0" "cur fork0 = Some 3" "p_pagetable (ptable fork0 0) = 0"
    by (simp_all add: fork0_def files0_def fs.extend_def proc0_def)
  have fs: "find_slot (\<lambda>p. p_state p = UNUSED) [0..<NPROC] (ptable fork0) = Some 0"
    by (simp add: fork0_def NPROC_def upt_conv_Cons)
  have "kalloc ?t = Ret (0, ?t)" using f(1) by (simp add: kalloc_def upd_proc_def)
  then have al: "allocproc fork0 = kbind (freeproc 0 (upd_proc 0 (p_trapframe_update (\<lambda>_. 0)) ?t)) (\<lambda>s. Ret (None, s))"
    using fs by (simp add: allocproc_def allocpid_def)
  have "\<exists>s1. freeproc 0 (upd_proc 0 (p_trapframe_update (\<lambda>_. 0)) ?t) = Ret s1"
    using f(3) by (simp add: freeproc_def Let_def alloc_init_def)
  with al f(2) obtain s' where s': "fork fork0 = Ret (-1, s')" by (auto simp: fork_def with_cur_def)
  have "fds_inv s' (\<lambda>_. 0)"
    using fork_counts_files[OF fork0_counted, of 3, OF f(2) _ _ _ s'] by (auto simp: fork0_def NPROC_def proc0_def)
  with s' show ?thesis by blast
qed

end
