(* ===== verification/TrapProps.thy ===== *)
theory TrapProps
  imports Trap FileRefs
begin

text \<open>
  What the trap handlers promise: the store fault on a copy-on-write page, an alarm and the return from its handler, and what
  a user program can do to the kernel with a store.
\<close>

unbundle bit_operations_syntax

subsection \<open>Trap frames\<close>

lemma slot_cell: "page_of t = t \<Longrightarrow> k < 512 \<Longrightarrow> cell_of (slot t k) = slot t k"
  by simp

lemma load_slot:
  assumes "page_of t = t" "j < 512" "k < 512"
  shows "load64 (store64 m (slot t j) v) (slot t k) = (if j = k then v else load64 m (slot t k))"
proof (cases "j = k")
  case False
  then have "slot t j \<noteq> slot t k" using slot_inject[OF assms(1,1,2,3)] by auto
  with assms False show ?thesis by (simp add: load64_store64_other)
qed (simp add: load64_store64)

lemma tf_index_less: "tf_index r < 36"
  by (cases r) simp_all

definition tf_page :: "nat \<Rightarrow> 'a kernel_scheme \<Rightarrow> bool" where
  "tf_page p s \<longleftrightarrow> page_of (p_trapframe (ptable s p)) = p_trapframe (ptable s p)"

lemma tf_set_fields [simp]: "ptable (tf_set r v p s) = ptable s" "cur (tf_set r v p s) = cur s"
  by (simp_all add: tf_set_def)

lemma get_frame_set:
  assumes "tf_page p s" "k < 36"
  shows "get_frame p (tf_set r v p s) k = (if k = tf_index r then v else get_frame p s k)"
  using assms load_slot[of "p_trapframe (ptable s p)" "tf_index r" k] tf_index_less[of r]
  by (simp add: get_frame_def tf_set_def tf_page_def)

lemma put_frame_upto:
  fixes fr :: frame and s :: "'a kernel_scheme"
  assumes "page_of (p_trapframe (ptable s p)) = p_trapframe (ptable s p)" "n \<le> 36"
  defines "s' \<equiv> fold (\<lambda>k s. s\<lparr>mem := store64 (mem s) (slot (p_trapframe (ptable s p)) k) (fr k)\<rparr>) [0..<n] s"
  shows "ptable s' = ptable s \<and> cur s' = cur s \<and> (\<forall>k < 36. get_frame p s' k = (if k < n then fr k else get_frame p s k))"
  using assms(2) unfolding s'_def
proof (induction n)
  case (Suc n)
  let ?s = "fold (\<lambda>k s. s\<lparr>mem := store64 (mem s) (slot (p_trapframe (ptable s p)) k) (fr k)\<rparr>) [0..<n] s"
  have IH: "ptable ?s = ptable s" "cur ?s = cur s" "\<And>k. k < 36 \<Longrightarrow> get_frame p ?s k = (if k < n then fr k else get_frame p s k)"
    using Suc by auto
  have "get_frame p (?s\<lparr>mem := store64 (mem ?s) (slot (p_trapframe (ptable ?s p)) n) (fr n)\<rparr>) k
      = (if k < Suc n then fr k else get_frame p s k)" if k: "k < 36" for k
    using k IH(3)[OF k] Suc.prems load_slot[OF assms(1), of n k "mem ?s" "fr n"] by (auto simp: get_frame_def IH(1))
  with IH show ?case by simp
qed simp

lemma get_put_frame:
  assumes "tf_page p s"
  shows "ptable (put_frame fr p s) = ptable s" "cur (put_frame fr p s) = cur s" "k < 36 \<Longrightarrow> get_frame p (put_frame fr p s) k = fr k"
  using put_frame_upto[OF assms[unfolded tf_page_def], of 36 fr] by (simp_all add: put_frame_def)

text \<open>C35. An alarm and the return from its handler.  When the timer tick of an alarm is due, the handler starts with all registers of the
  process saved; whatever it does to the registers, \<^verbatim>\<open>sigreturn\<close> puts back the program counter and every register except
  \<^verbatim>\<open>a0\<close>, which the system call dispatcher then overwrites with the result 0 of \<^verbatim>\<open>sys_sigreturn\<close>: the interrupted code goes on with a
  changed register.\<close>

theorem sigreturn_restores_but_a0:
  assumes "alarm_tick p s = (True, s1)" "tf_page p s" "tf_page p s2" "cur s2 = Some p"
    and "p_alarm_trap (ptable s2 p) = p_alarm_trap (ptable s1 p)" "p_alarm_ticks (ptable s2 p) = p_alarm_ticks (ptable s1 p)"
    and "tf_get A7 p s2 = 24" "\<not> bit (p_trace_mask (ptable s2 p)) 24"
  shows "get_frame p s1 (tf_index Epc) = p_handler (ptable s p)
    \<and> (\<exists>s3. syscall swtch stack tms s2 = Ret s3 \<and> p_alarm_ticks (ptable s3 p) = 0
         \<and> (\<forall>k < 36. get_frame p s3 k = (if k = tf_index A0 then 0 else get_frame p s k)))"
proof -
  let ?t = "upd_proc p (p_alarm_ticks_update (\<lambda>n. n + 1)) s"
  let ?s0 = "if p_max_alarm_ticks (ptable s p) \<ge> 1 \<and> p_alarm_ticks (ptable s p) > -1 then ?t else s"
  let ?u = "upd_proc p (\<lambda>x. x\<lparr>p_alarm_ticks := -1, p_alarm_trap := get_frame p ?s0\<rparr>) ?s0"
  have s1: "s1 = tf_set Epc (p_handler (ptable ?u p)) p ?u"
    using assms(1) by (simp add: alarm_tick_def Let_def split: if_splits)
  have g0: "get_frame p ?s0 = get_frame p s" by (auto simp: get_frame_def upd_proc_def)
  have pt: "p_handler (ptable ?u p) = p_handler (ptable s p)" "tf_page p ?u" "p_alarm_trap (ptable ?u p) = get_frame p s"
    "p_alarm_ticks (ptable ?u p) = -1"
    using assms(2) by (auto simp: upd_proc_def tf_page_def g0)
  have e: "get_frame p s1 (tf_index Epc) = p_handler (ptable s p)"
    unfolding s1 using get_frame_set[OF pt(2), of "tf_index Epc"] pt(1) by (simp add: tf_index_less)
  have a: "p_alarm_trap (ptable s2 p) = get_frame p s" "p_alarm_ticks (ptable s2 p) = -1"
    using assms(5,6) pt(3,4) by (simp_all add: s1)
  let ?v = "upd_proc p (p_alarm_ticks_update (\<lambda>_. 0)) s2"
  have tv: "tf_page p ?v" "cur ?v = Some p" "p_alarm_ticks (ptable ?v p) = 0" "p_trace_mask (ptable ?v p) = p_trace_mask (ptable s2 p)"
    using assms(3,4) by (simp_all add: tf_page_def upd_proc_def)
  let ?w = "put_frame (get_frame p s) p ?v"
  note gp = get_put_frame[OF tv(1), where fr = "get_frame p s"]
  have ret: "sys_sigreturn s2 = Ret (0, ?w)" using assms(4) a by (simp add: sys_sigreturn_def with_cur_def)
  have "syscall swtch stack tms s2 = Ret (tf_set A0 0 p ?w)"
    using assms(4,7,8) ret gp(1) tv(4) by (simp add: syscall_def with_cur_def syscalls_def Let_def)
  moreover have "tf_page p ?w" using tv(1) gp(1) by (simp add: tf_page_def)
  then have "get_frame p (tf_set A0 0 p ?w) k = (if k = tf_index A0 then 0 else get_frame p s k)" if "k < 36" for k
    using get_frame_set[of p ?w k A0 0] gp(3) that by simp
  ultimately show ?thesis using e gp(1) tv(3) by auto
qed

subsection \<open>Stores of a user program\<close>

text \<open>The running process: its address space is usable and its trap frame is a page of the kernel.\<close>

definition trap_ok :: "'a kernel_scheme \<Rightarrow> u64 set \<Rightarrow> (u64 \<Rightarrow> int) \<Rightarrow> nat \<Rightarrow> bool" where
  "trap_ok s R K p \<longleftrightarrow> user_ok s R K (p_pagetable (ptable s p)) \<and> tf_page p s \<and> 0 < K (p_trapframe (ptable s p))"

text \<open>Address spaces that read the same.\<close>

definition same_user :: "'a phys_scheme \<Rightarrow> 'b phys_scheme \<Rightarrow> u64 set \<Rightarrow> bool" where
  "same_user s s' R \<longleftrightarrow> (\<forall>q \<in> R. \<forall>x. page_of x \<in> UV \<longrightarrow> umem s' q x = umem s q x)"

lemma same_user_trans: "same_user s t R \<Longrightarrow> same_user t u R \<Longrightarrow> same_user s u R"
  by (simp add: same_user_def)

lemma phys_same:
  assumes "phys.truncate s' = phys.truncate s"
  shows "user_ok s' R K r = user_ok s R K r" "ents s' = ents s" "same_user s s' R" "free_pages s' = free_pages s"
proof -
  have m: "mem s' = mem s" using assms phys_part(5)[of s'] phys_part(5)[of s] by simp
  have e: "ents s' = ents s" using assms phys_part(1)[of s'] phys_part(1)[of s] by simp
  have f: "free_pages s' = free_pages s" using assms phys_part(3)[of s'] phys_part(3)[of s] by simp
  have "vm_inv s' R K = vm_inv s R K" "kernel_only s' r = kernel_only s r"
    using assms user_part(1)[of s'] user_part(1)[of s] user_part(4)[of s'] user_part(4)[of s] by simp_all
  then show "user_ok s' R K r = user_ok s R K r" using e by (simp add: user_ok_def held_apart_def)
  show "ents s' = ents s" "free_pages s' = free_pages s" using e f .
  show "same_user s s' R" by (simp add: same_user_def umem_def Let_def m e)
qed

lemma tf_set_user:
  assumes "trap_ok s R K p"
  shows "trap_ok (tf_set r v p s) R K p" "q \<in> R \<Longrightarrow> lookup (ents (tf_set r v p s)) q va = lookup (ents s) q va"
    "same_user s (tf_set r v p s) R" "free_pages (tf_set r v p s) = free_pages s"
    "q \<in> R \<Longrightarrow> tbl (ents (tf_set r v p s)) q (vpath va) = tbl (ents s) q (vpath va)"
proof -
  let ?t = "p_trapframe (ptable s p)" and ?r = "p_pagetable (ptable s p)" and ?s = "tf_set r v p s"
  note A = assms[unfolded trap_ok_def] and D = user_okD[OF assms[unfolded trap_ok_def, THEN conjunct1]]
  have t: "page_of ?t = ?t" "0 < K ?t" using A by (auto simp: tf_page_def)
  note held = vm_inv_held[OF D(1) t(2)]
  have st: "?s = pte_store (slot ?t (tf_index r)) v s" by (simp add: tf_set_def pte_store_def)
  have fr: "mem ?s x = mem s x" if "page_of x \<noteq> ?t" for x
    unfolding st using that tf_index_less[of r] by (intro pte_store_frame[OF t(1)]) auto
  have w: "\<forall>x. mem ?s x \<noteq> mem s x \<longrightarrow> 0 < refs s (page_of x) \<and> tabs (ents s) R (page_of x) = {}"
    using fr held by metis
  have sm: "?s = s\<lparr>mem := mem ?s\<rparr>" by (simp add: tf_set_def)
  note vw = vm_mem_write[OF D(1) w, folded sm]
  show lk: "lookup (ents ?s) q va = lookup (ents s) q va" if "q \<in> R" for q va using vw(3)[OF that] .
  have mp: "maps (ents ?s) R = maps (ents s) R" by (rule maps_lookup) (simp add: lk)
  have none: "maps (ents s) R ?t = {}" using D(3) t(2) by (force simp: held_apart_def)
  have "umem ?s q x = umem s q x" if q: "q \<in> R" "page_of x \<in> UV" for q x
  proof (rule umem_eqI[OF lk[OF q(1)]])
    fix y assume "bit (lookup (ents s) q x) 0" "page_of y = PTE2PA (lookup (ents s) q x)"
    then have "maps (ents s) R (page_of y) \<noteq> {}" using mapsI[OF q, of "ents s"] by auto
    then show "mem ?s y = mem s y" using none by (intro fr) auto
  qed
  then show "same_user s ?s R" by (simp add: same_user_def)
  have "cow_ok (ents ?s) R" using D(2) lk mp by (simp add: cow_ok_def)
  moreover have "kernel_only ?s ?r" using D(4,5) lk by (simp add: kernel_only_def uacc_def)
  moreover have "held_apart ?s R K" using D(3) mp by (simp add: held_apart_def)
  ultimately show "trap_ok ?s R K p" using A vw(1) D(4) by (simp add: trap_ok_def user_ok_def tf_page_def)
  show "free_pages ?s = free_pages s" by (simp add: st free_pages_def refs_def is_page_def pte_store_def)
  show "tbl (ents ?s) q (vpath va) = tbl (ents s) q (vpath va)" if q: "q \<in> R"
  proof (rule tbl_same[OF _ path_pos[OF q]])
    fix u k assume u: "tabs (ents s) R u \<noteq> {}" "k < (512::nat)"
    have "u \<noteq> ?t" "page_of u = u" using u held(2) vm_inv_table(6)[OF D(1)] by auto
    then show "ents ?s u k = ents s u k" using u(2) by (intro ents_cong) (auto intro: fr)
  qed
qed

lemma trap_ok_phys: "phys.truncate s' = phys.truncate s \<Longrightarrow> ptable s' = ptable s \<Longrightarrow> trap_ok s' R K p = trap_ok s R K p"
  using phys_same(1)[of s' s R K "p_pagetable (ptable s p)"] by (simp add: trap_ok_def tf_page_def)

text \<open>The way back to user space touches only the trap frame and the registers.\<close>

lemma usertrapret_ok:
  assumes "trap_ok s R K p" "cur s = Some p"
  shows "\<exists>s'. usertrapret s = Ret s' \<and> trap_ok s' R K p \<and> same_user s s' R \<and> ptable s' = ptable s \<and> sepc s' = tf_get Epc p s
    \<and> (\<forall>q \<in> R. \<forall>va. lookup (ents s') q va = lookup (ents s) q va)"
proof -
  let ?a = "s\<lparr>intr := False, stvec := TRAMPOLINE + uservec_off s\<rparr>"
  let ?b = "tf_set Kernel_satp (satp s) p ?a"
  let ?c = "tf_set Kernel_sp (p_kstack (ptable s p) + PGSIZE) p ?b"
  let ?d = "tf_set Kernel_trap (usertrap_addr s) p ?c"
  let ?e = "tf_set Kernel_hartid (of_nat (hartid s)) p ?d"
  let ?f = "?e\<lparr>spp := False, spie := True, sepc := tf_get Epc p ?e, satp := MAKE_SATP (p_pagetable (ptable s p))\<rparr>"
  have r: "usertrapret s = Ret ?f"
    using assms(2) by (simp add: usertrapret_def with_cur_def Let_def tf_set_def tf_get_def)
  have p: "phys.truncate ?a = phys.truncate s" "phys.truncate ?f = phys.truncate ?e" by (simp_all add: phys.truncate_def)
  have a: "trap_ok ?a R K p" using trap_ok_phys[OF p(1)] assms(1) by simp
  note b = tf_set_user[OF a] note c = tf_set_user[OF b(1)] note d = tf_set_user[OF c(1)] note e = tf_set_user[OF d(1)]
  have f: "trap_ok ?f R K p" using trap_ok_phys[OF p(2)] e(1) by simp
  have u: "same_user s ?f R"
    by (rule same_user_trans[OF phys_same(3)[OF p(1)] same_user_trans[OF b(3) same_user_trans[OF c(3)
        same_user_trans[OF d(3) same_user_trans[OF e(3) phys_same(3)[OF p(2)]]]]]])
  have l: "lookup (ents ?f) q va = lookup (ents s) q va" if "q \<in> R" for q va
    using phys_same(2)[OF p(1)] phys_same(2)[OF p(2)] b(2)[OF that] c(2)[OF that] d(2)[OF that] e(2)[OF that] by simp
  have "tf_page p ?a" using assms(1) by (simp add: trap_ok_def tf_page_def)
  then have t: "tf_page p ?a" "tf_page p ?b" "tf_page p ?c" "tf_page p ?d" by (simp_all add: tf_page_def)
  have g: "tf_get Epc p x = get_frame p x 3" for x :: "'a machine_scheme" by (simp add: tf_get_def get_frame_def)
  have "tf_get Epc p ?e = tf_get Epc p ?a"
    unfolding g using get_frame_set[OF t(4)] get_frame_set[OF t(3)] get_frame_set[OF t(2)] get_frame_set[OF t(1)] by simp
  then have "sepc ?f = tf_get Epc p s" by (simp add: tf_get_def)
  with r f u l show ?thesis by auto
qed

lemma devintr_store_fault: "scause s = 15 \<Longrightarrow> devintr e s = Ret (0, s)"
  by (simp add: devintr_def)

lemma cow_fault_ok:
  assumes ok: "trap_ok s R K p" and va: "page_of (stval s) = va" "va \<in> UV" and fr: "free_pages s \<noteq> {}"
  defines "r \<equiv> p_pagetable (ptable s p)"
  assumes e: "bit (lookup (ents s) r va) 0" "bit (lookup (ents s) r va) 8"
  obtains s' where "cow_fault p s = Ret (Cow_done, s')" "trap_ok s' R K p" "same_user s s' R" "phys.more s' = phys.more s" "tf_get Epc p s' = tf_get Epc p s"
    "bit (lookup (ents s') r va) 2" "bit (lookup (ents s') r va) 4" "\<not> bit (lookup (ents s') r va) 8"
proof -
  have u: "user_ok s R K r" using ok by (simp add: trap_ok_def r_def)
  note D = user_okD[OF u]
  obtain pg s1 where al: "kalloc s = Ret (pg, s1)" "pg \<noteq> 0" using kalloc_free[OF vm_inv_kmem[OF D(1)] fr] .
  obtain t where t: "(r, vpath va) \<in> tabs (ents s) R t" "tbl (ents s) r (vpath va) = Some t" using lookup_table[OF e(1) D(4)] .
  have wk: "walk r va False s = Ret (slot t (PX 0 va), s)" by (rule walk_present[OF UV_less[OF va(2)] t(2)])
  have nz: "PTE2PA (lookup (ents s) r va) \<noteq> 0"
    using mapped_frame_nonzero[OF D(1,4) _ e(1)] va(2) by (simp add: UV_page)
  show thesis
  proof (rule cow_private[OF u va(2) e al], goal_cases)
    case (1 s3 s4)
    have "pte_load (slot t (PX 0 va)) s AND PTE_COW \<noteq> 0" using e(2) pte_load_slot[OF t(1)] by (simp add: and_flag)
    then have c: "cow_fault p s = Ret (Cow_done, s4)"
      using wk slot_nonzero[OF D(1) t(1) PX_less] pte_load_slot[OF t(1)] al nz 1(1,2) va(1)
      by (simp add: cow_fault_def PGROUNDDOWN_page_of r_def[symmetric] Let_def PTE_RWXU_def)
    have m: "phys.more s4 = phys.more s" using kfree_frame[OF 1(2)] mappages_frame[OF 1(1)] kalloc_frame[OF al(1)] by simp
    have pt: "ptable s4 = ptable s" using kernel_more[OF m] by simp
    have "same_user s s4 R"
      unfolding same_user_def
    proof (intro ballI allI impI)
      fix q x assume q: "q \<in> R" "page_of x \<in> UV"
      show "umem s4 q x = umem s q x"
        using vm_keepD(3)[OF 1(4) q] 1(6)[of x] by (cases "(q, page_of x) = (r, va)") auto
    qed
    moreover have "trap_ok s4 R K p" using ok 1(3) pt by (simp add: trap_ok_def tf_page_def r_def)
    moreover have "bit (lookup (ents s4) r va) 2" "bit (lookup (ents s4) r va) 4" "\<not> bit (lookup (ents s4) r va) 8"
      unfolding 1(5) using PTE_RWXU by (simp_all add: bit_or_iff pte_simps bit_PA2PTE)
    moreover have "tf_get Epc p s4 = tf_get Epc p s"
      unfolding tf_get_def pt using ok vm_keepD(4)[OF 1(4)]
      by (intro load64_page_cong) (auto simp: trap_ok_def tf_page_def)
    ultimately show thesis using c m by (intro that) auto
  qed
qed

text \<open>C7. A store to a copy-on-write page is carried out on a private copy.  When a running process stores to a page of its memory that is marked
  copy-on-write and a page is free, the trap returns to user space at the same instruction; the page is now mapped with read,
  write, execute and user permission and no longer marked, whatever permissions it had before the fork; every
  process reads the same bytes as before, and the reference counts agree with the mappings again.\<close>

theorem store_fault_private_copy:
  assumes "trap_ok s R K p" "cur s = Some p" "\<not> spp s" "scause s = 15" "p_killed (ptable s p) = 0"
    and "page_of (stval s) \<in> UV" "free_pages s \<noteq> {}"
    and "bit (lookup (ents s) (p_pagetable (ptable s p)) (page_of (stval s))) 0"
    and "bit (lookup (ents s) (p_pagetable (ptable s p)) (page_of (stval s))) 8"
  shows "\<exists>s'. usertrap e s = Ret s' \<and> trap_ok s' R K p \<and> same_user s s' R \<and> sepc s' = sepc s
    \<and> bit (lookup (ents s') (p_pagetable (ptable s p)) (page_of (stval s))) 2
    \<and> bit (lookup (ents s') (p_pagetable (ptable s p)) (page_of (stval s))) 4
    \<and> \<not> bit (lookup (ents s') (p_pagetable (ptable s p)) (page_of (stval s))) 8"
proof -
  let ?r = "p_pagetable (ptable s p)" and ?va = "page_of (stval s)"
  let ?a = "s\<lparr>stvec := kernelvec s\<rparr>"
  let ?b = "tf_set Epc (sepc s) p ?a"
  have pa: "phys.truncate ?a = phys.truncate s" by (simp add: phys.truncate_def)
  have a: "trap_ok ?a R K p" using trap_ok_phys[OF pa] assms(1) by simp
  note b = tf_set_user[OF a, where r = Epc and v = "sepc s"]
  have rR: "?r \<in> R" using assms(1) user_okD(4) by (auto simp: trap_ok_def)
  have lb: "lookup (ents ?b) ?r ?va = lookup (ents s) ?r ?va" using b(2)[OF rR] phys_same(2)[OF pa] by simp
  have fb: "free_pages ?b \<noteq> {}" "page_of (stval ?b) = ?va" using b(4) phys_same(4)[OF pa] assms(7) by (simp_all add: tf_set_def)
  have eb: "bit (lookup (ents ?b) (p_pagetable (ptable ?b p)) ?va) 0" "bit (lookup (ents ?b) (p_pagetable (ptable ?b p)) ?va) 8"
    using lb assms(8,9) by simp_all
  obtain s1 where c: "cow_fault p ?b = Ret (Cow_done, s1)" "trap_ok s1 R K p" "same_user ?b s1 R" "phys.more s1 = phys.more ?b" "tf_get Epc p s1 = tf_get Epc p ?b"
    "bit (lookup (ents s1) ?r ?va) 2" "bit (lookup (ents s1) ?r ?va) 4" "\<not> bit (lookup (ents s1) ?r ?va) 8"
    using cow_fault_ok[OF b(1) fb(2) assms(6) fb(1) eb] by auto
  have k: "cur s1 = Some p" "p_killed (ptable s1 p) = 0" "ptable s1 = ptable s"
    using kernel_more[OF c(4)] assms(2,5) by simp_all
  have "usertrap e s = kbind (cow_fault p ?b) (\<lambda>(r, s).
      if r = Cow_err then kbind (unexpected p s) (usertrap_end e p 0) else usertrap_end e p 0 s)"
    using assms(2-4) devintr_store_fault[of ?b e] by (simp add: usertrap_def with_cur_def Let_def tf_set_def)
  also have "\<dots> = usertrapret s1" using c(1) k(2) by (simp add: usertrap_end_def killed_def)
  finally have u: "usertrap e s = usertrapret s1" .
  obtain s' where s': "usertrapret s1 = Ret s'" "trap_ok s' R K p" "same_user s1 s' R" "sepc s' = tf_get Epc p s1"
    "\<forall>q \<in> R. \<forall>va. lookup (ents s') q va = lookup (ents s1) q va"
    using usertrapret_ok[OF c(2) k(1)] by blast
  have "tf_get Epc p ?b = sepc s" by (simp add: tf_get_def tf_set_def load64_store64)
  moreover have "same_user s s' R"
    by (rule same_user_trans[OF phys_same(3)[OF pa] same_user_trans[OF b(3) same_user_trans[OF c(3) s'(3)]]])
  ultimately show ?thesis using u s' c(5-8) rR by auto
qed

text \<open>C36. A store of a user program can stop the kernel.  A store page fault at an address beyond the largest virtual address makes
  \<^verbatim>\<open>usertrap\<close> panic in \<^verbatim>\<open>walk\<close>, and one at a lower address for which the process has no page table page makes the kernel read
  through a null pointer: in neither case is the process killed.\<close>

theorem store_fault_stops_kernel:
  assumes "trap_ok s R K p" "cur s = Some p" "\<not> spp s" "scause s = 15"
    and "page_of (stval s) < MAXVA \<Longrightarrow> tbl (ents s) (p_pagetable (ptable s p)) (vpath (page_of (stval s))) = None"
  shows "usertrap e s = (if page_of (stval s) < MAXVA then Fault ''pte'' else Panic ''walk'')"
proof -
  let ?r = "p_pagetable (ptable s p)" and ?va = "page_of (stval s)"
  let ?a = "s\<lparr>stvec := kernelvec s\<rparr>"
  let ?b = "tf_set Epc (sepc s) p ?a"
  have pa: "phys.truncate ?a = phys.truncate s" by (simp add: phys.truncate_def)
  have a: "trap_ok ?a R K p" using trap_ok_phys[OF pa] assms(1) by simp
  note b = tf_set_user[OF a, where r = Epc and v = "sepc s"]
  have rR: "?r \<in> R" using assms(1) user_okD(4) by (auto simp: trap_ok_def)
  have st: "stval ?b = stval s" "scause ?b = 15" using assms(4) by (simp_all add: tf_set_def)
  have u: "usertrap e s = kbind (cow_fault p ?b) (\<lambda>(r, s).
      if r = Cow_err then kbind (unexpected p s) (usertrap_end e p 0) else usertrap_end e p 0 s)"
    using assms(2,3) devintr_store_fault[OF st(2), of e] st(2) by (simp add: usertrap_def with_cur_def Let_def tf_set_def)
  show ?thesis
  proof (cases "?va < MAXVA")
    case True
    then have "walk ?r ?va False ?b = Ret (0, ?b)"
      using b(5)[OF rR] phys_same(2)[OF pa] assms(5) by (simp add: walk_False)
    with True st show ?thesis by (simp add: u cow_fault_def Let_def PGROUNDDOWN_page_of)
  next
    case False
    then have "MAXVA \<le> ?va" by simp
    with False st show ?thesis by (simp add: u cow_fault_def Let_def PGROUNDDOWN_page_of walk_def)
  qed
qed

subsection \<open>A running process\<close>

text \<open>The example machine with one address space; the other root is the trap frame of process 3.\<close>

definition trap0 :: machine where
  "trap0 = console.extend (files.extend (files0\<lparr>ptable := (\<lambda>_. proc0\<lparr>p_pagetable := 0x87ff8000, p_trapframe := 0x87ffc000\<rparr>)\<rparr>)
      \<lparr>lsr = [], rhr = [], thr = [], uart_tx_buf = (\<lambda>_. 0), uart_tx_w = 0, uart_tx_r = 0, panicked = 0,
       cons_buf = (\<lambda>_. 0), cons_r = 0, cons_w = 0, cons_e = 0\<rparr>)
      \<lparr>scause = 15, stval = 5, sepc = 8, spp = False, spie = True, stvec = 0, satp = 0, kernelvec = 0, uservec_off = 0,
       usertrap_addr = 0, forkret_first = False\<rparr>"

definition env0 :: "machine env" where
  "env0 = \<lparr>e_sched = RR, e_swtch = Ret, e_stack = (\<lambda>_. 0), e_times = (0, 0), e_irq = 0, e_disk_intr = Ret\<rparr>"

abbreviation trapR :: "u64 set" where "trapR \<equiv> {0x87ff8000}"

abbreviation trapK :: "u64 \<Rightarrow> int" where "trapK \<equiv> (\<lambda>p. if p = 0x87ffc000 then 1 else 0)"

lemma trap0_simps [simp]:
  "cur trap0 = Some 3" "ptable trap0 = (\<lambda>_. proc0\<lparr>p_pagetable := 0x87ff8000, p_trapframe := 0x87ffc000\<rparr>)"
  "scause trap0 = 15" "stval trap0 = 5" "\<not> spp trap0"
  by (simp_all add: trap0_def console.extend_def files.extend_def)

lemma trap0_phys: "phys.truncate trap0 = demo"
  using files0_simps(5) by (simp add: trap0_def console.extend_def files.extend_def phys.truncate_def)

lemma trap0_user: "user_ok demo trapR trapK 0x87ff8000"
proof -
  have m: "maps (ents demo) trapR p = maps (ents demo) demoR p" for p
    by (auto simp: maps_def leaf_to_def lookup_demo(2))
  have "tabs (ents demo) trapR p = {x \<in> tabs (ents demo) demoR p. fst x = 0x87ff8000}" for p
    by (auto simp: tabs_def pos_def)
  then have t: "tabs (ents demo) trapR p = (if p = 0x87ffc000 then {} else tabs (ents demo) demoR p)" for p
    by (auto simp: tabs_demo)
  have "vm_inv demo trapR trapK"
    using kmem_demo by (simp add: vm_inv_def refs_demo m t maps_demo tabs_demo demo_pages_def)
  moreover have "cow_ok (ents demo) trapR" using demo_cow m by (simp add: cow_ok_def)
  ultimately show ?thesis using demo_user[of "0x87ff8000"] by (simp add: user_ok_def held_apart_def m maps_demo)
qed

lemma trap0_ok: "trap_ok trap0 trapR trapK 3"
proof -
  have "phys.truncate trap0 = phys.truncate demo" using trap0_phys by (simp add: phys.truncate_def)
  from phys_same(1)[OF this, of trapR trapK "0x87ff8000"] trap0_user show ?thesis
    by (simp add: trap_ok_def tf_page_def demo_page_of)
qed

theorem store_fault_stops_kernel_witness: "usertrap env0 (trap0\<lparr>stval := 0x4000000000\<rparr>) = Panic ''walk''"
proof -
  have "phys.truncate (trap0\<lparr>stval := 0x4000000000\<rparr>) = phys.truncate trap0" by (simp add: phys.truncate_def)
  then have "trap_ok (trap0\<lparr>stval := 0x4000000000\<rparr>) trapR trapK 3" using trap_ok_phys[of "trap0\<lparr>stval := 0x4000000000\<rparr>" trap0] trap0_ok by simp
  moreover have "\<not> page_of (0x4000000000 :: u64) < MAXVA" by (simp add: clear_low_def MAXVA_val)
  ultimately show ?thesis using store_fault_stops_kernel[of "trap0\<lparr>stval := 0x4000000000\<rparr>" trapR trapK 3 env0] by simp
qed

text \<open>The same machine with its page marked copy-on-write.\<close>

definition trap1 :: machine where
  "trap1 = pte_store (slot 0x87ffa000 0) (cow_entry 0x21FFEC1F) trap0"

lemma trap1_simps [simp]:
  "cur trap1 = Some 3" "ptable trap1 = ptable trap0" "scause trap1 = 15" "stval trap1 = 5" "\<not> spp trap1"
  by (simp_all add: trap1_def pte_store_def)

lemma trap1_ok:
  "trap_ok trap1 trapR trapK 3" "lookup (ents trap1) 0x87ff8000 0 = cow_entry 0x21FFEC1F" "free_pages trap1 \<noteq> {}"
proof -
  have ph: "phys.truncate trap0 = phys.truncate demo" using trap0_phys by (simp add: phys.truncate_def)
  note D = user_okD[OF trap0_ok[unfolded trap_ok_def, THEN conjunct1], simplified]
  have en: "ents trap0 = ents demo" using phys_same(2)[OF ph] .
  have l0: "lookup (ents trap0) 0x87ff8000 0 = 0x21FFEC1F" using UV_0 by (simp add: en lookup_demo_UV)
  have "(0x87ff8000, vpath 0) \<in> tabs (ents demo) demoR 0x87ffa000" by (simp add: tabs_demo vpath_def PX_def)
  then have t: "(0x87ff8000, vpath 0) \<in> tabs (ents trap0) trapR 0x87ffa000" by (simp add: en tabs_def pos_def)
  have t1: "trap1 = pte_store (slot 0x87ffa000 (PX 0 0)) (cow_entry (lookup (ents trap0) 0x87ff8000 0)) trap0"
    by (simp add: trap1_def l0 PX_def)
  note mc = mark_cow[OF D(1) _ UV_0 _ t, folded t1, simplified, unfolded l0, simplified demoE_bits]
  show "lookup (ents trap1) 0x87ff8000 0 = cow_entry 0x21FFEC1F" using mc by simp
  show "free_pages trap1 \<noteq> {}" using phys_same(4)[OF ph] free_demo mc vm_keepD(1)[OF mc(2)] by (auto simp: free_pages_def)
  have lk: "lookup (ents trap1) 0x87ff8000 va = (if page_of va = 0 then cow_entry 0x21FFEC1F else 0)" if "va < MAXVA" for va
    using vm_keepD(2)[OF mc(2), of "0x87ff8000" va] that mc(5) lookup_page_of[of "ents trap1" "0x87ff8000" va] PX_0[OF that]
    by (auto simp: en lookup_demo)
  have b: "bit (cow_entry 0x21FFEC1F) 0" "bit (cow_entry 0x21FFEC1F) 8" "\<not> bit (cow_entry 0x21FFEC1F) 2"
    by (simp_all add: bit_cow_entry demoE_bits)
  have lu: "lookup (ents trap1) 0x87ff8000 va = (if va = 0 then cow_entry 0x21FFEC1F else 0)" if "va \<in> UV" for va
    using lk[OF UV_less[OF that]] UV_page[OF that] by simp
  have "cow_ok (ents trap1) trapR" using lu b by (simp add: cow_ok_def)
  moreover have "held_apart trap1 trapR trapK"
    using lu by (auto simp: held_apart_def maps_def leaf_to_def demoE_bits split: if_splits)
  moreover have "kernel_only trap1 0x87ff8000"
    using lk UV_0 by (auto simp: kernel_only_def uacc_def split: if_splits)
  ultimately have "user_ok trap1 trapR trapK 0x87ff8000" using mc(1) by (simp add: user_ok_def)
  then show "trap_ok trap1 trapR trapK 3" by (simp add: trap_ok_def tf_page_def demo_page_of)
qed

theorem store_fault_private_copy_witness:
  "\<exists>s'. usertrap env0 trap1 = Ret s' \<and> umem s' 0x87ff8000 0 = umem trap1 0x87ff8000 0 \<and> bit (lookup (ents s') 0x87ff8000 0) 2"
proof -
  have z: "page_of (5 :: u64) = 0" "page_of (0 :: u64) = 0" by (simp_all add: clear_low_def)
  have "p_killed (ptable trap1 3) = 0" by (simp add: proc0_def)
  from store_fault_private_copy[of trap1 trapR trapK 3 env0, OF trap1_ok(1) _ _ _ this] trap1_ok(2,3) UV_0
  obtain s' where "usertrap env0 trap1 = Ret s'" "same_user trap1 s' trapR" "bit (lookup (ents s') 0x87ff8000 0) 2"
    by (auto simp: z bit_cow_entry demoE_bits)
  with UV_0 z(2) show ?thesis by (auto simp: same_user_def)
qed

text \<open>An alarm of one tick is due at the first; the handler ran with all its registers the number of the system call.\<close>

definition alarm0 :: machine where
  "alarm0 = upd_proc 3 (\<lambda>x. x\<lparr>p_alarm_ticks := 0, p_max_alarm_ticks := 1, p_handler := 64\<rparr>) trap0"

theorem sigreturn_restores_but_a0_witness:
  "\<exists>s1 s3. alarm_tick 3 alarm0 = (True, s1) \<and> syscall Ret (\<lambda>_. 0) (0, 0) (put_frame (\<lambda>_. 24) 3 s1) = Ret s3
    \<and> get_frame 3 s3 (tf_index A1) = get_frame 3 alarm0 (tf_index A1)"
proof -
  obtain s1 where s1: "alarm_tick 3 alarm0 = (True, s1)" "tf_page 3 s1" "p_trace_mask (ptable s1 3) = 0" "cur s1 = Some 3"
    by (auto simp: alarm_tick_def alarm0_def Let_def upd_proc_def tf_page_def demo_page_of proc0_def)
  let ?s2 = "put_frame (\<lambda>_. 24) 3 s1"
  note gp = get_put_frame[OF s1(2), where fr = "\<lambda>_. 24"]
  have a: "tf_page 3 alarm0" by (simp add: alarm0_def upd_proc_def tf_page_def demo_page_of)
  have "tf_get A7 3 ?s2 = 24" using gp(3)[of 21] by (simp add: tf_get_def get_frame_def)
  with sigreturn_restores_but_a0[OF s1(1) a, of ?s2 Ret "\<lambda>_. 0" "(0, 0)"] s1 gp(1,2)
  obtain s3 where "syscall Ret (\<lambda>_. 0) (0, 0) ?s2 = Ret s3" "\<forall>k < 36. get_frame 3 s3 k = (if k = tf_index A0 then 0 else get_frame 3 alarm0 k)"
    by (auto simp: tf_page_def)
  with s1(1) show ?thesis by (auto simp: tf_index_less)
qed

end
