(* ===== verification/Grep.thy ===== *)
theory Grep
  imports Prelude
begin

text \<open>
  \<^verbatim>\<open>user/grep.c\<close> with \<^verbatim>\<open>strchr\<close> of \<^verbatim>\<open>user/ulib.c\<close>.  A C string is the list of its bytes before the NUL, so a test for the NUL
  is a test for the empty list.
\<close>

subsection \<open>The matcher\<close>

definition star :: uchar where "star = 42"
definition period :: uchar where "period = 46"
definition caret :: uchar where "caret = 94"
definition dollar :: uchar where "dollar = 36"

function matchhere :: "uchar list \<Rightarrow> uchar list \<Rightarrow> bool"
  and matchstar :: "uchar \<Rightarrow> uchar list \<Rightarrow> uchar list \<Rightarrow> bool" where
  "matchhere re tx =
     (case re of
        [] \<Rightarrow> True
      | c # re1 \<Rightarrow>
          if re1 \<noteq> [] \<and> hd re1 = star then matchstar c (tl re1) tx
          else if c = dollar \<and> re1 = [] then tx = []
          else case tx of [] \<Rightarrow> False | t # ts \<Rightarrow> (c = period \<or> c = t) \<and> matchhere re1 ts)"
| "matchstar c re tx =
     (matchhere re tx \<or> (case tx of [] \<Rightarrow> False | t # ts \<Rightarrow> (t = c \<or> c = period) \<and> matchstar c re ts))"
  by pat_completeness auto

termination
  by (relation "measures [\<lambda>x. case x of Inl (re, tx) \<Rightarrow> length re | Inr (c, re, tx) \<Rightarrow> length re,
      \<lambda>x. case x of Inl _ \<Rightarrow> 0 | Inr _ \<Rightarrow> 1, \<lambda>x. case x of Inl (re, tx) \<Rightarrow> length tx | Inr (c, re, tx) \<Rightarrow> length tx]")
    (auto simp: length_tl)

declare matchhere.simps [simp del] matchstar.simps [simp del]

fun match_anywhere :: "uchar list \<Rightarrow> uchar list \<Rightarrow> bool" where
  "match_anywhere re [] = matchhere re []"
| "match_anywhere re (t # ts) = (matchhere re (t # ts) \<or> match_anywhere re ts)"

definition re_match :: "uchar list \<Rightarrow> uchar list \<Rightarrow> bool" where
  "re_match re tx = (if re \<noteq> [] \<and> hd re = caret then matchhere (tl re) tx else match_anywhere re tx)"

subsection \<open>The language of a pattern\<close>

text \<open>A pattern is a list of characters, each possibly starred, and perhaps an anchor at the end.\<close>

fun items :: "uchar list \<Rightarrow> (uchar \<times> bool) list" where
  "items [] = []"
| "items [c] = (if c = dollar then [] else [(c, False)])"
| "items (c # d # re) = (if d = star then (c, True) # items re else (c, False) # items (d # re))"

fun anchored :: "uchar list \<Rightarrow> bool" where
  "anchored [] = False"
| "anchored [c] = (c = dollar)"
| "anchored (c # d # re) = (if d = star then anchored re else anchored (d # re))"

definition accepts :: "uchar \<Rightarrow> uchar \<Rightarrow> bool" where
  "accepts c t \<longleftrightarrow> c = period \<or> c = t"

fun lang :: "(uchar \<times> bool) list \<Rightarrow> uchar list set" where
  "lang [] = {[]}"
| "lang ((c, starred) # is) =
     (if starred then {u @ w | u w. (\<forall>t \<in> set u. accepts c t) \<and> w \<in> lang is}
      else {t # w | t w. accepts c t \<and> w \<in> lang is})"

text \<open>The text begins with a word of the language, and is that word if the pattern is anchored at its end.\<close>

definition begins :: "uchar list \<Rightarrow> uchar list \<Rightarrow> bool" where
  "begins re tx \<longleftrightarrow> (\<exists>w rest. tx = w @ rest \<and> w \<in> lang (items re) \<and> (anchored re \<longrightarrow> rest = []))"

lemma begins_star:
  "begins (c # star # re) tx \<longleftrightarrow> (\<exists>u v. tx = u @ v \<and> (\<forall>t \<in> set u. accepts c t) \<and> begins re v)"
proof
  assume "begins (c # star # re) tx"
  then obtain x rest where x: "tx = x @ rest" "x \<in> lang (items (c # star # re))" "anchored (c # star # re) \<longrightarrow> rest = []"
    unfolding begins_def by blast
  then obtain u w where "x = u @ w" "\<forall>t \<in> set u. accepts c t" "w \<in> lang (items re)" by auto
  with x have "tx = u @ w @ rest" "\<forall>t \<in> set u. accepts c t" "w \<in> lang (items re)" "anchored re \<longrightarrow> rest = []" by simp_all
  then show "\<exists>u v. tx = u @ v \<and> (\<forall>t \<in> set u. accepts c t) \<and> begins re v" unfolding begins_def by blast
next
  assume "\<exists>u v. tx = u @ v \<and> (\<forall>t \<in> set u. accepts c t) \<and> begins re v"
  then obtain u w rest where "tx = u @ w @ rest" "\<forall>t \<in> set u. accepts c t" "w \<in> lang (items re)" "anchored re \<longrightarrow> rest = []"
    by (auto simp: begins_def)
  then have "tx = (u @ w) @ rest \<and> u @ w \<in> lang (items (c # star # re)) \<and> (anchored (c # star # re) \<longrightarrow> rest = [])" by auto
  then show "begins (c # star # re) tx" unfolding begins_def by blast
qed

lemma begins_char:
  assumes "re = [] \<Longrightarrow> c \<noteq> dollar" "re \<noteq> [] \<Longrightarrow> hd re \<noteq> star"
  shows "begins (c # re) tx \<longleftrightarrow> (case tx of [] \<Rightarrow> False | t # ts \<Rightarrow> accepts c t \<and> begins re ts)"
proof -
  have i: "items (c # re) = (c, False) # items re" "anchored (c # re) = anchored re" using assms by (cases re; simp)+
  show ?thesis
  proof (cases tx)
    case (Cons t ts)
    have "begins (c # re) (t # ts)" if a: "accepts c t" and b: "begins re ts"
    proof -
      obtain w rest where "ts = w @ rest" "w \<in> lang (items re)" "anchored re \<longrightarrow> rest = []" using b by (auto simp: begins_def)
      then have "t # ts = (t # w) @ rest \<and> t # w \<in> lang (items (c # re)) \<and> (anchored (c # re) \<longrightarrow> rest = [])"
        using a by (simp add: i)
      then show ?thesis unfolding begins_def by blast
    qed
    moreover have "accepts c t \<and> begins re ts" if b: "begins (c # re) (t # ts)"
    proof -
      obtain x rest where x: "t # ts = x @ rest" "x \<in> lang (items (c # re))" "anchored re \<longrightarrow> rest = []"
        using b unfolding begins_def i by blast
      then obtain w where "x = t # w" "accepts c t" "w \<in> lang (items re)" by (auto simp: i)
      with x show ?thesis unfolding begins_def by auto
    qed
    ultimately show ?thesis using Cons by auto
  qed (simp add: begins_def i)
qed

lemma star_split:
  "(\<exists>u v. t # ts = u @ v \<and> (\<forall>x \<in> set u. P x) \<and> Q v) \<longleftrightarrow> Q (t # ts) \<or> (P t \<and> (\<exists>u v. ts = u @ v \<and> (\<forall>x \<in> set u. P x) \<and> Q v))"
  (is "?l \<longleftrightarrow> ?r")
proof
  assume ?l
  then obtain u v where u: "t # ts = u @ v" "\<forall>x \<in> set u. P x" "Q v" by blast
  then show ?r by (cases u) auto
next
  assume ?r
  then consider "Q (t # ts)" | u v where "P t" "ts = u @ v" "\<forall>x \<in> set u. P x" "Q v" by blast
  then show ?l
  proof cases
    case 1
    then show ?thesis by (metis append_Nil empty_iff list.set(1))
  next
    case (2 u v)
    then have "t # ts = (t # u) @ v \<and> (\<forall>x \<in> set (t # u). P x) \<and> Q v" by simp
    then show ?thesis by blast
  qed
qed

lemma matcher_lang:
  "matchhere re tx = begins re tx"
  "matchstar c re tx = (\<exists>u v. tx = u @ v \<and> (\<forall>t \<in> set u. accepts c t) \<and> begins re v)"
proof (induction re tx and c re tx rule: matchhere_matchstar.induct)
  case (1 re tx)
  show ?case
  proof (cases re)
    case Nil
    then show ?thesis by (simp add: matchhere.simps begins_def)
  next
    case (Cons c re1)
    consider "re1 \<noteq> [] \<and> hd re1 = star" | "\<not> (re1 \<noteq> [] \<and> hd re1 = star)" "c = dollar \<and> re1 = []"
      | "\<not> (re1 \<noteq> [] \<and> hd re1 = star)" "\<not> (c = dollar \<and> re1 = [])" by blast
    then show ?thesis
    proof cases
      case 1
      then obtain re2 where "re1 = star # re2" by (cases re1) auto
      with "1.IH"(1)[OF Cons] Cons show ?thesis by (simp add: matchhere.simps[of "c # star # re2"] begins_star)
    next
      case 2
      with Cons show ?thesis by (simp add: matchhere.simps begins_def)
    next
      case 3
      have "matchhere (c # re1) tx = (case tx of [] \<Rightarrow> False | t # ts \<Rightarrow> (c = period \<or> c = t) \<and> matchhere re1 ts)"
        using 3 by (subst matchhere.simps) auto
      also have "\<dots> = (case tx of [] \<Rightarrow> False | t # ts \<Rightarrow> accepts c t \<and> begins re1 ts)"
        using "1.IH"(2)[OF Cons 3] by (auto simp: accepts_def split: list.split)
      finally show ?thesis using 3 Cons begins_char[of re1 c tx] by auto
    qed
  qed
next
  case (2 c re tx)
  show ?case
  proof (cases tx)
    case Nil
    with 2(1) show ?thesis by (simp add: matchstar.simps[of c re "[]"])
  next
    case (Cons t ts)
    have "matchstar c re (t # ts) \<longleftrightarrow> begins re (t # ts) \<or> (accepts c t \<and> matchstar c re ts)"
      using 2(1) Cons by (subst matchstar.simps) (auto simp: accepts_def)
    then show ?thesis unfolding Cons using 2(2)[OF Cons] by (simp only: star_split)
  qed
qed

text \<open>C28. The matcher decides the language of the pattern.  \<^verbatim>\<open>match\<close> answers yes exactly when some part of the text is
  a word of the language that the characters, periods and stars of the pattern describe, where a caret in front
  ties the part to the start of the text and a dollar sign at the end ties it to its end.\<close>

theorem grep_match_decides:
  "re_match re tx \<longleftrightarrow>
     (let body = (if re \<noteq> [] \<and> hd re = caret then tl re else re) in
      \<exists>pre w rest. tx = pre @ w @ rest \<and> w \<in> lang (items body) \<and> (re \<noteq> [] \<and> hd re = caret \<longrightarrow> pre = [])
        \<and> (anchored body \<longrightarrow> rest = []))"
proof -
  have any: "match_anywhere re tx \<longleftrightarrow> (\<exists>pre v. tx = pre @ v \<and> begins re v)" for re
  proof (induction tx)
    case Nil
    then show ?case by (simp add: matcher_lang)
  next
    case (Cons t ts)
    then show ?case by (auto simp: matcher_lang Cons_eq_append_conv)
  qed
  show ?thesis by (auto simp: re_match_def any matcher_lang(1) begins_def Let_def)
qed

theorem grep_match_decides_witness:
  "re_match [97, star, 98, dollar] [120, 97, 97, 98] \<and> \<not> re_match [caret, 97] [120, 97]"
proof -
  let ?re = "[97, star, 98, dollar]"
  have l: "items ?re = [(97, True), (98, False)]" "anchored ?re" by (simp_all add: star_def dollar_def)
  have "[97, 97, 98] = [97, 97] @ [98 :: uchar] \<and> (\<forall>t \<in> set [97, 97]. accepts 97 t) \<and> [98] \<in> lang [(98, False)]"
    by (simp add: accepts_def)
  then have "[97, 97, 98] \<in> lang (items ?re)" unfolding l lang.simps(2)[of 97 True] by (simp only: if_True mem_Collect_eq) blast
  then have "\<exists>pre w rest. [120] @ [97, 97, 98] @ [] = pre @ w @ rest \<and> w \<in> lang (items ?re) \<and> (False \<longrightarrow> pre = [])
      \<and> (anchored ?re \<longrightarrow> rest = [])" by blast
  moreover have "(?re \<noteq> [] \<and> hd ?re = caret) = False" by (simp add: caret_def)
  ultimately have "re_match ?re ([120] @ [97, 97, 98] @ [])"
    unfolding grep_match_decides[of ?re] Let_def by (simp only: if_False)
  moreover have "\<not> re_match [caret, 97] [120, 97]"
    unfolding grep_match_decides[of "[caret, 97]"] Let_def
    by (auto simp: caret_def dollar_def accepts_def period_def Cons_eq_append_conv)
  ultimately show ?thesis by simp
qed

subsection \<open>The loop over the input\<close>

definition nl :: uchar where "nl = 10"

text \<open>\<^verbatim>\<open>strchr\<close>: the position of the character before the NUL.\<close>

fun strchr :: "uchar list \<Rightarrow> uchar \<Rightarrow> nat option" where
  "strchr [] c = None"
| "strchr (x # xs) c = (if x = 0 then None else if x = c then Some 0 else map_option Suc (strchr xs c))"

lemma strchr_bound: "strchr xs c = Some k \<Longrightarrow> k < length xs"
  by (induction xs arbitrary: k) (auto split: if_splits)

text \<open>The inner loop: what is written for the complete lines at \<open>p\<close>, and the rest of the buffer.\<close>

function grep_lines :: "uchar list \<Rightarrow> uchar list \<Rightarrow> uchar list \<times> uchar list" where
  "grep_lines pattern p =
     (case strchr p nl of
        None \<Rightarrow> ([], p)
      | Some k \<Rightarrow>
          let (out, rest) = grep_lines pattern (drop (Suc k) p) in
          (if re_match pattern (take k p) then take (Suc k) p @ out else out, rest))"
  by pat_completeness auto

termination by (relation "measure (\<lambda>(pattern, p). length p)") (auto dest: strchr_bound)

declare grep_lines.simps [simp del]

text \<open>
  The outer loop.  \<open>buf\<close> is the \<open>m\<close> bytes left in \<^verbatim>\<open>buf\<close>, \<open>input\<close> what the file has not delivered yet.  The system call
  gives at least one byte when there is one and room for it, and \<open>avail i\<close> more at most in the \<open>i\<close>th call; the room is
  what \<^verbatim>\<open>sizeof(buf)-m-1\<close> says.  A call that gives nothing ends the loop.
\<close>

definition GREPBUF :: nat where "GREPBUF = 1024"

definition read_result :: "nat \<Rightarrow> uchar list \<Rightarrow> uchar list \<Rightarrow> uchar list" where
  "read_result n input buf = take (min (Suc n) (GREPBUF - length buf - 1)) input"

function grep_loop :: "uchar list \<Rightarrow> (nat \<Rightarrow> nat) \<Rightarrow> nat \<Rightarrow> uchar list \<Rightarrow> uchar list \<Rightarrow> uchar list" where
  "grep_loop pattern avail i input buf =
     (let n = read_result (avail i) input buf in
      if n = [] then []
      else let (out, rest) = grep_lines pattern (buf @ n) in
           out @ grep_loop pattern avail (Suc i) (drop (length n) input) rest)"
  by pat_completeness auto

termination
  by (relation "measure (\<lambda>(pattern, avail, i, input, buf). length input)") (auto simp: read_result_def)

declare grep_loop.simps [simp del]

definition grep :: "uchar list \<Rightarrow> (nat \<Rightarrow> nat) \<Rightarrow> uchar list \<Rightarrow> uchar list" where
  "grep pattern avail input = grep_loop pattern avail 0 input []"

text \<open>The complete lines of a text.\<close>

fun lines :: "uchar list \<Rightarrow> uchar list \<Rightarrow> uchar list list" where
  "lines cur [] = []"
| "lines cur (x # xs) = (if x = nl then cur # lines [] xs else lines (cur @ [x]) xs)"

definition grep_spec :: "uchar list \<Rightarrow> uchar list \<Rightarrow> uchar list" where
  "grep_spec pattern input = concat (map (\<lambda>l. l @ [nl]) (filter (re_match pattern) (lines [] input)))"

text \<open>No line, the unfinished one at the end included, has more bytes than the buffer can hold with its newline.\<close>

fun fits :: "nat \<Rightarrow> uchar list \<Rightarrow> bool" where
  "fits k [] = True"
| "fits k (x # xs) = (if x = nl then fits 0 xs else Suc k < GREPBUF - 1 \<and> fits (Suc k) xs)"

lemma fits_prefix:
  "nl \<notin> set u \<Longrightarrow> fits k (u @ v) = ((u \<noteq> [] \<longrightarrow> k + length u < GREPBUF - 1) \<and> fits (k + length u) v)"
  by (induction u arbitrary: k) auto

lemma strchr_None: "0 \<notin> set p \<Longrightarrow> strchr p nl = None \<Longrightarrow> nl \<notin> set p"
  by (induction p) (auto split: if_splits)

lemma strchr_Some:
  "strchr p nl = Some k \<Longrightarrow> p = take k p @ nl # drop (Suc k) p \<and> nl \<notin> set (take k p)"
proof (induction p arbitrary: k)
  case (Cons x p)
  then show ?case by (cases k) (auto split: if_splits)
qed simp

lemma lines_prefix: "nl \<notin> set u \<Longrightarrow> lines c (u @ v) = lines (c @ u) v"
  by (induction u arbitrary: c) auto

lemma lines_none: "nl \<notin> set u \<Longrightarrow> lines c u = []"
  using lines_prefix[of u c "[]"] by simp

lemma grep_lines_ok:
  "0 \<notin> set p \<Longrightarrow> grep_lines pattern p = (out, rest) \<Longrightarrow>
     (\<forall>v. grep_spec pattern (p @ v) = out @ grep_spec pattern (rest @ v) \<and> (fits 0 (p @ v) \<longrightarrow> fits 0 (rest @ v)))
       \<and> set rest \<subseteq> set p \<and> nl \<notin> set rest"
proof (induction pattern p arbitrary: out rest rule: grep_lines.induct)
  case (1 pattern p)
  show ?case
  proof (cases "strchr p nl")
    case None
    with 1(2,3) strchr_None[of p] show ?thesis by (auto simp: grep_lines.simps[of pattern p])
  next
    case (Some k)
    obtain o1 r1 where g: "grep_lines pattern (drop (Suc k) p) = (o1, r1)" by fastforce
    have z: "0 \<notin> set (drop (Suc k) p)" using 1(2) by (auto dest: in_set_dropD)
    note IH = 1(1)[OF Some z g]
    have e: "rest = r1" "out = (if re_match pattern (take k p) then take (Suc k) p @ o1 else o1)"
      using 1(3) Some g by (auto simp: grep_lines.simps[of pattern p])
    note sp = strchr_Some[OF Some]
    have p: "p @ v = take k p @ nl # drop (Suc k) p @ v" for v using sp by (metis append.assoc append_Cons)
    have "lines [] (p @ v) = take k p # lines [] (drop (Suc k) p @ v)" for v
      unfolding p[of v] using lines_prefix[of "take k p" "[]" "nl # drop (Suc k) p @ v"] sp by simp
    moreover have "take (Suc k) p = take k p @ [nl]"
      using strchr_bound[OF Some] sp by (metis nth_append_length take_Suc_conv_app_nth length_take min.absorb4)
    moreover have "fits 0 (p @ v) \<longrightarrow> fits 0 (drop (Suc k) p @ v)" for v
      unfolding p[of v] using sp by (simp add: fits_prefix)
    ultimately show ?thesis
      using IH e set_drop_subset[of "Suc k" p] by (auto simp: grep_spec_def)
  qed
qed

lemma grep_loop_ok:
  "0 \<notin> set (buf @ input) \<Longrightarrow> fits 0 (buf @ input) \<Longrightarrow> nl \<notin> set buf
     \<Longrightarrow> grep_loop pattern avail i input buf = grep_spec pattern (buf @ input)"
proof (induction pattern avail i input buf rule: grep_loop.induct)
  case (1 pattern avail i input buf)
  let ?n = "read_result (avail i) input buf"
  have room: "length buf < GREPBUF - 1" using 1(3,4) by (cases "buf = []") (auto simp: fits_prefix GREPBUF_def)
  show ?case
  proof (cases "?n = []")
    case True
    with room have "input = []" by (auto simp: read_result_def)
    with True 1(4) show ?thesis by (simp add: grep_loop.simps[of pattern avail i] grep_spec_def lines_none)
  next
    case False
    have inp: "input = ?n @ drop (length ?n) input"
      unfolding read_result_def by (metis append_eq_conv_conj append_take_drop_id)
    obtain out rest where g: "grep_lines pattern (buf @ ?n) = (out, rest)" by fastforce
    have z: "0 \<notin> set (buf @ ?n)" using 1(2) by (auto simp: read_result_def dest: in_set_takeD)
    note ok = grep_lines_ok[OF z g]
    have all: "buf @ input = (buf @ ?n) @ drop (length ?n) input" using inp by simp
    have "grep_loop pattern avail (Suc i) (drop (length ?n) input) rest = grep_spec pattern (rest @ drop (length ?n) input)"
    proof (rule 1(1)[OF refl False g[symmetric] refl])
      show "0 \<notin> set (rest @ drop (length ?n) input)" using ok z 1(2) by (auto dest: in_set_dropD)
      show "fits 0 (rest @ drop (length ?n) input)" using ok 1(3) unfolding all by blast
    qed (use ok in blast)
    then show ?thesis unfolding all using ok False g by (simp add: grep_loop.simps[of pattern avail i] Let_def)
  qed
qed

text \<open>C29. \<^verbatim>\<open>grep\<close> prints exactly the matching lines, however the input arrives.  For input without NUL bytes whose lines
  have at most 1022 bytes, and whatever number of bytes each \<^verbatim>\<open>read\<close> delivers, what is written is each complete line
  the pattern matches, with its newline, in the order of the input.  (A longer line fills the buffer, and the loop ends
  there as at the end of the file.)\<close>

theorem grep_prints_matching_lines:
  assumes "0 \<notin> set input" "fits 0 input"
  shows "grep pattern avail input = grep_spec pattern input"
  using grep_loop_ok[of "[]" input] assms by (simp add: grep_def)

theorem grep_prints_matching_lines_witness:
  "grep [98] (\<lambda>i. 2) [97, 10, 98, 99, 10] = [98, 99, 10]"
proof -
  have "re_match [98] [97] = False" "re_match [98] [98, 99]"
    by (simp_all add: re_match_def matchhere.simps caret_def dollar_def period_def)
  then show ?thesis
    using grep_prints_matching_lines[of "[97, 10, 98, 99, 10]" "[98]" "\<lambda>i. 2"]
    by (simp add: grep_spec_def nl_def GREPBUF_def)
qed

end
