(* ===== verification/Shell.thy ===== *)
theory Shell
  imports Grep Sysfile
begin

text \<open>
  The parser of the shell, \<^verbatim>\<open>user/sh.c\<close>.  The parser works on positions of one line: \<open>buf\<close> is the bytes of the line before
  its NUL, a pointer is an index, and \<^verbatim>\<open>es\<close> is the length.  Tokens are pairs of positions, as the pointers \<^verbatim>\<open>q\<close> and \<^verbatim>\<open>eq\<close>;
  \<^verbatim>\<open>nulterminate\<close> writes into the line.  \<^verbatim>\<open>panic\<close> prints its message and exits: the sum's left side.  The four mutually
  recursive parsers take fuel and give \<open>None\<close> without it; \<open>parsecmd\<close> gives them fuel that the length of the line determines.
\<close>

subsection \<open>Commands\<close>

definition MAXARGS :: nat where "MAXARGS = 10"

datatype cmd =
    EXEC "(nat \<times> nat) list"
  | REDIR cmd nat nat uint int
  | PIPE cmd cmd
  | LIST cmd cmd
  | BACK cmd

text \<open>A store into \<^verbatim>\<open>argv\<close> of the \<^verbatim>\<open>execcmd\<close> that the redirections of \<^verbatim>\<open>ret\<close> point to.\<close>

fun add_arg :: "nat \<times> nat \<Rightarrow> cmd \<Rightarrow> cmd" where
  "add_arg a (EXEC argv) = EXEC (argv @ [a])"
| "add_arg a (REDIR c q eq mode fd) = REDIR (add_arg a c) q eq mode fd"
| "add_arg a c = c"

subsection \<open>Tokens\<close>

definition whitespace :: "uchar list" where "whitespace = [32, 9, 13, 10, 11]"
definition symbols :: "uchar list" where "symbols = [60, 124, 62, 38, 59, 40, 41]"

definition at :: "uchar list \<Rightarrow> nat \<Rightarrow> uchar" where
  "at buf i = (if i < length buf then buf ! i else 0)"

definition blank :: "uchar \<Rightarrow> bool" where "blank c \<longleftrightarrow> strchr whitespace c \<noteq> None"
definition symbol :: "uchar \<Rightarrow> bool" where "symbol c \<longleftrightarrow> strchr symbols c \<noteq> None"

function skip :: "(uchar \<Rightarrow> bool) \<Rightarrow> uchar list \<Rightarrow> nat \<Rightarrow> nat" where
  "skip P buf s = (if s < length buf \<and> P (at buf s) then skip P buf (Suc s) else s)"
  by pat_completeness auto

termination by (relation "measure (\<lambda>(P, buf, s). length buf - s)") auto

declare skip.simps [simp del]

definition gettoken :: "uchar list \<Rightarrow> nat \<Rightarrow> uchar \<times> nat \<times> nat \<times> nat" where
  "gettoken buf s0 =
     (let s = skip blank buf s0; c = at buf s;
          (ret, e) =
            (if c = 0 then (0, s)
             else if c = 124 \<or> c = 40 \<or> c = 41 \<or> c = 59 \<or> c = 38 \<or> c = 60 then (c, s + 1)
             else if c = 62 then (if at buf (s + 1) = 62 then (43, s + 2) else (62, s + 1))
             else (97, skip (\<lambda>c. \<not> blank c \<and> \<not> symbol c) buf s))
      in (ret, s, e, skip blank buf e))"

definition peek :: "uchar list \<Rightarrow> nat \<Rightarrow> uchar list \<Rightarrow> nat \<times> bool" where
  "peek buf s0 toks = (let s = skip blank buf s0 in (s, at buf s \<noteq> 0 \<and> strchr toks (at buf s) \<noteq> None))"

lemma skip_bounds: "s \<le> skip P buf s \<and> (s \<le> length buf \<longrightarrow> skip P buf s \<le> length buf)"
proof (induction P buf s rule: skip.induct)
  case (1 P buf s)
  then show ?case
    by (cases "s < length buf \<and> P (at buf s)") (auto simp: skip.simps[of P buf s])
qed

lemma skip_passes: "i \<in> {s ..< skip P buf s} \<Longrightarrow> i < length buf \<and> P (buf ! i)"
proof (induction P buf s rule: skip.induct)
  case (1 P buf s)
  show ?case
  proof (cases "s < length buf \<and> P (at buf s)")
    case True
    with 1(1)[OF True] 1(2) show ?thesis
      by (cases "i = s") (auto simp: skip.simps[of P buf s] at_def)
  next
    case False
    with 1(2) show ?thesis by (simp add: skip.simps[of P buf s])
  qed
qed

lemma skip_stops: "skip P buf s < length buf \<Longrightarrow> \<not> P (buf ! skip P buf s)"
proof (induction P buf s rule: skip.induct)
  case (1 P buf s)
  then show ?case
    by (cases "s < length buf \<and> P (at buf s)") (simp_all add: skip.simps[of P buf s] at_def split: if_splits)
qed

text \<open>A token that is a word: a maximal run of bytes that are neither blanks nor symbols.\<close>

definition word_at :: "uchar list \<Rightarrow> nat \<Rightarrow> nat \<Rightarrow> bool" where
  "word_at buf q eq \<longleftrightarrow> q < eq \<and> eq \<le> length buf \<and> (\<forall>i \<in> {q ..< eq}. \<not> blank (buf ! i) \<and> \<not> symbol (buf ! i))
     \<and> (eq < length buf \<longrightarrow> blank (buf ! eq) \<or> symbol (buf ! eq))"

lemma gettoken_bounds:
  assumes "gettoken buf s0 = (ret, q, eq, s)" "s0 \<le> length buf"
  shows "s0 \<le> s \<and> s \<le> length buf"
proof -
  let ?s = "skip blank buf s0"
  have b: "s0 \<le> ?s" "?s \<le> length buf" using skip_bounds[of s0 blank buf] assms(2) by auto
  have "?s \<le> eq \<and> eq \<le> length buf"
    using assms(1) b skip_bounds[of ?s "\<lambda>c. \<not> blank c \<and> \<not> symbol c" buf]
    by (auto simp: gettoken_def Let_def at_def split: if_splits)
  moreover have "s = skip blank buf eq" using assms(1) by (auto simp: gettoken_def Let_def split: if_splits)
  ultimately show ?thesis using skip_bounds[of eq blank buf] b by auto
qed

lemma symbol_set: "symbol c \<longleftrightarrow> c \<in> {60, 124, 62, 38, 59, 40, 41}"
  by (auto simp: symbol_def symbols_def)

lemma gettoken_advances:
  assumes "gettoken buf s0 = (ret, q, eq, s)" "ret \<noteq> 0 \<or> at buf (skip blank buf s0) \<noteq> 0" "s0 \<le> length buf"
  shows "s0 < s"
proof -
  let ?s = "skip blank buf s0"
  have nz: "at buf ?s \<noteq> 0" using assms(1,2) by (auto simp: gettoken_def Let_def split: if_splits)
  then have l: "?s < length buf" by (auto simp: at_def split: if_splits)
  have nb: "\<not> blank (at buf ?s)" using skip_stops[of blank buf s0] l by (simp add: at_def)
  have "Suc ?s \<le> eq"
  proof (cases "symbol (at buf ?s)")
    case True
    with assms(1) nz show ?thesis by (auto simp: gettoken_def Let_def symbol_set split: if_splits)
  next
    case False
    let ?P = "\<lambda>c. \<not> blank c \<and> \<not> symbol c"
    have "skip ?P buf ?s = skip ?P buf (Suc ?s)" using l nb False by (simp add: skip.simps[of ?P buf ?s])
    moreover have "eq = skip ?P buf ?s"
      using assms(1) nz False by (auto simp: gettoken_def Let_def symbol_set split: if_splits)
    ultimately show ?thesis using skip_bounds[of "Suc ?s" ?P buf] by simp
  qed
  moreover have "s = skip blank buf eq" using assms(1) by (auto simp: gettoken_def Let_def split: if_splits)
  ultimately show ?thesis using skip_bounds[of s0 blank buf] skip_bounds[of eq blank buf] by linarith
qed

lemma gettoken_word:
  assumes "gettoken buf s0 = (97, q, eq, s)" "s0 \<le> length buf"
  shows "word_at buf q eq"
proof -
  let ?s = "skip blank buf s0" and ?P = "\<lambda>c. \<not> blank c \<and> \<not> symbol c"
  have nz: "at buf ?s \<noteq> 0" and ns: "\<not> symbol (at buf ?s)" and q: "q = ?s" and eq: "eq = skip ?P buf ?s"
    using assms(1) by (auto simp: gettoken_def Let_def symbol_set split: if_splits)
  have l: "?s < length buf" using nz by (auto simp: at_def split: if_splits)
  have "?P (at buf ?s)" using skip_stops[of blank buf s0] l ns by (simp add: at_def)
  then have "skip ?P buf ?s = skip ?P buf (Suc ?s)" using l by (simp add: skip.simps[of ?P buf ?s])
  then have "q < eq" using skip_bounds[of "Suc ?s" ?P buf] q eq by simp
  moreover have "eq \<le> length buf" using skip_bounds[of ?s ?P buf] l eq by simp
  moreover have "\<forall>i \<in> {q ..< eq}. ?P (buf ! i)" using skip_passes[of _ ?s ?P buf] q eq by blast
  moreover have "eq < length buf \<longrightarrow> \<not> ?P (buf ! eq)" using skip_stops[of ?P buf ?s] eq by simp
  ultimately show ?thesis unfolding word_at_def by blast
qed

lemma peek_bounds: "peek buf s0 toks = (s, b) \<Longrightarrow> s0 \<le> length buf \<Longrightarrow> s0 \<le> s \<and> s \<le> length buf"
  using skip_bounds[of s0 blank buf] by (auto simp: peek_def Let_def)

lemma skip_idem: "skip P buf (skip P buf s) = skip P buf s"
  using skip_stops[of P buf s] by (simp add: skip.simps[of P buf "skip P buf s"] at_def)

lemma gettoken_skip: "gettoken buf (skip blank buf s) = gettoken buf s"
  by (simp add: gettoken_def skip_idem)

lemma peek_True: "peek buf s0 toks = (s, True) \<Longrightarrow> s0 \<le> s \<and> s < length buf"
  using skip_bounds[of s0 blank buf] by (auto simp: peek_def Let_def at_def split: if_splits)

lemma peek_gettoken:
  assumes "peek buf s0 toks = (s, True)" "gettoken buf s = (ret, q, eq, s1)"
  shows "s < s1" "s1 \<le> length buf"
proof -
  have "at buf (skip blank buf s) \<noteq> 0" using assms(1) by (auto simp: peek_def Let_def skip_idem)
  then show "s < s1" using gettoken_advances[OF assms(2)] peek_True[OF assms(1)] by simp
  show "s1 \<le> length buf" using gettoken_bounds[OF assms(2)] peek_True[OF assms(1)] by simp
qed

subsection \<open>The loops of the parser\<close>

text \<open>\<^verbatim>\<open>switch(tok)\<close> of \<^verbatim>\<open>parseredirs\<close>.\<close>

definition redir :: "uchar \<Rightarrow> cmd \<Rightarrow> nat \<Rightarrow> nat \<Rightarrow> cmd" where
  "redir tok cmd q eq =
     (if tok = 60 then REDIR cmd q eq 0 0
      else if tok = 62 then REDIR cmd q eq (O_WRONLY OR O_CREATE OR O_TRUNC) 1
      else if tok = 43 then REDIR cmd q eq (O_WRONLY OR O_CREATE) 1
      else cmd)"

function parseredirs :: "cmd \<Rightarrow> uchar list \<Rightarrow> nat \<Rightarrow> string + cmd \<times> nat" where
  "parseredirs cmd buf s0 =
     (case peek buf s0 [60, 62] of (s, again) \<Rightarrow>
        if \<not> again then Inr (cmd, s)
        else case gettoken buf s of (tok, _, _, s1) \<Rightarrow>
          case gettoken buf s1 of (w, q, eq, s2) \<Rightarrow>
            if w \<noteq> 97 then Inl ''missing file for redirection''
            else parseredirs (redir tok cmd q eq) buf s2)"
  by pat_completeness auto

termination
proof (relation "measure (\<lambda>(cmd, buf, s). length buf - s)")
  fix cmd :: cmd and buf :: "uchar list" and s0 s again tok u q0 v eq0 s1 w a q b eq s2
  assume h: "(s, again) = peek buf s0 [60, 62]" "\<not> \<not> again" "(tok, u) = gettoken buf s"
    "(q0, v) = u" "(eq0, s1) = v" "(w, a) = gettoken buf s1" "(q, b) = a" "(eq, s2) = b" "\<not> w \<noteq> 97"
  have p: "peek buf s0 [60, 62] = (s, True)" "gettoken buf s = (tok, q0, eq0, s1)" "gettoken buf s1 = (w, q, eq, s2)" using h by auto
  have "s0 \<le> s" "s < length buf" "s < s1" "s1 \<le> length buf" using peek_True[OF p(1)] peek_gettoken[OF p(1,2)] by auto
  moreover have "s1 \<le> s2" using gettoken_bounds[OF p(3)] calculation by auto
  ultimately show "((redir tok cmd q eq, buf, s2), cmd, buf, s0) \<in> measure (\<lambda>(cmd, buf, s). length buf - s)" by simp
qed simp

declare parseredirs.simps [simp del]

text \<open>The loop of \<^verbatim>\<open>parseexec\<close>: \<open>argc\<close> words stored so far.\<close>

function parseexec_loop :: "nat \<Rightarrow> cmd \<Rightarrow> uchar list \<Rightarrow> nat \<Rightarrow> string + cmd \<times> nat" where
  "parseexec_loop argc ret buf s0 =
     (case peek buf s0 [124, 41, 38, 59] of (s, stop) \<Rightarrow>
        if stop then Inr (ret, s)
        else case gettoken buf s of (tok, q, eq, s1) \<Rightarrow>
          if tok = 0 then Inr (ret, s1)
          else if tok \<noteq> 97 then Inl ''syntax''
          else if MAXARGS \<le> argc + 1 then Inl ''too many args''
          else case parseredirs (add_arg (q, eq) ret) buf s1 of
              Inl e \<Rightarrow> Inl e
            | Inr (ret, s2) \<Rightarrow> parseexec_loop (argc + 1) ret buf s2)"
  by pat_completeness auto

termination by (relation "measure (\<lambda>(argc, ret, buf, s). MAXARGS - argc)") auto

declare parseexec_loop.simps [simp del]

text \<open>The loop of \<^verbatim>\<open>parseline\<close> over the ampersands.\<close>

function back_loop :: "cmd \<Rightarrow> uchar list \<Rightarrow> nat \<Rightarrow> cmd \<times> nat" where
  "back_loop cmd buf s0 =
     (case peek buf s0 [38] of (s, again) \<Rightarrow>
        if \<not> again then (cmd, s)
        else case gettoken buf s of (_, _, _, s1) \<Rightarrow> back_loop (BACK cmd) buf s1)"
  by pat_completeness auto

termination
proof (relation "measure (\<lambda>(cmd, buf, s). length buf - s)")
  fix cmd :: cmd and buf :: "uchar list" and s0 s again tok u q v eq s1
  assume h: "(s, again) = peek buf s0 [38]" "\<not> \<not> again" "(tok, u) = gettoken buf s"
    "(q, v) = u" "(eq, s1) = v"
  have p: "peek buf s0 [38] = (s, True)" "gettoken buf s = (tok, q, eq, s1)" using h by auto
  have "s0 \<le> s" "s < length buf" "s < s1" using peek_True[OF p(1)] peek_gettoken[OF p(1,2)] by auto
  then show "((BACK cmd, buf, s1), cmd, buf, s0) \<in> measure (\<lambda>(cmd, buf, s). length buf - s)" by simp
qed simp

declare back_loop.simps [simp del]

subsection \<open>The parser\<close>

definition pbind :: "(string + 'a) option \<Rightarrow> ('a \<Rightarrow> (string + 'b) option) \<Rightarrow> (string + 'b) option" where
  "pbind m f = (case m of None \<Rightarrow> None | Some (Inl e) \<Rightarrow> Some (Inl e) | Some (Inr x) \<Rightarrow> f x)"

text \<open>\<^verbatim>\<open>gettoken(ps, es, 0, 0)\<close>.\<close>

definition eat :: "uchar list \<Rightarrow> nat \<Rightarrow> nat" where
  "eat buf s = (case gettoken buf s of (_, _, _, s1) \<Rightarrow> s1)"

fun parseline :: "nat \<Rightarrow> uchar list \<Rightarrow> nat \<Rightarrow> (string + cmd \<times> nat) option"
  and parsepipe :: "nat \<Rightarrow> uchar list \<Rightarrow> nat \<Rightarrow> (string + cmd \<times> nat) option"
  and parseblock :: "nat \<Rightarrow> uchar list \<Rightarrow> nat \<Rightarrow> (string + cmd \<times> nat) option"
  and parseexec :: "nat \<Rightarrow> uchar list \<Rightarrow> nat \<Rightarrow> (string + cmd \<times> nat) option" where
  "parseline 0 buf s = None"
| "parseline (Suc n) buf s =
     pbind (parsepipe n buf s) (\<lambda>(cmd, s).
       case back_loop cmd buf s of (cmd, s) \<Rightarrow>
       case peek buf s [59] of (s, semi) \<Rightarrow>
         if semi then pbind (parseline n buf (eat buf s)) (\<lambda>(r, s). Some (Inr (LIST cmd r, s)))
         else Some (Inr (cmd, s)))"
| "parsepipe 0 buf s = None"
| "parsepipe (Suc n) buf s =
     pbind (parseexec n buf s) (\<lambda>(cmd, s).
       case peek buf s [124] of (s, bar) \<Rightarrow>
         if bar then pbind (parsepipe n buf (eat buf s)) (\<lambda>(r, s). Some (Inr (PIPE cmd r, s)))
         else Some (Inr (cmd, s)))"
| "parseblock 0 buf s = None"
| "parseblock (Suc n) buf s =
     (case peek buf s [40] of (s, open) \<Rightarrow>
        if \<not> open then Some (Inl ''parseblock'')
        else pbind (parseline n buf (eat buf s)) (\<lambda>(cmd, s).
          case peek buf s [41] of (s, close) \<Rightarrow>
            if \<not> close then Some (Inl ''syntax - missing )'')
            else Some (parseredirs cmd buf (eat buf s))))"
| "parseexec 0 buf s = None"
| "parseexec (Suc n) buf s =
     (case peek buf s [40] of (s, open) \<Rightarrow>
        if open then parseblock n buf s
        else case parseredirs (EXEC []) buf s of
            Inl e \<Rightarrow> Some (Inl e)
          | Inr (ret, s) \<Rightarrow> Some (parseexec_loop 0 ret buf s))"

text \<open>\<^verbatim>\<open>nulterminate\<close>, on the line with its NUL.\<close>

fun nulterminate :: "cmd \<Rightarrow> uchar list \<Rightarrow> uchar list" where
  "nulterminate (EXEC argv) line = foldl (\<lambda>line a. line[snd a := 0]) line argv"
| "nulterminate (REDIR c q eq mode fd) line = (nulterminate c line)[eq := 0]"
| "nulterminate (PIPE l r) line = nulterminate r (nulterminate l line)"
| "nulterminate (LIST l r) line = nulterminate r (nulterminate l line)"
| "nulterminate (BACK c) line = nulterminate c line"

text \<open>\<^verbatim>\<open>parsecmd\<close> on the bytes from \<^verbatim>\<open>s\<close>: the command, and the bytes afterwards.\<close>

definition parsecmd :: "uchar list \<Rightarrow> (string + cmd \<times> uchar list) option" where
  "parsecmd line =
     (let buf = takeWhile (\<lambda>c. c \<noteq> 0) line in
      pbind (parseline (4 * length buf + 4) buf 0) (\<lambda>(cmd, s).
        case peek buf s [] of (s, _) \<Rightarrow>
          if s \<noteq> length buf then Some (Inl ''syntax'')
          else Some (Inr (cmd, nulterminate cmd line))))"

subsection \<open>What a parse yields\<close>

text \<open>
  A command of the parser: fewer than \<^verbatim>\<open>MAXARGS\<close> arguments, every argument and file name a word of the line, and every
  redirection one of the three kinds.
\<close>

definition redir_kind :: "uint \<Rightarrow> int \<Rightarrow> bool" where
  "redir_kind mode fd \<longleftrightarrow> (mode = 0 \<and> fd = 0) \<or> (mode = O_WRONLY OR O_CREATE OR O_TRUNC \<and> fd = 1) \<or> (mode = O_WRONLY OR O_CREATE \<and> fd = 1)"

fun cmd_ok :: "uchar list \<Rightarrow> cmd \<Rightarrow> bool" where
  "cmd_ok buf (EXEC argv) = (length argv < MAXARGS \<and> (\<forall>(q, eq) \<in> set argv. word_at buf q eq))"
| "cmd_ok buf (REDIR c q eq mode fd) = (cmd_ok buf c \<and> word_at buf q eq \<and> redir_kind mode fd)"
| "cmd_ok buf (PIPE l r) = (cmd_ok buf l \<and> cmd_ok buf r)"
| "cmd_ok buf (LIST l r) = (cmd_ok buf l \<and> cmd_ok buf r)"
| "cmd_ok buf (BACK c) = cmd_ok buf c"

text \<open>The argument count of the \<^verbatim>\<open>execcmd\<close> below the redirections.\<close>

fun argc_of :: "cmd \<Rightarrow> nat" where
  "argc_of (EXEC argv) = length argv"
| "argc_of (REDIR c q eq mode fd) = argc_of c"
| "argc_of _ = 0"

fun is_exec :: "cmd \<Rightarrow> bool" where
  "is_exec (EXEC argv) = True"
| "is_exec (REDIR c q eq mode fd) = is_exec c"
| "is_exec _ = False"

lemma redir_cases:
  assumes "peek buf s0 [60, 62] = (s, True)" "gettoken buf s = (tok, q0, eq0, s1)"
  obtains mode fd where "redir_kind mode fd" "\<And>cmd q eq. redir tok cmd q eq = REDIR cmd q eq mode fd"
proof -
  have "at buf s = 60 \<or> at buf s = 62" "skip blank buf s = s"
    using assms(1) by (auto simp: peek_def Let_def skip_idem split: if_splits)
  then have "tok = 60 \<or> tok = 62 \<or> tok = 43"
    using assms(2) by (auto simp: gettoken_def Let_def split: if_splits)
  then show thesis using that unfolding redir_kind_def redir_def by (elim disjE) fastforce+
qed

lemma parseredirs_ok:
  "parseredirs cmd buf s0 = Inr (cmd', s') \<Longrightarrow> s0 \<le> length buf \<Longrightarrow> cmd_ok buf cmd \<Longrightarrow>
     cmd_ok buf cmd' \<and> s0 \<le> s' \<and> s' \<le> length buf \<and> argc_of cmd' = argc_of cmd
       \<and> is_exec cmd' = is_exec cmd"
proof (induction cmd buf s0 rule: parseredirs.induct)
  case (1 cmd buf s0)
  obtain s again where p: "peek buf s0 [60, 62] = (s, again)" by fastforce
  note b = peek_bounds[OF p 1(3)]
  show ?case
  proof (cases again)
    case False
    then show ?thesis using 1(2,4) p b by (simp add: parseredirs.simps[of cmd])
  next
    case True
    obtain tok q0 eq0 s1 where g: "gettoken buf s = (tok, q0, eq0, s1)" by (cases "gettoken buf s") auto
    obtain w q eq s2 where h: "gettoken buf s1 = (w, q, eq, s2)" by (cases "gettoken buf s1") auto
    note b1 = peek_gettoken[OF p[unfolded True[THEN eqTrueI]] g]
    have w: "w = 97" using 1(2) p True g h by (simp add: parseredirs.simps[of cmd] split: if_splits)
    note b2 = gettoken_bounds[OF h b1(2)]
    obtain mode fd where r: "redir_kind mode fd" "\<And>cmd q eq. redir tok cmd q eq = REDIR cmd q eq mode fd"
      using redir_cases[OF p[unfolded True[THEN eqTrueI]] g] by blast
    have "cmd_ok buf (redir tok cmd q eq)" using r 1(4) gettoken_word[OF h[unfolded w] b1(2)] by simp
    moreover have "parseredirs (redir tok cmd q eq) buf s2 = Inr (cmd', s')"
      using 1(2) p True g h w by (simp add: parseredirs.simps[of cmd])
    ultimately show ?thesis
      using "1.IH"[OF p[symmetric] _ g[symmetric] refl refl h[symmetric] refl refl] True w b b1 b2 r(2) by simp
  qed
qed

lemma add_arg_ok:
  "cmd_ok buf c \<Longrightarrow> word_at buf q eq \<Longrightarrow> argc_of c + 1 < MAXARGS \<Longrightarrow> cmd_ok buf (add_arg (q, eq) c)"
  by (induction c) auto

lemma argc_of_add: "is_exec c \<Longrightarrow> argc_of (add_arg a c) = argc_of c + 1" "is_exec (add_arg a c) = is_exec c"
  by (induction c) auto

lemma parseexec_loop_ok:
  "parseexec_loop argc ret buf s0 = Inr (cmd', s') \<Longrightarrow> s0 \<le> length buf \<Longrightarrow> cmd_ok buf ret \<Longrightarrow> is_exec ret \<Longrightarrow> argc_of ret = argc
     \<Longrightarrow> cmd_ok buf cmd' \<and> s0 \<le> s' \<and> s' \<le> length buf"
proof (induction argc ret buf s0 rule: parseexec_loop.induct)
  case (1 argc ret buf s0)
  obtain s stop where p: "peek buf s0 [124, 41, 38, 59] = (s, stop)" by fastforce
  obtain tok q eq s1 where g: "gettoken buf s = (tok, q, eq, s1)" by (cases "gettoken buf s") auto
  note b = peek_bounds[OF p 1(3)]
  have b1: "s \<le> s1" "s1 \<le> length buf" using gettoken_bounds[OF g] b by auto
  show ?case
  proof (cases "stop \<or> tok = 0")
    case True
    then show ?thesis using 1(2,4) p g b b1 by (auto simp: parseexec_loop.simps[of argc] split: if_splits prod.splits)
  next
    case False
    then have t: "tok = 97" "argc + 1 < MAXARGS"
      using 1(2) p g by (simp_all add: parseexec_loop.simps[of argc] split: if_splits)
    obtain ret2 s2 where r: "parseredirs (add_arg (q, eq) ret) buf s1 = Inr (ret2, s2)"
      "parseexec_loop (argc + 1) ret2 buf s2 = Inr (cmd', s')"
      using 1(2) p g False t by (auto simp: parseexec_loop.simps[of argc] split: sum.splits)
    have "cmd_ok buf (add_arg (q, eq) ret)"
      using add_arg_ok[OF 1(4) gettoken_word[OF g[unfolded t(1)]]] b 1(6) t(2) by simp
    note ok = parseredirs_ok[OF r(1) b1(2) this]
    have "cmd_ok buf cmd' \<and> s2 \<le> s' \<and> s' \<le> length buf"
      using "1.IH"[OF p[symmetric] _ g[symmetric] refl refl _ _ _ r(1) refl r(2)] False t ok 1(5,6)
      by (simp add: argc_of_add)
    with ok b b1 show ?thesis by auto
  qed
qed

lemma back_loop_ok:
  "back_loop cmd buf s0 = (cmd', s') \<Longrightarrow> s0 \<le> length buf \<Longrightarrow> cmd_ok buf cmd \<Longrightarrow> cmd_ok buf cmd' \<and> s0 \<le> s' \<and> s' \<le> length buf"
proof (induction cmd buf s0 rule: back_loop.induct)
  case (1 cmd buf s0)
  obtain s again where p: "peek buf s0 [38] = (s, again)" by fastforce
  obtain tok q eq s1 where g: "gettoken buf s = (tok, q, eq, s1)" by (cases "gettoken buf s") auto
  note b = peek_bounds[OF p 1(3)]
  show ?case
  proof (cases again)
    case False
    then show ?thesis using 1(2,4) p b by (simp add: back_loop.simps[of cmd])
  next
    case True
    have "back_loop (BACK cmd) buf s1 = (cmd', s')" using 1(2) p g True by (simp add: back_loop.simps[of cmd])
    with "1.IH"[OF p[symmetric] _ g[symmetric] refl refl] True 1(4) b peek_gettoken[OF p[unfolded True[THEN eqTrueI]] g]
    show ?thesis by simp
  qed
qed

lemma pbind_Inr: "pbind m f = Some (Inr y) \<longleftrightarrow> (\<exists>x. m = Some (Inr x) \<and> f x = Some (Inr y))"
  by (auto simp: pbind_def split: option.splits sum.splits)

lemma pbind_None: "pbind m f = None \<longleftrightarrow> m = None \<or> (\<exists>x. m = Some (Inr x) \<and> f x = None)"
  by (auto simp: pbind_def split: option.splits sum.splits)

lemma eat_after_peek: "peek buf s0 toks = (s, True) \<Longrightarrow> s0 < eat buf s \<and> eat buf s \<le> length buf"
  using peek_gettoken[of buf s0 toks s] peek_True[of buf s0 toks s] by (cases "gettoken buf s") (fastforce simp: eat_def)

text \<open>Every parser yields a command of the parser and moves forward.\<close>

lemma parse_ok:
  "parseline n buf s = Some (Inr (c, s')) \<Longrightarrow> s \<le> length buf \<Longrightarrow> cmd_ok buf c \<and> s \<le> s' \<and> s' \<le> length buf"
  "parsepipe n buf s = Some (Inr (c, s')) \<Longrightarrow> s \<le> length buf \<Longrightarrow> cmd_ok buf c \<and> s \<le> s' \<and> s' \<le> length buf"
  "parseblock n buf s = Some (Inr (c, s')) \<Longrightarrow> s \<le> length buf \<Longrightarrow> cmd_ok buf c \<and> s \<le> s' \<and> s' \<le> length buf"
  "parseexec n buf s = Some (Inr (c, s')) \<Longrightarrow> s \<le> length buf \<Longrightarrow> cmd_ok buf c \<and> s \<le> s' \<and> s' \<le> length buf"
proof (induction n arbitrary: s c s')
  case (Suc n)
  {
    case 1
    then obtain c1 s1 where p1: "parsepipe n buf s = Some (Inr (c1, s1))" by (auto simp: pbind_Inr)
    obtain c2 s2 where p2: "back_loop c1 buf s1 = (c2, s2)" by fastforce
    obtain s3 semi where p3: "peek buf s2 [59] = (s3, semi)" by fastforce
    note p = p1 p2 p3
    have k: "if semi then \<exists>r. parseline n buf (eat buf s3) = Some (Inr (r, s')) \<and> c = LIST c2 r else (c2, s3) = (c, s')"
      using 1(1) by (auto simp: pbind_Inr p)
    note i = Suc.IH(2)[OF p(1) 1(2)]
    then have i2: "cmd_ok buf c2" "s1 \<le> s2" "s2 \<le> length buf" using back_loop_ok[OF p(2)] by auto
    show ?case
    proof (cases semi)
      case True
      with k obtain r where "parseline n buf (eat buf s3) = Some (Inr (r, s'))" "c = LIST c2 r" by auto
      with Suc.IH(1)[of "eat buf s3" r s'] eat_after_peek[OF p(3)[unfolded True[THEN eqTrueI]]] i i2 show ?thesis by auto
    qed (use k i i2 peek_bounds[OF p(3)] in auto)
  next
    case 2
    then obtain c1 s1 where p1: "parseexec n buf s = Some (Inr (c1, s1))" by (auto simp: pbind_Inr)
    obtain s3 bar where p2: "peek buf s1 [124] = (s3, bar)" by fastforce
    note p = p1 p2
    have k: "if bar then \<exists>r. parsepipe n buf (eat buf s3) = Some (Inr (r, s')) \<and> c = PIPE c1 r else (c1, s3) = (c, s')"
      using 2(1) by (auto simp: pbind_Inr p)
    note i = Suc.IH(4)[OF p(1) 2(2)]
    show ?case
    proof (cases bar)
      case True
      with k obtain r where "parsepipe n buf (eat buf s3) = Some (Inr (r, s'))" "c = PIPE c1 r" by auto
      with Suc.IH(2)[of "eat buf s3" r s'] eat_after_peek[OF p(2)[unfolded True[THEN eqTrueI]]] i show ?thesis by auto
    qed (use k i peek_bounds[OF p(2)] in auto)
  next
    case 3
    obtain s1 op where o: "peek buf s [40] = (s1, op)" by fastforce
    with 3(1) obtain c2 s2 where l: "parseline n buf (eat buf s1) = Some (Inr (c2, s2))" by (auto simp: pbind_Inr split: if_splits)
    obtain s3 cl where cl: "peek buf s2 [41] = (s3, cl)" by fastforce
    have p: "peek buf s [40] = (s1, True)" "parseline n buf (eat buf s1) = Some (Inr (c2, s2))"
      "peek buf s2 [41] = (s3, True)" "parseredirs c2 buf (eat buf s3) = Inr (c, s')"
      using 3(1) o l cl by (auto simp: pbind_Inr split: if_splits)
    note e = eat_after_peek[OF p(1)]
    note i = Suc.IH(1)[OF p(2) e[THEN conjunct2]] and e3 = eat_after_peek[OF p(3)]
    show ?case using parseredirs_ok[OF p(4) e3[THEN conjunct2]] i e e3 by auto
  next
    case 4
    obtain s1 op where p: "peek buf s [40] = (s1, op)" by fastforce
    note b = peek_bounds[OF p 4(2)]
    show ?case
    proof (cases op)
      case True
      with 4(1) p Suc.IH(3)[of s1 c s'] b show ?thesis by simp
    next
      case False
      with 4(1) p obtain r s2 where q: "parseredirs (EXEC []) buf s1 = Inr (r, s2)" "parseexec_loop 0 r buf s2 = Inr (c, s')"
        by (auto split: sum.splits)
      have "s1 \<le> length buf" "cmd_ok buf (EXEC [])" using b by (auto simp: MAXARGS_def)
      note i = parseredirs_ok[OF q(1) this]
      with parseexec_loop_ok[OF q(2)] b show ?thesis by auto
    qed
  }
qed simp_all

text \<open>Fuel for the rest of the line, four for each byte.\<close>

lemma parse_returns:
  "s \<le> length buf \<Longrightarrow> 4 * (length buf - s) + 4 \<le> n \<Longrightarrow> parseline n buf s \<noteq> None"
  "s \<le> length buf \<Longrightarrow> 4 * (length buf - s) + 3 \<le> n \<Longrightarrow> parsepipe n buf s \<noteq> None"
  "s \<le> length buf \<Longrightarrow> 4 * (length buf - s) + 1 \<le> n \<Longrightarrow> parseblock n buf s \<noteq> None"
  "s \<le> length buf \<Longrightarrow> 4 * (length buf - s) + 2 \<le> n \<Longrightarrow> parseexec n buf s \<noteq> None"
proof (induction n arbitrary: s)
  case (Suc n)
  {
    case 1
    have "parsepipe n buf s \<noteq> None" using 1 by (intro Suc.IH(2)) auto
    moreover have "parseline n buf (eat buf s3) \<noteq> None"
      if p: "parsepipe n buf s = Some (Inr (c1, s1))" "back_loop c1 buf s1 = (c2, s2)" "peek buf s2 [59] = (s3, True)" for c1 s1 c2 s2 s3
      using parse_ok(2)[OF p(1) 1(1)] back_loop_ok[OF p(2)] eat_after_peek[OF p(3)] 1 by (intro Suc.IH(1)) auto
    ultimately show ?case by (auto simp: pbind_None simp del: not_None_eq split: prod.splits if_splits)
  next
    case 2
    have "parseexec n buf s \<noteq> None" using 2 by (intro Suc.IH(4)) auto
    moreover have "parsepipe n buf (eat buf s3) \<noteq> None"
      if p: "parseexec n buf s = Some (Inr (c1, s1))" "peek buf s1 [124] = (s3, True)" for c1 s1 s3
      using parse_ok(4)[OF p(1) 2(1)] eat_after_peek[OF p(2)] 2 by (intro Suc.IH(2)) auto
    ultimately show ?case by (auto simp: pbind_None simp del: not_None_eq split: prod.splits if_splits)
  next
    case 3
    have "parseline n buf (eat buf s1) \<noteq> None" if "peek buf s [40] = (s1, True)" for s1
      using eat_after_peek[OF that] 3 by (intro Suc.IH(1)) auto
    then show ?case by (auto simp: pbind_None simp del: not_None_eq split: prod.splits if_splits)
  next
    case 4
    have "parseblock n buf s1 \<noteq> None" if "peek buf s [40] = (s1, op)" for s1 op
      using peek_bounds[OF that] 4 by (intro Suc.IH(3)) auto
    then show ?case by (auto simp del: not_None_eq split: prod.splits sum.splits if_splits)
  }
qed simp_all

subsection \<open>The strings of a parsed command\<close>

text \<open>The positions where \<^verbatim>\<open>nulterminate\<close> writes, and the words of a command.\<close>

fun cmd_words :: "cmd \<Rightarrow> (nat \<times> nat) set" where
  "cmd_words (EXEC argv) = set argv"
| "cmd_words (REDIR c q eq mode fd) = insert (q, eq) (cmd_words c)"
| "cmd_words (PIPE l r) = cmd_words l \<union> cmd_words r"
| "cmd_words (LIST l r) = cmd_words l \<union> cmd_words r"
| "cmd_words (BACK c) = cmd_words c"

lemma words_ok: "cmd_ok buf c \<Longrightarrow> (q, eq) \<in> cmd_words c \<Longrightarrow> word_at buf q eq"
  by (induction c) auto

lemma nth_write: "i < length xs \<Longrightarrow> xs[j := x] ! i = (if j = i then x else xs ! i)"
  by (cases "j = i") auto

lemma nulterminate_foldl:
  "length (foldl (\<lambda>line a. line[snd a := 0]) line argv) = length line
   \<and> (\<forall>i < length line. foldl (\<lambda>line a. line[snd a := 0]) line argv ! i = (if \<exists>q. (q, i) \<in> set argv then 0 else line ! i))"
proof (induction argv rule: rev_induct)
  case (snoc a argv)
  then show ?case by (cases a) (auto simp: nth_write)
qed simp

lemma nulterminate_nth:
  "length (nulterminate c line) = length line
   \<and> (\<forall>i < length line. nulterminate c line ! i = (if \<exists>q. (q, i) \<in> cmd_words c then 0 else line ! i))"
proof (induction c arbitrary: line)
  case (EXEC argv)
  show ?case using nulterminate_foldl[of line argv] by simp
qed (auto simp: nth_write)

text \<open>The C string at a position.\<close>

definition cstring_at :: "uchar list \<Rightarrow> nat \<Rightarrow> uchar list" where
  "cstring_at line q = takeWhile (\<lambda>c. c \<noteq> 0) (drop q line)"

lemma cstring_atI:
  assumes "q \<le> eq" "eq < length line" "line ! eq = 0" "\<And>i. q \<le> i \<Longrightarrow> i < eq \<Longrightarrow> line ! i \<noteq> 0"
  shows "cstring_at line q = take (eq - q) (drop q line)"
  unfolding cstring_at_def by (rule takeWhile_eq_take_P_nth) (use assms in auto)

lemma nul_no_blank: "\<not> blank 0" "\<not> symbol 0"
  by (simp_all add: blank_def whitespace_def symbol_def symbols_def)

text \<open>C25. The parser of the shell always returns.  Whatever bytes the line holds, the recursive descent with its four
  mutually recursive functions and its loops ends, with a command or with one of the messages of \<^verbatim>\<open>panic\<close>: fuel of four steps
  for each byte and four more is enough, because every recursive call has consumed a token.\<close>

theorem parsecmd_returns: "\<exists>r. parsecmd line = Some r"
proof -
  let ?buf = "takeWhile (\<lambda>c. c \<noteq> 0) line"
  have "parseline (4 * length ?buf + 4) ?buf 0 \<noteq> None" using parse_returns(1)[of 0 ?buf] by simp
  then show ?thesis
    unfolding parsecmd_def Let_def
    by (cases "parseline (4 * length ?buf + 4) ?buf 0") (auto simp: pbind_def split: sum.splits prod.splits)
qed

text \<open>C26. A parsed command is well formed and its words are C strings in the line.  When \<^verbatim>\<open>parsecmd\<close> succeeds on a line that
  ends in a NUL, every argument vector fits into the array of ten with its terminator, every redirection has the mode and
  descriptor of one of the three operators, every argument and file name is a non-empty maximal run of bytes that are neither blanks nor
  symbols, and after \<^verbatim>\<open>nulterminate\<close> the bytes from its first one are exactly that run with a NUL behind: no terminator
  falls into another word.\<close>

theorem parsecmd_words:
  assumes "parsecmd line = Some (Inr (c, line'))" "0 \<in> set line"
  shows "cmd_ok (takeWhile (\<lambda>c. c \<noteq> 0) line) c
    \<and> (\<forall>(q, eq) \<in> cmd_words c. q < eq \<and> cstring_at line' q = take (eq - q) (drop q line))"
proof -
  let ?buf = "takeWhile (\<lambda>c. c \<noteq> 0) line"
  obtain c1 s where p: "parseline (4 * length ?buf + 4) ?buf 0 = Some (Inr (c1, s))"
    using assms(1) by (auto simp: parsecmd_def Let_def pbind_Inr)
  obtain s1 b where pk: "peek ?buf s [] = (s1, b)" by fastforce
  have cl: "c1 = c" "line' = nulterminate c line"
    using assms(1) p pk by (auto simp: parsecmd_def Let_def pbind_def split: if_splits)
  have ok: "cmd_ok ?buf c" using parse_ok(1)[OF p] cl by simp
  have "?buf \<noteq> line" using assms(2) set_takeWhileD[of 0 "\<lambda>c. c \<noteq> 0" line] by auto
  then have len: "length ?buf < length line"
    using length_takeWhile_le[of "\<lambda>c. c \<noteq> 0" line] takeWhile_eq_take[of "\<lambda>c. c \<noteq> 0" line] by (metis le_neq_implies_less take_all_iff order_refl)
  have nth: "line ! i = ?buf ! i \<and> line ! i \<noteq> 0" if "i < length ?buf" for i
    using takeWhile_nth[OF that] nth_mem[OF that] set_takeWhileD[of "?buf ! i"] by auto
  have "q < eq \<and> cstring_at line' q = take (eq - q) (drop q line)" if w: "(q, eq) \<in> cmd_words c" for q eq
  proof -
    note wa = words_ok[OF ok w, unfolded word_at_def]
    have keep: "line' ! i = line ! i \<and> line ! i \<noteq> 0" if i: "q \<le> i" "i < eq" for i
    proof -
      have "\<nexists>q. (q, i) \<in> cmd_words c"
      proof
        assume "\<exists>q. (q, i) \<in> cmd_words c"
        then obtain q' where "(q', i) \<in> cmd_words c" by blast
        from words_ok[OF ok this, unfolded word_at_def] wa i show False by auto
      qed
      then have "line' ! i = line ! i" using wa i len nulterminate_nth[of c line] by (simp add: cl)
      moreover have "line ! i \<noteq> 0" using nth[of i] wa i by linarith
      ultimately show ?thesis by simp
    qed
    have e: "line' ! eq = 0" "eq < length line'" "length line' = length line"
      using w wa len nulterminate_nth[of c line] by (force simp: cl)+
    then have "cstring_at line' q = take (eq - q) (drop q line')" using wa keep by (intro cstring_atI) auto
    also have "\<dots> = take (eq - q) (drop q line)" using wa keep e by (intro nth_equalityI) auto
    finally show ?thesis using wa by simp
  qed
  with ok show ?thesis by blast
qed

text \<open>The line \<^verbatim>\<open>a>b\<close>.\<close>

theorem parsecmd_words_witness:
  "parsecmd [97, 62, 98, 10, 0]
     = Some (Inr (REDIR (EXEC [(0, 1)]) 2 3 (O_WRONLY OR O_CREATE OR O_TRUNC) 1, [97, 0, 98, 0, 0]))
   \<and> cstring_at [97, 0, 98, 0, 0] 0 = [97] \<and> cstring_at [97, 0, 98, 0, 0] 2 = [98]"
proof -
  have l: "parsecmd [97, 62, 98, 10, 0]
     = Some (Inr (REDIR (EXEC [(0, 1)]) 2 3 (O_WRONLY OR O_CREATE OR O_TRUNC) 1, [97, 0, 98, 0, 0]))" by code_simp
  from parsecmd_words[OF l] have "cstring_at [97, 0, 98, 0, 0] 0 = [97] \<and> cstring_at [97, 0, 98, 0, 0] 2 = [98]" by simp
  with l show ?thesis by blast
qed

end
