(* ===== verification/ShellGrammar.thy ===== *)
theory ShellGrammar
  imports Shell
begin

text \<open>
  The grammar of the shell's command lines: how a command is written as a sequence of tokens, with parentheses where they are
  needed, and that the parser of \<open>Shell\<close> reads the command back.
\<close>

subsection \<open>Lines as token sequences\<close>

datatype token = Sym uchar | Wd nat nat

text \<open>The bytes from position \<open>s\<close> to the end of the line are these tokens.\<close>

fun lexes :: "uchar list \<Rightarrow> nat \<Rightarrow> token list \<Rightarrow> bool" where
  "lexes buf s [] = (skip blank buf s = length buf)"
| "lexes buf s (t # ts) =
     (case gettoken buf s of (k, q, eq, s1) \<Rightarrow>
        k \<noteq> 0 \<and> t = (if k = 97 then Wd q eq else Sym k) \<and> lexes buf s1 ts)"

text \<open>The token sequence begins with one of the symbols, or is at its end.\<close>

fun starts :: "uchar list \<Rightarrow> token list \<Rightarrow> bool" where
  "starts ks (Sym k # ts) = (k \<in> set ks)"
| "starts ks _ = False"

abbreviation ends :: "uchar list \<Rightarrow> token list \<Rightarrow> bool" where
  "ends ks ts \<equiv> ts = [] \<or> starts ks ts"

lemma strchr_mem: "0 \<notin> set ks \<Longrightarrow> strchr ks c \<noteq> None \<longleftrightarrow> c \<in> set ks"
  by (induction ks) auto

lemma lexes_skip: "lexes buf (skip blank buf s) ts = lexes buf s ts"
  by (cases ts) (simp_all add: skip_idem gettoken_skip)

lemma lexes_eat: "lexes buf s (t # ts) \<Longrightarrow> s \<le> length buf \<Longrightarrow> lexes buf (eat buf s) ts \<and> eat buf s \<le> length buf"
  using gettoken_bounds[of buf s] by (auto simp: eat_def split: prod.splits)

text \<open>What \<^verbatim>\<open>peek\<close> answers on a token sequence; the token of two greater signs begins with one.\<close>

lemma lexes_peek:
  assumes "lexes buf s ts" "s \<le> length buf" "set ks \<subseteq> set symbols" "62 \<in> set ks \<longrightarrow> 43 \<in> set ks'" "set ks' - {43} = set ks" "43 \<in> set ks' \<longrightarrow> 62 \<in> set ks"
  shows "snd (peek buf s ks) = starts ks' ts" "lexes buf (fst (peek buf s ks)) ts" "fst (peek buf s ks) \<le> length buf"
proof -
  let ?s = "skip blank buf s"
  have z: "0 \<notin> set ks" using assms(3) by (auto simp: symbols_def)
  show "lexes buf (fst (peek buf s ks)) ts" using assms(1) by (simp add: peek_def Let_def lexes_skip)
  show "fst (peek buf s ks) \<le> length buf" using skip_bounds[of s blank buf] assms(2) by (simp add: peek_def Let_def)
  show "snd (peek buf s ks) = starts ks' ts"
  proof (cases ts)
    case Nil
    with assms(1) show ?thesis by (simp add: peek_def Let_def at_def)
  next
    case (Cons t ts')
    have c: "\<not> blank (at buf ?s)" "at buf ?s \<noteq> 0"
      using assms(1) Cons skip_stops[of blank buf s] nul_no_blank(1)
      by (auto simp: gettoken_def Let_def at_def split: if_splits)
    have m: "snd (peek buf s ks) \<longleftrightarrow> at buf ?s \<in> set ks" using c(2) strchr_mem[OF z] by (simp add: peek_def Let_def)
    show ?thesis
    proof (cases "symbol (at buf ?s)")
      case False
      then have "t = Wd ?s (skip (\<lambda>c. \<not> blank c \<and> \<not> symbol c) buf ?s)"
        using assms(1) Cons c(2) by (auto simp: gettoken_def Let_def symbol_set split: if_splits)
      moreover have "at buf ?s \<notin> set ks" using False assms(3) by (auto simp: symbol_set symbols_def)
      ultimately show ?thesis using m Cons by simp
    next
      case True
      then have "t = (if at buf ?s = 62 \<and> at buf (?s + 1) = 62 then Sym 43 else Sym (at buf ?s))"
        using assms(1) Cons by (auto simp: gettoken_def Let_def symbol_set split: if_splits)
      moreover have "at buf ?s \<noteq> 43" using True by (auto simp: symbol_set)
      ultimately show ?thesis using m Cons assms(4-6) by auto
    qed
  qed
qed

lemma peek_plain:
  assumes "lexes buf s ts" "s \<le> length buf" "set ks \<subseteq> {124, 38, 59, 40, 41}"
  obtains s1 where "peek buf s ks = (s1, starts ks ts)" "lexes buf s1 ts" "s1 \<le> length buf"
proof -
  have k: "set ks \<subseteq> set symbols" "62 \<notin> set ks" "43 \<notin> set ks" using assms(3) by (auto simp: symbols_def)
  have "62 \<in> set ks \<longrightarrow> 43 \<in> set ks" "set ks - {43} = set ks" "43 \<in> set ks \<longrightarrow> 62 \<in> set ks" using k by auto
  note l = lexes_peek[OF assms(1,2) k(1) this]
  show thesis by (rule that[OF _ l(2,3)]) (simp add: prod_eq_iff l(1))
qed

lemma peek_angle:
  assumes "lexes buf s ts" "s \<le> length buf"
  obtains s1 where "peek buf s [60, 62] = (s1, starts [60, 62, 43] ts)" "lexes buf s1 ts" "s1 \<le> length buf"
proof -
  have k: "set [60, 62] \<subseteq> set symbols" "set [60, 62, 43] - {43 :: uchar} = set [60, 62]" by (auto simp: symbols_def)
  have "62 \<in> set [60, 62] \<longrightarrow> 43 \<in> set [60, 62, 43 :: uchar]" "43 \<in> set [60, 62, 43] \<longrightarrow> 62 \<in> set [60, 62 :: uchar]" by auto
  note l = lexes_peek[OF assms k(1) this(1) k(2) this(2)]
  show thesis by (rule that[OF _ l(2,3)]) (simp add: prod_eq_iff l(1))
qed

subsection \<open>The loops on token sequences\<close>

definition redir_toks :: "(uchar \<times> nat \<times> nat) list \<Rightarrow> token list" where
  "redir_toks rs = concat (map (\<lambda>(k, q, eq). [Sym k, Wd q eq]) rs)"

definition wrap :: "(uchar \<times> nat \<times> nat) list \<Rightarrow> cmd \<Rightarrow> cmd" where
  "wrap rs c = foldl (\<lambda>c (k, q, eq). redir k c q eq) c rs"

definition angles :: "(uchar \<times> nat \<times> nat) list \<Rightarrow> bool" where
  "angles rs \<longleftrightarrow> (\<forall>(k, q, eq) \<in> set rs. k \<in> {60, 62, 43})"

lemma lexes_Wd: "lexes buf s (Wd q eq # ts) \<Longrightarrow> \<exists>s1. gettoken buf s = (97, q, eq, s1) \<and> lexes buf s1 ts"
  by (auto split: prod.splits if_splits)

lemma lexes_Sym: "lexes buf s (Sym k # ts) \<Longrightarrow> \<exists>q eq s1. gettoken buf s = (k, q, eq, s1) \<and> lexes buf s1 ts"
  by (auto split: prod.splits if_splits)

declare lexes.simps [simp del]

lemma starts_other: "ends ks ts \<Longrightarrow> set ks \<inter> set ks' = {} \<Longrightarrow> \<not> starts ks' ts"
  by (cases "(ks', ts)" rule: starts.cases) auto

lemma parseredirs_lexes:
  assumes "lexes buf s (redir_toks rs @ rest)" "s \<le> length buf" "angles rs" "\<not> starts [60, 62, 43] rest"
  shows "\<exists>s1. parseredirs c buf s = Inr (wrap rs c, s1) \<and> lexes buf s1 rest \<and> s1 \<le> length buf"
  using assms
proof (induction rs arbitrary: c s)
  case Nil
  then obtain s1 where "peek buf s [60, 62] = (s1, starts [60, 62, 43] rest)" "lexes buf s1 rest" "s1 \<le> length buf"
    using peek_angle[of buf s rest] by (auto simp: redir_toks_def)
  with Nil(4) show ?case by (simp add: parseredirs.simps[of c buf s] wrap_def)
next
  case (Cons r rs)
  obtain k q eq where r: "r = (k, q, eq)" by (cases r)
  have l: "lexes buf s (Sym k # Wd q eq # redir_toks rs @ rest)" using Cons.prems(1) by (simp add: r redir_toks_def)
  have k: "starts [60, 62, 43] (Sym k # Wd q eq # redir_toks rs @ rest)" using Cons.prems(3) by (simp add: r angles_def)
  obtain s1 where s1: "peek buf s [60, 62] = (s1, True)" "lexes buf s1 (Sym k # Wd q eq # redir_toks rs @ rest)" "s1 \<le> length buf"
    using peek_angle[OF l Cons.prems(2)] k by metis
  obtain q1 eq1 s2 where s2: "gettoken buf s1 = (k, q1, eq1, s2)" "lexes buf s2 (Wd q eq # redir_toks rs @ rest)"
    using lexes_Sym[OF s1(2)] by blast
  obtain s3 where s3: "gettoken buf s2 = (97, q, eq, s3)" "lexes buf s3 (redir_toks rs @ rest)" using lexes_Wd[OF s2(2)] by blast
  have b: "s3 \<le> length buf" using gettoken_bounds[OF s2(1) s1(3)] gettoken_bounds[OF s3(1)] by simp
  have "parseredirs c buf s = parseredirs (redir k c q eq) buf s3"
    using s1(1) s2(1) s3(1) by (simp add: parseredirs.simps[of c buf s])
  then show ?case using Cons.IH[OF s3(2) b] Cons.prems(3,4) by (simp add: r wrap_def angles_def)
qed

lemma set_bars: "set [124, 41, 38, 59] \<subseteq> {124, 38, 59, 40, 41 :: uchar}"
  by simp

lemma parseexec_lexes:
  assumes "lexes buf s (map (\<lambda>(q, eq). Wd q eq) args @ redir_toks rs @ rest)" "s \<le> length buf" "angles rs"
    "ends [124, 41, 38, 59] rest" "argc + length args < MAXARGS"
  shows "\<exists>s1. (case parseredirs c buf s of Inl e \<Rightarrow> Inl e | Inr (c, s) \<Rightarrow> parseexec_loop argc c buf s)
      = Inr (wrap rs (foldl (\<lambda>c a. add_arg a c) c args), s1) \<and> lexes buf s1 rest \<and> s1 \<le> length buf"
  using assms
proof (induction args arbitrary: c s argc)
  case Nil
  have ns: "\<not> starts [60, 62, 43] rest" using starts_other[OF Nil(4)] by simp
  obtain s1 where s1: "parseredirs c buf s = Inr (wrap rs c, s1)" "lexes buf s1 rest" "s1 \<le> length buf"
    using parseredirs_lexes[OF _ Nil(2,3) ns] Nil(1) by auto
  obtain s2 where s2: "peek buf s1 [124, 41, 38, 59] = (s2, starts [124, 41, 38, 59] rest)" "lexes buf s2 rest" "s2 \<le> length buf"
    using peek_plain[OF s1(2,3), of "[124, 41, 38, 59]"] by (metis set_bars)
  obtain k q eq s3 where g: "gettoken buf s2 = (k, q, eq, s3)" by (cases "gettoken buf s2") auto
  have e: "k = 0 \<and> lexes buf s3 []" if "rest = []"
    using s2(2) g that skip_idem[of blank buf s2] by (auto simp: lexes.simps gettoken_def Let_def at_def split: if_splits)
  show ?case
  proof (cases "rest = []")
    case True
    with e s1(1) s2 g gettoken_bounds[OF g s2(3)] show ?thesis by (simp add: parseexec_loop.simps[of argc])
  next
    case False
    with Nil(4) s1(1) s2 show ?thesis by (simp add: parseexec_loop.simps[of argc])
  qed
next
  case (Cons a args)
  obtain q eq where a: "a = (q, eq)" by (cases a)
  let ?ts = "map (\<lambda>(q, eq). Wd q eq) args @ redir_toks rs @ rest"
  have l: "lexes buf s (redir_toks [] @ Wd q eq # ?ts)" using Cons.prems(1) by (simp add: a redir_toks_def)
  obtain s1 where s1: "parseredirs c buf s = Inr (c, s1)" "lexes buf s1 (Wd q eq # ?ts)" "s1 \<le> length buf"
    using parseredirs_lexes[OF l Cons.prems(2)] by (auto simp: angles_def wrap_def)
  obtain s2 where s2: "peek buf s1 [124, 41, 38, 59] = (s2, False)" "lexes buf s2 (Wd q eq # ?ts)" "s2 \<le> length buf"
    using peek_plain[OF s1(2,3), of "[124, 41, 38, 59]"] by (metis set_bars starts.simps(3))
  obtain s3 where s3: "gettoken buf s2 = (97, q, eq, s3)" "lexes buf s3 ?ts" using lexes_Wd[OF s2(2)] by blast
  have "s3 \<le> length buf" using gettoken_bounds[OF s3(1) s2(3)] by simp
  from Cons.IH[OF s3(2) this Cons.prems(3,4), of "argc + 1" "add_arg a c"] Cons.prems(5) s1(1) s2(1) s3(1)
  show ?case by (simp add: parseexec_loop.simps[of argc] a)
qed

subsection \<open>The parsers on token sequences\<close>

text \<open>
  A parser reads the command off the tokens: when it returns, it returns the command and stands before the rest.  The four
  predicates below say this of \<^verbatim>\<open>parseexec\<close> (with redirections behind the tokens), \<^verbatim>\<open>parsepipe\<close>, the start of \<^verbatim>\<open>parseline\<close> up to
  its loop over ampersands, and \<^verbatim>\<open>parseline\<close>.
\<close>

definition yields :: "(nat \<Rightarrow> uchar list \<Rightarrow> nat \<Rightarrow> (string + cmd \<times> nat) option) \<Rightarrow> uchar list \<Rightarrow> nat \<Rightarrow> cmd \<Rightarrow> token list \<Rightarrow> bool" where
  "yields p buf s c rest \<longleftrightarrow>
     (\<exists>s1. s1 \<le> length buf \<and> lexes buf s1 rest \<and> (\<forall>n r. p n buf s = Some r \<longrightarrow> r = Inr (c, s1)))"

definition reads_exec :: "uchar list \<Rightarrow> cmd \<Rightarrow> token list \<Rightarrow> bool" where
  "reads_exec buf c ts \<longleftrightarrow> (\<forall>rs rest s. s \<le> length buf \<and> lexes buf s (ts @ redir_toks rs @ rest) \<and> angles rs
     \<and> ends [124, 41, 38, 59] rest \<longrightarrow> yields parseexec buf s (wrap rs c) rest)"

definition reads_pipe :: "uchar list \<Rightarrow> cmd \<Rightarrow> token list \<Rightarrow> bool" where
  "reads_pipe buf c ts \<longleftrightarrow> (\<forall>rest s. s \<le> length buf \<and> lexes buf s (ts @ rest) \<and> ends [41, 38, 59] rest
     \<longrightarrow> yields parsepipe buf s c rest)"

definition reads_back :: "uchar list \<Rightarrow> cmd \<Rightarrow> token list \<Rightarrow> bool" where
  "reads_back buf c ts \<longleftrightarrow> (\<forall>rest s. s \<le> length buf \<and> lexes buf s (ts @ rest) \<and> ends [41, 38, 59] rest
     \<longrightarrow> (\<exists>c0 s0 s1. s1 \<le> length buf \<and> lexes buf s1 rest \<and> (\<forall>n r. parsepipe n buf s = Some r \<longrightarrow> r = Inr (c0, s0))
            \<and> back_loop c0 buf s0 = back_loop c buf s1))"

definition reads_line :: "uchar list \<Rightarrow> cmd \<Rightarrow> token list \<Rightarrow> bool" where
  "reads_line buf c ts \<longleftrightarrow> (\<forall>rest s. s \<le> length buf \<and> lexes buf s (ts @ rest) \<and> ends [41] rest
     \<longrightarrow> yields parseline buf s c rest)"

lemma pbind_SomeI:
  "pbind m f = Some r \<Longrightarrow> (\<And>r'. m = Some r' \<Longrightarrow> r' = Inr x) \<Longrightarrow> f x = Some r"
  by (cases m) (auto simp: pbind_def)

lemma ends_mono: "ends ks ts \<Longrightarrow> set ks \<subseteq> set ks' \<Longrightarrow> ends ks' ts"
  by (cases "(ks, ts)" rule: starts.cases) auto

lemma exec_pipe:
  assumes "reads_exec buf c ts"
  shows "reads_pipe buf c ts"
  unfolding reads_pipe_def
proof (intro allI impI, elim conjE)
  fix rest s
  assume s: "s \<le> length buf" and l: "lexes buf s (ts @ rest)" and e: "ends [41, 38, 59] rest"
  have "ends [124, 41, 38, 59] rest" "lexes buf s (ts @ redir_toks [] @ rest)" "angles []"
    using ends_mono[OF e] l by (simp_all add: redir_toks_def angles_def)
  then have "yields parseexec buf s (wrap [] c) rest" using assms s unfolding reads_exec_def by blast
  then obtain s1 where s1: "s1 \<le> length buf" "lexes buf s1 rest" "\<And>n r. parseexec n buf s = Some r \<Longrightarrow> r = Inr (c, s1)"
    unfolding yields_def wrap_def by auto
  have ns: "\<not> starts [124] rest" using starts_other[OF e] by simp
  obtain s2 where s2: "peek buf s1 [124] = (s2, False)" "lexes buf s2 rest" "s2 \<le> length buf"
    using peek_plain[OF s1(2,1), of "[124]"] ns by auto
  have "r = Inr (c, s2)" if "parsepipe n buf s = Some r" for n r
  proof (cases n)
    case (Suc m)
    from pbind_SomeI[OF that[unfolded Suc parsepipe.simps] s1(3)] s2(1) show ?thesis by simp
  qed (use that in simp)
  with s2 show "yields parsepipe buf s c rest" unfolding yields_def by blast
qed

lemma pipe_back: "reads_pipe buf c ts \<Longrightarrow> reads_back buf c ts"
  unfolding reads_pipe_def reads_back_def yields_def by blast

lemma back_line:
  assumes "reads_back buf c ts"
  shows "reads_line buf c ts"
  unfolding reads_line_def
proof (intro allI impI, elim conjE)
  fix rest s
  assume s: "s \<le> length buf" and l: "lexes buf s (ts @ rest)" and e: "ends [41] rest"
  have e3: "ends [41, 38, 59] rest" using ends_mono[OF e] by simp
  obtain c0 s0 s1 where s1: "s1 \<le> length buf" "lexes buf s1 rest" "\<And>n r. parsepipe n buf s = Some r \<Longrightarrow> r = Inr (c0, s0)"
    "back_loop c0 buf s0 = back_loop c buf s1"
    using assms[unfolded reads_back_def, rule_format, OF conjI[OF s conjI[OF l e3]]] by metis
  have ns: "\<not> starts [38] rest" "\<not> starts [59] rest" using starts_other[OF e] by simp_all
  obtain s2 where s2: "peek buf s1 [38] = (s2, False)" "lexes buf s2 rest" "s2 \<le> length buf"
    using peek_plain[OF s1(2,1), of "[38]"] ns by auto
  obtain s3 where s3: "peek buf s2 [59] = (s3, False)" "lexes buf s3 rest" "s3 \<le> length buf"
    using peek_plain[OF s2(2,3), of "[59]"] ns by auto
  have b: "back_loop c0 buf s0 = (c, s2)" using s1(4) s2(1) by (simp add: back_loop.simps[of c])
  have "r = Inr (c, s3)" if "parseline n buf s = Some r" for n r
  proof (cases n)
    case (Suc m)
    from pbind_SomeI[OF that[unfolded Suc parseline.simps] s1(3)] b s3(1) show ?thesis by simp
  qed (use that in simp)
  with s3 show "yields parseline buf s c rest" unfolding yields_def by blast
qed

lemma line_block:
  assumes "reads_line buf c ts"
  shows "reads_exec buf c (Sym 40 # ts @ [Sym 41])"
  unfolding reads_exec_def
proof (intro allI impI, elim conjE)
  fix rs rest s
  let ?ts = "Sym 41 # redir_toks rs @ rest"
  assume s: "s \<le> length buf" and "lexes buf s ((Sym 40 # ts @ [Sym 41]) @ redir_toks rs @ rest)" and a: "angles rs"
    and e: "ends [124, 41, 38, 59] rest"
  then have l: "lexes buf s (Sym 40 # ts @ ?ts)" by simp
  obtain s1 where s1: "peek buf s [40] = (s1, True)" "lexes buf s1 (Sym 40 # ts @ ?ts)" "s1 \<le> length buf"
    using peek_plain[OF l s, of "[40]"] by auto
  obtain s2 where s2: "peek buf s1 [40] = (s2, True)" "lexes buf s2 (Sym 40 # ts @ ?ts)" "s2 \<le> length buf"
    using peek_plain[OF s1(2,3), of "[40]"] by auto
  note s3 = lexes_eat[OF s2(2,3)]
  have "yields parseline buf (eat buf s2) c ?ts" using assms s3 unfolding reads_line_def by auto
  then obtain s4 where s4: "s4 \<le> length buf" "lexes buf s4 ?ts" "\<And>n r. parseline n buf (eat buf s2) = Some r \<Longrightarrow> r = Inr (c, s4)"
    unfolding yields_def by blast
  obtain s5 where s5: "peek buf s4 [41] = (s5, True)" "lexes buf s5 ?ts" "s5 \<le> length buf"
    using peek_plain[OF s4(2,1), of "[41]"] by auto
  note s6 = lexes_eat[OF s5(2,3)]
  have "\<not> starts [60, 62, 43] rest" using starts_other[OF e] by simp
  then obtain s7 where s7: "parseredirs c buf (eat buf s5) = Inr (wrap rs c, s7)" "lexes buf s7 rest" "s7 \<le> length buf"
    using parseredirs_lexes[OF _ _ a] s6 by blast
  have block: "r = Inr (wrap rs c, s7)" if "parseblock n buf s1 = Some r" for n r
  proof (cases n)
    case (Suc m)
    have "pbind (parseline m buf (eat buf s2)) (\<lambda>(cmd, s). case peek buf s [41] of (s, close) \<Rightarrow>
        if \<not> close then Some (Inl ''syntax - missing )'') else Some (parseredirs cmd buf (eat buf s))) = Some r"
      using that s2(1) by (simp add: Suc)
    from pbind_SomeI[OF this s4(3)] s5(1) s7(1) show ?thesis by simp
  qed (use that in simp)
  have "r = Inr (wrap rs c, s7)" if "parseexec n buf s = Some r" for n r
    using that s1(1) block by (cases n) auto
  with s7 show "yields parseexec buf s (wrap rs c) rest" unfolding yields_def by blast
qed

text \<open>The rules of the grammar.\<close>

lemma exec_words:
  assumes "length args < MAXARGS"
  shows "reads_exec buf (EXEC args) (map (\<lambda>(q, eq). Wd q eq) args)"
  unfolding reads_exec_def
proof (intro allI impI, elim conjE)
  fix rs rest s
  let ?ts = "map (\<lambda>(q, eq). Wd q eq) args @ redir_toks rs @ rest"
  assume s: "s \<le> length buf" and l: "lexes buf s ?ts" and a: "angles rs" and e: "ends [124, 41, 38, 59] rest"
  have "\<not> starts [40] rest" using starts_other[OF e] by simp
  then have "\<not> starts [40] (redir_toks rs @ rest)"
    using a by (cases rs) (auto simp: redir_toks_def angles_def)
  then have ns: "\<not> starts [40] ?ts" by (cases args) auto
  obtain s1 where s1: "peek buf s [40] = (s1, False)" "lexes buf s1 ?ts" "s1 \<le> length buf"
    using peek_plain[OF l s, of "[40]"] ns by auto
  have add: "foldl (\<lambda>c a. add_arg a c) (EXEC xs) args = EXEC (xs @ args)" for xs by (induction args arbitrary: xs) auto
  obtain s2 where s2: "(case parseredirs (EXEC []) buf s1 of Inl e \<Rightarrow> Inl e | Inr (c, s) \<Rightarrow> parseexec_loop 0 c buf s)
      = Inr (wrap rs (EXEC args), s2)" "lexes buf s2 rest" "s2 \<le> length buf"
    using parseexec_lexes[OF s1(2,3) a e, of 0 "EXEC []"] assms by (auto simp: add)
  have "r = Inr (wrap rs (EXEC args), s2)" if "parseexec n buf s = Some r" for n r
    using that s1(1) s2(1) by (cases n) (auto split: sum.splits)
  with s2 show "yields parseexec buf s (wrap rs (EXEC args)) rest" unfolding yields_def by blast
qed

lemma exec_redir:
  assumes "reads_exec buf c ts" "k \<in> {60, 62, 43}"
  shows "reads_exec buf (redir k c q eq) (ts @ [Sym k, Wd q eq])"
  unfolding reads_exec_def
proof (intro allI impI, elim conjE)
  fix rs rest s
  assume s: "s \<le> length buf" and l: "lexes buf s ((ts @ [Sym k, Wd q eq]) @ redir_toks rs @ rest)" and a: "angles rs"
    and e: "ends [124, 41, 38, 59] rest"
  let ?rs = "(k, q, eq) # rs"
  have "lexes buf s (ts @ redir_toks ?rs @ rest)" "angles ?rs" "wrap ?rs c = wrap rs (redir k c q eq)"
    using l a assms(2) by (simp_all add: redir_toks_def angles_def wrap_def)
  with assms(1) s e show "yields parseexec buf s (wrap rs (redir k c q eq)) rest" unfolding reads_exec_def by metis
qed

lemma pipe_rule:
  assumes "reads_exec buf l ts" "reads_pipe buf r tr"
  shows "reads_pipe buf (PIPE l r) (ts @ Sym 124 # tr)"
  unfolding reads_pipe_def
proof (intro allI impI, elim conjE)
  fix rest s
  let ?ts = "Sym 124 # tr @ rest"
  assume s: "s \<le> length buf" and "lexes buf s ((ts @ Sym 124 # tr) @ rest)" and e: "ends [41, 38, 59] rest"
  then have "lexes buf s (ts @ redir_toks [] @ ?ts)" "angles []" "ends [124, 41, 38, 59] ?ts" by (simp_all add: redir_toks_def angles_def)
  with assms(1) s have "yields parseexec buf s (wrap [] l) ?ts" unfolding reads_exec_def by blast
  then obtain s1 where s1: "s1 \<le> length buf" "lexes buf s1 ?ts" "\<And>n x. parseexec n buf s = Some x \<Longrightarrow> x = Inr (l, s1)"
    unfolding yields_def wrap_def by auto
  obtain s2 where s2: "peek buf s1 [124] = (s2, True)" "lexes buf s2 ?ts" "s2 \<le> length buf"
    using peek_plain[OF s1(2,1), of "[124]"] by auto
  have "yields parsepipe buf (eat buf s2) r rest" using assms(2) lexes_eat[OF s2(2,3)] e unfolding reads_pipe_def by blast
  then obtain s3 where s3: "s3 \<le> length buf" "lexes buf s3 rest" "\<And>n x. parsepipe n buf (eat buf s2) = Some x \<Longrightarrow> x = Inr (r, s3)"
    unfolding yields_def by blast
  have "x = Inr (PIPE l r, s3)" if "parsepipe n buf s = Some x" for n x
  proof (cases n)
    case (Suc m)
    have "pbind (parsepipe m buf (eat buf s2)) (\<lambda>(r, s). Some (Inr (PIPE l r, s))) = Some x"
      using pbind_SomeI[OF that[unfolded Suc parsepipe.simps] s1(3)] s2(1) by simp
    from pbind_SomeI[OF this s3(3)] show ?thesis by simp
  qed (use that in simp)
  with s3 show "yields parsepipe buf s (PIPE l r) rest" unfolding yields_def by blast
qed

lemma back_rule:
  assumes "reads_back buf c ts"
  shows "reads_back buf (BACK c) (ts @ [Sym 38])"
  unfolding reads_back_def
proof (intro allI impI, elim conjE)
  fix rest s
  assume s: "s \<le> length buf" and "lexes buf s ((ts @ [Sym 38]) @ rest)" and e: "ends [41, 38, 59] rest"
  then have l: "lexes buf s (ts @ Sym 38 # rest)" and e1: "ends [41, 38, 59] (Sym 38 # rest)" by simp_all
  obtain c0 s0 s1 where s1: "s1 \<le> length buf" "lexes buf s1 (Sym 38 # rest)"
    "\<forall>n x. parsepipe n buf s = Some x \<longrightarrow> x = Inr (c0, s0)" "back_loop c0 buf s0 = back_loop c buf s1"
    using assms[unfolded reads_back_def, rule_format, OF conjI[OF s conjI[OF l e1]]] by metis
  obtain s2 where s2: "peek buf s1 [38] = (s2, True)" "lexes buf s2 (Sym 38 # rest)" "s2 \<le> length buf"
    using peek_plain[OF s1(2,1), of "[38]"] by auto
  have "back_loop c buf s1 = back_loop (BACK c) buf (eat buf s2)"
    using s2(1) by (simp add: back_loop.simps[of c] eat_def split: prod.split)
  with s1(3,4) lexes_eat[OF s2(2,3)]
  show "\<exists>c0 s0 s1. s1 \<le> length buf \<and> lexes buf s1 rest \<and> (\<forall>n x. parsepipe n buf s = Some x \<longrightarrow> x = Inr (c0, s0))
      \<and> back_loop c0 buf s0 = back_loop (BACK c) buf s1" by metis
qed

lemma list_rule:
  assumes "reads_back buf l ts" "reads_line buf r tr"
  shows "reads_line buf (LIST l r) (ts @ Sym 59 # tr)"
  unfolding reads_line_def
proof (intro allI impI, elim conjE)
  fix rest s
  let ?ts = "Sym 59 # tr @ rest"
  assume s: "s \<le> length buf" and "lexes buf s ((ts @ Sym 59 # tr) @ rest)" and e: "ends [41] rest"
  then have lx: "lexes buf s (ts @ ?ts)" and e1: "ends [41, 38, 59] ?ts" by simp_all
  obtain c0 s0 s1 where s1: "s1 \<le> length buf" "lexes buf s1 ?ts" "\<And>n x. parsepipe n buf s = Some x \<Longrightarrow> x = Inr (c0, s0)"
    "back_loop c0 buf s0 = back_loop l buf s1"
    using assms(1)[unfolded reads_back_def, rule_format, OF conjI[OF s conjI[OF lx e1]]] by metis
  obtain s2 where s2: "peek buf s1 [38] = (s2, False)" "lexes buf s2 ?ts" "s2 \<le> length buf"
    using peek_plain[OF s1(2,1), of "[38]"] by auto
  obtain s3 where s3: "peek buf s2 [59] = (s3, True)" "lexes buf s3 ?ts" "s3 \<le> length buf"
    using peek_plain[OF s2(2,3), of "[59]"] by auto
  have b: "back_loop c0 buf s0 = (l, s2)" using s1(4) s2(1) by (simp add: back_loop.simps[of l])
  have "yields parseline buf (eat buf s3) r rest" using assms(2) lexes_eat[OF s3(2,3)] e unfolding reads_line_def by blast
  then obtain s4 where s4: "s4 \<le> length buf" "lexes buf s4 rest" "\<And>n x. parseline n buf (eat buf s3) = Some x \<Longrightarrow> x = Inr (r, s4)"
    unfolding yields_def by blast
  have "x = Inr (LIST l r, s4)" if "parseline n buf s = Some x" for n x
  proof (cases n)
    case (Suc m)
    have "pbind (parseline m buf (eat buf s3)) (\<lambda>(r, s). Some (Inr (LIST l r, s))) = Some x"
      using pbind_SomeI[OF that[unfolded Suc parseline.simps] s1(3)] b s3(1) by simp
    from pbind_SomeI[OF this s4(3)] show ?thesis by simp
  qed (use that in simp)
  with s4 show "yields parseline buf s (LIST l r) rest" unfolding yields_def by blast
qed

subsection \<open>Writing a command\<close>

definition redir_op :: "uint \<Rightarrow> int \<Rightarrow> uchar" where
  "redir_op mode fd = (if fd = 0 then 60 else if mode = O_WRONLY OR O_CREATE then 43 else 62)"

text \<open>
  The parser that reads a command without parentheses: 0 for \<^verbatim>\<open>parseexec\<close>, 1 for \<^verbatim>\<open>parsepipe\<close>, 2 for the loop of \<^verbatim>\<open>parseline\<close>, 3 for
  \<^verbatim>\<open>parseline\<close>.
\<close>

fun level :: "cmd \<Rightarrow> nat" where
  "level (PIPE l r) = 1"
| "level (BACK c) = 2"
| "level (LIST l r) = 3"
| "level _ = 0"

definition paren :: "nat \<Rightarrow> nat \<Rightarrow> token list \<Rightarrow> token list" where
  "paren n m ts = (if m \<le> n then ts else Sym 40 # ts @ [Sym 41])"

primrec toks :: "cmd \<Rightarrow> token list" where
  "toks (EXEC args) = map (\<lambda>(q, eq). Wd q eq) args"
| "toks (REDIR c q eq mode fd) = paren 0 (level c) (toks c) @ [Sym (redir_op mode fd), Wd q eq]"
| "toks (PIPE l r) = paren 0 (level l) (toks l) @ Sym 124 # paren 1 (level r) (toks r)"
| "toks (LIST l r) = paren 2 (level l) (toks l) @ Sym 59 # paren 3 (level r) (toks r)"
| "toks (BACK c) = paren 2 (level c) (toks c) @ [Sym 38]"

definition reads :: "nat \<Rightarrow> uchar list \<Rightarrow> cmd \<Rightarrow> token list \<Rightarrow> bool" where
  "reads n = (if n = 0 then reads_exec else if n = 1 then reads_pipe else if n = 2 then reads_back else reads_line)"

lemma reads_mono: "reads m buf c ts \<Longrightarrow> m \<le> n \<Longrightarrow> reads n buf c ts"
  using exec_pipe[of buf c ts] pipe_back[of buf c ts] back_line[of buf c ts] by (auto simp: reads_def split: if_splits)

lemma reads_paren: "reads m buf c ts \<Longrightarrow> reads n buf c (paren n m ts)"
proof (cases "m \<le> n")
  case False
  assume "reads m buf c ts"
  then have "reads_line buf c ts" using reads_mono[of m buf c ts "max m 3"] by (auto simp: reads_def split: if_splits)
  from line_block[OF this] show ?thesis using reads_mono[of 0 buf c _ n] False by (simp add: paren_def reads_def[of 0])
qed (simp add: reads_mono paren_def)

lemma redir_op_kind: "redir_kind mode fd \<Longrightarrow> redir_op mode fd \<in> {60, 62, 43} \<and> redir (redir_op mode fd) c q eq = REDIR c q eq mode fd"
  by (auto simp: redir_kind_def redir_op_def redir_def O_WRONLY_def O_CREATE_def O_TRUNC_def)

text \<open>A command that can be written: argument vectors that fit, and the three kinds of redirection.\<close>

fun writable_cmd :: "cmd \<Rightarrow> bool" where
  "writable_cmd (EXEC argv) = (length argv < MAXARGS)"
| "writable_cmd (REDIR c q eq mode fd) = (writable_cmd c \<and> redir_kind mode fd)"
| "writable_cmd (PIPE l r) = (writable_cmd l \<and> writable_cmd r)"
| "writable_cmd (LIST l r) = (writable_cmd l \<and> writable_cmd r)"
| "writable_cmd (BACK c) = writable_cmd c"

lemma reads_toks: "writable_cmd c \<Longrightarrow> reads (level c) buf c (toks c)"
proof (induction c)
  case (EXEC args)
  then show ?case using exec_words by (simp add: reads_def)
next
  case (REDIR c q eq mode fd)
  then have "reads_exec buf c (paren 0 (level c) (toks c))" using reads_paren[of "level c" buf c _ 0] by (simp add: reads_def)
  from exec_redir[OF this, of "redir_op mode fd" q eq] redir_op_kind[of mode fd c q eq] REDIR.prems show ?case by (simp add: reads_def)
next
  case (PIPE l r)
  then show ?case
    using pipe_rule reads_paren[of "level l" buf l _ 0] reads_paren[of "level r" buf r _ 1] by (simp add: reads_def[of 0] reads_def[of "Suc 0"])
next
  case (LIST l r)
  then show ?case
    using list_rule reads_paren[of "level l" buf l _ 2] reads_paren[of "level r" buf r _ 3] by (simp add: reads_def[of 2] reads_def[of 3])
next
  case (BACK c)
  then show ?case using back_rule reads_paren[of "level c" buf c _ 2] by (simp add: reads_def[of 2])
qed

text \<open>C24. Parsing inverts writing.  Take any command whose argument vectors fit and whose redirections are of the three kinds, and
  any line of which the tokens, with whatever blanks around them, are the command written out with parentheses only where the grammar
  needs them: the shell's parser accepts the line and returns that command, with its precedences and nesting.\<close>

theorem parsecmd_inverts:
  assumes "writable_cmd c" "lexes (takeWhile (\<lambda>c. c \<noteq> 0) line) 0 (toks c)"
  shows "parsecmd line = Some (Inr (c, nulterminate c line))"
proof -
  let ?buf = "takeWhile (\<lambda>c. c \<noteq> 0) line"
  have "reads_line ?buf c (toks c)"
    using reads_mono[OF reads_toks[OF assms(1), of ?buf], of 3] by (cases c) (auto simp: reads_def)
  then have "yields parseline ?buf 0 c []" using assms(2) unfolding reads_line_def by auto
  then obtain s where s: "s \<le> length ?buf" "lexes ?buf s []" "\<And>n r. parseline n ?buf 0 = Some r \<Longrightarrow> r = Inr (c, s)"
    unfolding yields_def by blast
  have "parseline (4 * length ?buf + 4) ?buf 0 \<noteq> None" using parse_returns(1)[of 0 ?buf] by simp
  then have "parseline (4 * length ?buf + 4) ?buf 0 = Some (Inr (c, s))" using s(3) by blast
  moreover have "peek ?buf s [] = (length ?buf, False)" using s(2) by (simp add: lexes.simps peek_def Let_def at_def)
  ultimately show ?thesis by (simp add: parsecmd_def Let_def pbind_def)
qed

text \<open>The line \<^verbatim>\<open>(a;b)>c|d &\<close>.\<close>

theorem parsecmd_inverts_witness:
  "parsecmd [40, 97, 59, 98, 41, 62, 99, 124, 100, 32, 38, 10, 0] =
     Some (Inr (BACK (PIPE (REDIR (LIST (EXEC [(1, 2)]) (EXEC [(3, 4)])) 6 7 (O_WRONLY OR O_CREATE OR O_TRUNC) 1) (EXEC [(8, 9)])),
       [40, 97, 0, 98, 0, 62, 99, 0, 100, 0, 38, 10, 0]))"
proof -
  let ?line = "[40, 97, 59, 98, 41, 62, 99, 124, 100, 32, 38, 10, 0] :: uchar list"
  let ?c = "BACK (PIPE (REDIR (LIST (EXEC [(1, 2)]) (EXEC [(3, 4)])) 6 7 (O_WRONLY OR O_CREATE OR O_TRUNC) 1) (EXEC [(8, 9)]))"
  have w: "writable_cmd ?c" by (simp add: MAXARGS_def redir_kind_def)
  have "lexes (takeWhile (\<lambda>c. c \<noteq> 0) ?line) 0 (toks ?c)" by code_simp
  from parsecmd_inverts[OF w this] show ?thesis by simp
qed

end
