(* ===== verification/VirtioDisk.thy ===== *)
theory VirtioDisk
  imports Bio Fifo
begin

text \<open>
  \<^verbatim>\<open>kernel/virtio_disk.c\<close>: the driver of the virtio disk.  A pointer the driver hands to the device is a value of type
  \<open>daddr\<close>.  A section under \<^verbatim>\<open>vdisk_lock\<close> is one step.  The device itself is not part of the program: what it reads from the
  configuration registers is a parameter, and the requests it serves appear in the two rings.
\<close>

unbundle bit_operations_syntax

definition NUM :: nat where "NUM = 8"
definition VRING_DESC_F_NEXT :: ushort where "VRING_DESC_F_NEXT = 1"
definition VRING_DESC_F_WRITE :: ushort where "VRING_DESC_F_WRITE = 2"
definition VIRTIO_BLK_T_IN :: uint where "VIRTIO_BLK_T_IN = 0"
definition VIRTIO_BLK_T_OUT :: uint where "VIRTIO_BLK_T_OUT = 1"

text \<open>The addresses in descriptors: the header of a request, the data of a buffer, the status byte of a request.\<close>

datatype daddr = Null | Op nat | Data nat | Status nat

record virtq_desc =
  d_addr :: daddr
  d_len :: uint
  d_flags :: ushort
  d_next :: ushort

record virtio_blk_req =
  r_type :: uint
  r_reserved :: uint
  r_sector :: u64

text \<open>
  The state of the driver and the memory it shares with the device: \<open>avail_idx\<close> and \<open>avail_ring\<close> are \<^verbatim>\<open>disk.avail\<close>, \<open>vused_idx\<close> and
  \<open>used_ring\<close> are \<^verbatim>\<open>disk.used\<close>, \<open>used_idx\<close> is how far the driver has looked, \<open>b_disk\<close> is the field \<^verbatim>\<open>disk\<close> of the buffers.
\<close>

record vdisk = bio +
  desc :: "nat \<Rightarrow> virtq_desc"
  avail_idx :: ushort
  avail_ring :: "nat \<Rightarrow> ushort"
  vused_idx :: ushort
  used_ring :: "nat \<Rightarrow> uint"
  dfree :: "nat \<Rightarrow> bool"
  used_idx :: ushort
  info_b :: "nat \<Rightarrow> nat option"
  info_status :: "nat \<Rightarrow> uchar"
  ops :: "nat \<Rightarrow> virtio_blk_req"
  b_disk :: "nat \<Rightarrow> int"

definition desc0 :: virtq_desc where
  "desc0 = \<lparr>d_addr = Null, d_len = 0, d_flags = 0, d_next = 0\<rparr>"

subsection \<open>Initialisation\<close>

text \<open>What the device shows in its registers when they are read.\<close>

record virtio_regs =
  v_magic :: uint
  v_version :: uint
  v_device_id :: uint
  v_vendor_id :: uint
  v_features :: uint
  v_status :: uint
  v_queue_ready :: uint
  v_queue_num_max :: uint

definition drop_feature :: "nat \<Rightarrow> u64 \<Rightarrow> u64" where
  "drop_feature n features = features AND NOT (push_bit n 1)"

text \<open>The register writes in their order, with the offset of the register, and the state afterwards.\<close>

definition virtio_disk_init :: "virtio_regs \<Rightarrow> 'a vdisk_scheme \<Rightarrow> ((nat \<times> uint) list \<times> 'a vdisk_scheme) kres" where
  "virtio_disk_init r s =
     (if v_magic r \<noteq> 0x74726976 \<or> v_version r \<noteq> 2 \<or> v_device_id r \<noteq> 2 \<or> v_vendor_id r \<noteq> 0x554d4551
      then Panic ''could not find virtio disk''
      else let features = drop_feature 28 (drop_feature 29 (drop_feature 27 (drop_feature 12 (drop_feature 11
                            (drop_feature 7 (drop_feature 5 (ucast (v_features r))))))));
               ws = [(0x070, 0), (0x070, 1), (0x070, 3), (0x020, ucast features), (0x070, 11)]
           in if v_status r AND 8 = 0 then Panic ''virtio disk FEATURES_OK unset''
      else if v_queue_ready r \<noteq> 0 then Panic ''virtio disk should not be ready''
      else if v_queue_num_max r = 0 then Panic ''virtio disk has no queue 0''
      else if v_queue_num_max r < of_nat NUM then Panic ''virtio disk max queue too short''
      else
        kbind (kalloc s) (\<lambda>(dp, s).
        kbind (kalloc s) (\<lambda>(av, s).
        kbind (kalloc s) (\<lambda>(us, s).
        if dp = 0 \<or> av = 0 \<or> us = 0 then Panic ''virtio disk kalloc''
        else
          let s = s\<lparr>mem := memset (memset (memset (mem s) dp 0 4096) av 0 4096) us 0 4096\<rparr>;
              s = s\<lparr>desc := (\<lambda>_. desc0), avail_idx := 0, avail_ring := (\<lambda>_. 0), vused_idx := 0, used_ring := (\<lambda>_. 0)\<rparr>;
              s = s\<lparr>dfree := (\<lambda>i. if i < NUM then True else dfree s i)\<rparr>
          in Ret (ws @ [(0x030, 0), (0x038, of_nat NUM),
                        (0x080, ucast dp), (0x084, ucast (drop_bit 32 dp)), (0x090, ucast av), (0x094, ucast (drop_bit 32 av)),
                        (0x0a0, ucast us), (0x0a4, ucast (drop_bit 32 us)), (0x044, 1), (0x070, v_status r OR 4)], s)))))"

subsection \<open>Descriptors\<close>

definition alloc_desc :: "'a vdisk_scheme \<Rightarrow> int \<times> 'a vdisk_scheme" where
  "alloc_desc s =
     (case find (dfree s) [0..<NUM] of
        Some i \<Rightarrow> (int i, s\<lparr>dfree := (dfree s)(i := False)\<rparr>)
      | None \<Rightarrow> (-1, s))"

definition free_desc :: "nat \<Rightarrow> 'a vdisk_scheme \<Rightarrow> 'a vdisk_scheme kres" where
  "free_desc i s =
     (if i \<ge> NUM then Panic ''free_desc 1''
      else if dfree s i then Panic ''free_desc 2''
      else Ret (wakeup Ch_disk_free (s\<lparr>desc := (desc s)(i := desc0), dfree := (dfree s)(i := True)\<rparr>)))"

lemma wakeup_only_ptable: "wakeup c s = s\<lparr>ptable := ptable (wakeup c s)\<rparr>"
proof -
  let ?f = "\<lambda>i s. if Some i \<noteq> myproc s \<and> p_state (ptable s i) = SLEEPING \<and> p_chan (ptable s i) = Some c
     then upd_proc i (p_state_update (\<lambda>_. RUNNABLE)) s else s"
  have "fold ?f xs s = s\<lparr>ptable := ptable (fold ?f xs s)\<rparr>" for xs
  proof (induction xs rule: rev_induct)
    case (snoc x xs)
    let ?t = "fold ?f xs s"
    have "?f x t = t\<lparr>ptable := ptable (?f x t)\<rparr>" for t by (simp add: upd_proc_def)
    then have "?f x ?t = ?t\<lparr>ptable := ptable (?f x ?t)\<rparr>" .
    also have "\<dots> = s\<lparr>ptable := ptable (?f x ?t)\<rparr>" by (subst (1) snoc.IH) simp
    finally show ?case by simp
  qed simp
  then show ?thesis by (simp add: wakeup_def)
qed

lemma wakeup_vdisk [simp]:
  "desc (wakeup c s) = desc s" "avail_idx (wakeup c s) = avail_idx s" "avail_ring (wakeup c s) = avail_ring s"
  "vused_idx (wakeup c s) = vused_idx s" "used_ring (wakeup c s) = used_ring s" "dfree (wakeup c s) = dfree s"
  "used_idx (wakeup c s) = used_idx s" "info_b (wakeup c s) = info_b s" "info_status (wakeup c s) = info_status s"
  "ops (wakeup c s) = ops s" "b_disk (wakeup c s) = b_disk s"
  by (subst wakeup_only_ptable, simp)+

lemma wakeup_bio [simp]:
  "bufs (wakeup c s) = bufs s" "disk0 (wakeup c s) = disk0 s" "dwrites (wakeup c s) = dwrites s"
  by (subst wakeup_only_ptable, simp)+

lemma free_desc_fewer:
  "free_desc i s = Ret s' \<Longrightarrow> card {j. j < NUM \<and> \<not> dfree s' j} < card {j. j < NUM \<and> \<not> dfree s j}"
proof -
  assume "free_desc i s = Ret s'"
  then have i: "i < NUM" "\<not> dfree s i" "dfree s' = (dfree s)(i := True)" by (auto simp: free_desc_def split: if_splits)
  then have "{j. j < NUM \<and> \<not> dfree s' j} = {j. j < NUM \<and> \<not> dfree s j} - {i}" by auto
  moreover have "card ({j. j < NUM \<and> \<not> dfree s j} - {i}) < card {j. j < NUM \<and> \<not> dfree s j}"
    using i by (intro card_Diff1_less) simp_all
  ultimately show ?thesis by (simp only:)
qed

text \<open>Every round of the loop frees a descriptor or panics, so the loop ends whatever the chain is.\<close>

function free_chain :: "nat \<Rightarrow> 'a vdisk_scheme \<Rightarrow> 'a vdisk_scheme kres" where
  "free_chain i s =
     (let flag = d_flags (desc s i); nxt = d_next (desc s i) in
      kbind (free_desc i s) (\<lambda>s. if flag AND VRING_DESC_F_NEXT \<noteq> 0 then free_chain (unat nxt) s else Ret s))"
  by pat_completeness auto

termination
  by (relation "measure (\<lambda>(i, s). card {j. j < NUM \<and> \<not> dfree s j})") (auto dest: free_desc_fewer)

declare free_chain.simps [simp del]

fun alloc_descs :: "nat \<Rightarrow> nat list \<Rightarrow> 'a vdisk_scheme \<Rightarrow> (nat list option \<times> 'a vdisk_scheme) kres" where
  "alloc_descs 0 idx s = Ret (Some idx, s)"
| "alloc_descs (Suc n) idx s =
     (case alloc_desc s of (i, s) \<Rightarrow>
        if i < 0 then kbind (kfold free_desc idx s) (\<lambda>s. Ret (None, s))
        else alloc_descs n (idx @ [nat i]) s)"

definition alloc3_desc :: "'a vdisk_scheme \<Rightarrow> (nat list option \<times> 'a vdisk_scheme) kres" where
  "alloc3_desc s = alloc_descs 3 [] s"

subsection \<open>Requests\<close>

text \<open>The request of \<^verbatim>\<open>virtio_disk_rw\<close>, up to the notification of the device.\<close>

definition rw_format :: "nat \<Rightarrow> bool \<Rightarrow> nat list \<Rightarrow> 'a vdisk_scheme \<Rightarrow> 'a vdisk_scheme" where
  "rw_format b wr idx s =
     (let i0 = idx ! 0; i1 = idx ! 1; i2 = idx ! 2;
          sector = ucast (b_blockno (bufs s b) * 2);
          s = s\<lparr>ops := (ops s)(i0 := \<lparr>r_type = (if wr then VIRTIO_BLK_T_OUT else VIRTIO_BLK_T_IN), r_reserved = 0, r_sector = sector\<rparr>)\<rparr>;
          s = s\<lparr>desc := (desc s)(i0 := \<lparr>d_addr = Op i0, d_len = 16, d_flags = VRING_DESC_F_NEXT, d_next = of_nat i1\<rparr>)\<rparr>;
          s = s\<lparr>desc := (desc s)(i1 := \<lparr>d_addr = Data b, d_len = of_nat BSIZE,
                d_flags = (if wr then 0 else VRING_DESC_F_WRITE) OR VRING_DESC_F_NEXT, d_next = of_nat i2\<rparr>)\<rparr>;
          s = s\<lparr>info_status := (info_status s)(i0 := 0xff)\<rparr>;
          s = s\<lparr>desc := (desc s)(i2 := \<lparr>d_addr = Status i0, d_len = 1, d_flags = VRING_DESC_F_WRITE, d_next = 0\<rparr>)\<rparr>;
          s = s\<lparr>b_disk := (b_disk s)(b := 1)\<rparr>;
          s = s\<lparr>info_b := (info_b s)(i0 := Some b)\<rparr>;
          s = s\<lparr>avail_ring := (avail_ring s)(unat (avail_idx s) mod NUM := of_nat i0)\<rparr>
      in s\<lparr>avail_idx := avail_idx s + 1\<rparr>)"

definition rw_finish :: "nat \<Rightarrow> 'a vdisk_scheme \<Rightarrow> 'a vdisk_scheme kres" where
  "rw_finish i0 s = free_chain i0 (s\<lparr>info_b := (info_b s)(i0 := None)\<rparr>)"

partial_function (option) alloc3_wait :: "('a vdisk_scheme \<Rightarrow> 'a vdisk_scheme kres) \<Rightarrow> 'a vdisk_scheme \<Rightarrow> (nat list \<times> 'a vdisk_scheme) kres option" where
  "alloc3_wait swtch s =
     obind (alloc3_desc s) (\<lambda>(r, s).
       case r of Some idx \<Rightarrow> Some (Ret (idx, s)) | None \<Rightarrow> obind (sleep swtch Ch_disk_free s) (alloc3_wait swtch))"

partial_function (option) io_wait :: "('a vdisk_scheme \<Rightarrow> 'a vdisk_scheme kres) \<Rightarrow> nat \<Rightarrow> 'a vdisk_scheme \<Rightarrow> 'a vdisk_scheme kres option" where
  "io_wait swtch b s =
     (if b_disk s b = 1 then obind (sleep swtch (Ch_bufp b) s) (io_wait swtch b) else Some (Ret s))"

definition disk_rw :: "('a vdisk_scheme \<Rightarrow> 'a vdisk_scheme kres) \<Rightarrow> nat \<Rightarrow> bool \<Rightarrow> 'a vdisk_scheme \<Rightarrow> 'a vdisk_scheme kres" where
  "disk_rw swtch b wr s =
     kbind (returns (alloc3_wait swtch s)) (\<lambda>(idx, s).
     kbind (returns (io_wait swtch b (rw_format b wr idx s))) (rw_finish (idx ! 0)))"

text \<open>The interrupt handler: all completions in the used ring.\<close>

function intr_loop :: "'a vdisk_scheme \<Rightarrow> 'a vdisk_scheme kres" where
  "intr_loop s =
     (if used_idx s = vused_idx s then Ret s
      else let id = unat (used_ring s (unat (used_idx s) mod NUM)) in
        if id \<ge> NUM then Fault ''disk.info''
        else if info_status s id \<noteq> 0 then Panic ''virtio_disk_intr status''
        else case info_b s id of
            None \<Rightarrow> Fault ''b->disk''
          | Some b \<Rightarrow>
              let s = wakeup (Ch_bufp b) (s\<lparr>b_disk := (b_disk s)(b := 0)\<rparr>)
              in intr_loop (s\<lparr>used_idx := used_idx s + 1\<rparr>))"
  by pat_completeness auto

termination
proof (relation "measure (\<lambda>s. unat (vused_idx s - used_idx s))")
  fix s :: "'a vdisk_scheme" and x xa xb
  assume "used_idx s \<noteq> vused_idx s" "xb = wakeup (Ch_bufp xa) (s\<lparr>b_disk := (b_disk s)(xa := 0)\<rparr>)"
  then show "(xb\<lparr>used_idx := used_idx xb + 1\<rparr>, s) \<in> measure (\<lambda>s. unat (vused_idx s - used_idx s))"
    using arg_cong[OF ring_pop[of NUM "vused_idx s" "used_idx s" "used_ring s"], of length] by (simp add: NUM_def)
qed simp

declare intr_loop.simps [simp del]

definition virtio_disk_intr :: "'a vdisk_scheme \<Rightarrow> 'a vdisk_scheme kres" where
  "virtio_disk_intr s = intr_loop s"

end
