(* ===== verification/DiskSys.thy ===== *)
theory DiskSys
  imports VirtioDisk
begin

text \<open>
  The driver together with the device and the processes that use it, as a step relation: processes call \<^verbatim>\<open>virtio_disk_rw\<close>, sleep in it and
  return from it, the device fetches requests from the available ring and completes them in any order and with any status,
  interrupts arrive at any time.  The theory holds this system, the contract of \<^verbatim>\<open>virtio_disk_rw\<close> that the buffer cache relies on, the
  invariant of the system and the facts about descriptors and requests its proof needs.
\<close>

unbundle bit_operations_syntax

subsection \<open>The device\<close>

text \<open>
  What the virtio standard promises of a block device.  A request is a chain of three descriptors: a header the device reads, the data,
  and a status byte the device writes; the data is written by the device exactly when it is a read request.  For such a chain the device
  writes a status and appends the head of the chain to the used ring.  The status is 0 (OK) when the data was transferred.  Any other one
  (1 is an I/O error, 2 an unsupported request) promises nothing about the data: a read may have left anything in the buffer, and a write
  anything in the block.
\<close>

definition blk_chain :: "'a vdisk_scheme \<Rightarrow> nat \<Rightarrow> nat \<Rightarrow> bool \<Rightarrow> nat list \<Rightarrow> bool" where
  "blk_chain s b h wr ds \<longleftrightarrow> (\<exists>m t. ds = [h, m, t] \<and> distinct ds \<and> set ds \<subseteq> {..<NUM}
     \<and> desc s h = \<lparr>d_addr = Op h, d_len = 16, d_flags = VRING_DESC_F_NEXT, d_next = of_nat m\<rparr>
     \<and> desc s m = \<lparr>d_addr = Data b, d_len = of_nat BSIZE,
                   d_flags = (if wr then 0 else VRING_DESC_F_WRITE) OR VRING_DESC_F_NEXT, d_next = of_nat t\<rparr>
     \<and> desc s t = \<lparr>d_addr = Status h, d_len = 1, d_flags = VRING_DESC_F_WRITE, d_next = 0\<rparr>
     \<and> r_type (ops s h) = (if wr then VIRTIO_BLK_T_OUT else VIRTIO_BLK_T_IN))"

definition transfer :: "nat \<Rightarrow> bool \<Rightarrow> u64 \<Rightarrow> 'a vdisk_scheme \<Rightarrow> 'a vdisk_scheme" where
  "transfer b wr sector s =
     (if wr then s\<lparr>dwrites := dwrites s @ [(ucast (sector div 2), b_data (bufs s b))]\<rparr>
      else upd_buf b (b_data_update (\<lambda>_. on_disk s (ucast (sector div 2)))) s)"

definition spoiled :: "nat \<Rightarrow> bool \<Rightarrow> uint \<Rightarrow> 'a vdisk_scheme \<Rightarrow> 'a vdisk_scheme \<Rightarrow> bool" where
  "spoiled b wr bno s t \<longleftrightarrow>
     (if wr then t = s \<or> (\<exists>d. t = s\<lparr>dwrites := dwrites s @ [(bno, d)]\<rparr>)
      else \<exists>d. t = upd_buf b (b_data_update (\<lambda>_. d)) s)"

definition completed :: "nat \<Rightarrow> uchar \<Rightarrow> 'a vdisk_scheme \<Rightarrow> 'a vdisk_scheme" where
  "completed h status s = s\<lparr>info_status := (info_status s)(h := status),
     used_ring := (used_ring s)(unat (vused_idx s) mod NUM := of_nat h), vused_idx := vused_idx s + 1\<rparr>"

definition virtio_block :: "(nat \<Rightarrow> 'a vdisk_scheme \<Rightarrow> 'a vdisk_scheme \<Rightarrow> bool) \<Rightarrow> bool" where
  "virtio_block dev \<longleftrightarrow> (\<forall>h s s' b wr ds. dev h s s' \<longrightarrow> blk_chain s b h wr ds \<longrightarrow>
     (\<exists>status t. s' = completed h status t \<and>
        (if status = 0 then t = transfer b wr (r_sector (ops s h)) s else spoiled b wr (ucast (r_sector (ops s h) div 2)) s t)))"

text \<open>A device that is able to perform every well-formed request.\<close>

definition answers :: "(nat \<Rightarrow> vdisk \<Rightarrow> vdisk \<Rightarrow> bool) \<Rightarrow> bool" where
  "answers dev \<longleftrightarrow> (\<forall>h s b wr ds. blk_chain s b h wr ds \<longrightarrow> (\<exists>t. dev h s t \<and> info_status t h = 0))"

subsection \<open>The driver, the device and the processes\<close>

text \<open>
  \<open>who b\<close> is the process that is in \<^verbatim>\<open>virtio_disk_rw(b, write)\<close>, with the argument \<^verbatim>\<open>write\<close>; \<open>reqs b\<close> is its local variable \<^verbatim>\<open>idx[0]\<close>, once it
  has one; \<open>seen\<close> is how far the device has read the available ring and \<open>busy\<close> the requests it works on.  A buffer is in the
  hands of its owner while no call for it is under way.
\<close>

record vsys =
  vs :: vdisk
  who :: "nat \<Rightarrow> (nat \<times> bool) option"
  reqs :: "nat \<Rightarrow> nat option"
  seen :: ushort
  busy :: "nat set"

abbreviation awake :: "vsys \<Rightarrow> nat \<Rightarrow> bool" where
  "awake x i \<equiv> p_state (ptable (vs x) i) \<noteq> SLEEPING"

text \<open>What \<^verbatim>\<open>sleep\<close> does to the process table before it gives up the processor.\<close>

definition dozing :: "nat \<Rightarrow> chan \<Rightarrow> vdisk \<Rightarrow> vdisk" where
  "dozing i c = upd_proc i (\<lambda>p. p\<lparr>p_chan := Some c, p_state := SLEEPING\<rparr>)"

text \<open>
  The steps of the driver and the device.  A process runs only while it is not asleep.  It gets its descriptors and formats the request
  (\<open>start\<close>), or goes to sleep because there are too few (\<open>full\<close>); it sleeps while its request is not done (\<open>wait\<close>), and otherwise
  frees its descriptors and returns (\<open>finish\<close>).  An interrupt comes while some process runs or none.
\<close>

inductive disk_step :: "(nat \<Rightarrow> vdisk \<Rightarrow> vdisk \<Rightarrow> bool) \<Rightarrow> vsys \<Rightarrow> vsys \<Rightarrow> bool" for dev where
  start: "who x b = Some (i, wr) \<Longrightarrow> reqs x b = None \<Longrightarrow> awake x i \<Longrightarrow> alloc3_desc (run_as i (vs x)) = Ret (Some idx, s) \<Longrightarrow>
    disk_step dev x (x\<lparr>vs := rw_format b wr idx s, reqs := (reqs x)(b := Some (idx ! 0))\<rparr>)"
| full: "who x b = Some (i, wr) \<Longrightarrow> reqs x b = None \<Longrightarrow> awake x i \<Longrightarrow> alloc3_desc (run_as i (vs x)) = Ret (None, s) \<Longrightarrow>
    disk_step dev x (x\<lparr>vs := dozing i Ch_disk_free s\<rparr>)"
| wait: "who x b = Some (i, wr) \<Longrightarrow> reqs x b = Some h \<Longrightarrow> awake x i \<Longrightarrow> b_disk (vs x) b = 1 \<Longrightarrow>
    disk_step dev x (x\<lparr>vs := dozing i (Ch_bufp b) (run_as i (vs x))\<rparr>)"
| finish: "who x b = Some (i, wr) \<Longrightarrow> reqs x b = Some h \<Longrightarrow> awake x i \<Longrightarrow> b_disk (vs x) b \<noteq> 1 \<Longrightarrow> rw_finish h (run_as i (vs x)) = Ret s \<Longrightarrow>
    disk_step dev x (x\<lparr>vs := s, who := (who x)(b := None), reqs := (reqs x)(b := None)\<rparr>)"
| irq: "(\<And>i. c = Some i \<Longrightarrow> awake x i) \<Longrightarrow> virtio_disk_intr ((vs x)\<lparr>cur := c\<rparr>) = Ret s \<Longrightarrow> disk_step dev x (x\<lparr>vs := s\<rparr>)"
| fetch: "seen x \<noteq> avail_idx (vs x) \<Longrightarrow>
    disk_step dev x (x\<lparr>seen := seen x + 1, busy := insert (unat (avail_ring (vs x) (unat (seen x) mod NUM))) (busy x)\<rparr>)"
| serve: "h \<in> busy x \<Longrightarrow> dev h (vs x) s \<Longrightarrow> disk_step dev x (x\<lparr>vs := s, busy := busy x - {h}\<rparr>)"

text \<open>
  What happens around the driver: the owner of a buffer changes it, a process that is in no call yet calls \<^verbatim>\<open>virtio_disk_rw\<close>, and the rest of the
  kernel changes the process table as it likes (it may wake a sleeper, for example in \<^verbatim>\<open>kill\<close>), but it puts no process to sleep that is
  in a call, and none on a channel of the driver.
\<close>

definition none_dozes :: "vsys \<Rightarrow> (nat \<Rightarrow> proc) \<Rightarrow> bool" where
  "none_dozes x pt \<longleftrightarrow> (\<forall>i. p_state (pt i) = SLEEPING \<longrightarrow>
      \<not> awake x i \<and> p_chan (pt i) = p_chan (ptable (vs x) i)
      \<or> (\<forall>b wr. who x b \<noteq> Some (i, wr)) \<and> p_chan (pt i) \<noteq> Some Ch_disk_free \<and> (\<forall>b. p_chan (pt i) \<noteq> Some (Ch_bufp b)))"

inductive env_step :: "vsys \<Rightarrow> vsys \<Rightarrow> bool" where
  own: "who x b = None \<Longrightarrow> env_step x (x\<lparr>vs := upd_buf b f (vs x)\<rparr>)"
| call: "who x b = None \<Longrightarrow> i < NPROC \<Longrightarrow> awake x i \<Longrightarrow> (\<And>b' wr'. who x b' \<noteq> Some (i, wr')) \<Longrightarrow> b_blockno (bufs (vs x) b) < 2 ^ 31 \<Longrightarrow>
    env_step x (x\<lparr>who := (who x)(b := Some (i, wr))\<rparr>)"
| other: "none_dozes x pt \<Longrightarrow> env_step x (x\<lparr>vs := (vs x)\<lparr>ptable := pt, cur := c\<rparr>\<rparr>)"

definition vd_step :: "(nat \<Rightarrow> vdisk \<Rightarrow> vdisk \<Rightarrow> bool) \<Rightarrow> vsys \<Rightarrow> vsys \<Rightarrow> bool" where
  "vd_step dev x y \<longleftrightarrow> disk_step dev x y \<or> env_step x y"

text \<open>The system starts with \<^verbatim>\<open>virtio_disk_init\<close>, when no process sleeps yet.\<close>

inductive vd_reach :: "(nat \<Rightarrow> vdisk \<Rightarrow> vdisk \<Rightarrow> bool) \<Rightarrow> vsys \<Rightarrow> bool" for dev where
  boot: "virtio_disk_init r s0 = Ret (ws, s) \<Longrightarrow> used_idx s = 0 \<Longrightarrow> (\<And>b. b_disk s b = 0) \<Longrightarrow> (\<And>i. p_state (ptable s i) \<noteq> SLEEPING) \<Longrightarrow>
    vd_reach dev \<lparr>vs = s, who = (\<lambda>_. None), reqs = (\<lambda>_. None), seen = 0, busy = {}\<rparr>"
| step: "vd_reach dev x \<Longrightarrow> vd_step dev x y \<Longrightarrow> vd_reach dev y"

subsection \<open>The contract\<close>

text \<open>
  What the callers of \<^verbatim>\<open>virtio_disk_rw\<close> rely on: \<open>rw_calls b\<close> is the call for the buffer \<open>b\<close>, with its argument \<^verbatim>\<open>write\<close>, and whether the disk has
  done it.  Between call and return the disk performs \<open>virtio_disk_rw\<close> of the buffer cache once, in one step.  It may fail instead; then
  the call does not return.
\<close>

datatype rw_state = Pending | Done | Failed

type_synonym store = "(nat \<Rightarrow> buf) \<times> (uint \<Rightarrow> cptr) \<times> (uint \<times> cptr) list"

definition store :: "vdisk \<Rightarrow> store" where
  "store s = (bufs s, disk0 s, dwrites s)"

record rwsys =
  rw_store :: store
  rw_calls :: "nat \<Rightarrow> (bool \<times> rw_state) option"

inductive rw_step :: "rwsys \<Rightarrow> rwsys \<Rightarrow> bool" where
  rw_own: "rw_calls A b = None \<Longrightarrow> rw_store A = store s \<Longrightarrow> rw_step A (A\<lparr>rw_store := store (upd_buf b f s)\<rparr>)"
| rw_call: "rw_calls A b = None \<Longrightarrow> rw_step A (A\<lparr>rw_calls := (rw_calls A)(b := Some (wr, Pending))\<rparr>)"
| rw_do: "rw_calls A b = Some (wr, Pending) \<Longrightarrow> rw_store A = store s \<Longrightarrow>
    rw_step A (A\<lparr>rw_store := store (virtio_disk_rw b wr s), rw_calls := (rw_calls A)(b := Some (wr, Done))\<rparr>)"
| rw_fail: "rw_calls A b = Some (wr, Pending) \<Longrightarrow> rw_store A = store s \<Longrightarrow> spoiled b wr (b_blockno (bufs s b)) s t \<Longrightarrow>
    rw_step A (A\<lparr>rw_store := store t, rw_calls := (rw_calls A)(b := Some (wr, Failed))\<rparr>)"
| rw_return: "rw_calls A b = Some (wr, Done) \<Longrightarrow> rw_step A (A\<lparr>rw_calls := (rw_calls A)(b := None)\<rparr>)"

subsection \<open>The invariant\<close>

definition availq :: "vsys \<Rightarrow> nat list" where
  "availq x = map unat (ring_list NUM (avail_ring (vs x)) (seen x) (avail_idx (vs x)))"

definition usedq :: "vsys \<Rightarrow> nat list" where
  "usedq x = map unat (ring_list NUM (used_ring (vs x)) (used_idx (vs x)) (vused_idx (vs x)))"

text \<open>
  The disk has done a request once it is out of the available ring and the device; it has failed when a status other than 0 is in the used
  ring.
\<close>

definition rw_status :: "vsys \<Rightarrow> nat option \<Rightarrow> rw_state" where
  "rw_status x r = (case r of None \<Rightarrow> Pending
     | Some h \<Rightarrow> if h \<in> set (availq x) \<union> busy x then Pending
         else if h \<in> set (usedq x) \<and> info_status (vs x) h \<noteq> 0 then Failed else Done)"

definition rw_abs :: "vsys \<Rightarrow> rwsys" where
  "rw_abs x = \<lparr>rw_store = store (vs x),
     rw_calls = (\<lambda>b. map_option (\<lambda>(i, wr). (wr, rw_status x (reqs x b))) (who x b))\<rparr>"

text \<open>The descriptors of the request at \<open>h\<close>, as the code finds them.\<close>

definition chain_of :: "'a vdisk_scheme \<Rightarrow> nat \<Rightarrow> nat list" where
  "chain_of s h = (let m = unat (d_next (desc s h)) in [h, m, unat (d_next (desc s m))])"

definition req_ok :: "vdisk \<Rightarrow> nat \<Rightarrow> nat \<Rightarrow> bool" where
  "req_ok s b h \<longleftrightarrow> (\<exists>wr. blk_chain s b h wr (chain_of s h)) \<and> (\<forall>i \<in> set (chain_of s h). \<not> dfree s i)
     \<and> info_b s h = Some b \<and> r_sector (ops s h) = ucast (b_blockno (bufs s b) * 2) \<and> b_blockno (bufs s b) < 2 ^ 31"

text \<open>The requests under way own their descriptors, and the other descriptors are free.\<close>

definition reqs_inv :: "(nat \<Rightarrow> nat option) \<Rightarrow> vdisk \<Rightarrow> bool" where
  "reqs_inv rq s \<longleftrightarrow> (\<forall>b h. rq b = Some h \<longrightarrow> req_ok s b h)
     \<and> (\<forall>b h b' h'. rq b = Some h \<longrightarrow> rq b' = Some h' \<longrightarrow> b \<noteq> b' \<longrightarrow> set (chain_of s h) \<inter> set (chain_of s h') = {})
     \<and> (\<forall>i < NUM. dfree s i \<or> (\<exists>b h. rq b = Some h \<and> i \<in> set (chain_of s h)))"

text \<open>A request the device owes an answer is in exactly one place: the available ring, the device, or the used ring.\<close>

definition outstanding :: "(nat \<Rightarrow> nat option) \<Rightarrow> vdisk \<Rightarrow> nat set" where
  "outstanding rq s = {h. \<exists>b. rq b = Some h \<and> b_disk s b = 1}"

definition flow_inv :: "nat list \<Rightarrow> nat set \<Rightarrow> nat list \<Rightarrow> nat set \<Rightarrow> bool" where
  "flow_inv av bz us hs \<longleftrightarrow> distinct (av @ us) \<and> bz \<inter> set (av @ us) = {} \<and> set av \<union> bz \<union> set us = hs"

text \<open>
  A process is in one call at a time.  The request in the rings has the direction the caller asked for.  A process that sleeps
  in a call sleeps on the channel of the loop it is in.
\<close>

definition call_ok :: "vsys \<Rightarrow> nat \<Rightarrow> nat \<Rightarrow> bool \<Rightarrow> bool" where
  "call_ok x b i wr \<longleftrightarrow> i < NPROC \<and> b_blockno (bufs (vs x) b) < 2 ^ 31
     \<and> (\<forall>b' wr'. who x b' = Some (i, wr') \<longrightarrow> b' = b)
     \<and> (\<forall>h. reqs x b = Some h \<longrightarrow> (r_type (ops (vs x) h) = VIRTIO_BLK_T_OUT \<longleftrightarrow> wr))
     \<and> (\<not> awake x i \<longrightarrow> p_chan (ptable (vs x) i) = Some (if reqs x b = None then Ch_disk_free else Ch_bufp b))"

definition call_inv :: "vsys \<Rightarrow> bool" where
  "call_inv x \<longleftrightarrow> (\<forall>b. reqs x b \<noteq> None \<longrightarrow> who x b \<noteq> None) \<and> (\<forall>b i wr. who x b = Some (i, wr) \<longrightarrow> call_ok x b i wr)"

text \<open>
  Nobody sleeps without a reason: a process sleeps for descriptors only while fewer than three are free, and for a buffer
  only while the request for it is not done.
\<close>

definition free_descs :: "vdisk \<Rightarrow> nat set" where
  "free_descs s = {k. k < NUM \<and> dfree s k}"

definition sleep_inv :: "vsys \<Rightarrow> bool" where
  "sleep_inv x \<longleftrightarrow> (\<forall>i. asleep Ch_disk_free (vs x) i \<longrightarrow> card (free_descs (vs x)) < 3)
     \<and> (\<forall>b i. asleep (Ch_bufp b) (vs x) i \<longrightarrow> reqs x b \<noteq> None \<and> b_disk (vs x) b = 1)"

definition vd_inv :: "vsys \<Rightarrow> bool" where
  "vd_inv x \<longleftrightarrow> reqs_inv (reqs x) (vs x)
     \<and> flow_inv (availq x) (busy x) (usedq x) (outstanding (reqs x) (vs x))
     \<and> (\<forall>b. reqs x b = None \<longrightarrow> b_disk (vs x) b \<noteq> 1) \<and> call_inv x \<and> sleep_inv x"

subsection \<open>Waking\<close>

text \<open>The process table after all processes but the running one that sleep on a channel of \<open>C\<close> have been woken.\<close>

definition woken :: "chan set \<Rightarrow> nat option \<Rightarrow> (nat \<Rightarrow> proc) \<Rightarrow> nat \<Rightarrow> proc" where
  "woken C c pt = (\<lambda>i. if i < NPROC \<and> c \<noteq> Some i \<and> p_state (pt i) = SLEEPING \<and> (\<exists>ch \<in> C. p_chan (pt i) = Some ch)
     then (pt i)\<lparr>p_state := RUNNABLE\<rparr> else pt i)"

lemma wakeup_woken: "ptable (wakeup ch s) = woken {ch} (cur s) (ptable s)" "cur (wakeup ch s) = cur s"
  by (simp_all add: wakeup_eq woken_def)

lemma woken_empty [simp]: "woken {} c pt = pt"
  by (simp add: woken_def)

lemma woken_woken: "woken D c (woken C c pt) = woken (C \<union> D) c pt"
  by (auto simp: woken_def fun_eq_iff)

lemma none_dozes_refl [simp]: "none_dozes x (ptable (vs x))"
  by (simp add: none_dozes_def)

lemma none_dozes_woken [simp]: "none_dozes x (woken C c (ptable (vs x)))"
  by (simp add: none_dozes_def woken_def)

lemma none_dozesD:
  "none_dozes x (ptable s') \<Longrightarrow> asleep Ch_disk_free s' i \<Longrightarrow> asleep Ch_disk_free (vs x) i"
  "none_dozes x (ptable s') \<Longrightarrow> asleep (Ch_bufp b) s' i \<Longrightarrow> asleep (Ch_bufp b) (vs x) i"
  by (auto simp: none_dozes_def asleep_def)

lemma woken_asleep:
  assumes "ptable s' = woken C c (ptable s)" "asleep ch s' i" "\<And>i. c = Some i \<Longrightarrow> p_state (ptable s i) \<noteq> SLEEPING"
  shows "ch \<notin> C"
  using assms by (auto simp: asleep_def woken_def split: if_splits)

text \<open>A step that keeps the calls and puts nobody to sleep.\<close>

lemma calls_frame:
  assumes "call_inv x" "sleep_inv x" "who y = who x" "reqs y = reqs x" "none_dozes x (ptable (vs y))"
    and "\<And>b. who x b \<noteq> None \<Longrightarrow> b_blockno (bufs (vs y) b) = b_blockno (bufs (vs x) b)"
    and "\<And>b h. reqs x b = Some h \<Longrightarrow> r_type (ops (vs y) h) = r_type (ops (vs x) h)"
    and "\<And>i. asleep Ch_disk_free (vs y) i \<Longrightarrow> free_descs (vs y) \<subseteq> free_descs (vs x)"
    and "\<And>b i. asleep (Ch_bufp b) (vs y) i \<Longrightarrow> b_disk (vs y) b = b_disk (vs x) b"
  shows "call_inv y" "sleep_inv y"
proof -
  have "call_ok y b i wr" if b: "who x b = Some (i, wr)" for b i wr
  proof -
    have "call_ok x b i wr" using assms(1) b by (simp add: call_inv_def)
    moreover have "\<not> awake x i \<and> p_chan (ptable (vs y) i) = p_chan (ptable (vs x) i)" if "\<not> awake y i"
      using assms(5) that b unfolding none_dozes_def by blast
    ultimately show ?thesis using assms(6)[of b] assms(7)[of b] b by (simp add: call_ok_def assms(3,4))
  qed
  then show "call_inv y" using assms(1) by (simp add: call_inv_def assms(3,4))
  have "card (free_descs (vs y)) < 3" if "asleep Ch_disk_free (vs y) i" for i
  proof -
    have "card (free_descs (vs y)) \<le> card (free_descs (vs x))"
      by (rule card_mono[OF _ assms(8)[OF that]]) (simp add: free_descs_def)
    then show ?thesis using assms(2) none_dozesD(1)[OF assms(5) that] unfolding sleep_inv_def by (meson le_less_trans)
  qed
  moreover have "reqs y b \<noteq> None \<and> b_disk (vs y) b = 1" if "asleep (Ch_bufp b) (vs y) i" for b i
    using assms(2) none_dozesD(2)[OF assms(5) that] assms(9)[OF that] by (auto simp: sleep_inv_def assms(4))
  ultimately show "sleep_inv y" unfolding sleep_inv_def by blast
qed

subsection \<open>Descriptors\<close>

text \<open>Everything but the process table, the descriptors and their marks.\<close>

definition vrest where
  "vrest s = (bufs s, disk0 s, dwrites s, avail_idx s, avail_ring s, vused_idx s, used_ring s, used_idx s, info_b s, info_status s, ops s, b_disk s)"

lemma vrestD:
  assumes "vrest s' = vrest s"
  shows "bufs s' = bufs s" "disk0 s' = disk0 s" "dwrites s' = dwrites s" "avail_idx s' = avail_idx s" "avail_ring s' = avail_ring s"
    "vused_idx s' = vused_idx s" "used_ring s' = used_ring s" "used_idx s' = used_idx s" "info_b s' = info_b s"
    "info_status s' = info_status s" "ops s' = ops s" "b_disk s' = b_disk s"
  using assms by (simp_all add: vrest_def)

text \<open>The descriptors \<open>ds\<close> are given back, and the processes that wait for descriptors are woken.\<close>

definition freed :: "nat list \<Rightarrow> vdisk \<Rightarrow> vdisk \<Rightarrow> bool" where
  "freed ds s s' \<longleftrightarrow> dfree s' = (\<lambda>i. dfree s i \<or> i \<in> set ds) \<and> desc s' = (\<lambda>i. if i \<in> set ds then desc0 else desc s i)
     \<and> vrest s' = vrest s \<and> cur s' = cur s \<and> ptable s' = woken (if ds = [] then {} else {Ch_disk_free}) (cur s) (ptable s)"

lemma free_desc_ok:
  "i < NUM \<Longrightarrow> \<not> dfree s i \<Longrightarrow> \<exists>s'. free_desc i s = Ret s' \<and> freed [i] s s'"
  by (simp add: free_desc_def freed_def vrest_def wakeup_woken) (auto simp: fun_eq_iff)

lemma freed_trans: "freed [i] s t \<Longrightarrow> freed ds t u \<Longrightarrow> freed (i # ds) s u"
  by (auto simp: freed_def woken_woken intro!: ext)

lemma kfold_free_desc:
  "distinct ds \<Longrightarrow> set ds \<subseteq> {..<NUM} \<Longrightarrow> \<forall>i \<in> set ds. \<not> dfree s i \<Longrightarrow> \<exists>s'. kfold free_desc ds s = Ret s' \<and> freed ds s s'"
proof (induction ds arbitrary: s)
  case (Cons i ds)
  obtain t where t: "free_desc i s = Ret t" "freed [i] s t" using free_desc_ok[of i s] Cons.prems by auto
  have "\<forall>j \<in> set ds. \<not> dfree t j" using t(2) Cons.prems by (auto simp: freed_def)
  with Cons.IH[of t] Cons.prems obtain u where "kfold free_desc ds t = Ret u" "freed ds t u" by auto
  with t freed_trans show ?case by auto
qed (simp add: freed_def)

lemma free_chain_ok:
  assumes "blk_chain s b h wr ds" "\<forall>i \<in> set ds. \<not> dfree s i"
  shows "\<exists>s'. free_chain h s = Ret s' \<and> freed ds s s'"
proof -
  obtain m t where c: "ds = [h, m, t]" "distinct ds" "set ds \<subseteq> {..<NUM}"
    "d_flags (desc s h) = VRING_DESC_F_NEXT" "d_next (desc s h) = of_nat m"
    "d_flags (desc s m) = (if wr then 0 else VRING_DESC_F_WRITE) OR VRING_DESC_F_NEXT" "d_next (desc s m) = of_nat t"
    "d_flags (desc s t) = VRING_DESC_F_WRITE"
    using assms(1) by (auto simp: blk_chain_def)
  have u: "unat (of_nat m :: ushort) = m" "unat (of_nat t :: ushort) = t" using c(1,3) by (auto simp: NUM_def unat_of_nat)
  have fl: "VRING_DESC_F_NEXT AND VRING_DESC_F_NEXT \<noteq> 0" "((if wr then 0 else VRING_DESC_F_WRITE) OR VRING_DESC_F_NEXT) AND VRING_DESC_F_NEXT \<noteq> 0"
    "VRING_DESC_F_WRITE AND VRING_DESC_F_NEXT = 0"
    by (simp_all add: VRING_DESC_F_NEXT_def VRING_DESC_F_WRITE_def)
  obtain s1 where 1: "free_desc h s = Ret s1" "freed [h] s s1" using free_desc_ok[of h s] c assms(2) by auto
  have d1: "desc s1 m = desc s m" "desc s1 t = desc s t" "\<not> dfree s1 m" "\<not> dfree s1 t" using 1(2) c(1,2) assms(2) by (auto simp: freed_def)
  obtain s2 where 2: "free_desc m s1 = Ret s2" "freed [m] s1 s2" using free_desc_ok[of m s1] c d1 by auto
  have d2: "desc s2 t = desc s t" "\<not> dfree s2 t" using 2(2) c(1,2) d1 by (auto simp: freed_def)
  obtain s3 where 3: "free_desc t s2 = Ret s3" "freed [t] s2 s3" using free_desc_ok[of t s2] c d2 by auto
  have "free_chain h s = free_chain m s1" using 1(1) c(4,5) fl(1) u by (simp add: free_chain.simps[of h])
  also have "\<dots> = free_chain t s2" using 2(1) c(6,7) d1 fl(2) u by (simp add: free_chain.simps[of m])
  also have "\<dots> = Ret s3" using 3(1) c(8) d2 fl(3) by (simp add: free_chain.simps[of t])
  finally have "free_chain h s = Ret s3" .
  moreover have "freed ds s s3" unfolding c(1) by (rule freed_trans[OF 1(2) freed_trans[OF 2(2) 3(2)]])
  ultimately show ?thesis by blast
qed

text \<open>What \<^verbatim>\<open>alloc3_desc\<close> does: three free descriptors are taken, or nothing but cleared entries of free descriptors changes.\<close>

lemma alloc_desc_cases:
  obtains (got) i where "alloc_desc s = (int i, s\<lparr>dfree := (dfree s)(i := False)\<rparr>)" "i < NUM" "dfree s i"
  | (none) "alloc_desc s = (-1, s)" "\<forall>i < NUM. \<not> dfree s i"
proof (cases "find (dfree s) [0..<NUM]")
  case None
  then have "\<forall>i < NUM. \<not> dfree s i" by (auto simp: find_None_iff)
  with None show thesis by (intro none) (auto simp: alloc_desc_def)
next
  case (Some i)
  then have "i < NUM" "dfree s i" by (auto simp: find_Some_iff)
  with Some show thesis by (intro got[of i]) (auto simp: alloc_desc_def)
qed

definition taken :: "nat list \<Rightarrow> vdisk \<Rightarrow> vdisk" where
  "taken idx s = s\<lparr>dfree := (\<lambda>i. dfree s i \<and> i \<notin> set idx)\<rparr>"

lemma taken_simps [simp]:
  "desc (taken idx s) = desc s" "vrest (taken idx s) = vrest s" "dfree (taken idx s) i \<longleftrightarrow> dfree s i \<and> i \<notin> set idx"
  "ptable (taken idx s) = ptable s" "cur (taken idx s) = cur s"
  by (simp_all add: taken_def vrest_def)

lemma taken_snoc: "(taken idx s)\<lparr>dfree := (dfree (taken idx s))(i := False)\<rparr> = taken (idx @ [i]) s"
proof -
  have "(dfree (taken idx s))(i := False) = (\<lambda>j. dfree s j \<and> j \<notin> set (idx @ [i]))" by (auto simp: fun_eq_iff)
  then show ?thesis by (simp add: taken_def)
qed

lemma freed_taken: "freed idx (taken idx s) s' \<Longrightarrow> freed idx s s'"
  by (auto simp: freed_def fun_eq_iff)

lemma alloc_descs_cases:
  assumes "distinct idx" "set idx \<subseteq> {i. i < NUM \<and> dfree s i}"
  shows "(\<exists>js. alloc_descs n idx (taken idx s) = Ret (Some (idx @ js), taken (idx @ js) s) \<and> length js = n
            \<and> distinct (idx @ js) \<and> set (idx @ js) \<subseteq> {i. i < NUM \<and> dfree s i})
         \<or> (\<exists>s'. alloc_descs n idx (taken idx s) = Ret (None, s') \<and> (\<exists>ds. freed ds s s' \<and> set ds \<subseteq> Collect (dfree s)
            \<and> free_descs s \<subseteq> set ds \<and> length ds < length idx + n))"
  using assms
proof (induction n arbitrary: idx)
  case 0
  then show ?case by simp
next
  case (Suc n)
  show ?case
  proof (cases rule: alloc_desc_cases[of "taken idx s"])
    case (got i)
    have f: "dfree s i" "i \<notin> set idx" using got(3) by (simp_all add: taken_def)
    have e: "alloc_descs (Suc n) idx (taken idx s) = alloc_descs n (idx @ [i]) (taken (idx @ [i]) s)"
      using got(1) by (simp add: taken_snoc)
    have p: "distinct (idx @ [i])" "set (idx @ [i]) \<subseteq> {i. i < NUM \<and> dfree s i}" using Suc.prems f got(2) by simp_all
    from Suc.IH[OF p] show ?thesis
    proof (elim disjE exE conjE, goal_cases)
      case (1 js)
      then show ?case unfolding e by (intro disjI1 exI[of _ "i # js"]) simp
    next
      case (2 s' ds)
      then show ?case unfolding e by (intro disjI2 exI[of _ s'] conjI exI[of _ ds]) simp_all
    qed
  next
    case none
    have "\<forall>i \<in> set idx. \<not> dfree (taken idx s) i" "set idx \<subseteq> {..<NUM}" using Suc.prems by (auto simp: taken_def)
    then obtain s' where s': "kfold free_desc idx (taken idx s) = Ret s'" "freed idx (taken idx s) s'"
      using kfold_free_desc[OF Suc.prems(1)] by blast
    have "set idx \<subseteq> Collect (dfree s)" using Suc.prems(2) by blast
    moreover have "free_descs s \<subseteq> set idx" using none(2) by (auto simp: free_descs_def)
    ultimately show ?thesis using none(1) s'(1) freed_taken[OF s'(2)] by (intro disjI2 exI[of _ s'] conjI exI[of _ idx]) simp_all
  qed
qed

lemma alloc3_cases:
  obtains (got) i j k where "alloc3_desc s = Ret (Some [i, j, k], taken [i, j, k] s)" "distinct [i, j, k]"
      "set [i, j, k] \<subseteq> {i. i < NUM \<and> dfree s i}"
  | (none) ds s' where "alloc3_desc s = Ret (None, s')" "freed ds s s'" "set ds \<subseteq> Collect (dfree s)"
      "card (free_descs s) < 3"
proof -
  have e: "alloc3_desc s = alloc_descs 3 [] (taken [] s)" by (simp add: alloc3_desc_def taken_def)
  have "distinct ([] :: nat list)" "set [] \<subseteq> {i. i < NUM \<and> dfree s i}" by simp_all
  from alloc_descs_cases[OF this, of 3] show thesis
  proof (elim disjE exE conjE, goal_cases)
    case (1 js)
    from 1(2) obtain i j k where "js = [i, j, k]" by (auto simp: numeral_3_eq_3 length_Suc_conv)
    with 1 e show thesis by (intro got[of i j k]) simp_all
  next
    case (2 s' ds)
    have "card (free_descs s) \<le> card (set ds)" by (rule card_mono) (use 2 in auto)
    also have "\<dots> \<le> length ds" by (rule card_length)
    finally have "card (free_descs s) < 3" using 2 by simp
    with 2 e show thesis by (intro none[of s' ds]) simp_all
  qed
qed

lemma alloc3_some:
  assumes "alloc3_desc s = Ret (Some idx, s')"
  shows "\<exists>i j k. idx = [i, j, k] \<and> s' = taken [i, j, k] s \<and> distinct [i, j, k] \<and> set [i, j, k] \<subseteq> {i. i < NUM \<and> dfree s i}"
proof (cases rule: alloc3_cases[of s])
  case (got i j k)
  have "idx = [i, j, k]" "s' = taken [i, j, k] s" using assms got(1) by auto
  with got(2,3) show ?thesis by blast
qed (use assms in simp)

lemma alloc3_room:
  assumes "3 \<le> card (free_descs s)"
  shows "\<exists>i j k. alloc3_desc s = Ret (Some [i, j, k], taken [i, j, k] s) \<and> distinct [i, j, k] \<and> set [i, j, k] \<subseteq> {i. i < NUM \<and> dfree s i}"
proof (cases rule: alloc3_cases[of s])
  case (got i j k)
  then show ?thesis by blast
qed (use assms in simp)

lemma alloc3_none:
  assumes "alloc3_desc s = Ret (None, s')"
  shows "\<exists>ds. freed ds s s' \<and> set ds \<subseteq> Collect (dfree s) \<and> card (free_descs s) < 3"
proof (cases rule: alloc3_cases[of s])
  case (none ds t)
  with assms show ?thesis by (intro exI[of _ ds]) simp
qed (use assms in simp)

subsection \<open>Requests that a step leaves alone\<close>

definition same_reqs :: "(nat \<Rightarrow> nat option) \<Rightarrow> vdisk \<Rightarrow> vdisk \<Rightarrow> bool" where
  "same_reqs rq s s' \<longleftrightarrow> (\<forall>b h. rq b = Some h \<longrightarrow>
     (\<forall>i \<in> set (chain_of s h). desc s' i = desc s i \<and> dfree s' i = dfree s i)
     \<and> ops s' h = ops s h \<and> info_b s' h = info_b s h \<and> b_blockno (bufs s' b) = b_blockno (bufs s b))"

lemma chain_of_hd [simp]: "h \<in> set (chain_of s h)"
  by (simp add: chain_of_def Let_def)

lemma blk_chain_cong:
  "\<forall>i \<in> set ds. desc s' i = desc s i \<Longrightarrow> ops s' h = ops s h \<Longrightarrow> blk_chain s b h wr ds \<Longrightarrow> blk_chain s' b h wr ds"
  by (auto simp: blk_chain_def)

lemma same_reqs_chain:
  assumes "same_reqs rq s s'" "rq b = Some h"
  shows "chain_of s' h = chain_of s h" "req_ok s b h \<Longrightarrow> req_ok s' b h"
proof -
  have d: "\<forall>i \<in> set (chain_of s h). desc s' i = desc s i \<and> dfree s' i = dfree s i"
    and e: "ops s' h = ops s h" "info_b s' h = info_b s h" "b_blockno (bufs s' b) = b_blockno (bufs s b)"
    using assms unfolding same_reqs_def by blast+
  show c: "chain_of s' h = chain_of s h" using d by (simp add: chain_of_def Let_def)
  show "req_ok s b h \<Longrightarrow> req_ok s' b h" using d e blk_chain_cong[of "chain_of s h" s' s h b] by (auto simp: req_ok_def c)
qed

lemma reqs_inv_frame:
  assumes "reqs_inv rq s" "same_reqs rq s s'" "\<And>i. i < NUM \<Longrightarrow> dfree s i \<Longrightarrow> dfree s' i"
  shows "reqs_inv rq s'"
proof -
  note c = same_reqs_chain[OF assms(2)]
  have "\<forall>b h. rq b = Some h \<longrightarrow> req_ok s' b h" using assms(1) c(2) by (simp add: reqs_inv_def)
  moreover have "dfree s' i \<or> (\<exists>b h. rq b = Some h \<and> i \<in> set (chain_of s' h))" if i: "i < NUM" for i
  proof -
    from assms(1) i consider "dfree s i" | b h where "rq b = Some h" "i \<in> set (chain_of s h)" unfolding reqs_inv_def by blast
    then show ?thesis using assms(3)[OF i] c(1) by (cases; fastforce)
  qed
  ultimately show ?thesis using assms(1) c(1) by (simp add: reqs_inv_def)
qed

lemma reqs_invD:
  assumes "reqs_inv rq s" "rq b = Some h"
  shows "req_ok s b h" "info_b s h = Some b" "h < NUM" "\<not> dfree s h" "set (chain_of s h) \<subseteq> {..<NUM}" "i \<in> set (chain_of s h) \<Longrightarrow> \<not> dfree s i"
proof -
  show r: "req_ok s b h" using assms by (simp add: reqs_inv_def)
  then show "info_b s h = Some b" "\<not> dfree s h" "i \<in> set (chain_of s h) \<Longrightarrow> \<not> dfree s i" by (auto simp: req_ok_def)
  show c: "set (chain_of s h) \<subseteq> {..<NUM}" using r unfolding req_ok_def blk_chain_def by metis
  then show "h < NUM" using chain_of_hd[of h s] by blast
qed

lemma reqs_inj: "reqs_inv rq s \<Longrightarrow> rq b = Some h \<Longrightarrow> rq b' = Some h \<Longrightarrow> b = b'"
  by (metis reqs_invD(2) option.inject)

lemma reqs_disjoint:
  "reqs_inv rq s \<Longrightarrow> rq b = Some h \<Longrightarrow> rq b' = Some h' \<Longrightarrow> b \<noteq> b' \<Longrightarrow> set (chain_of s h) \<inter> set (chain_of s h') = {}"
  unfolding reqs_inv_def by blast

lemma outstandingD: "reqs_inv rq s \<Longrightarrow> rq b = Some h \<Longrightarrow> h \<in> outstanding rq s \<longleftrightarrow> b_disk s b = 1"
  using reqs_inj[of rq s] by (auto simp: outstanding_def)

lemma outstanding_add:
  "rq b = None \<Longrightarrow> b_disk s' = (b_disk s)(b := 1) \<Longrightarrow> outstanding (rq(b := Some i)) s' = insert i (outstanding rq s)"
  by (auto simp: outstanding_def) (metis option.distinct(1))

lemma outstanding_less: "reqs_inv rq s \<Longrightarrow> h \<in> outstanding rq s \<Longrightarrow> h < NUM \<and> \<not> dfree s h"
  using reqs_invD(3,4)[of rq s] by (auto simp: outstanding_def)

end
