(* ===== verification/DiskProps.thy ===== *)
theory DiskProps
  imports DiskSys
begin

text \<open>
  The disk driver keeps its invariant and implements the contract of \<^verbatim>\<open>virtio_disk_rw\<close>: first for each step of the system of driver, device
  and processes, then for every reachable state; no wakeup is lost and every call can be completed.
\<close>

unbundle bit_operations_syntax

subsection \<open>The interrupt handler\<close>

definition vkeep where
  "vkeep s = (bufs s, disk0 s, dwrites s, desc s, avail_idx s, avail_ring s, vused_idx s, used_ring s, dfree s, info_b s, info_status s, ops s)"

text \<open>When every completion reports success, the handler marks the buffers and wakes the processes that wait for them.\<close>

lemma intr_loop_ok:
  fixes s :: vdisk
  assumes "\<forall>h \<in> unat ` set (ring_list NUM (used_ring s) (used_idx s) (vused_idx s)). h < NUM \<and> info_status s h = 0 \<and> info_b s h = Some (f h)"
  shows "\<exists>s'. intr_loop s = Ret s' \<and> vkeep s' = vkeep s \<and> used_idx s' = vused_idx s
    \<and> b_disk s' = (\<lambda>b. if b \<in> f ` unat ` set (ring_list NUM (used_ring s) (used_idx s) (vused_idx s)) then 0 else b_disk s b)
    \<and> ptable s' = woken (Ch_bufp ` f ` unat ` set (ring_list NUM (used_ring s) (used_idx s) (vused_idx s))) (cur s) (ptable s)"
  using assms
proof (induction s rule: intr_loop.induct)
  case (1 s)
  show ?case
  proof (cases "used_idx s = vused_idx s")
    case True
    then show ?thesis by (simp add: intr_loop.simps)
  next
    case False
    let ?h = "unat (used_ring s (unat (used_idx s) mod NUM))"
    let ?w = "wakeup (Ch_bufp (f ?h)) (s\<lparr>b_disk := (b_disk s)(f ?h := 0)\<rparr>)"
    let ?s = "?w\<lparr>used_idx := used_idx ?w + 1\<rparr>"
    let ?l = "ring_list NUM (used_ring s) (used_idx s + 1) (vused_idx s)"
    have r: "ring_list NUM (used_ring s) (used_idx s) (vused_idx s) = used_ring s (unat (used_idx s) mod NUM) # ?l"
      using False by (intro ring_pop) (simp_all add: NUM_def)
    have h: "?h < NUM" "info_status s ?h = 0" "info_b s ?h = Some (f ?h)" using "1.prems" by (simp_all add: r)
    have nl: "\<not> NUM \<le> ?h" "\<not> info_status s ?h \<noteq> 0" using h by simp_all
    have "\<forall>h \<in> unat ` set ?l. h < NUM \<and> info_status s h = 0 \<and> info_b s h = Some (f h)" using "1.prems" by (simp add: r)
    then have "\<forall>h \<in> unat ` set (ring_list NUM (used_ring ?s) (used_idx ?s) (vused_idx ?s)).
        h < NUM \<and> info_status ?s h = 0 \<and> info_b ?s h = Some (f h)" by simp
    then obtain s' where s': "intr_loop ?s = Ret s'" "vkeep s' = vkeep ?s" "used_idx s' = vused_idx ?s"
        "b_disk s' = (\<lambda>b. if b \<in> f ` unat ` set (ring_list NUM (used_ring ?s) (used_idx ?s) (vused_idx ?s)) then 0 else b_disk ?s b)"
        "ptable s' = woken (Ch_bufp ` f ` unat ` set (ring_list NUM (used_ring ?s) (used_idx ?s) (vused_idx ?s))) (cur ?s) (ptable ?s)"
      using "1.IH"[OF False refl nl h(3) refl] by blast
    have "intr_loop s = Ret s'" using False h s'(1) by (subst intr_loop.simps) (simp add: Let_def)
    moreover have "vkeep s' = vkeep s" "used_idx s' = vused_idx s" using s'(2,3) by (simp_all add: vkeep_def)
    moreover have "b_disk s' = (\<lambda>b. if b \<in> f ` unat ` set (used_ring s (unat (used_idx s) mod NUM) # ?l) then 0 else b_disk s b)"
      unfolding s'(4) by (rule ext) simp
    moreover have "ptable s' = woken (Ch_bufp ` f ` unat ` set (used_ring s (unat (used_idx s) mod NUM) # ?l)) (cur s) (ptable s)"
      unfolding s'(5) by (simp add: wakeup_woken woken_woken)
    ultimately show ?thesis unfolding r by blast
  qed
qed

text \<open>A completion with another status stops the kernel.\<close>

lemma intr_loop_fails:
  fixes s :: vdisk
  assumes "\<forall>h \<in> unat ` set (ring_list NUM (used_ring s) (used_idx s) (vused_idx s)). h < NUM \<and> info_b s h = Some (f h)"
    "\<exists>h \<in> unat ` set (ring_list NUM (used_ring s) (used_idx s) (vused_idx s)). info_status s h \<noteq> 0"
  shows "intr_loop s = Panic ''virtio_disk_intr status''"
  using assms
proof (induction s rule: intr_loop.induct)
  case (1 s)
  then have False: "used_idx s \<noteq> vused_idx s" by auto
  let ?h = "unat (used_ring s (unat (used_idx s) mod NUM))"
  let ?w = "wakeup (Ch_bufp (f ?h)) (s\<lparr>b_disk := (b_disk s)(f ?h := 0)\<rparr>)"
  let ?s = "?w\<lparr>used_idx := used_idx ?w + 1\<rparr>"
  let ?l = "ring_list NUM (used_ring s) (used_idx s + 1) (vused_idx s)"
  have r: "ring_list NUM (used_ring s) (used_idx s) (vused_idx s) = used_ring s (unat (used_idx s) mod NUM) # ?l"
    using False by (intro ring_pop) (simp_all add: NUM_def)
  have h: "?h < NUM" "info_b s ?h = Some (f ?h)" using "1.prems" by (simp_all add: r)
  show ?case
  proof (cases "info_status s ?h = 0")
    case False': False
    then show ?thesis using False h by (subst intr_loop.simps) simp
  next
    case True
    have nl: "\<not> NUM \<le> ?h" "\<not> info_status s ?h \<noteq> 0" using h True by simp_all
    have "intr_loop ?s = Panic ''virtio_disk_intr status''"
      by (rule "1.IH"[OF False refl nl h(2) refl]) (use "1.prems" True in \<open>simp_all add: r\<close>)
    then show ?thesis using False h True by (subst intr_loop.simps) (simp add: Let_def)
  qed
qed

subsection \<open>The invariant holds\<close>

lemma reqs_inv_drop:
  assumes "reqs_inv rq s" "rq b = Some h" "same_reqs (rq(b := None)) s s'"
    "\<And>i. i < NUM \<Longrightarrow> dfree s i \<or> i \<in> set (chain_of s h) \<Longrightarrow> dfree s' i"
  shows "reqs_inv (rq(b := None)) s'"
proof -
  note c = same_reqs_chain[OF assms(3)]
  have "req_ok s' b' h'" if "(rq(b := None)) b' = Some h'" for b' h'
    using reqs_invD(1)[OF assms(1), of b' h'] c(2)[OF that] that by (simp split: if_splits)
  moreover have "set (chain_of s' h1) \<inter> set (chain_of s' h2) = {}"
    if "(rq(b := None)) b1 = Some h1" "(rq(b := None)) b2 = Some h2" "b1 \<noteq> b2" for b1 b2 h1 h2
    using assms(1) that c(1)[OF that(1)] c(1)[OF that(2)] by (simp add: reqs_inv_def split: if_splits)
  moreover have "dfree s' i \<or> (\<exists>b' h'. (rq(b := None)) b' = Some h' \<and> i \<in> set (chain_of s' h'))" if i: "i < NUM" for i
  proof -
    from assms(1) i consider "dfree s i" | b' h' where "rq b' = Some h'" "i \<in> set (chain_of s h')" unfolding reqs_inv_def by blast
    then show ?thesis
    proof cases
      case 2
      then show ?thesis using assms(2,4) i c(1)[of b' h'] by (cases "b' = b") auto
    qed (use assms(4) i in blast)
  qed
  ultimately show ?thesis unfolding reqs_inv_def by blast
qed

lemma reqs_inv_add:
  assumes "reqs_inv rq s" "rq b = None" "same_reqs rq s s'" "req_ok s' b h" "\<forall>i \<in> set (chain_of s' h). dfree s i"
    "\<And>i. i < NUM \<Longrightarrow> dfree s i \<Longrightarrow> dfree s' i \<or> i \<in> set (chain_of s' h)"
  shows "reqs_inv (rq(b := Some h)) s'"
proof -
  note c = same_reqs_chain[OF assms(3)]
  have new: "set (chain_of s' h) \<inter> set (chain_of s' h') = {}" if "rq b' = Some h'" for b' h'
    unfolding c(1)[OF that] using assms(5) reqs_invD(6)[OF assms(1) that] by blast
  have A: "req_ok s' b' h'" if "(rq(b := Some h)) b' = Some h'" for b' h'
    using reqs_invD(1)[OF assms(1), of b' h'] c(2)[of b' h'] that assms(4) by (simp split: if_splits)
  have B: "set (chain_of s' h1) \<inter> set (chain_of s' h2) = {}"
    if q: "(rq(b := Some h)) b1 = Some h1" "(rq(b := Some h)) b2 = Some h2" "b1 \<noteq> b2" for b1 b2 h1 h2
  proof -
    consider "b1 = b" | "b2 = b" | "b1 \<noteq> b" "b2 \<noteq> b" by blast
    then show ?thesis
    proof cases
      case 1
      then show ?thesis using new[of b2 h2] q by simp
    next
      case 2
      then show ?thesis using new[of b1 h1] q by (simp add: Int_commute)
    next
      case 3
      then have r: "rq b1 = Some h1" "rq b2 = Some h2" using q by simp_all
      show ?thesis unfolding c(1)[OF r(1)] c(1)[OF r(2)] by (rule reqs_disjoint[OF assms(1) r q(3)])
    qed
  qed
  have C: "dfree s' i \<or> (\<exists>b' h'. (rq(b := Some h)) b' = Some h' \<and> i \<in> set (chain_of s' h'))" if i: "i < NUM" for i
  proof -
    from assms(1) i consider "dfree s i" | b' h' where "rq b' = Some h'" "i \<in> set (chain_of s h')" unfolding reqs_inv_def by blast
    then show ?thesis
    proof cases
      case 1
      then show ?thesis using assms(6)[OF i 1] by (metis fun_upd_same)
    next
      case 2
      then have "(rq(b := Some h)) b' = Some h'" "i \<in> set (chain_of s' h')" using assms(2) c(1)[OF 2(1)] by (auto split: if_splits)
      then show ?thesis by blast
    qed
  qed
  show ?thesis unfolding reqs_inv_def by (intro conjI allI impI) (erule A, erule (2) B, erule C)
qed

lemma flow_fetch: "flow_inv (h # av) bz us hs \<Longrightarrow> flow_inv av (insert h bz) us hs"
  by (auto simp: flow_inv_def)

lemma flow_serve: "flow_inv av bz us hs \<Longrightarrow> h \<in> bz \<Longrightarrow> flow_inv av (bz - {h}) (us @ [h]) hs"
  by (auto simp: flow_inv_def)

lemma flow_irq: "flow_inv av bz us hs \<Longrightarrow> flow_inv av bz [] (hs - set us)"
  by (auto simp: flow_inv_def)

lemma flow_start: "flow_inv av bz us hs \<Longrightarrow> h \<notin> hs \<Longrightarrow> flow_inv (av @ [h]) bz us (insert h hs)"
  by (auto simp: flow_inv_def)

lemma room:
  assumes "distinct l" "set l \<subseteq> {..<NUM}" "h < NUM" "h \<notin> set l"
  shows "length l < NUM"
proof -
  have "card (insert h (set l)) \<le> card {..<NUM}" using assms by (intro card_mono) auto
  then show ?thesis using assms by (simp add: distinct_card)
qed

lemma vd_invD:
  assumes "vd_inv x"
  shows "reqs_inv (reqs x) (vs x)" "flow_inv (availq x) (busy x) (usedq x) (outstanding (reqs x) (vs x))"
    "reqs x b = None \<Longrightarrow> b_disk (vs x) b \<noteq> 1" "call_inv x" "sleep_inv x"
  using assms by (simp_all add: vd_inv_def)

lemma vd_inv_flow:
  assumes "vd_inv x" "h \<in> set (availq x) \<union> busy x \<union> set (usedq x)"
  obtains b where "reqs x b = Some h" "b_disk (vs x) b = 1" "h < NUM"
proof -
  have "h \<in> outstanding (reqs x) (vs x)" using vd_invD(2)[OF assms(1)] assms(2) by (simp add: flow_inv_def)
  then show thesis using that outstanding_less[OF vd_invD(1)[OF assms(1)]] by (auto simp: outstanding_def)
qed

lemma call_invD:
  assumes "call_inv x"
  shows "who x b = None \<Longrightarrow> reqs x b = None" "who x b = Some (i, wr) \<Longrightarrow> call_ok x b i wr"
  using assms by (auto simp: call_inv_def)

text \<open>Which process runs is not part of the invariant.\<close>

lemma cur_simps [simp]:
  "vd_inv (x\<lparr>vs := (vs x)\<lparr>cur := c\<rparr>\<rparr>) \<longleftrightarrow> vd_inv x" "rw_abs (x\<lparr>vs := (vs x)\<lparr>cur := c\<rparr>\<rparr>) = rw_abs x"
proof -
  let ?s = "(vs x)\<lparr>cur := c\<rparr>"
  have q: "availq (x\<lparr>vs := ?s\<rparr>) = availq x" "usedq (x\<lparr>vs := ?s\<rparr>) = usedq x" by (simp_all add: availq_def usedq_def)
  have r: "chain_of ?s = chain_of (vs x)" "req_ok ?s = req_ok (vs x)" "outstanding (reqs x) ?s = outstanding (reqs x) (vs x)"
    by (auto simp: fun_eq_iff chain_of_def req_ok_def blk_chain_def outstanding_def Let_def)
  show "vd_inv (x\<lparr>vs := ?s\<rparr>) \<longleftrightarrow> vd_inv x"
    by (simp add: vd_inv_def q r reqs_inv_def call_inv_def call_ok_def sleep_inv_def free_descs_def asleep_def)
  show "rw_abs (x\<lparr>vs := ?s\<rparr>) = rw_abs x"
    by (simp add: rw_abs_def rw_status_def q store_def fun_eq_iff split: option.split)
qed

subsection \<open>Changes of the calls\<close>

lemma calls_drop:
  assumes "call_inv y" "sleep_inv y" "b_disk (vs y) b \<noteq> 1"
  shows "call_inv (y\<lparr>who := (who y)(b := None), reqs := (reqs y)(b := None)\<rparr>)"
    "sleep_inv (y\<lparr>who := (who y)(b := None), reqs := (reqs y)(b := None)\<rparr>)"
  using assms by (auto simp: call_inv_def call_ok_def sleep_inv_def)

lemma calls_add:
  assumes "call_inv y" "sleep_inv y" "reqs y b = None" "who y b = Some (i, wr)" "awake y i" "r_type (ops (vs y) h) = VIRTIO_BLK_T_OUT \<longleftrightarrow> wr"
  shows "call_inv (y\<lparr>reqs := (reqs y)(b := Some h)\<rparr>)" "sleep_inv (y\<lparr>reqs := (reqs y)(b := Some h)\<rparr>)"
  using assms by (auto simp: call_inv_def call_ok_def sleep_inv_def)

lemma calls_new:
  assumes "call_inv x" "sleep_inv x" "who x b = None" "i < NPROC" "awake x i" "\<And>b' wr'. who x b' \<noteq> Some (i, wr')"
    "b_blockno (bufs (vs x) b) < 2 ^ 31"
  shows "call_inv (x\<lparr>who := (who x)(b := Some (i, wr))\<rparr>)" "sleep_inv (x\<lparr>who := (who x)(b := Some (i, wr))\<rparr>)"
  using assms by (auto simp: call_inv_def call_ok_def sleep_inv_def)

subsection \<open>The steps\<close>

text \<open>What each step has to show.\<close>

definition step_ok :: "vsys \<Rightarrow> vsys \<Rightarrow> bool" where
  "step_ok x y \<longleftrightarrow> vd_inv y \<and> (rw_step (rw_abs x) (rw_abs y) \<or> rw_abs y = rw_abs x)"

lemma dozing_simps [simp]:
  "vrest (dozing i c s) = vrest s" "desc (dozing i c s) = desc s" "dfree (dozing i c s) = dfree s"
  "bufs (dozing i c s) = bufs s" "ops (dozing i c s) = ops s" "b_disk (dozing i c s) = b_disk s"
  "ptable (dozing i c s) = (ptable s)(i := (ptable s i)\<lparr>p_chan := Some c, p_state := SLEEPING\<rparr>)"
  by (simp_all add: dozing_def upd_proc_def vrest_def)

text \<open>Going to sleep for the right reason keeps the invariant.\<close>

lemma doze_ok:
  assumes x: "vd_inv x" and b: "who x b = Some (i, wr)"
    and c: "c = (if reqs x b = None then Ch_disk_free else Ch_bufp b)"
    and w: "if reqs x b = None then card (free_descs (vs x)) < 3 else b_disk (vs x) b = 1"
  shows "step_ok x (x\<lparr>vs := dozing i c (vs x)\<rparr>)" (is "step_ok x ?y")
proof -
  note v = vrestD[OF dozing_simps(1)[of i c "vs x"]]
  have q: "availq ?y = availq x" "usedq ?y = usedq x" "outstanding (reqs x) (vs ?y) = outstanding (reqs x) (vs x)"
    by (simp_all add: availq_def usedq_def outstanding_def v)
  have "same_reqs (reqs x) (vs x) (vs ?y)" by (auto simp: same_reqs_def v)
  then have "reqs_inv (reqs x) (vs ?y)" by (rule reqs_inv_frame[OF vd_invD(1)[OF x]]) simp
  moreover have "call_ok ?y b' i' wr'" if b': "who x b' = Some (i', wr')" for b' i' wr'
  proof -
    have k: "call_ok x b' i' wr'" by (rule call_invD(2)[OF vd_invD(4)[OF x] b'])
    then have "i' = i \<Longrightarrow> b' = b" using b by (auto simp: call_ok_def)
    with k show ?thesis by (cases "i' = i") (auto simp: call_ok_def c)
  qed
  then have "call_inv ?y" using vd_invD(4)[OF x] unfolding call_inv_def by simp
  moreover have as: "asleep ch (vs ?y) k \<Longrightarrow> k = i \<and> ch = c \<or> asleep ch (vs x) k" for ch k
    by (auto simp: asleep_def split: if_splits)
  have "sleep_inv ?y"
    unfolding sleep_inv_def
  proof (intro conjI allI impI, goal_cases)
    case (1 k)
    from as[OF 1] show ?case using vd_invD(5)[OF x] w c by (auto simp: sleep_inv_def free_descs_def split: if_splits)
  next
    case (2 b' k)
    from as[OF 2] show ?case using vd_invD(5)[OF x] w c by (auto simp: sleep_inv_def split: if_splits)
  next
    case (3 b' k)
    from as[OF 3] show ?case using vd_invD(5)[OF x] w c by (auto simp: sleep_inv_def split: if_splits)
  qed
  ultimately have "vd_inv ?y" using x q by (simp add: vd_inv_def v)
  moreover have "rw_abs ?y = rw_abs x" by (simp add: rw_abs_def rw_status_def q store_def v fun_eq_iff split: option.split)
  ultimately show ?thesis by (simp add: step_ok_def)
qed

lemma own_ok:
  assumes "vd_inv x" "who x b = None"
  shows "step_ok x (x\<lparr>vs := upd_buf b f (vs x)\<rparr>)" (is "step_ok x ?y")
proof -
  note I = vd_invD[OF assms(1)]
  have b: "reqs x b = None" by (rule call_invD(1)[OF I(4) assms(2)])
  have q: "availq ?y = availq x" "usedq ?y = usedq x" "outstanding (reqs x) (vs ?y) = outstanding (reqs x) (vs x)"
    by (simp_all add: availq_def usedq_def upd_buf_def outstanding_def)
  have "same_reqs (reqs x) (vs x) (vs ?y)" using b by (auto simp: same_reqs_def upd_buf_def)
  then have "reqs_inv (reqs x) (vs ?y)" by (rule reqs_inv_frame[OF I(1)]) (simp add: upd_buf_def)
  moreover have "call_inv ?y" "sleep_inv ?y"
    using assms(2) by (intro calls_frame[OF I(4,5)]; auto simp: upd_buf_def free_descs_def)+
  ultimately have "vd_inv ?y" using assms(1) q by (simp add: vd_inv_def upd_buf_def)
  moreover have "rw_status ?y = rw_status x" using q by (simp add: rw_status_def fun_eq_iff upd_buf_def split: option.split)
  then have "rw_abs ?y = (rw_abs x)\<lparr>rw_store := store (upd_buf b f (vs x))\<rparr>" by (simp add: rw_abs_def)
  moreover have "rw_step (rw_abs x) ((rw_abs x)\<lparr>rw_store := store (upd_buf b f (vs x))\<rparr>)"
    using assms(2) by (intro rw_own) (simp_all add: rw_abs_def)
  ultimately show ?thesis by (simp add: step_ok_def)
qed

lemma call_step_ok:
  assumes "vd_inv x" "who x b = None" "i < NPROC" "awake x i" "\<And>b' wr'. who x b' \<noteq> Some (i, wr')" "b_blockno (bufs (vs x) b) < 2 ^ 31"
  shows "step_ok x (x\<lparr>who := (who x)(b := Some (i, wr))\<rparr>)" (is "step_ok x ?y")
proof -
  note I = vd_invD[OF assms(1)]
  have q: "availq ?y = availq x" "usedq ?y = usedq x" by (simp_all add: availq_def usedq_def)
  then have st: "rw_status ?y = rw_status x" by (simp add: rw_status_def fun_eq_iff split: option.split)
  have "vd_inv ?y" using assms(1) calls_new[OF I(4,5) assms(2-6)] by (simp add: vd_inv_def q)
  moreover have "rw_step (rw_abs x) ((rw_abs x)\<lparr>rw_calls := (rw_calls (rw_abs x))(b := Some (wr, Pending))\<rparr>)"
    using assms(2) by (intro rw_call) (simp add: rw_abs_def)
  moreover have "rw_abs ?y = (rw_abs x)\<lparr>rw_calls := (rw_calls (rw_abs x))(b := Some (wr, Pending))\<rparr>"
    using call_invD(1)[OF I(4) assms(2)] by (simp add: rw_abs_def st fun_eq_iff) (simp add: rw_status_def)
  ultimately show ?thesis by (simp add: step_ok_def)
qed

lemma other_ok:
  assumes "vd_inv x" "none_dozes x pt"
  shows "step_ok x (x\<lparr>vs := (vs x)\<lparr>ptable := pt, cur := c\<rparr>\<rparr>)" (is "step_ok x ?y")
proof -
  note I = vd_invD[OF assms(1)]
  have q: "availq ?y = availq x" "usedq ?y = usedq x" "outstanding (reqs x) (vs ?y) = outstanding (reqs x) (vs x)"
    by (simp_all add: availq_def usedq_def outstanding_def)
  have "same_reqs (reqs x) (vs x) (vs ?y)" by (auto simp: same_reqs_def)
  then have "reqs_inv (reqs x) (vs ?y)" by (rule reqs_inv_frame[OF I(1)]) simp
  moreover have "call_inv ?y" "sleep_inv ?y" using assms(2) by (intro calls_frame[OF I(4,5)]; auto simp: free_descs_def)+
  ultimately have "vd_inv ?y" using assms(1) q by (simp add: vd_inv_def)
  moreover have "rw_abs ?y = rw_abs x" by (simp add: rw_abs_def rw_status_def q store_def fun_eq_iff split: option.split)
  ultimately show ?thesis by (simp add: step_ok_def)
qed

lemma freed_ok:
  assumes "vd_inv x" "freed ds (vs x) s" "set ds \<subseteq> Collect (dfree (vs x))"
  shows "vd_inv (x\<lparr>vs := s\<rparr>)" "rw_abs (x\<lparr>vs := s\<rparr>) = rw_abs x" "dfree s = dfree (vs x)"
proof -
  let ?y = "x\<lparr>vs := s\<rparr>"
  note I = vd_invD[OF assms(1)]
  have f: "dfree s = dfree (vs x)" "\<And>i. i \<notin> set ds \<Longrightarrow> desc s i = desc (vs x) i" "vrest s = vrest (vs x)"
    using assms(2,3) by (auto simp: freed_def fun_eq_iff)
  have nd: "none_dozes x (ptable s)" using assms(2) by (simp add: freed_def)
  note v = vrestD[OF f(3)]
  have q: "availq ?y = availq x" "usedq ?y = usedq x" "outstanding (reqs x) (vs ?y) = outstanding (reqs x) (vs x)"
    by (simp_all add: availq_def usedq_def outstanding_def v)
  have "desc s i = desc (vs x) i" if "reqs x b = Some h" "i \<in> set (chain_of (vs x) h)" for b h i
    using reqs_invD(6)[OF I(1) that] assms(3) by (intro f(2)) auto
  then have "same_reqs (reqs x) (vs x) s" by (auto simp: same_reqs_def v f(1))
  then have "reqs_inv (reqs x) s" by (rule reqs_inv_frame[OF I(1)]) (simp add: f)
  moreover have "call_inv ?y" "sleep_inv ?y" using nd by (intro calls_frame[OF I(4,5)]; auto simp: free_descs_def f(1) v)+
  ultimately show "vd_inv ?y" using assms(1) q by (simp add: vd_inv_def v)
  show "rw_abs ?y = rw_abs x" by (simp add: rw_abs_def rw_status_def q store_def v fun_eq_iff split: option.split)
  show "dfree s = dfree (vs x)" by (rule f(1))
qed

lemma full_ok:
  assumes x: "vd_inv x" and f: "freed ds (vs x) s" "set ds \<subseteq> Collect (dfree (vs x))" "card (free_descs (vs x)) < 3"
    and b: "who x b = Some (i, wr)" "reqs x b = None"
  shows "step_ok x (x\<lparr>vs := dozing i Ch_disk_free s\<rparr>)"
proof -
  note F = freed_ok[OF x f(1,2)]
  have "step_ok (x\<lparr>vs := s\<rparr>) (x\<lparr>vs := s\<rparr>\<lparr>vs := dozing i Ch_disk_free (vs (x\<lparr>vs := s\<rparr>))\<rparr>)"
    using f(3) b F(3) by (intro doze_ok[OF F(1)]) (auto simp: free_descs_def)
  then show ?thesis using F(2) by (simp add: step_ok_def)
qed

lemma fetch_ok:
  assumes "vd_inv x" "seen x \<noteq> avail_idx (vs x)"
  shows "step_ok x (x\<lparr>seen := seen x + 1, busy := insert (unat (avail_ring (vs x) (unat (seen x) mod NUM))) (busy x)\<rparr>)"
    (is "step_ok x ?y")
proof -
  let ?h = "unat (avail_ring (vs x) (unat (seen x) mod NUM))"
  have a: "availq x = ?h # availq ?y" using assms(2) by (simp add: availq_def ring_pop NUM_def)
  have u: "usedq ?y = usedq x" by (simp add: usedq_def)
  have "flow_inv (availq ?y) (busy ?y) (usedq ?y) (outstanding (reqs ?y) (vs ?y))"
    using flow_fetch[of ?h "availq ?y"] vd_invD(2)[OF assms(1)] a u by simp
  moreover have "call_inv ?y" "sleep_inv ?y" by (intro calls_frame[OF vd_invD(4,5)[OF assms(1)]]; simp)+
  ultimately have "vd_inv ?y" using assms(1) u by (simp add: vd_inv_def)
  moreover have "set (availq ?y) \<union> busy ?y = set (availq x) \<union> busy x" using a by auto
  then have "rw_status ?y = rw_status x" using u by (simp add: rw_status_def fun_eq_iff split: option.split)
  then have "rw_abs ?y = rw_abs x" by (simp add: rw_abs_def)
  ultimately show ?thesis by (simp add: step_ok_def)
qed

lemma sector_block: "bn < 2 ^ 31 \<Longrightarrow> ucast ((ucast (bn * 2 :: uint) :: u64) div 2) = bn"
proof -
  assume b: "bn < 2 ^ 31"
  then have l: "unat bn < 2 ^ 31" by (simp add: word_less_nat_alt)
  then have "unat (bn * 2) = unat bn * 2" by (simp add: unat_word_ariths(2))
  then have "unat ((ucast (bn * 2) :: u64) div 2) = unat bn" by (simp add: unat_div)
  then show ?thesis using l by (simp add: word_unat_eq_iff unsigned_ucast_eq take_bit_nat_eq_self_iff)
qed

lemma transfer_rw:
  assumes "r_sector (ops s h) = ucast (b_blockno (bufs s b) * 2)" "b_blockno (bufs s b) < 2 ^ 31"
  shows "transfer b wr (r_sector (ops s h)) s = virtio_disk_rw b wr s"
  using sector_block[OF assms(2)] by (simp add: transfer_def virtio_disk_rw_def assms(1))

text \<open>What the device leaves of a request with the status \<open>st\<close>, and what it leaves alone.\<close>

definition served :: "nat \<Rightarrow> bool \<Rightarrow> uchar \<Rightarrow> vdisk \<Rightarrow> vdisk \<Rightarrow> bool" where
  "served b wr st s t \<longleftrightarrow> (if st = 0 then t = virtio_disk_rw b wr s else spoiled b wr (b_blockno (bufs s b)) s t)"

lemma served_keeps:
  assumes "served b wr st s t"
  shows "desc t = desc s" "avail_idx t = avail_idx s" "avail_ring t = avail_ring s" "vused_idx t = vused_idx s" "used_ring t = used_ring s"
    "dfree t = dfree s" "used_idx t = used_idx s" "info_b t = info_b s" "info_status t = info_status s" "ops t = ops s" "b_disk t = b_disk s"
    "b_blockno (bufs t b') = b_blockno (bufs s b')" "ptable t = ptable s"
  using assms by (auto simp: served_def spoiled_def virtio_disk_rw_def upd_buf_def split: if_splits)

lemma blk_chain_wr: "blk_chain s b h wr ds \<Longrightarrow> r_type (ops s h) = VIRTIO_BLK_T_OUT \<longleftrightarrow> wr"
  by (cases wr) (auto simp: blk_chain_def VIRTIO_BLK_T_IN_def VIRTIO_BLK_T_OUT_def)

lemma serve_used:
  assumes x: "vd_inv x" and d: "virtio_block dev" and h: "h \<in> busy x" "dev h (vs x) s"
  shows "\<exists>b i wr st t. who x b = Some (i, wr) \<and> reqs x b = Some h \<and> s = completed h st t \<and> served b wr st (vs x) t"
    "usedq (x\<lparr>vs := s, busy := busy x - {h}\<rparr>) = usedq x @ [h]"
proof -
  note I = vd_invD[OF x]
  obtain b where b: "reqs x b = Some h" "b_disk (vs x) b = 1" "h < NUM" using vd_inv_flow[OF x, of h] h(1) by blast
  obtain i wr where w: "who x b = Some (i, wr)" using call_invD(1)[OF I(4), of b] b(1) by (cases "who x b") auto
  obtain wr' where r: "blk_chain (vs x) b h wr' (chain_of (vs x) h)" "r_sector (ops (vs x) h) = ucast (b_blockno (bufs (vs x) b) * 2)"
      "b_blockno (bufs (vs x) b) < 2 ^ 31"
    using reqs_invD(1)[OF I(1) b(1)] by (auto simp: req_ok_def)
  have "wr' = wr" using call_invD(2)[OF I(4) w] b(1) blk_chain_wr[OF r(1)] by (simp add: call_ok_def)
  with r(1) obtain st t where s: "s = completed h st t" "if st = 0 then t = transfer b wr (r_sector (ops (vs x) h)) (vs x)
      else spoiled b wr (ucast (r_sector (ops (vs x) h) div 2)) (vs x) t"
    using d h(2) unfolding virtio_block_def by meson
  have "ucast (r_sector (ops (vs x) h) div 2) = b_blockno (bufs (vs x) b)" unfolding r(2) by (rule sector_block[OF r(3)])
  with s(2) have t: "served b wr st (vs x) t" using transfer_rw[OF r(2,3), of wr] by (cases "st = 0") (simp_all add: served_def)
  with s(1) w b(1) show "\<exists>b i wr st t. who x b = Some (i, wr) \<and> reqs x b = Some h \<and> s = completed h st t \<and> served b wr st (vs x) t" by blast
  have un: "h \<notin> set (usedq x)" "distinct (usedq x)" using I(2) h(1) by (auto simp: flow_inv_def)
  have "length (usedq x) < NUM"
    using vd_inv_flow[OF x] by (intro room[OF un(2) _ b(3) un(1)]) blast
  then show "usedq (x\<lparr>vs := s, busy := busy x - {h}\<rparr>) = usedq x @ [h]" using b(3) unfolding s(1)
    by (simp add: usedq_def completed_def served_keeps[OF t] ring_push NUM_def unat_of_nat)
qed

lemma serve_ok:
  assumes x: "vd_inv x" and d: "virtio_block dev" and h: "h \<in> busy x" "dev h (vs x) s"
  shows "step_ok x (x\<lparr>vs := s, busy := busy x - {h}\<rparr>)" (is "step_ok x ?y")
proof -
  note I = vd_invD[OF x] and u = serve_used(2)[OF x d h]
  obtain b i wr st t where w: "who x b = Some (i, wr)" and b: "reqs x b = Some h"
    and s: "s = completed h st t" and t: "served b wr st (vs x) t" using serve_used(1)[OF x d h] by blast
  note K = served_keeps[OF t]
  have un: "h \<notin> set (availq x)" "h \<notin> set (usedq x)" using I(2) h(1) by (auto simp: flow_inv_def)
  have a: "availq ?y = availq x" by (simp add: s availq_def completed_def K)
  have "same_reqs (reqs x) (vs x) s" by (simp add: same_reqs_def s completed_def K)
  then have ri: "reqs_inv (reqs x) s" by (rule reqs_inv_frame[OF I(1)]) (simp add: s completed_def K)
  have "outstanding (reqs x) s = outstanding (reqs x) (vs x)" by (simp add: outstanding_def s completed_def K)
  then have "flow_inv (availq ?y) (busy ?y) (usedq ?y) (outstanding (reqs ?y) (vs ?y))"
    using flow_serve[OF I(2) h(1)] by (simp add: a u)
  moreover have "call_inv ?y" "sleep_inv ?y"
    by (intro calls_frame[OF I(4,5)]; simp add: s completed_def K free_descs_def)+
  ultimately have "vd_inv ?y" using x ri by (simp add: vd_inv_def s completed_def K)
  moreover have p: "rw_calls (rw_abs x) b = Some (wr, Pending)" using w b h(1) by (simp add: rw_abs_def rw_status_def)
  have st: "rw_status ?y (reqs x b') = (if b' = b then if st = 0 then Done else Failed else rw_status x (reqs x b'))" for b'
    using b un a u reqs_inj[OF I(1) b, of b'] by (cases "reqs x b'") (auto simp: rw_status_def s completed_def K)
  have sto: "store s = store t" by (simp add: store_def s completed_def)
  have "rw_abs ?y = (rw_abs x)\<lparr>rw_store := store t, rw_calls := (rw_calls (rw_abs x))(b := Some (wr, if st = 0 then Done else Failed))\<rparr>"
    using w sto by (simp add: rw_abs_def st fun_eq_iff)
  moreover have "rw_step (rw_abs x) \<dots>"
    using rw_do[OF p, of "vs x"] rw_fail[OF p, of "vs x" t] t by (cases "st = 0") (simp_all add: served_def, simp_all add: rw_abs_def)
  ultimately show ?thesis by (simp add: step_ok_def)
qed

text \<open>The handler returns exactly when every completion reports success.\<close>

lemma used_info:
  assumes x: "vd_inv x" and h: "h \<in> set (usedq x)"
  shows "h < NUM \<and> info_b (vs x) h = Some (the (info_b (vs x) h))" "\<exists>b. reqs x b = Some h \<and> info_b (vs x) h = Some b"
proof -
  obtain b where "reqs x b = Some h" "h < NUM" using vd_inv_flow[OF x, of h] h by blast
  then show "h < NUM \<and> info_b (vs x) h = Some (the (info_b (vs x) h))" "\<exists>b. reqs x b = Some h \<and> info_b (vs x) h = Some b"
    using reqs_invD(2)[OF vd_invD(1)[OF x], of b h] by auto
qed

lemma irq_fails:
  assumes x: "vd_inv x" and h: "h \<in> set (usedq x)" "info_status (vs x) h \<noteq> 0"
  shows "virtio_disk_intr (vs x) = Panic ''virtio_disk_intr status''"
proof -
  have u: "unat ` set (ring_list NUM (used_ring (vs x)) (used_idx (vs x)) (vused_idx (vs x))) = set (usedq x)" by (simp add: usedq_def)
  show ?thesis
    unfolding virtio_disk_intr_def using used_info(1)[OF x] h by (intro intr_loop_fails[where f = "\<lambda>h. the (info_b (vs x) h)"]) (auto simp: u)
qed

lemma irq_returns:
  assumes x: "vd_inv x" and ok: "\<forall>h \<in> set (usedq x). info_status (vs x) h = 0"
  obtains s C where "virtio_disk_intr (vs x) = Ret s" "vkeep s = vkeep (vs x)" "used_idx s = vused_idx (vs x)"
    "\<And>b h. reqs x b = Some h \<Longrightarrow> b_disk s b = (if h \<in> set (usedq x) then 0 else b_disk (vs x) b)"
    "\<And>b. reqs x b = None \<Longrightarrow> b_disk s b \<noteq> 1" "ptable s = woken C (cur (vs x)) (ptable (vs x))"
    "\<And>b h. reqs x b = Some h \<Longrightarrow> h \<in> set (usedq x) \<Longrightarrow> Ch_bufp b \<in> C"
proof -
  note I = vd_invD[OF x]
  have u: "unat ` set (ring_list NUM (used_ring (vs x)) (used_idx (vs x)) (vused_idx (vs x))) = set (usedq x)" by (simp add: usedq_def)
  let ?f = "\<lambda>h. the (info_b (vs x) h)"
  have "\<forall>h \<in> set (usedq x). h < NUM \<and> info_status (vs x) h = 0 \<and> info_b (vs x) h = Some (?f h)" using used_info(1)[OF x] ok by blast
  then obtain s where s: "intr_loop (vs x) = Ret s" "vkeep s = vkeep (vs x)" "used_idx s = vused_idx (vs x)"
      "b_disk s = (\<lambda>b. if b \<in> ?f ` set (usedq x) then 0 else b_disk (vs x) b)"
      "ptable s = woken (Ch_bufp ` ?f ` set (usedq x)) (cur (vs x)) (ptable (vs x))"
    using intr_loop_ok[of "vs x" ?f] unfolding u by blast
  have f: "b \<in> ?f ` set (usedq x) \<longleftrightarrow> h \<in> set (usedq x)" if "reqs x b = Some h" for b h
  proof
    assume "b \<in> ?f ` set (usedq x)"
    then obtain h' where h': "h' \<in> set (usedq x)" "b = ?f h'" by blast
    with used_info(2)[OF x h'(1)] that show "h \<in> set (usedq x)" by auto
  next
    assume "h \<in> set (usedq x)"
    then show "b \<in> ?f ` set (usedq x)" using reqs_invD(2)[OF I(1) that] by force
  qed
  show thesis
  proof (rule that[of s "Ch_bufp ` ?f ` set (usedq x)"])
    show "virtio_disk_intr (vs x) = Ret s" using s(1) by (simp add: virtio_disk_intr_def)
    show "b_disk s b = (if h \<in> set (usedq x) then 0 else b_disk (vs x) b)" if "reqs x b = Some h" for b h using s(4) f[OF that] by simp
    show "b_disk s b \<noteq> 1" if "reqs x b = None" for b using s(4) I(3)[OF that] by simp
    show "Ch_bufp b \<in> Ch_bufp ` ?f ` set (usedq x)" if "reqs x b = Some h" "h \<in> set (usedq x)" for b h using f[OF that(1)] that(2) by blast
  qed (rule s)+
qed

lemma irq_ok:
  assumes x: "vd_inv x" and s: "virtio_disk_intr (vs x) = Ret s" and c: "\<And>i. cur (vs x) = Some i \<Longrightarrow> awake x i"
  shows "step_ok x (x\<lparr>vs := s\<rparr>)" "usedq (x\<lparr>vs := s\<rparr>) = []" (is "usedq ?y = []")
proof -
  note I = vd_invD[OF x]
  have ok: "\<forall>h \<in> set (usedq x). info_status (vs x) h = 0" using irq_fails[OF x] s by (metis kres.distinct(1))
  obtain s' C where "virtio_disk_intr (vs x) = Ret s'" and i': "vkeep s' = vkeep (vs x)" "used_idx s' = vused_idx (vs x)"
    "\<And>b h. reqs x b = Some h \<Longrightarrow> b_disk s' b = (if h \<in> set (usedq x) then 0 else b_disk (vs x) b)" "\<And>b. reqs x b = None \<Longrightarrow> b_disk s' b \<noteq> 1"
    "ptable s' = woken C (cur (vs x)) (ptable (vs x))" "\<And>b h. reqs x b = Some h \<Longrightarrow> h \<in> set (usedq x) \<Longrightarrow> Ch_bufp b \<in> C"
    by (rule irq_returns[OF x ok]) blast
  then have "s' = s" using s by simp
  note i = i'[unfolded \<open>s' = s\<close>]
  have q: "availq ?y = availq x" "usedq ?y = []" using i(1,2) by (simp_all add: availq_def usedq_def vkeep_def)
  then show "usedq ?y = []" by simp
  have "outstanding (reqs x) s = outstanding (reqs x) (vs x) - set (usedq x)" using i(3) by (auto simp: outstanding_def split: if_splits)
  then have "flow_inv (availq ?y) (busy ?y) (usedq ?y) (outstanding (reqs ?y) (vs ?y))" using flow_irq[OF I(2)] by (simp add: q)
  moreover have "same_reqs (reqs x) (vs x) s" using i(1) by (simp add: same_reqs_def vkeep_def)
  then have "reqs_inv (reqs x) s" by (rule reqs_inv_frame[OF I(1)]) (use i(1) in \<open>simp add: vkeep_def\<close>)
  moreover have "b_disk s b = b_disk (vs x) b" if as: "asleep (Ch_bufp b) s k" for b k
  proof -
    have "asleep (Ch_bufp b) (vs x) k" using none_dozesD(2)[of x s] as i(5) by simp
    then obtain h where h: "reqs x b = Some h" using I(5) by (auto simp: sleep_inv_def)
    moreover have "Ch_bufp b \<notin> C" by (rule woken_asleep[OF i(5) as c])
    ultimately show ?thesis using i(3,6) by auto
  qed
  then have "call_inv ?y" "sleep_inv ?y"
    using i(1) by (intro calls_frame[OF I(4,5)]; simp add: i(5) vkeep_def free_descs_def)+
  ultimately have "vd_inv ?y" using i(4) by (simp add: vd_inv_def q)
  moreover have "rw_status ?y = rw_status x" using i(1) ok by (auto simp: rw_status_def fun_eq_iff q vkeep_def split: option.split)
  then have "rw_abs ?y = rw_abs x" using i(1) by (simp add: rw_abs_def store_def vkeep_def)
  ultimately show "step_ok x ?y" by (simp add: step_ok_def)
qed

lemma finish_returns:
  assumes x: "vd_inv x" and b: "reqs x b = Some h"
  obtains s where "rw_finish h (vs x) = Ret s" "dfree s = (\<lambda>i. dfree (vs x) i \<or> i \<in> set (chain_of (vs x) h))"
    "\<And>i. i \<notin> set (chain_of (vs x) h) \<Longrightarrow> desc s i = desc (vs x) i"
    "vrest s = vrest ((vs x)\<lparr>info_b := (info_b (vs x))(h := None)\<rparr>)"
    "ptable s = woken {Ch_disk_free} (cur (vs x)) (ptable (vs x))"
proof -
  let ?s = "(vs x)\<lparr>info_b := (info_b (vs x))(h := None)\<rparr>"
  obtain wr where "blk_chain (vs x) b h wr (chain_of (vs x) h)" using reqs_invD(1)[OF vd_invD(1)[OF x] b] by (auto simp: req_ok_def)
  then have "blk_chain ?s b h wr (chain_of (vs x) h)" by (rule blk_chain_cong[rotated 2]) simp_all
  moreover have "\<forall>i \<in> set (chain_of (vs x) h). \<not> dfree ?s i" using reqs_invD(6)[OF vd_invD(1)[OF x] b] by simp
  ultimately obtain s where "free_chain h ?s = Ret s" "freed (chain_of (vs x) h) ?s s" using free_chain_ok by blast
  moreover have "chain_of (vs x) h \<noteq> []" by (simp add: chain_of_def Let_def)
  ultimately show thesis by (intro that[of s]) (simp_all add: rw_finish_def freed_def)
qed

lemma finish_frees:
  assumes "vd_inv x" "reqs x b = Some h"
  shows "\<exists>s. rw_finish h (vs x) = Ret s \<and> dfree s = (\<lambda>i. dfree (vs x) i \<or> i \<in> set (chain_of (vs x) h))
    \<and> vrest s = vrest ((vs x)\<lparr>info_b := (info_b (vs x))(h := None)\<rparr>)"
  by (rule finish_returns[OF assms]) blast

lemma finish_ok:
  assumes x: "vd_inv x" and b: "who x b = Some (i, wr)" "reqs x b = Some h" "b_disk (vs x) b \<noteq> 1" and s: "rw_finish h (vs x) = Ret s"
    and c: "cur (vs x) = Some i" "awake x i"
  shows "step_ok x (x\<lparr>vs := s, who := (who x)(b := None), reqs := (reqs x)(b := None)\<rparr>)" (is "step_ok x ?y")
proof -
  note I = vd_invD[OF x]
  have f: "dfree s = (\<lambda>i. dfree (vs x) i \<or> i \<in> set (chain_of (vs x) h))" "\<And>i. i \<notin> set (chain_of (vs x) h) \<Longrightarrow> desc s i = desc (vs x) i"
    "vrest s = vrest ((vs x)\<lparr>info_b := (info_b (vs x))(h := None)\<rparr>)" "ptable s = woken {Ch_disk_free} (cur (vs x)) (ptable (vs x))"
    using finish_returns[OF x b(2)] s by (metis kres.inject(1))+
  note v = vrestD[OF f(3), simplified]
  have q: "availq ?y = availq x" "usedq ?y = usedq x" by (simp_all add: availq_def usedq_def v)
  have o: "h \<notin> set (availq x) \<union> busy x \<union> set (usedq x)" using outstandingD[OF I(1) b(2)] b(3) I(2) by (auto simp: flow_inv_def)
  have "same_reqs ((reqs x)(b := None)) (vs x) s"
    unfolding same_reqs_def
  proof (intro allI impI)
    fix b' h' assume "((reqs x)(b := None)) b' = Some h'"
    then have b': "reqs x b' = Some h'" "b \<noteq> b'" by (simp_all split: if_splits)
    have d: "set (chain_of (vs x) h) \<inter> set (chain_of (vs x) h') = {}" by (rule reqs_disjoint[OF I(1) b(2) b'])
    then have "h' \<noteq> h" using chain_of_hd[of h "vs x"] by blast
    then show "(\<forall>i \<in> set (chain_of (vs x) h'). desc s i = desc (vs x) i \<and> dfree s i = dfree (vs x) i)
        \<and> ops s h' = ops (vs x) h' \<and> info_b s h' = info_b (vs x) h' \<and> b_blockno (bufs s b') = b_blockno (bufs (vs x) b')"
      using d f(1,2) v by auto
  qed
  then have "reqs_inv ((reqs x)(b := None)) s" by (rule reqs_inv_drop[OF I(1) b(2)]) (use f(1) in simp)
  moreover have "outstanding ((reqs x)(b := None)) s = outstanding (reqs x) (vs x)" using b(2,3) by (auto simp: outstanding_def v)
  moreover have "\<not> asleep Ch_disk_free s k" for k using woken_asleep[OF f(4), of Ch_disk_free k] c by auto
  then have "call_inv (x\<lparr>vs := s\<rparr>)" "sleep_inv (x\<lparr>vs := s\<rparr>)"
    by (intro calls_frame[OF I(4,5)]; simp add: f(4) v)+
  then have "call_inv ?y" "sleep_inv ?y" using calls_drop[of "x\<lparr>vs := s\<rparr>" b] b(3) by (simp_all add: v)
  ultimately have "vd_inv ?y" using x q b(3) by (simp add: vd_inv_def v)
  moreover have "rw_step (rw_abs x) ((rw_abs x)\<lparr>rw_calls := (rw_calls (rw_abs x))(b := None)\<rparr>)"
    using b(1,2) o by (intro rw_return[where wr = wr]) (simp add: rw_abs_def rw_status_def)
  moreover have "rw_status ?y = rw_status x" by (simp add: rw_status_def fun_eq_iff q v split: option.split)
  then have "rw_abs ?y = (rw_abs x)\<lparr>rw_calls := (rw_calls (rw_abs x))(b := None)\<rparr>" by (simp add: rw_abs_def store_def v fun_eq_iff)
  ultimately show ?thesis by (simp add: step_ok_def)
qed

lemma rw_format_simps:
  fixes s :: vdisk
  assumes "s' = rw_format b wr [i, j, k] s"
  shows "desc s' = (desc s)(i := \<lparr>d_addr = Op i, d_len = 16, d_flags = VRING_DESC_F_NEXT, d_next = of_nat j\<rparr>,
      j := \<lparr>d_addr = Data b, d_len = of_nat BSIZE, d_flags = (if wr then 0 else VRING_DESC_F_WRITE) OR VRING_DESC_F_NEXT, d_next = of_nat k\<rparr>,
      k := \<lparr>d_addr = Status i, d_len = 1, d_flags = VRING_DESC_F_WRITE, d_next = 0\<rparr>)"
    "ops s' = (ops s)(i := \<lparr>r_type = (if wr then VIRTIO_BLK_T_OUT else VIRTIO_BLK_T_IN), r_reserved = 0, r_sector = ucast (b_blockno (bufs s b) * 2)\<rparr>)"
    "info_b s' = (info_b s)(i := Some b)" "info_status s' = (info_status s)(i := 0xff)" "b_disk s' = (b_disk s)(b := 1)"
    "avail_ring s' = (avail_ring s)(unat (avail_idx s) mod NUM := of_nat i)" "avail_idx s' = avail_idx s + 1"
    "bufs s' = bufs s" "disk0 s' = disk0 s" "dwrites s' = dwrites s" "dfree s' = dfree s"
    "used_ring s' = used_ring s" "used_idx s' = used_idx s" "vused_idx s' = vused_idx s" "ptable s' = ptable s"
  by (simp_all add: assms rw_format_def Let_def)

lemma start_request:
  fixes s :: vdisk
  assumes s': "s' = rw_format b wr [i, j, k] (taken [i, j, k] s)" and d: "distinct [i, j, k]" "set [i, j, k] \<subseteq> {i. i < NUM \<and> dfree s i}"
    and bn: "b_blockno (bufs s b) < 2 ^ 31"
  shows "chain_of s' i = [i, j, k]" "req_ok s' b i"
proof -
  note F = rw_format_simps[OF s']
  have n: "unat (of_nat j :: ushort) = j" "unat (of_nat k :: ushort) = k" using d(2) by (auto simp: NUM_def unat_of_nat)
  show c: "chain_of s' i = [i, j, k]" using d(1) n by (simp add: chain_of_def Let_def F)
  have e: "bufs (taken [i, j, k] s) = bufs s" "\<And>n. dfree (taken [i, j, k] s) n = (dfree s n \<and> n \<notin> {i, j, k})" by (simp_all add: taken_def)
  have "blk_chain s' b i wr [i, j, k]" using d by (auto simp: blk_chain_def F)
  then show "req_ok s' b i" using bn by (auto simp: req_ok_def c F e)
qed

lemma start_ok:
  assumes x: "vd_inv x" and b: "who x b = Some (p, wr)" "reqs x b = None" "awake x p"
    and d: "distinct [i, j, k]" "set [i, j, k] \<subseteq> {i. i < NUM \<and> dfree (vs x) i}"
    and s: "s = rw_format b wr [i, j, k] (taken [i, j, k] (vs x))"
  shows "step_ok x (x\<lparr>vs := s, reqs := (reqs x)(b := Some i)\<rparr>)" (is "step_ok x ?y")
    and "usedq (x\<lparr>vs := s, reqs := (reqs x)(b := Some i)\<rparr>) = usedq x" "i \<notin> set (usedq x)"
proof -
  note I = vd_invD[OF x]
  have bn: "b_blockno (bufs (vs x) b) < 2 ^ 31" using call_invD(2)[OF I(4) b(1)] by (simp add: call_ok_def)
  note F = rw_format_simps[OF s] and N = start_request[OF s d bn]
  note t = vrestD[OF taken_simps(2)[of "[i, j, k]" "vs x"]]
  have free: "n \<notin> {i, j, k} \<and> h \<noteq> i" if "reqs x b' = Some h" "n \<in> set (chain_of (vs x) h)" for b' h n
    using reqs_invD(4)[OF I(1) that(1)] reqs_invD(6)[OF I(1) that] d(2) by auto
  have new: "i \<notin> outstanding (reqs x) (vs x)" using outstanding_less[OF I(1)] d(2) by auto
  have "same_reqs (reqs x) (vs x) s"
    unfolding same_reqs_def F t using free chain_of_hd[of _ "vs x"] by fastforce
  then have ri: "reqs_inv ((reqs x)(b := Some i)) s"
    by (rule reqs_inv_add[OF I(1) b(2) _ N(2)]) (use d(2) in \<open>auto simp: N(1) F\<close>)
  have o: "outstanding ((reqs x)(b := Some i)) s = insert i (outstanding (reqs x) (vs x))"
    using b(2) by (intro outstanding_add) (simp_all add: F t)
  have "distinct (availq x)" "set (availq x) \<subseteq> {..<NUM}" "i \<notin> set (availq x)"
    using I(2) new outstanding_less[OF I(1)] by (auto simp: flow_inv_def)
  then have "length (availq x) < NUM" using d(2) by (intro room) auto
  then have a: "availq ?y = availq x @ [i]"
    using d(2) by (simp add: availq_def F t ring_push NUM_def unat_of_nat)
  show u: "usedq ?y = usedq x" by (simp add: usedq_def F t)
  show iu: "i \<notin> set (usedq x)" using I(2) new by (auto simp: flow_inv_def)
  have "r_type (ops s h) = r_type (ops (vs x) h)" if "reqs x b' = Some h" for b' h
    using free[OF that chain_of_hd] by (simp add: F t)
  moreover have "b' \<noteq> b" if "asleep (Ch_bufp b') s k" for b' k
    using that I(5) b(2) by (auto simp: sleep_inv_def asleep_def F)
  ultimately have "call_inv (x\<lparr>vs := s\<rparr>)" "sleep_inv (x\<lparr>vs := s\<rparr>)"
    by (intro calls_frame[OF I(4,5)]; auto simp: F t free_descs_def)+
  then have "call_inv ?y" "sleep_inv ?y"
    using calls_add[of "x\<lparr>vs := s\<rparr>" b p wr i] b by (simp_all add: F VIRTIO_BLK_T_IN_def VIRTIO_BLK_T_OUT_def)
  then have "vd_inv ?y" using x flow_start[OF I(2) new] ri o by (auto simp: vd_inv_def a u F t)
  moreover have st: "rw_status ?y (reqs ?y b') = rw_status x (reqs x b')" for b'
  proof (cases "b' = b")
    case True
    then show ?thesis using b(2) by (simp add: rw_status_def a)
  next
    case False
    have "h \<noteq> i" if "reqs x b' = Some h" for h using free[OF that chain_of_hd] by blast
    with False show ?thesis by (cases "reqs x b'") (auto simp: rw_status_def a u F t)
  qed
  have "rw_abs ?y = rw_abs x"
    unfolding rw_abs_def st by (simp add: store_def F t)
  ultimately show "step_ok x ?y" by (simp add: step_ok_def)
qed

lemma disk_step_ok:
  assumes d: "virtio_block dev" and x: "vd_inv x" and y: "disk_step dev x y"
  shows "step_ok x y"
  using y
proof cases
  case (start b i wr idx s)
  define z where "z = x\<lparr>vs := run_as i (vs x)\<rparr>"
  have z: "vd_inv z" "rw_abs z = rw_abs x" "vs z = run_as i (vs x)" using x by (simp_all add: z_def run_as_def)
  obtain p q r where a: "idx = [p, q, r]" "s = taken [p, q, r] (vs z)" "distinct [p, q, r]" "set [p, q, r] \<subseteq> {i. i < NUM \<and> dfree (vs z) i}"
    using alloc3_some[OF start(5)] unfolding z(3) by blast
  have "step_ok z (z\<lparr>vs := rw_format b wr idx s, reqs := (reqs z)(b := Some p)\<rparr>)"
    using start(2-4) by (intro start_ok(1)[OF z(1) _ _ _ a(3,4)]) (simp_all add: z_def run_as_def a)
  then show ?thesis using start(1) z(2) a(1) by (simp add: step_ok_def z_def)
next
  case (full b i wr s)
  define z where "z = x\<lparr>vs := run_as i (vs x)\<rparr>"
  have z: "vd_inv z" "rw_abs z = rw_abs x" "vs z = run_as i (vs x)" using x by (simp_all add: z_def run_as_def)
  obtain ds where f: "freed ds (vs z) s" "set ds \<subseteq> Collect (dfree (vs z))" "card (free_descs (vs z)) < 3"
    using alloc3_none[OF full(5)] unfolding z(3) by blast
  have "step_ok z (z\<lparr>vs := dozing i Ch_disk_free s\<rparr>)"
    using full(2,3) by (intro full_ok[OF z(1) f]) (simp_all add: z_def)
  then show ?thesis using full(1) z(2) by (simp add: step_ok_def z_def)
next
  case (wait b i wr h)
  define z where "z = x\<lparr>vs := run_as i (vs x)\<rparr>"
  have z: "vd_inv z" "rw_abs z = rw_abs x" using x by (simp_all add: z_def run_as_def)
  have "step_ok z (z\<lparr>vs := dozing i (Ch_bufp b) (vs z)\<rparr>)"
    using wait(2,3,5) by (intro doze_ok[OF z(1)]) (auto simp: z_def run_as_def)
  then show ?thesis using wait(1) z(2) by (simp add: step_ok_def z_def)
next
  case (finish b i wr h s)
  define z where "z = x\<lparr>vs := run_as i (vs x)\<rparr>"
  have z: "vd_inv z" "rw_abs z = rw_abs x" using x by (simp_all add: z_def run_as_def)
  have "step_ok z (z\<lparr>vs := s, who := (who z)(b := None), reqs := (reqs z)(b := None)\<rparr>)"
    using finish(2-6) by (intro finish_ok[OF z(1)]) (simp_all add: z_def run_as_def)
  then show ?thesis using finish(1) z(2) by (simp add: step_ok_def z_def)
next
  case (irq c s)
  define z where "z = x\<lparr>vs := (vs x)\<lparr>cur := c\<rparr>\<rparr>"
  have z: "vd_inv z" "rw_abs z = rw_abs x" using x by (simp_all add: z_def)
  have "step_ok z (z\<lparr>vs := s\<rparr>)" using irq(2,3) by (intro irq_ok(1)[OF z(1)]) (simp_all add: z_def)
  then show ?thesis using irq(1) z(2) by (simp add: step_ok_def z_def)
next
  case fetch
  show ?thesis unfolding fetch(1) by (rule fetch_ok[OF x fetch(2)])
next
  case (serve h s)
  show ?thesis unfolding serve(1) by (rule serve_ok[OF x d serve(2,3)])
qed

lemma vd_step_ok:
  assumes "virtio_block dev" "vd_inv x" "vd_step dev x y"
  shows "step_ok x y"
proof (cases "disk_step dev x y")
  case True
  then show ?thesis by (rule disk_step_ok[OF assms(1,2)])
next
  case False
  then have "env_step x y" using assms(3) by (simp add: vd_step_def)
  then show ?thesis
  proof cases
    case (own b f)
    then show ?thesis using own_ok[OF assms(2)] by simp
  next
    case (call b i wr)
    show ?thesis unfolding call(1) by (rule call_step_ok[OF assms(2) call(2-6)])
  next
    case (other pt c)
    then show ?thesis using other_ok[OF assms(2)] by simp
  qed
qed

lemma vd_reach_inv:
  assumes "virtio_block dev" "vd_reach dev x"
  shows "vd_inv x"
  using assms(2)
proof induction
  case (boot r s0 ws s)
  then have "avail_idx s = 0" "vused_idx s = 0" "\<And>i. i < NUM \<Longrightarrow> dfree s i"
    by (auto simp: virtio_disk_init_def Let_def split: if_splits prod.splits)
  with boot show ?case
    by (simp add: vd_inv_def reqs_inv_def flow_inv_def availq_def usedq_def outstanding_def call_inv_def sleep_inv_def asleep_def)
next
  case (step x y)
  then show ?case using vd_step_ok[OF assms(1)] by (simp add: step_ok_def)
qed

subsection \<open>Progress\<close>

text \<open>No completion in the used ring reports a failure.\<close>

definition used_ok :: "vsys \<Rightarrow> bool" where
  "used_ok x \<longleftrightarrow> (\<forall>h \<in> set (usedq x). info_status (vs x) h = 0)"

lemma disk_steps_inv: "(disk_step dev)\<^sup>*\<^sup>* x y \<Longrightarrow> virtio_block dev \<Longrightarrow> vd_inv x \<Longrightarrow> vd_inv y"
  by (induction rule: rtranclp_induct) (auto dest: disk_step_ok simp: step_ok_def)

lemma fetch_all:
  "\<exists>y. (disk_step dev)\<^sup>*\<^sup>* x y \<and> who y = who x \<and> reqs y = reqs x \<and> vs y = vs x \<and> availq y = []"
proof (induction "length (availq x)" arbitrary: x)
  case 0
  then show ?case by (intro exI[of _ x]) simp
next
  case (Suc n)
  then have ne: "seen x \<noteq> avail_idx (vs x)" by (auto simp: availq_def)
  let ?y = "x\<lparr>seen := seen x + 1, busy := insert (unat (avail_ring (vs x) (unat (seen x) mod NUM))) (busy x)\<rparr>"
  have "availq x = unat (avail_ring (vs x) (unat (seen x) mod NUM)) # availq ?y" using ne by (simp add: availq_def ring_pop NUM_def)
  then have "n = length (availq ?y)" using Suc(2) by simp
  from Suc(1)[OF this] obtain z where "(disk_step dev)\<^sup>*\<^sup>* ?y z" "who z = who x" "reqs z = reqs x" "vs z = vs x" "availq z = []" by auto
  moreover have "disk_step dev x ?y" by (rule fetch[OF ne])
  ultimately show ?case by (blast intro: converse_rtranclp_into_rtranclp)
qed

lemma serve_one:
  assumes "virtio_block dev" "answers dev" "vd_inv x" "h \<in> busy x" "used_ok x"
  obtains y where "disk_step dev x y" "who y = who x" "reqs y = reqs x" "h \<in> set (usedq y)" "used_ok y"
proof -
  obtain b where b: "reqs x b = Some h" using vd_inv_flow[OF assms(3), of h] assms(4) by blast
  obtain wr where "blk_chain (vs x) b h wr (chain_of (vs x) h)" using reqs_invD(1)[OF vd_invD(1)[OF assms(3)] b] by (auto simp: req_ok_def)
  then obtain s where s: "dev h (vs x) s" "info_status s h = 0" using assms(2) unfolding answers_def by blast
  let ?y = "x\<lparr>vs := s, busy := busy x - {h}\<rparr>"
  note u = serve_used(2)[OF assms(3,1,4) s(1)]
  obtain b i wr st t where "s = completed h st t" "served b wr st (vs x) t" using serve_used(1)[OF assms(3,1,4) s(1)] by blast
  then have "info_status s k = (if k = h then 0 else info_status (vs x) k)" for k
    using s(2) served_keeps(9) by (auto simp: completed_def)
  then have "used_ok ?y" using assms(5) u by (auto simp: used_ok_def)
  moreover have "disk_step dev x ?y" using assms(4) s(1) by (rule serve)
  ultimately show thesis using u by (intro that) simp_all
qed

lemma answer_one:
  assumes "virtio_block dev" "answers dev" "vd_inv x" "reqs x b = Some h" "used_ok x"
  obtains y where "(disk_step dev)\<^sup>*\<^sup>* x y" "who y = who x" "reqs y = reqs x" "h \<notin> set (availq y) \<union> busy y" "used_ok y"
proof -
  obtain y where y: "(disk_step dev)\<^sup>*\<^sup>* x y" "who y = who x" "reqs y = reqs x" "vs y = vs x" "availq y = []" using fetch_all by blast
  have ok: "used_ok y" using assms(5) y(4) by (simp add: used_ok_def usedq_def)
  show thesis
  proof (cases "h \<in> busy y")
    case True
    note Y = disk_steps_inv[OF y(1) assms(1,3)]
    obtain z where z: "disk_step dev y z" "who z = who y" "reqs z = reqs y" "h \<in> set (usedq z)" "used_ok z"
      using serve_one[OF assms(1,2) Y True ok] .
    have "vd_inv z" using disk_step_ok[OF assms(1) Y z(1)] by (simp add: step_ok_def)
    then have "h \<notin> set (availq z) \<union> busy z" using z(4) by (auto simp: vd_inv_def flow_inv_def)
    then show thesis using y z by (intro that[of z]) (auto intro: rtranclp.rtrancl_into_rtrancl)
  qed (use y ok in \<open>auto intro: that[of y]\<close>)
qed

lemma irq_one:
  assumes x: "vd_inv x" "used_ok x" and h: "reqs x b = Some h" "h \<notin> set (availq x) \<union> busy x"
  obtains y where "disk_step dev x y" "who y = who x" "reqs y = reqs x" "b_disk (vs y) b \<noteq> 1" "usedq y = []"
proof -
  let ?z = "x\<lparr>vs := (vs x)\<lparr>cur := None\<rparr>\<rparr>"
  have z: "vd_inv ?z" "usedq ?z = usedq x" using x(1) by (simp_all add: usedq_def)
  have ok: "\<forall>h \<in> set (usedq ?z). info_status (vs ?z) h = 0" using x(2) z(2) by (simp add: used_ok_def)
  obtain s where s: "virtio_disk_intr (vs ?z) = Ret s"
    "\<forall>b h. reqs ?z b = Some h \<longrightarrow> b_disk s b = (if h \<in> set (usedq ?z) then 0 else b_disk (vs ?z) b)"
    using irq_returns[OF z(1) ok] by metis
  have "h \<in> set (usedq x)" if "b_disk (vs x) b = 1"
    using outstandingD[OF vd_invD(1)[OF x(1)] h(1)] that vd_invD(2)[OF x(1)] h(2) by (auto simp: flow_inv_def)
  then have "b_disk s b \<noteq> 1" using s(2) h(1) z(2) by auto
  moreover have "usedq (x\<lparr>vs := s\<rparr>) = []" using irq_ok(2)[OF z(1) s(1)] by simp
  moreover have "disk_step dev x (x\<lparr>vs := s\<rparr>)" using s(1) by (intro irq[where c = None]) simp_all
  ultimately show thesis by (intro that[of "x\<lparr>vs := s\<rparr>"]) simp_all
qed

text \<open>A process whose request is done is not asleep, and neither is one that waits for descriptors when there are three.\<close>

lemma done_awake:
  assumes x: "vd_inv x" and b: "who x b = Some (i, wr)"
    and d: "if reqs x b = None then 3 \<le> card (free_descs (vs x)) else b_disk (vs x) b \<noteq> 1"
  shows "awake x i"
proof
  assume "p_state (ptable (vs x) i) = SLEEPING"
  then have "asleep (if reqs x b = None then Ch_disk_free else Ch_bufp b) (vs x) i"
    using call_invD(2)[OF vd_invD(4)[OF x] b] by (simp add: call_ok_def asleep_def)
  then show False using vd_invD(5)[OF x] d by (auto simp: sleep_inv_def split: if_splits)
qed

lemma complete_one:
  assumes d: "virtio_block dev" "answers dev" and x: "vd_inv x" "used_ok x" and b: "reqs x b = Some h"
  shows "\<exists>y. (disk_step dev)\<^sup>*\<^sup>* x y \<and> who y = (who x)(b := None) \<and> reqs y = (reqs x)(b := None) \<and> used_ok y
    \<and> 3 \<le> card (free_descs (vs y))"
proof -
  obtain y where y: "(disk_step dev)\<^sup>*\<^sup>* x y" "who y = who x" "reqs y = reqs x" "h \<notin> set (availq y) \<union> busy y" "used_ok y"
    by (rule answer_one[OF d x(1) b x(2)])
  have Y: "vd_inv y" by (rule disk_steps_inv[OF y(1) d(1) x(1)])
  obtain z where z: "disk_step dev y z" "who z = who y" "reqs z = reqs y" "b_disk (vs z) b \<noteq> 1" "usedq z = []"
    using irq_one[OF Y y(5) _ y(4)] b y(3) by metis
  have Z: "vd_inv z" using disk_step_ok[OF d(1) Y z(1)] by (simp add: step_ok_def)
  have bz: "reqs z b = Some h" using b y(3) z(3) by simp
  obtain i wr where w: "who z b = Some (i, wr)" using call_invD(1)[OF vd_invD(4)[OF Z], of b] bz by (cases "who z b") auto
  have aw: "awake z i" by (rule done_awake[OF Z w]) (simp add: bz z(4))
  let ?r = "z\<lparr>vs := run_as i (vs z)\<rparr>"
  have R: "vd_inv ?r" "reqs ?r b = Some h" using Z bz by (simp_all add: run_as_def)
  obtain s where s: "rw_finish h (vs ?r) = Ret s" "dfree s = (\<lambda>i. dfree (vs ?r) i \<or> i \<in> set (chain_of (vs ?r) h))"
      "vrest s = vrest ((vs ?r)\<lparr>info_b := (info_b (vs ?r))(h := None)\<rparr>)"
    using finish_frees[OF R] by blast
  let ?y = "z\<lparr>vs := s, who := (who z)(b := None), reqs := (reqs z)(b := None)\<rparr>"
  have "disk_step dev z ?y" using s(1) by (intro finish[OF w bz aw z(4)]) simp
  then have run: "(disk_step dev)\<^sup>*\<^sup>* x ?y" using y(1) z(1) by (meson rtranclp.rtrancl_into_rtrancl)
  have us: "usedq ?y = []" using z(5) s(3) by (simp add: usedq_def vrest_def run_as_def)
  have "set (chain_of (vs ?r) h) \<subseteq> free_descs s"
    using reqs_invD(5)[OF vd_invD(1)[OF R(1)] R(2)] s(2) by (auto simp: free_descs_def)
  moreover have "card (set (chain_of (vs ?r) h)) = 3"
    using reqs_invD(1)[OF vd_invD(1)[OF R(1)] R(2)] distinct_card[of "chain_of (vs ?r) h"] unfolding req_ok_def blk_chain_def by auto
  ultimately have "3 \<le> card (free_descs s)" using card_mono[of "free_descs s" "set (chain_of (vs ?r) h)"] by (simp add: free_descs_def)
  with run us show ?thesis using y(2,3) z(2,3) by (intro exI[of _ ?y]) (simp add: used_ok_def)
qed

lemma start_one:
  assumes x: "vd_inv x" "used_ok x" and b: "who x b = Some (i, wr)" "reqs x b = None" and f: "3 \<le> card (free_descs (vs x))"
  obtains y h where "disk_step dev x y" "who y = who x" "reqs y b = Some h" "used_ok y"
proof -
  have aw: "awake x i" by (rule done_awake[OF x(1) b(1)]) (simp add: b(2) f)
  define z where "z = x\<lparr>vs := run_as i (vs x)\<rparr>"
  have z: "vd_inv z" "vs z = run_as i (vs x)" "usedq z = usedq x" using x(1) by (simp_all add: z_def run_as_def usedq_def)
  have "3 \<le> card (free_descs (vs z))" using f by (simp add: z(2) free_descs_def run_as_def)
  then obtain p q r where a: "alloc3_desc (vs z) = Ret (Some [p, q, r], taken [p, q, r] (vs z))" "distinct [p, q, r]"
      "set [p, q, r] \<subseteq> {i. i < NUM \<and> dfree (vs z) i}"
    using alloc3_room by blast
  define s where "s = rw_format b wr [p, q, r] (taken [p, q, r] (vs z))"
  have Z: "who z b = Some (i, wr)" "reqs z b = None" "awake z i" using b aw by (simp_all add: z_def run_as_def)
  note S = start_ok(2,3)[OF z(1) Z a(2,3) s_def]
  note F = rw_format_simps[OF s_def]
  have st: "disk_step dev x (x\<lparr>vs := s, reqs := (reqs x)(b := Some p)\<rparr>)" (is "disk_step dev x ?y")
    using start[OF b aw a(1)[unfolded z(2)], of dev] by (simp add: s_def z(2))
  have u: "usedq ?y = usedq x" using S(1) z(3) by (simp add: usedq_def z_def)
  have "info_status s k = info_status (vs x) k" if "k \<in> set (usedq x)" for k
    using that S(2) z(3) by (auto simp: F taken_def z(2) run_as_def)
  then have "used_ok ?y" using x(2) u by (simp add: used_ok_def)
  with st show thesis by (intro that[of ?y p]) simp_all
qed

lemma dfree_iff:
  assumes "reqs_inv rq s" "k < NUM"
  shows "dfree s k \<longleftrightarrow> (\<forall>b h. rq b = Some h \<longrightarrow> k \<notin> set (chain_of s h))"
proof
  assume "dfree s k"
  then show "\<forall>b h. rq b = Some h \<longrightarrow> k \<notin> set (chain_of s h)" using reqs_invD(6)[OF assms(1)] by metis
next
  assume n: "\<forall>b h. rq b = Some h \<longrightarrow> k \<notin> set (chain_of s h)"
  have "dfree s k \<or> (\<exists>b h. rq b = Some h \<and> k \<in> set (chain_of s h))" using assms by (simp add: reqs_inv_def)
  with n show "dfree s k" by blast
qed

lemma few_free:
  assumes "vd_inv x" "card (free_descs (vs x)) < 3"
  shows "\<exists>b h. reqs x b = Some h"
proof (rule ccontr)
  assume "\<nexists>b h. reqs x b = Some h"
  then have "\<forall>k < NUM. dfree (vs x) k" using dfree_iff[OF vd_invD(1)[OF assms(1)]] by blast
  then have "free_descs (vs x) = {..<NUM}" by (auto simp: free_descs_def)
  with assms(2) show False by (simp add: NUM_def)
qed

lemma buffer_sleeper:
  assumes x: "vd_inv x" and a: "asleep (Ch_bufp b) (vs x) i"
  shows "\<exists>h. reqs x b = Some h \<and> h \<in> set (availq x) \<union> busy x \<union> set (usedq x)"
proof -
  obtain h where h: "reqs x b = Some h" "b_disk (vs x) b = 1" using vd_invD(5)[OF x] a by (auto simp: sleep_inv_def)
  then have "h \<in> outstanding (reqs x) (vs x)" by (auto simp: outstanding_def)
  with h(1) vd_invD(2)[OF x] show ?thesis by (auto simp: flow_inv_def)
qed

lemma desc_sleeper:
  assumes x: "vd_inv x" and a: "asleep Ch_disk_free (vs x) i"
  shows "card (free_descs (vs x)) < 3 \<and> (\<exists>b h. reqs x b = Some h)"
proof -
  have c: "card (free_descs (vs x)) < 3" using vd_invD(5)[OF x] a by (auto simp: sleep_inv_def)
  then show ?thesis using few_free[OF x] by blast
qed

lemma complete_call:
  assumes d: "virtio_block dev" "answers dev" and x: "vd_inv x" "used_ok x" "who x b \<noteq> None"
  shows "\<exists>y. (disk_step dev)\<^sup>*\<^sup>* x y \<and> who y b = None"
proof -
  obtain i wr where w: "who x b = Some (i, wr)" using x(3) by (cases "who x b") auto
  have fin: "\<exists>z. (disk_step dev)\<^sup>*\<^sup>* x z \<and> who z b = None"
    if y: "(disk_step dev)\<^sup>*\<^sup>* x y" "used_ok y" "who y b = Some (i, wr)" "reqs y b = None" "3 \<le> card (free_descs (vs y))" for y
  proof -
    obtain z h where z: "disk_step dev y z" "who z = who y" "reqs z b = Some h" "used_ok z"
      using start_one[OF disk_steps_inv[OF y(1) d(1) x(1)] y(2-5)] .
    have xz: "(disk_step dev)\<^sup>*\<^sup>* x z" using y(1) z(1) by (rule rtranclp.rtrancl_into_rtrancl)
    obtain u where u: "(disk_step dev)\<^sup>*\<^sup>* z u" "who u = (who z)(b := None)"
      using complete_one[OF d disk_steps_inv[OF xz d(1) x(1)] z(4,3)] by blast
    then have "who u b = None" by simp
    with rtranclp_trans[OF xz u(1)] show ?thesis by blast
  qed
  show ?thesis
  proof (cases "reqs x b")
    case (Some h)
    obtain y where y: "(disk_step dev)\<^sup>*\<^sup>* x y" "who y = (who x)(b := None)" using complete_one[OF d x(1,2) Some] by blast
    then have "who y b = None" by simp
    with y(1) show ?thesis by blast
  next
    case None
    show ?thesis
    proof (cases "3 \<le> card (free_descs (vs x))")
      case True
      then show ?thesis by (rule fin[OF rtranclp.rtrancl_refl x(2) w None])
    next
      case False
      then obtain b' h where b': "reqs x b' = Some h" using few_free[OF x(1)] by auto
      with None have "b' \<noteq> b" by auto
      obtain y where y: "(disk_step dev)\<^sup>*\<^sup>* x y" "who y = (who x)(b' := None)" "reqs y = (reqs x)(b' := None)" "used_ok y"
          "3 \<le> card (free_descs (vs y))" using complete_one[OF d x(1,2) b'] by blast
      have "who y b = Some (i, wr)" "reqs y b = None" using y(2,3) w None \<open>b' \<noteq> b\<close> by simp_all
      then show ?thesis by (rule fin[OF y(1,4) _ _ y(5)])
    qed
  qed
qed

subsection \<open>A disk at boot\<close>

definition regs0 :: virtio_regs where
  "regs0 = \<lparr>v_magic = 0x74726976, v_version = 2, v_device_id = 2, v_vendor_id = 0x554d4551, v_features = 0, v_status = 11,
     v_queue_ready = 0, v_queue_num_max = 1024\<rparr>"

definition disk_mem0 :: memory where
  "disk_mem0 = store64 (store64 (\<lambda>_. 0) 0x87fff000 0x87ffe000) 0x87ffe000 0x87ffd000"

definition vdisk0 :: vdisk where
  "vdisk0 = bio.extend (boot0\<lparr>kmem_freelist := 0x87fff000, mem := disk_mem0\<rparr>)
     \<lparr>desc = (\<lambda>_. desc0), avail_idx = 0, avail_ring = (\<lambda>_. 0), vused_idx = 0, used_ring = (\<lambda>_. 0), dfree = (\<lambda>_. False), used_idx = 0,
      info_b = (\<lambda>_. None), info_status = (\<lambda>_. 0), ops = (\<lambda>_. \<lparr>r_type = 0, r_reserved = 0, r_sector = 0\<rparr>), b_disk = (\<lambda>_. 0)\<rparr>"

definition vboot :: vdisk where
  "vboot = (case virtio_disk_init regs0 vdisk0 of Ret (ws, s) \<Rightarrow> s | _ \<Rightarrow> vdisk0)"

definition vsys0 :: vsys where
  "vsys0 = \<lparr>vs = vboot, who = (\<lambda>_. None), reqs = (\<lambda>_. None), seen = 0, busy = {}\<rparr>"

text \<open>A device that performs a request, or reports an I/O error and does nothing.\<close>

definition dev0 :: "nat \<Rightarrow> vdisk \<Rightarrow> vdisk \<Rightarrow> bool" where
  "dev0 h s s' \<longleftrightarrow> (case d_addr (desc s (unat (d_next (desc s h)))) of
       Data b \<Rightarrow> s' = completed h 0 (transfer b (r_type (ops s h) = VIRTIO_BLK_T_OUT) (r_sector (ops s h)) s) \<or> s' = completed h 1 s
     | _ \<Rightarrow> False)"

lemma dev0_chain:
  assumes "blk_chain s b h wr ds"
  shows "dev0 h s s' \<longleftrightarrow> s' = completed h 0 (transfer b wr (r_sector (ops s h)) s) \<or> s' = completed h 1 s"
proof -
  obtain m t where c: "ds = [h, m, t]" "set ds \<subseteq> {..<NUM}" "d_next (desc s h) = of_nat m" "d_addr (desc s m) = Data b"
    using assms by (auto simp: blk_chain_def)
  then have "unat (of_nat m :: ushort) = m" by (simp add: NUM_def unat_of_nat)
  then show ?thesis using c blk_chain_wr[OF assms] by (simp add: dev0_def)
qed

lemma spoiled_refl: "spoiled b wr bno s s"
proof -
  have "s = upd_buf b (b_data_update (\<lambda>_. b_data (bufs s b))) s" by (simp add: upd_buf_def)
  then show ?thesis unfolding spoiled_def by auto
qed

lemma dev0_block: "virtio_block dev0"
  unfolding virtio_block_def
proof (intro allI impI)
  fix h b wr ds and s s' :: vdisk
  assume d: "dev0 h s s'" "blk_chain s b h wr ds"
  have "\<exists>status t. s' = completed h status t \<and> (if status = 0 then t = transfer b wr (r_sector (ops s h)) s
      else spoiled b wr (ucast (r_sector (ops s h) div 2)) s t)" if "s' = completed h 0 (transfer b wr (r_sector (ops s h)) s)"
    using that by (intro exI[of _ 0]) simp
  moreover have "\<exists>status t. s' = completed h status t \<and> (if status = 0 then t = transfer b wr (r_sector (ops s h)) s
      else spoiled b wr (ucast (r_sector (ops s h) div 2)) s t)" if "s' = completed h 1 s"
    using that by (intro exI[of _ 1] exI[of _ s]) (simp add: spoiled_refl)
  ultimately show "\<exists>status t. s' = completed h status t \<and> (if status = 0 then t = transfer b wr (r_sector (ops s h)) s
      else spoiled b wr (ucast (r_sector (ops s h) div 2)) s t)" using dev0_chain[OF d(2)] d(1) by blast
qed

lemma dev0_answers: "answers dev0"
  unfolding answers_def
proof (intro allI impI)
  fix h b wr ds and s :: vdisk
  assume c: "blk_chain s b h wr ds"
  have "info_status (completed h 0 t) h = 0" for t :: vdisk by (simp add: completed_def)
  then show "\<exists>t. dev0 h s t \<and> info_status t h = 0" using dev0_chain[OF c] by blast
qed

lemma vdisk0_fields [simp]:
  "mem vdisk0 = disk_mem0" "kmem_freelist vdisk0 = 0x87fff000" "used_idx vdisk0 = 0" "b_disk vdisk0 = (\<lambda>_. 0)" "bufs vdisk0 = (\<lambda>_. buf0)"
  "ptable vdisk0 = (\<lambda>_. proc0)"
  by (simp_all add: vdisk0_def bio.extend_def) (simp add: boot0_def kernel.extend_def)

lemma page_consts [simp]:
  "page_of 0x87fff000 = 0x87fff000" "page_of 0x87ffe000 = 0x87ffe000" "page_of 0x87ffd000 = 0x87ffd000"
  by (simp_all add: clear_low_def)

lemma vboot_init: "\<exists>ws. virtio_disk_init regs0 vdisk0 = Ret (ws, vboot)"
  and vboot_fields: "used_idx vboot = 0" "vused_idx vboot = 0" "avail_idx vboot = 0" "b_disk vboot = (\<lambda>_. 0)" "bufs vboot = (\<lambda>_. buf0)" "ptable vboot = (\<lambda>_. proc0)"
    "\<And>i. i < NUM \<Longrightarrow> dfree vboot i"
proof -
  have m: "load64 disk_mem0 0x87fff000 = 0x87ffe000" "load64 (memset disk_mem0 0x87fff000 5 4096) 0x87ffe000 = 0x87ffd000"
    by (simp_all add: disk_mem0_def load64_store64 load64_store64_other load64_memset_other)
  have r: "refIdx 0x87fff000 < NREF" "refIdx 0x87ffe000 < NREF" "refIdx 0x87ffd000 < NREF"
    by (simp_all add: refIdx_def NREF_val KERNBASE_def PGSIZE_def)
  have "\<exists>ws s. virtio_disk_init regs0 vdisk0 = Ret (ws, s) \<and> used_idx s = 0 \<and> vused_idx s = 0 \<and> avail_idx s = 0 \<and> b_disk s = (\<lambda>_. 0) \<and> bufs s = (\<lambda>_. buf0)
      \<and> ptable s = (\<lambda>_. proc0) \<and> (\<forall>i < NUM. dfree s i)"
    by (simp add: virtio_disk_init_def regs0_def NUM_def kalloc_def ref_upd_def Let_def m r)
  then show "\<exists>ws. virtio_disk_init regs0 vdisk0 = Ret (ws, vboot)" "used_idx vboot = 0" "vused_idx vboot = 0" "avail_idx vboot = 0" "b_disk vboot = (\<lambda>_. 0)" "bufs vboot = (\<lambda>_. buf0)"
    "ptable vboot = (\<lambda>_. proc0)" "\<And>i. i < NUM \<Longrightarrow> dfree vboot i"
    by (auto simp: vboot_def)
qed

lemma vsys0_reach: "vd_reach dev0 vsys0"
proof -
  obtain ws where "virtio_disk_init regs0 vdisk0 = Ret (ws, vboot)" using vboot_init by blast
  then show ?thesis unfolding vsys0_def by (rule boot) (simp_all add: vboot_fields)
qed

text \<open>Process 7 calls \<^verbatim>\<open>virtio_disk_rw\<close> to read buffer 3, gets its descriptors and goes to sleep; the device fetches the request.\<close>

definition vsys1 :: vsys where
  "vsys1 = vsys0\<lparr>who := (\<lambda>_. None)(3 := Some (7, False))\<rparr>"

definition vsys2 :: vsys where
  "vsys2 = vsys1\<lparr>vs := rw_format 3 False [0, 1, 2] (taken [0, 1, 2] (run_as 7 vboot)), reqs := (\<lambda>_. None)(3 := Some 0)\<rparr>"

definition vsys3 :: vsys where
  "vsys3 = vsys2\<lparr>vs := dozing 7 (Ch_bufp 3) (run_as 7 (vs vsys2))\<rparr>"

lemma vsys0_call: "vd_step dev0 vsys0 vsys1"
proof -
  have "env_step vsys0 (vsys0\<lparr>who := (who vsys0)(3 := Some (7, False))\<rparr>)"
    by (rule call) (simp_all add: vsys0_def vboot_fields NPROC_def buf0_def)
  then show ?thesis by (simp add: vd_step_def vsys1_def vsys0_def)
qed

lemma vsys1_start: "vd_step dev0 vsys1 vsys2"
proof -
  let ?v = "run_as 7 vboot"
  have u: "[0..<8] = [0, 1, 2, 3, 4, 5, 6, 7]" by (simp add: upt_conv_Cons)
  have d: "dfree ?v 0" "dfree ?v 1" "dfree ?v 2" by (simp_all add: run_as_def vboot_fields NUM_def)
  have "alloc3_desc ?v = Ret (Some [0, 1, 2], ?v\<lparr>dfree := (dfree ?v)(0 := False, 1 := False, 2 := False)\<rparr>)"
    using d by (simp add: alloc3_desc_def numeral_3_eq_3 alloc_desc_def NUM_def u)
  moreover have "(\<lambda>i. dfree ?v i \<and> i \<notin> set [0, 1, 2]) = (dfree ?v)(0 := False, 1 := False, 2 := False)" by (simp add: fun_eq_iff)
  then have "taken [0, 1, 2] ?v = ?v\<lparr>dfree := (dfree ?v)(0 := False, 1 := False, 2 := False)\<rparr>" by (simp only: taken_def)
  ultimately have "alloc3_desc (run_as 7 (vs vsys1)) = Ret (Some [0, 1, 2], taken [0, 1, 2] ?v)" by (simp add: vsys1_def vsys0_def)
  from start[OF _ _ _ this, of 3 False dev0] show ?thesis
    by (simp add: vd_step_def vsys2_def vsys1_def vsys0_def vboot_fields)
qed

lemma vsys2_wait: "vd_step dev0 vsys2 vsys3"
proof -
  have "who vsys2 3 = Some (7, False)" "reqs vsys2 3 = Some 0" by (simp_all add: vsys2_def vsys1_def)
  moreover have "awake vsys2 7" "b_disk (vs vsys2) 3 = 1"
    by (simp_all add: vsys2_def rw_format_simps[OF refl] run_as_def vboot_fields)
  ultimately show ?thesis unfolding vd_step_def vsys3_def by (intro disjI1 wait)
qed

lemma vsys2_reach: "vd_reach dev0 vsys2"
  by (rule step[OF step[OF vsys0_reach vsys0_call] vsys1_start])

lemma vsys3_reach: "vd_reach dev0 vsys3"
  by (rule step[OF vsys2_reach vsys2_wait])

lemma vsys3_state: "who vsys3 3 = Some (7, False)" "reqs vsys3 3 = Some 0" "asleep (Ch_bufp 3) (vs vsys3) 7" "usedq vsys3 = []"
proof -
  show "who vsys3 3 = Some (7, False)" "reqs vsys3 3 = Some 0" by (simp_all add: vsys3_def vsys2_def vsys1_def)
  show "asleep (Ch_bufp 3) (vs vsys3) 7" by (simp add: vsys3_def asleep_def NPROC_def)
  have "used_idx (vs vsys2) = vused_idx (vs vsys2)"
    by (simp add: vsys2_def rw_format_simps[OF refl] taken_def run_as_def vboot_fields)
  then show "usedq vsys3 = []" using vrestD(6,8)[OF dozing_simps(1)[of 7 "Ch_bufp 3" "run_as 7 (vs vsys2)"]]
    by (simp add: usedq_def vsys3_def run_as_def)
qed

text \<open>The device reports an error for this request.\<close>

definition vsys4 :: vsys where
  "vsys4 = vsys3\<lparr>seen := 1, busy := {0}\<rparr>"

definition vsys5 :: vsys where
  "vsys5 = vsys4\<lparr>vs := completed 0 1 (vs vsys4), busy := {}\<rparr>"

lemma vsys4_reach: "vd_reach dev0 vsys4"
proof -
  have q: "avail_idx (vs vsys2) = 1" "avail_ring (vs vsys2) 0 = 0" "seen vsys2 = 0" "busy vsys2 = {}"
    by (simp_all add: vsys2_def rw_format_simps[OF refl] taken_def run_as_def vboot_fields) (simp_all add: vsys1_def vsys0_def)
  note v = vrestD(4,5)[OF dozing_simps(1)[of 7 "Ch_bufp 3" "run_as 7 (vs vsys2)"]]
  have r: "avail_idx (vs vsys3) = 1" "avail_ring (vs vsys3) 0 = 0" "seen vsys3 = 0" "busy vsys3 = {}"
    using q v by (simp_all add: vsys3_def run_as_def)
  have "disk_step dev0 vsys3 vsys4" using fetch[of vsys3 dev0] r by (simp add: vsys4_def)
  then show ?thesis by (intro step[OF vsys3_reach]) (simp add: vd_step_def)
qed

lemma vsys5_reach: "vd_reach dev0 vsys5" and vsys5_failed: "0 \<in> set (usedq vsys5)" "info_status (vs vsys5) 0 = 1"
proof -
  have "d_next (desc (vs vsys2) 0) = 1" "d_addr (desc (vs vsys2) 1) = Data 3" by (simp_all add: vsys2_def rw_format_simps[OF refl])
  then have "d_next (desc (vs vsys4) 0) = 1" "d_addr (desc (vs vsys4) 1) = Data 3" by (simp_all add: vsys4_def vsys3_def run_as_def)
  then have d: "dev0 0 (vs vsys4) (completed 0 1 (vs vsys4))" by (simp add: dev0_def)
  have b: "0 \<in> busy vsys4" "vsys5 = vsys4\<lparr>vs := completed 0 1 (vs vsys4), busy := busy vsys4 - {0}\<rparr>" by (simp_all add: vsys5_def vsys4_def)
  have "disk_step dev0 vsys4 vsys5" unfolding b(2) by (rule serve[of 0 vsys4 dev0, OF b(1) d])
  then show "vd_reach dev0 vsys5" by (intro step[OF vsys4_reach]) (simp add: vd_step_def)
  show "0 \<in> set (usedq vsys5)"
    using serve_used(2)[OF vd_reach_inv[OF dev0_block vsys4_reach] dev0_block b(1) d] b(2) by simp
  show "info_status (vs vsys5) 0 = 1" by (simp add: vsys5_def completed_def)
qed

subsection \<open>Theorems\<close>

text \<open>C4. The disk driver implements the contract of \<^verbatim>\<open>virtio_disk_rw\<close> the buffer cache relies on, for blocks with a number below \<^verbatim>\<open>2^31\<close>.  Whatever
  the order in which processes call it, sleep and wake, the device fetches and completes requests with whatever status, and interrupts
  arrive, each step of the system is one of the contract (a call with its direction, the transfer of one block in the
  direction the caller asked for as one step, a failure the device reports, the return of a call that was done, a change by the owner of a
  buffer) or changes nothing the callers see.\<close>

theorem disk_driver_refines:
  assumes "virtio_block dev" "vd_reach dev x" "vd_step dev x y"
  shows "rw_step (rw_abs x) (rw_abs y) \<or> rw_abs y = rw_abs x"
  using vd_step_ok[OF assms(1) vd_reach_inv[OF assms(1,2)] assms(3)] by (simp add: step_ok_def)

theorem disk_driver_refines_witness:
  "virtio_block dev0 \<and> vd_reach dev0 vsys0 \<and> vd_step dev0 vsys0 vsys1
    \<and> (rw_step (rw_abs vsys0) (rw_abs vsys1) \<or> rw_abs vsys1 = rw_abs vsys0)"
  using disk_driver_refines[OF dev0_block vsys0_reach vsys0_call] dev0_block vsys0_reach vsys0_call by blast

text \<open>C14. The disk driver panics only when the device reports a failure.  In every reachable state the allocation of descriptors returns (with three
  descriptors or with none), a process frees the chain of its request without a panic, a descriptor is free exactly when no
  request under way has it in its chain, and the interrupt handler returns when all completions in the used ring have status 0;
  otherwise it stops the kernel with its panic about the status.\<close>

theorem disk_driver_safe:
  assumes "virtio_block dev" "vd_reach dev x"
  shows "(\<exists>r s. alloc3_desc (vs x) = Ret (r, s))
    \<and> (if \<forall>h \<in> set (usedq x). info_status (vs x) h = 0 then \<exists>s. virtio_disk_intr (vs x) = Ret s
       else virtio_disk_intr (vs x) = Panic ''virtio_disk_intr status'')
    \<and> (\<forall>b h. reqs x b = Some h \<longrightarrow> (\<exists>s. rw_finish h (vs x) = Ret s))
    \<and> (\<forall>i < NUM. dfree (vs x) i \<longleftrightarrow> (\<forall>b h. reqs x b = Some h \<longrightarrow> i \<notin> set (chain_of (vs x) h)))"
proof (intro conjI allI impI)
  note X = vd_reach_inv[OF assms]
  show "\<exists>r s. alloc3_desc (vs x) = Ret (r, s)" by (rule alloc3_cases[of "vs x"]) blast+
  show "if \<forall>h \<in> set (usedq x). info_status (vs x) h = 0 then \<exists>s. virtio_disk_intr (vs x) = Ret s
       else virtio_disk_intr (vs x) = Panic ''virtio_disk_intr status''"
  proof (cases "\<forall>h \<in> set (usedq x). info_status (vs x) h = 0")
    case True
    have "\<exists>s. virtio_disk_intr (vs x) = Ret s" by (rule irq_returns[OF X True]) blast
    with True show ?thesis by simp
  next
    case False
    then obtain h where "h \<in> set (usedq x)" "info_status (vs x) h \<noteq> 0" by blast
    then have "virtio_disk_intr (vs x) = Panic ''virtio_disk_intr status''" by (rule irq_fails[OF X])
    with False show ?thesis by (simp only: if_False)
  qed
  show "\<exists>s. rw_finish h (vs x) = Ret s" if "reqs x b = Some h" for b h using finish_frees[OF X that] by blast
  show "dfree (vs x) i \<longleftrightarrow> (\<forall>b h. reqs x b = Some h \<longrightarrow> i \<notin> set (chain_of (vs x) h))" if "i < NUM" for i
    by (rule dfree_iff[OF vd_invD(1)[OF X] that])
qed

theorem disk_driver_safe_witness:
  "(\<exists>s. virtio_disk_intr (vs vsys3) = Ret s) \<and> (\<exists>s. rw_finish 0 (vs vsys3) = Ret s)
    \<and> virtio_disk_intr (vs vsys5) = Panic ''virtio_disk_intr status''"
proof -
  note th = disk_driver_safe[OF dev0_block vsys3_reach]
  have "\<exists>s. virtio_disk_intr (vs vsys3) = Ret s" using conjunct1[OF conjunct2[OF th]] by (simp add: vsys3_state(4))
  moreover have "\<exists>s. rw_finish 0 (vs vsys3) = Ret s" using conjunct1[OF conjunct2[OF conjunct2[OF th]]] vsys3_state(2) by blast
  moreover have "\<not> (\<forall>h \<in> set (usedq vsys5). info_status (vs vsys5) h = 0)" using vsys5_failed by (metis zero_neq_one)
  then have "virtio_disk_intr (vs vsys5) = Panic ''virtio_disk_intr status''"
    using conjunct1[OF conjunct2[OF disk_driver_safe[OF dev0_block vsys5_reach]]] by (simp only: if_False)
  ultimately show ?thesis by blast
qed

text \<open>C15. No wakeup and no request is lost.  In every reachable state a process that sleeps for a buffer has a request that is still
  in the available ring, in the device or in the used ring, whose next interrupt wakes it, and a process sleeps for descriptors only while
  fewer than three are free and other requests, whose end wakes it, hold the rest.  As long as the device has reported no failure and is able to
  perform requests, from every reachable state with a call under way there are steps of the device, the interrupt handler and the
  callers alone, in which no sleeping process runs before the driver has woken it, after which the call has returned.\<close>

theorem disk_request_completes:
  assumes "virtio_block dev" "vd_reach dev x"
  shows "(\<forall>b i. asleep (Ch_bufp b) (vs x) i \<longrightarrow> (\<exists>h. reqs x b = Some h \<and> h \<in> set (availq x) \<union> busy x \<union> set (usedq x)))
    \<and> (\<forall>i. asleep Ch_disk_free (vs x) i \<longrightarrow> card (free_descs (vs x)) < 3 \<and> (\<exists>b h. reqs x b = Some h))
    \<and> (answers dev \<longrightarrow> (\<forall>h \<in> set (usedq x). info_status (vs x) h = 0) \<longrightarrow>
       (\<forall>b. who x b \<noteq> None \<longrightarrow> (\<exists>y. (disk_step dev)\<^sup>*\<^sup>* x y \<and> who y b = None)))"
proof (intro conjI allI impI)
  note X = vd_reach_inv[OF assms]
  show "\<exists>h. reqs x b = Some h \<and> h \<in> set (availq x) \<union> busy x \<union> set (usedq x)" if "asleep (Ch_bufp b) (vs x) i" for b i
    by (rule buffer_sleeper[OF X that])
  show "card (free_descs (vs x)) < 3" "\<exists>b h. reqs x b = Some h" if "asleep Ch_disk_free (vs x) i" for i
    using desc_sleeper[OF X that] by blast+
  show "\<exists>y. (disk_step dev)\<^sup>*\<^sup>* x y \<and> who y b = None"
    if "answers dev" "\<forall>h \<in> set (usedq x). info_status (vs x) h = 0" "who x b \<noteq> None" for b
    by (rule complete_call[OF assms(1) that(1) X _ that(3)]) (use that(2) in \<open>simp add: used_ok_def\<close>)
qed

theorem disk_request_completes_witness:
  "asleep (Ch_bufp 3) (vs vsys3) 7 \<and> who vsys3 3 = Some (7, False) \<and> (\<exists>y. (disk_step dev0)\<^sup>*\<^sup>* vsys3 y \<and> who y 3 = None)"
proof -
  note th = disk_request_completes[OF dev0_block vsys3_reach]
  have "\<forall>h \<in> set (usedq vsys3). info_status (vs vsys3) h = 0" "who vsys3 3 \<noteq> None" by (simp_all add: vsys3_state)
  then have "\<exists>y. (disk_step dev0)\<^sup>*\<^sup>* vsys3 y \<and> who y 3 = None" using conjunct2[OF conjunct2[OF th]] dev0_answers by blast
  then show ?thesis using vsys3_state by blast
qed

end
