(* ===== verification/Mkfs.thy ===== *)
theory Mkfs
  imports FsLayout
begin

text \<open>
  \<^verbatim>\<open>mkfs/mkfs.c\<close>: the program that builds the initial file system image on the host, a little-endian machine.  The image is a file; its
  blocks and their number are the state, with the variables of the program.  A \<^verbatim>\<open>struct dinode\<close> is its 64 bytes.  A failing \<^verbatim>\<open>assert\<close> and \<^verbatim>\<open>die\<close> are
  panics.
\<close>

unbundle bit_operations_syntax

definition FSSIZE :: nat where "FSSIZE = 2000"
definition NINODES :: nat where "NINODES = 200"
definition nbitmap :: nat where "nbitmap = FSSIZE div (BSIZE * 8) + 1"
definition ninodeblocks :: nat where "ninodeblocks = NINODES div IPB + 1"
definition nlog :: nat where "nlog = LOGSIZE"
definition nmeta :: nat where "nmeta = 2 + nlog + ninodeblocks + nbitmap"
definition nblocks :: nat where "nblocks = FSSIZE - nmeta"

record mkfs =
  img :: "uint \<Rightarrow> cptr"
  img_len :: nat
  msb :: superblock
  freeinode :: uint
  freeblock :: uint

text \<open>The bytes of \<^verbatim>\<open>y\<close> are set in the byte order of the target and read back in that of the host.\<close>

definition xshort :: "ushort \<Rightarrow> ushort" where
  "xshort x = ld16 ((\<lambda>_. 0)(0 := ucast x, 1 := ucast (drop_bit 8 x))) 0"

definition xint :: "uint \<Rightarrow> uint" where
  "xint x = ld32 ((\<lambda>_. 0)(0 := ucast x, 1 := ucast (drop_bit 8 x), 2 := ucast (drop_bit 16 x), 3 := ucast (drop_bit 24 x))) 0"

subsection \<open>Sectors and inodes\<close>

text \<open>The block at the offset \<^verbatim>\<open>sec * BSIZE\<close>, computed in 32 bits.\<close>

definition sector :: "uint \<Rightarrow> uint" where
  "sector sec = sec * of_nat BSIZE div of_nat BSIZE"

definition wsect :: "uint \<Rightarrow> cptr \<Rightarrow> mkfs \<Rightarrow> mkfs" where
  "wsect sec buf s = s\<lparr>img := (img s)(sector sec := buf), img_len := max (img_len s) (unat (sector sec) + 1)\<rparr>"

definition rsect :: "uint \<Rightarrow> mkfs \<Rightarrow> cptr kres" where
  "rsect sec s = (if unat (sector sec) < img_len s then Ret (img s (sector sec)) else Panic ''read'')"

definition IBLOCK_mkfs :: "uint \<Rightarrow> mkfs \<Rightarrow> uint" where
  "IBLOCK_mkfs i s = i div of_nat IPB + sb_inodestart (msb s)"

definition winode :: "uint \<Rightarrow> cptr \<Rightarrow> mkfs \<Rightarrow> mkfs kres" where
  "winode inum ip s =
     (let bn = IBLOCK_mkfs inum s in
      kbind (rsect bn s) (\<lambda>buf. Ret (wsect bn (blit buf (dinode_at inum) ip 64) s)))"

definition rinode :: "uint \<Rightarrow> mkfs \<Rightarrow> cptr kres" where
  "rinode inum s =
     (let bn = IBLOCK_mkfs inum s in
      kbind (rsect bn s) (\<lambda>buf. Ret (\<lambda>j. buf (dinode_at inum + j))))"

definition ialloc_mkfs :: "ushort \<Rightarrow> mkfs \<Rightarrow> (uint \<times> mkfs) kres" where
  "ialloc_mkfs type s =
     (let inum = freeinode s;
          s = s\<lparr>freeinode := freeinode s + 1\<rparr>;
          din = st32 8 (xint 0) (st16 6 (xshort 1) (st16 0 (xshort type) (\<lambda>_. 0)))
      in kbind (winode inum din s) (\<lambda>s. Ret (inum, s)))"

definition balloc_mkfs :: "uint \<Rightarrow> mkfs \<Rightarrow> mkfs kres" where
  "balloc_mkfs used s =
     (if \<not> sint used < int (BSIZE * 8) then Panic ''assert''
      else Ret (wsect (sb_bmapstart (msb s)) (fold mark_used [0..<nat (sint used)] (\<lambda>_. 0)) s))"

subsection \<open>Files\<close>

text \<open>The offset in the inode of the \<open>i\<close>-th block address, and its allocation when it is still 0.\<close>

definition addr_at :: "nat \<Rightarrow> nat" where
  "addr_at i = 12 + 4 * i"

definition take_addr :: "nat \<Rightarrow> cptr \<Rightarrow> mkfs \<Rightarrow> cptr \<times> mkfs" where
  "take_addr i din s =
     (if xint (ld32 din (addr_at i)) = 0
      then (st32 (addr_at i) (xint (freeblock s)) din, s\<lparr>freeblock := freeblock s + 1\<rparr>)
      else (din, s))"

text \<open>The block \<^verbatim>\<open>x\<close> of the image that holds block \<^verbatim>\<open>fbn\<close> of the file.\<close>

definition file_block :: "uint \<Rightarrow> cptr \<Rightarrow> mkfs \<Rightarrow> (uint \<times> cptr \<times> mkfs) kres" where
  "file_block fbn din s =
     (if unat fbn < NDIRECT then
        let (din, s) = take_addr (unat fbn) din s in Ret (xint (ld32 din (addr_at (unat fbn))), din, s)
      else
        let (din, s) = take_addr NDIRECT din s; e = 4 * (unat fbn - NDIRECT) in
        kbind (rsect (xint (ld32 din (addr_at NDIRECT))) s) (\<lambda>indirect.
          if ld32 indirect e = 0 then
            let indirect = st32 e (xint (freeblock s)) indirect;
                s = s\<lparr>freeblock := freeblock s + 1\<rparr>;
                s = wsect (xint (ld32 din (addr_at NDIRECT))) indirect s
            in Ret (xint (ld32 indirect e), din, s)
          else Ret (xint (ld32 indirect e), din, s)))"

lemma chunk_room: "unat ((off div of_nat BSIZE + 1) * of_nat BSIZE - off :: uint) = BSIZE - unat off mod BSIZE"
proof -
  let ?r = "off mod 1024 :: uint"
  have r: "unat ?r = unat off mod 1024" by (simp add: unat_mod)
  have "off div 1024 * 1024 + ?r = off" by (rule div_mult_mod_eq)
  then have "(off div 1024 + 1) * 1024 - off = 1024 - ?r" by (metis add_diff_cancel_left distrib_right mult_1)
  moreover have "?r \<le> 1024" using r by (simp add: word_le_nat_alt)
  ultimately have "unat ((off div 1024 + 1) * 1024 - off) = 1024 - unat off mod 1024" by (simp only: unat_sub r) simp
  then show ?thesis by (simp add: BSIZE_def)
qed

text \<open>As \<^verbatim>\<open>n\<close> is positive in the loop, the comparison of \<^verbatim>\<open>min\<close> is the same for signed and unsigned numbers.\<close>

function iappend_loop :: "int \<Rightarrow> uint \<Rightarrow> cptr \<Rightarrow> cptr \<Rightarrow> mkfs \<Rightarrow> (uint \<times> cptr \<times> mkfs) kres" where
  "iappend_loop n off p din s =
     (if n > 0 then
        let fbn = off div of_nat BSIZE in
        if \<not> unat fbn < MAXFILE then Panic ''assert''
        else
          kbind (file_block fbn din s) (\<lambda>(x, din, s).
            let n1 = min n (int (unat ((fbn + 1) * of_nat BSIZE - off))) in
            kbind (rsect x s) (\<lambda>buf.
            iappend_loop (n - n1) (off + word_of_int n1) (\<lambda>j. p (nat n1 + j)) din
              (wsect x (blit buf (unat (off - fbn * of_nat BSIZE)) p (nat n1)) s)))
      else Ret (off, din, s))"
  by pat_completeness auto

termination
proof (relation "measure (\<lambda>(n, _). nat n)")
  fix n :: int and off :: uint and fbn n1
  assume n: "n > 0" and d: "fbn = off div of_nat BSIZE" "n1 = min n (int (unat ((fbn + 1) * of_nat BSIZE - off)))"
  have "n1 = min n (int (BSIZE - unat off mod BSIZE))" unfolding d chunk_room ..
  then have "n1 > 0" using n by (simp add: BSIZE_def)
  with n show "((n - n1, a, b, c, e), n, off, b', c', e') \<in> measure (\<lambda>(n, _). nat n)" for a b c e b' c' e' by simp
qed simp

declare iappend_loop.simps [simp del]

definition iappend :: "uint \<Rightarrow> cptr \<Rightarrow> int \<Rightarrow> mkfs \<Rightarrow> mkfs kres" where
  "iappend inum p n s =
     kbind (rinode inum s) (\<lambda>din.
     kbind (iappend_loop n (xint (ld32 din 8)) p din s) (\<lambda>(off, din, s).
     winode inum (st32 8 (xint off) din) s))"

subsection \<open>The program\<close>

definition mk_sb :: superblock where
  "mk_sb = \<lparr>sb_magic = FSMAGIC, sb_size = xint (of_nat FSSIZE), sb_nblocks = xint (of_nat nblocks), sb_ninodes = xint (of_nat NINODES),
     sb_nlog = xint (of_nat nlog), sb_logstart = xint 2, sb_inodestart = xint (2 + of_nat nlog),
     sb_bmapstart = xint (2 + of_nat nlog + of_nat ninodeblocks)\<rparr>"

definition put_sb :: "superblock \<Rightarrow> cptr \<Rightarrow> cptr" where
  "put_sb b d = st32 28 (sb_bmapstart b) (st32 24 (sb_inodestart b) (st32 20 (sb_logstart b) (st32 16 (sb_nlog b)
     (st32 12 (sb_ninodes b) (st32 8 (sb_nblocks b) (st32 4 (sb_size b) (st32 0 (sb_magic b) d)))))))"

definition c_string :: "uchar list \<Rightarrow> cptr" where
  "c_string cs = (\<lambda>i. if i < length cs then cs ! i else 0)"

definition dirent_for :: "uint \<Rightarrow> uchar list \<Rightarrow> cptr" where
  "dirent_for inum name = mk_dirent (xshort (ucast inum)) (strncpy (\<lambda>_. 0) (c_string name) (int DIRSIZ))"

text \<open>\<^verbatim>\<open>"user/"\<close> and \<^verbatim>\<open>'_'\<close>.\<close>

definition shortname :: "uchar list \<Rightarrow> uchar list" where
  "shortname arg = (if take 5 arg = [117, 115, 101, 114, 47] then drop 5 arg else arg)"

definition skip_underscore :: "uchar list \<Rightarrow> uchar list" where
  "skip_underscore nm = (if nm \<noteq> [] \<and> hd nm = 95 then tl nm else nm)"

text \<open>A file of the host: its name and what the calls of \<^verbatim>\<open>read\<close> deliver of it, in order.\<close>

type_synonym host_file = "uchar list \<times> uchar list list"

definition add_chunk :: "uint \<Rightarrow> uchar list \<Rightarrow> mkfs \<Rightarrow> mkfs kres" where
  "add_chunk inum cs s = iappend inum (c_string cs) (int (length cs)) s"

definition add_file :: "uint \<Rightarrow> host_file \<Rightarrow> mkfs \<Rightarrow> mkfs kres" where
  "add_file rootino f s =
     (case f of (arg, chunks) \<Rightarrow>
      let nm = shortname arg in
      if 47 \<in> set nm then Panic ''assert''
      else
        kbind (ialloc_mkfs T_FILE s) (\<lambda>(inum, s).
        kbind (iappend rootino (dirent_for inum (skip_underscore nm)) 16 s)
          (kfold (add_chunk inum) chunks)))"

definition mkfs0 :: mkfs where
  "mkfs0 = \<lparr>img = (\<lambda>_ _. 0), img_len = 0, msb = mk_sb, freeinode = 1, freeblock = of_nat nmeta\<rparr>"

definition mkfs_main :: "host_file list \<Rightarrow> mkfs kres" where
  "mkfs_main files =
     (let s = fold (\<lambda>i. wsect (of_nat i) (\<lambda>_. 0)) [0..<FSSIZE] mkfs0;
          s = wsect 1 (put_sb (msb s) (\<lambda>_. 0)) s
      in kbind (ialloc_mkfs T_DIR s) (\<lambda>(rootino, s).
         if rootino \<noteq> ROOTINO then Panic ''assert''
         else
           kbind (iappend rootino (dirent_for rootino [46]) 16 s) (\<lambda>s.
           kbind (iappend rootino (dirent_for rootino [46, 46]) 16 s) (\<lambda>s.
           kbind (kfold (add_file rootino) files s) (\<lambda>s.
           kbind (rinode rootino s) (\<lambda>din.
             let off = xint (ld32 din 8);
                 off = (off div of_nat BSIZE + 1) * of_nat BSIZE
             in kbind (winode rootino (st32 8 (xint off) din) s) (\<lambda>s. balloc_mkfs (freeblock s) s)))))))"

end
