(* ===== verification/MkfsBlocks.thy ===== *)
theory MkfsBlocks
  imports Mkfs
begin

text \<open>
  The blocks of an image under construction: which inode owns which block, what giving out a block and writing to a block leave alone, and the
  loop of \<^verbatim>\<open>iappend\<close> on the bytes of the file.
\<close>

lemma xshort_id [simp]: "xshort x = x"
proof -
  have "(\<lambda>_. 0)(0 := ucast x, 1 := ucast (drop_bit 8 x)) = st16 0 x (\<lambda>_. 0)"
    by (auto simp: st16_def le_put_def fun_eq_iff less_Suc_eq numeral_2_eq_2)
  then show ?thesis unfolding xshort_def by (simp only: ld_st_same)
qed

lemma xint_id [simp]: "xint x = x"
proof -
  have "(\<lambda>_. 0)(0 := ucast x, 1 := ucast (drop_bit 8 x), 2 := ucast (drop_bit 16 x), 3 := ucast (drop_bit 24 x)) = st32 0 x (\<lambda>_. 0)"
  proof
    fix j :: nat
    consider "j = 0" | "j = 1" | "j = 2" | "j = 3" | "j \<ge> 4" by linarith
    then show "((\<lambda>_. 0)(0 := ucast x, 1 := ucast (drop_bit 8 x), 2 := ucast (drop_bit 16 x), 3 := ucast (drop_bit 24 x))) j = st32 0 x (\<lambda>_. 0) j"
      by cases (auto simp: st32_def le_put_def)
  qed
  then show ?thesis unfolding xint_def by (simp only: ld_st_same)
qed

lemma sector_id [simp]: "unat sec < 2 ^ 22 \<Longrightarrow> sector sec = sec"
proof -
  assume "unat sec < 2 ^ 22"
  then have "unat (sec * 1024) = unat sec * 1024" by (simp add: unat_word_ariths(2))
  then show ?thesis by (simp add: sector_def BSIZE_def word_unat_eq_iff unat_div)
qed

lemma ld32_zero: "(\<And>j. off \<le> j \<Longrightarrow> j < off + 4 \<Longrightarrow> d j = 0) \<Longrightarrow> ld32 d off = 0"
proof -
  assume "\<And>j. off \<le> j \<Longrightarrow> j < off + 4 \<Longrightarrow> d j = 0"
  then have "ld32 d off = ld32 (\<lambda>_. 0) off" unfolding ld32_def by (intro le_get_cong) auto
  also have "\<dots> = 0" by (simp add: ld32_def numeral_eq_Suc)
  finally show ?thesis .
qed

subsection \<open>Blocks and their owners\<close>

text \<open>
  The block numbers in an inode and its indirect block, in one sequence: the direct blocks, the indirect block, the blocks the
  indirect block names.  \<open>fslot k\<close> is the place of block \<open>k\<close> of the file.
\<close>

definition slots :: "(uint \<Rightarrow> cptr) \<Rightarrow> cptr \<Rightarrow> nat \<Rightarrow> uint" where
  "slots im din j =
     (if j \<le> NDIRECT then ld32 din (addr_at j)
      else if ld32 din (addr_at NDIRECT) = 0 \<or> j > MAXFILE then 0
      else ld32 (im (ld32 din (addr_at NDIRECT))) (4 * (j - NDIRECT - 1)))"

definition fslot :: "nat \<Rightarrow> nat" where
  "fslot k = (if k < NDIRECT then k else Suc k)"

lemma slots_ind: "slots im din NDIRECT = ld32 din (addr_at NDIRECT)"
  by (simp add: slots_def)

lemma addr_at_other: "i \<noteq> j \<Longrightarrow> addr_at i + 4 \<le> addr_at j \<or> addr_at j + 4 \<le> addr_at i"
  by (auto simp: addr_at_def)

lemma slots_direct: "k < NDIRECT \<Longrightarrow> slots im (st32 (addr_at k) v din) = (slots im din)(k := v)"
  using addr_at_other[of NDIRECT k] addr_at_other[of _ k] by (auto simp: slots_def ld_st_other fun_eq_iff)

lemma slots_indirect:
  assumes "slots im din NDIRECT = 0" "\<forall>j < BSIZE. im v j = 0"
  shows "slots im (st32 (addr_at NDIRECT) v din) = (slots im din)(NDIRECT := v)"
proof
  fix j
  have "ld32 (im v) (4 * (j - NDIRECT - 1)) = 0" if "j \<le> MAXFILE"
    using that assms(2) by (intro ld32_zero) (auto simp: MAXFILE_def NDIRECT_def NINDIRECT_def BSIZE_def)
  then show "slots im (st32 (addr_at NDIRECT) v din) j = ((slots im din)(NDIRECT := v)) j"
    using assms(1) addr_at_other[of j NDIRECT] by (auto simp: slots_def ld_st_other)
qed

lemma slots_entry:
  assumes "a = slots im din NDIRECT" "a \<noteq> 0" "e < NINDIRECT"
  shows "slots (im(a := st32 (4 * e) v (im a))) din = (slots im din)(Suc (NDIRECT + e) := v)"
proof
  fix j
  have "4 * (j - NDIRECT - 1) + 4 \<le> 4 * e \<or> 4 * e + 4 \<le> 4 * (j - NDIRECT - 1)" if "j > NDIRECT" "j \<noteq> Suc (NDIRECT + e)" using that by linarith
  then show "slots (im(a := st32 (4 * e) v (im a))) din j = ((slots im din)(Suc (NDIRECT + e) := v)) j"
    using assms by (auto simp: slots_def ld_st_other MAXFILE_def)
qed

lemma slots_other: "b \<noteq> slots im din NDIRECT \<Longrightarrow> slots (im(b := d)) din = slots im din"
  by (auto simp: slots_def fun_eq_iff)

text \<open>Of the inodes \<open>I\<close> each has its own blocks, among those given out so far; the others are still all 0.\<close>

definition owned :: "(uint \<Rightarrow> cptr) \<Rightarrow> (uint \<Rightarrow> cptr) \<Rightarrow> uint set \<Rightarrow> uint \<Rightarrow> bool" where
  "owned im dins I fb \<longleftrightarrow>
     (\<forall>i \<in> I. \<forall>j. slots im (dins i) j \<noteq> 0 \<longrightarrow> nmeta \<le> unat (slots im (dins i) j) \<and> slots im (dins i) j < fb)
     \<and> (\<forall>i \<in> I. \<forall>i' \<in> I. \<forall>j j'. slots im (dins i) j \<noteq> 0 \<longrightarrow> slots im (dins i) j = slots im (dins i') j' \<longrightarrow> i = i' \<and> j = j')
     \<and> (\<forall>b. fb \<le> b \<longrightarrow> unat b < FSSIZE \<longrightarrow> (\<forall>j < BSIZE. im b j = 0))"

text \<open>A new block at a place that is 0.\<close>

lemma owned_take:
  assumes o: "owned im dins I fb" and i: "i \<in> I" "slots im (dins i) j = 0" and fb: "nmeta \<le> unat fb" "unat fb < FSSIZE"
    and new: "slots im' (dins' i) = (slots im (dins i))(j := fb)" "\<And>i'. i' \<in> I \<Longrightarrow> i' \<noteq> i \<Longrightarrow> slots im' (dins' i') = slots im (dins i')"
    and im: "\<And>b. fb < b \<Longrightarrow> im' b = im b"
  shows "owned im' dins' I (fb + 1)"
proof -
  let ?S = "\<lambda>i. slots im (dins i)" and ?T = "\<lambda>i. slots im' (dins' i)"
  have s: "?S i' j' < fb \<and> nmeta \<le> unat (?S i' j')" if "i' \<in> I" "?S i' j' \<noteq> 0" for i' j' using o that by (simp add: owned_def)
  have inj: "i1 = i2 \<and> j1 = j2" if "i1 \<in> I" "i2 \<in> I" "?S i1 j1 \<noteq> 0" "?S i1 j1 = ?S i2 j2" for i1 i2 j1 j2
    using o that unfolding owned_def by blast
  have T: "?T i' j' = (if i' = i \<and> j' = j then fb else ?S i' j')" if "i' \<in> I" for i' j' using new that by (cases "i' = i") auto
  have n0: "fb \<noteq> 0" using fb(1) by (auto simp: nmeta_def)
  have le: "x < fb + 1 \<longleftrightarrow> x \<le> fb" for x using fb(2) by (simp add: word_less_nat_alt word_le_nat_alt unat_word_ariths(1) FSSIZE_def) linarith
  have "nmeta \<le> unat (?T i' j') \<and> ?T i' j' < fb + 1" if "i' \<in> I" "?T i' j' \<noteq> 0" for i' j'
    using that s[of i' j'] fb(1) by (auto simp: T le split: if_splits intro: order.strict_implies_order)
  moreover have "i1 = i2 \<and> j1 = j2" if h: "i1 \<in> I" "i2 \<in> I" "?T i1 j1 \<noteq> 0" "?T i1 j1 = ?T i2 j2" for i1 i2 j1 j2
    using inj[of i1 i2 j1 j2] s[of i1 j1] s[of i2 j2] h n0 by (auto simp: T split: if_splits)
  moreover have "\<forall>j < BSIZE. im' b j = 0" if "fb + 1 \<le> b" "unat b < FSSIZE" for b
  proof -
    have "fb < b" using that(1) le[of b] by (simp add: linorder_not_less[symmetric])
    with im o that(2) show ?thesis by (simp add: owned_def)
  qed
  ultimately show ?thesis unfolding owned_def by blast
qed

text \<open>An inode whose file has \<open>nb\<close> blocks, and how many blocks of the image that takes.\<close>

definition shape :: "(nat \<Rightarrow> uint) \<Rightarrow> nat \<Rightarrow> bool" where
  "shape S nb \<longleftrightarrow> nb \<le> MAXFILE \<and> (\<forall>k < MAXFILE. S (fslot k) \<noteq> 0 \<longleftrightarrow> k < nb) \<and> (S NDIRECT \<noteq> 0 \<longleftrightarrow> NDIRECT < nb)"

definition need :: "nat \<Rightarrow> nat" where
  "need nb = nb + (if NDIRECT < nb then 1 else 0)"

definition vol :: "mkfs \<Rightarrow> (uint \<Rightarrow> cptr) \<Rightarrow> (uint \<Rightarrow> nat) \<Rightarrow> uint set \<Rightarrow> bool" where
  "vol s dins nbs I \<longleftrightarrow> finite I \<and> img_len s = FSSIZE \<and> owned (img s) dins I (freeblock s)
     \<and> (\<forall>i \<in> I. shape (slots (img s) (dins i)) (nbs i)) \<and> unat (freeblock s) = nmeta + (\<Sum>i \<in> I. need (nbs i)) \<and> unat (freeblock s) \<le> FSSIZE"

lemma fslot_simps [simp]: "fslot k = fslot k' \<longleftrightarrow> k = k'" "fslot k \<noteq> NDIRECT" "NDIRECT \<noteq> fslot k"
  by (auto simp: fslot_def)

lemma shape_direct: "shape S nb \<Longrightarrow> nb < NDIRECT \<Longrightarrow> v \<noteq> 0 \<Longrightarrow> shape (S(nb := v)) (Suc nb)"
  by (auto simp: shape_def fslot_def MAXFILE_def less_Suc_eq)

lemma shape_first: "shape S NDIRECT \<Longrightarrow> v \<noteq> 0 \<Longrightarrow> w \<noteq> 0 \<Longrightarrow> shape (S(NDIRECT := v, Suc NDIRECT := w)) (Suc NDIRECT)"
proof -
  have "(S(NDIRECT := v, Suc NDIRECT := w)) (fslot k) = (if k = NDIRECT then w else S (fslot k))" for k by (simp add: fslot_def)
  moreover have "(S(NDIRECT := v, Suc NDIRECT := w)) NDIRECT = v" by simp
  ultimately show "shape S NDIRECT \<Longrightarrow> v \<noteq> 0 \<Longrightarrow> w \<noteq> 0 \<Longrightarrow> shape (S(NDIRECT := v, Suc NDIRECT := w)) (Suc NDIRECT)"
    by (auto simp: shape_def MAXFILE_def NINDIRECT_def less_Suc_eq simp del: fun_upd_apply)
qed

lemma shape_entry: "shape S nb \<Longrightarrow> NDIRECT < nb \<Longrightarrow> nb < MAXFILE \<Longrightarrow> v \<noteq> 0 \<Longrightarrow> shape (S(Suc nb := v)) (Suc nb)"
  by (auto simp: shape_def fslot_def less_Suc_eq)

text \<open>What a step leaves alone: the blocks of the files, the metadata, the other fields of the inodes.\<close>

definition kept :: "uint set \<Rightarrow> (uint \<Rightarrow> nat) \<Rightarrow> (uint \<Rightarrow> cptr) \<Rightarrow> mkfs \<Rightarrow> (uint \<Rightarrow> cptr) \<Rightarrow> mkfs \<Rightarrow> bool" where
  "kept I nbs dins s dins' s' \<longleftrightarrow>
     (\<forall>i \<in> I. \<forall>k < nbs i. slots (img s') (dins' i) (fslot k) = slots (img s) (dins i) (fslot k)
        \<and> img s' (slots (img s) (dins i) (fslot k)) = img s (slots (img s) (dins i) (fslot k)))
     \<and> (\<forall>b. unat b < nmeta \<longrightarrow> img s' b = img s b) \<and> img_len s' = img_len s \<and> msb s' = msb s \<and> freeinode s' = freeinode s
     \<and> (\<forall>i \<in> I. \<forall>j < 12. dins' i j = dins i j)"

lemma kept_refl [simp]: "kept I nbs dins s dins s"
  by (simp add: kept_def)

lemma kept_trans:
  assumes "kept I nbs dins s dins1 s1" "kept I nbs' dins1 s1 dins2 s2" "\<And>i. i \<in> I \<Longrightarrow> nbs i \<le> nbs' i"
  shows "kept I nbs dins s dins2 s2"
proof -
  have "slots (img s2) (dins2 i) (fslot k) = slots (img s) (dins i) (fslot k)
      \<and> img s2 (slots (img s) (dins i) (fslot k)) = img s (slots (img s) (dins i) (fslot k))" if "i \<in> I" "k < nbs i" for i k
  proof -
    have "k < nbs' i" using that assms(3) by fastforce
    with that assms(1,2) show ?thesis unfolding kept_def by metis
  qed
  with assms(1,2) show ?thesis by (simp add: kept_def)
qed

lemma kept_take:
  assumes o: "owned (img s) dins I (freeblock s)" and sh: "\<forall>i \<in> I. \<forall>k < nbs i. slots (img s) (dins i) (fslot k) \<noteq> 0"
    and i: "i \<in> I" "slots (img s) (dins i) j = 0"
    and new: "slots (img s') (dins' i) = (slots (img s) (dins i))(j := v)"
      "\<And>i'. i' \<in> I \<Longrightarrow> i' \<noteq> i \<Longrightarrow> slots (img s') (dins' i') = slots (img s) (dins i')"
    and im: "\<And>b. img s' b \<noteq> img s b \<Longrightarrow> b \<noteq> 0 \<and> b = slots (img s) (dins i) NDIRECT"
    and rest: "img_len s' = img_len s" "msb s' = msb s" "freeinode s' = freeinode s" "\<forall>i \<in> I. \<forall>j < 12. dins' i j = dins i j"
  shows "kept I nbs dins s dins' s'"
proof -
  have inj: "i1 = i2 \<and> j1 = j2" if "i1 \<in> I" "i2 \<in> I" "slots (img s) (dins i1) j1 \<noteq> 0" "slots (img s) (dins i1) j1 = slots (img s) (dins i2) j2"
    for i1 i2 j1 j2 using o that unfolding owned_def by blast
  have "slots (img s') (dins' i') (fslot k) = slots (img s) (dins i') (fslot k)
      \<and> img s' (slots (img s) (dins i') (fslot k)) = img s (slots (img s) (dins i') (fslot k))" if h: "i' \<in> I" "k < nbs i'" for i' k
  proof -
    have n0: "slots (img s) (dins i') (fslot k) \<noteq> 0" using sh h by simp
    have "slots (img s') (dins' i') (fslot k) = slots (img s) (dins i') (fslot k)"
      using n0 i(2) new h(1) by (cases "i' = i") auto
    moreover have "slots (img s) (dins i') (fslot k) \<noteq> slots (img s) (dins i) NDIRECT"
      using inj[OF h(1) i(1) n0, of NDIRECT] by auto
    then have "img s' (slots (img s) (dins i') (fslot k)) = img s (slots (img s) (dins i') (fslot k))" using im by blast
    ultimately show ?thesis ..
  qed
  moreover have "img s' b = img s b" if "unat b < nmeta" for b
  proof (rule ccontr)
    assume "img s' b \<noteq> img s b"
    with im have "b \<noteq> 0" "b = slots (img s) (dins i) NDIRECT" by blast+
    with o i(1) have "nmeta \<le> unat b" unfolding owned_def by blast
    with that show False by simp
  qed
  ultimately show ?thesis using rest by (simp add: kept_def)
qed

lemma take_fb:
  fixes fb :: uint
  assumes "unat fb < FSSIZE" "nmeta \<le> unat fb"
  shows "fb \<noteq> 0" "unat (fb + 1) = Suc (unat fb)" "fb < b \<Longrightarrow> b \<noteq> fb"
  using assms by (auto simp: FSSIZE_def nmeta_def unat_word_ariths(1))

text \<open>The three ways a block is given out: a direct block, the indirect block, a block in the indirect block.\<close>

lemma take_direct:
  assumes o: "owned (img s) dins I (freeblock s)" "\<forall>i \<in> I. \<forall>k < nbs i. slots (img s) (dins i) (fslot k) \<noteq> 0" "i \<in> I"
    and k: "k \<le> NDIRECT" "slots (img s) (dins i) k = 0" and fb: "nmeta \<le> unat (freeblock s)" "unat (freeblock s) < FSSIZE"
  defines "din' \<equiv> st32 (addr_at k) (freeblock s) (dins i)" and "s' \<equiv> s\<lparr>freeblock := freeblock s + 1\<rparr>"
  shows "take_addr k (dins i) s = (din', s')" "owned (img s') (dins(i := din')) I (freeblock s')" "kept I nbs dins s (dins(i := din')) s'"
    "slots (img s') din' = (slots (img s) (dins i))(k := freeblock s)"
proof -
  show "take_addr k (dins i) s = (din', s')" using k by (simp add: take_addr_def slots_def din'_def s'_def)
  have z: "\<forall>j < BSIZE. img s (freeblock s) j = 0" using o(1) fb(2) by (simp add: owned_def)
  show S: "slots (img s') din' = (slots (img s) (dins i))(k := freeblock s)"
    using slots_direct[of k] slots_indirect[where im = "img s" and v = "freeblock s" and din = "dins i"] z k by (cases "k = NDIRECT") (auto simp: din'_def s'_def)
  show "owned (img s') (dins(i := din')) I (freeblock s')"
    using owned_take[OF o(1,3) k(2) fb, of "img s'" "dins(i := din')"] S by (simp add: s'_def)
  have "\<forall>j < 12. din' j = dins i j" by (auto simp: din'_def st_outside addr_at_def)
  then show "kept I nbs dins s (dins(i := din')) s'"
    using kept_take[OF o(1-3) k(2), of s' "dins(i := din')"] S by (simp add: s'_def)
qed

lemma take_entry:
  assumes o: "owned (img s) dins I (freeblock s)" "\<forall>i \<in> I. \<forall>k < nbs i. slots (img s) (dins i) (fslot k) \<noteq> 0" "i \<in> I"
    and a: "a = slots (img s) (dins i) NDIRECT" "a \<noteq> 0" and e: "e < NINDIRECT" "slots (img s) (dins i) (Suc (NDIRECT + e)) = 0"
    and fb: "nmeta \<le> unat (freeblock s)" "unat (freeblock s) < FSSIZE" and len: "img_len s = FSSIZE"
  defines "s' \<equiv> wsect a (st32 (4 * e) (freeblock s) (img s a)) (s\<lparr>freeblock := freeblock s + 1\<rparr>)"
  shows "owned (img s') dins I (freeblock s')" "kept I nbs dins s dins s'"
    "slots (img s') (dins i) = (slots (img s) (dins i))(Suc (NDIRECT + e) := freeblock s)" "freeblock s' = freeblock s + 1"
    "\<forall>i' \<in> I - {i}. slots (img s') (dins i') = slots (img s) (dins i')"
proof -
  have r: "a < freeblock s" using o(1,3) a unfolding owned_def by blast
  then have l: "unat a < FSSIZE" using fb(2) by (simp add: word_less_nat_alt)
  then have im: "img s' = (img s)(a := st32 (4 * e) (freeblock s) (img s a))" and len': "img_len s' = img_len s"
    using len by (simp_all add: s'_def wsect_def FSSIZE_def max_def)
  show fb': "freeblock s' = freeblock s + 1" by (simp add: s'_def wsect_def)
  show S: "slots (img s') (dins i) = (slots (img s) (dins i))(Suc (NDIRECT + e) := freeblock s)"
    unfolding im by (rule slots_entry[OF a e(1)])
  have S': "slots (img s') (dins i') = slots (img s) (dins i')" if "i' \<in> I" "i' \<noteq> i" for i'
  proof -
    have "a \<noteq> slots (img s) (dins i') NDIRECT" using o(1,3) a that unfolding owned_def by blast
    then show ?thesis unfolding im by (rule slots_other)
  qed
  then show "\<forall>i' \<in> I - {i}. slots (img s') (dins i') = slots (img s) (dins i')" by simp
  show "owned (img s') dins I (freeblock s')"
    unfolding fb' using r by (intro owned_take[OF o(1,3) e(2) fb S S']) (auto simp: im)
  show "kept I nbs dins s dins s'"
  proof (rule kept_take[OF o(1-3) e(2) S S' _ len'])
    show "b \<noteq> 0 \<and> b = slots (img s) (dins i) NDIRECT" if "img s' b \<noteq> img s b" for b
      using that a by (auto simp: im split: if_splits)
  qed (simp_all add: s'_def wsect_def)
qed

lemma sum_need:
  "finite I \<Longrightarrow> i \<in> I \<Longrightarrow> (\<Sum>i' \<in> I. need ((nbs(i := n)) i')) + need (nbs i) = (\<Sum>i' \<in> I. need (nbs i')) + need n"
  by (simp add: sum.remove[of I i])

lemma shape_filled: "shape S nb \<Longrightarrow> k < nb \<Longrightarrow> S (fslot k) \<noteq> 0"
  by (auto simp: shape_def dest: less_le_trans)

lemma volD:
  assumes "vol s dins nbs I"
  shows "finite I" "img_len s = FSSIZE" "owned (img s) dins I (freeblock s)" "i \<in> I \<Longrightarrow> shape (slots (img s) (dins i)) (nbs i)"
    "\<forall>i \<in> I. \<forall>k < nbs i. slots (img s) (dins i) (fslot k) \<noteq> 0"
    "unat (freeblock s) = nmeta + (\<Sum>i \<in> I. need (nbs i))" "unat (freeblock s) \<le> FSSIZE"
proof -
  show "\<forall>i \<in> I. \<forall>k < nbs i. slots (img s) (dins i) (fslot k) \<noteq> 0" using assms shape_filled unfolding vol_def by blast
qed (use assms in \<open>simp_all add: vol_def\<close>)

lemma owned_range: "owned im dins I fb \<Longrightarrow> i \<in> I \<Longrightarrow> slots im (dins i) j \<noteq> 0 \<Longrightarrow> slots im (dins i) j < fb"
  by (simp add: owned_def)

lemma rsect_ok: "img_len s = FSSIZE \<Longrightarrow> unat b < FSSIZE \<Longrightarrow> rsect b s = Ret (img s b)"
  by (simp add: rsect_def FSSIZE_def)

lemma file_block_old:
  assumes v: "vol s dins nbs I" and i: "i \<in> I" "unat fbn < nbs i"
  shows "file_block fbn (dins i) s = Ret (slots (img s) (dins i) (fslot (unat fbn)), dins i, s)"
proof -
  have sh: "shape (slots (img s) (dins i)) (nbs i)" and b: "slots (img s) (dins i) (fslot (unat fbn)) \<noteq> 0" using volD[OF v] i by auto
  show ?thesis
  proof (cases "unat fbn < NDIRECT")
    case True
    then show ?thesis using b by (simp add: file_block_def take_addr_def fslot_def slots_def)
  next
    case False
    then have a: "slots (img s) (dins i) NDIRECT \<noteq> 0" using sh i(2) by (simp add: shape_def)
    then have "unat (ld32 (dins i) (addr_at NDIRECT)) < FSSIZE"
      using owned_range[OF volD(3)[OF v] i(1) a] volD(7)[OF v] by (simp add: slots_ind word_less_nat_alt)
    then show ?thesis
      using False a b volD(2)[OF v] by (simp add: file_block_def take_addr_def fslot_def slots_def rsect_ok split: if_splits)
  qed
qed

lemma file_block_entry:
  assumes o: "owned (img s) dins I (freeblock s)" "i \<in> I" "\<forall>i \<in> I. \<forall>k < nbs i. slots (img s) (dins i) (fslot k) \<noteq> 0"
    and k: "NDIRECT \<le> unat fbn" "unat fbn < MAXFILE" and a: "slots (img s) (dins i) NDIRECT \<noteq> 0" "slots (img s) (dins i) (fslot (unat fbn)) = 0"
    and fb: "nmeta \<le> unat (freeblock s)" "unat (freeblock s) < FSSIZE" and len: "img_len s = FSSIZE"
  obtains s' where "file_block fbn (dins i) s = Ret (freeblock s, dins i, s')" "owned (img s') dins I (freeblock s')" "kept I nbs dins s dins s'"
    "slots (img s') (dins i) = (slots (img s) (dins i))(fslot (unat fbn) := freeblock s)" "freeblock s' = freeblock s + 1"
    "\<forall>i' \<in> I - {i}. slots (img s') (dins i') = slots (img s) (dins i')"
proof -
  let ?a = "slots (img s) (dins i) NDIRECT" and ?e = "unat fbn - NDIRECT"
  have e: "?e < NINDIRECT" "Suc (NDIRECT + ?e) = fslot (unat fbn)" using k by (auto simp: MAXFILE_def fslot_def)
  have l: "unat ?a < FSSIZE" using owned_range[OF o(1,2) a(1)] fb(2) by (simp add: word_less_nat_alt)
  have "ld32 (img s ?a) (4 * ?e) = 0" using a k by (simp add: slots_def fslot_def)
  then have "file_block fbn (dins i) s = Ret (freeblock s, dins i, wsect ?a (st32 (4 * ?e) (freeblock s) (img s ?a)) (s\<lparr>freeblock := freeblock s + 1\<rparr>))"
    using k a l len by (simp add: file_block_def take_addr_def slots_ind rsect_ok Let_def)
  then show thesis using take_entry[OF o(1,3,2) refl a(1) e(1) _ fb len] a(2) unfolding e(2) by (intro that) auto
qed

lemma file_block_ok:
  assumes v: "vol s dins nbs I" and i: "i \<in> I" "unat fbn < MAXFILE" "unat fbn \<le> nbs i"
    and fit: "nmeta + (\<Sum>i' \<in> I. need ((nbs(i := max (nbs i) (Suc (unat fbn)))) i')) \<le> FSSIZE"
  shows "\<exists>din' s'. file_block fbn (dins i) s = Ret (slots (img s') din' (fslot (unat fbn)), din', s')
    \<and> vol s' (dins(i := din')) (nbs(i := max (nbs i) (Suc (unat fbn)))) I \<and> kept I nbs dins s (dins(i := din')) s'"
proof -
  let ?k = "unat fbn" and ?S = "slots (img s) (dins i)"
  note V = volD[OF v]
  have sum: "unat (freeblock s) + need (max (nbs i) (Suc ?k)) \<le> FSSIZE + need (nbs i)" "nmeta \<le> unat (freeblock s)"
    using fit sum_need[OF V(1) i(1), of nbs "max (nbs i) (Suc ?k)"] V(6) by linarith+
  show ?thesis
  proof (cases "?k < nbs i")
    case True
    then have m: "max (nbs i) (Suc ?k) = nbs i" by simp
    have "file_block fbn (dins i) s = Ret (?S (fslot ?k), dins i, s)" using file_block_old[OF v i(1) True] by simp
    then show ?thesis using v by (intro exI[of _ "dins i"] exI[of _ s]) (simp add: m)
  next
    case False
    then have k: "nbs i = ?k" "max (nbs i) (Suc ?k) = Suc ?k" using i(3) by simp_all
    have fb: "unat (freeblock s) + need (Suc ?k) \<le> FSSIZE + need ?k" using sum(1) k by simp
    have sh: "shape ?S ?k" using V(4)[OF i(1)] k(1) by simp
    have z: "?S (fslot ?k) = 0" using sh i(2) by (auto simp: shape_def)
    have fin: ?thesis if g: "file_block fbn (dins i) s = Ret (slots (img s') din' (fslot ?k), din', s')"
      "owned (img s') (dins(i := din')) I (freeblock s')" "kept I nbs dins s (dins(i := din')) s'"
      "shape (slots (img s') din') (Suc ?k)" "unat (freeblock s') + need ?k = unat (freeblock s) + need (Suc ?k)"
      "\<forall>i' \<in> I - {i}. slots (img s') (dins i') = slots (img s) (dins i')" for din' s'
    proof -
      have "unat (freeblock s') = nmeta + (\<Sum>i' \<in> I. need ((nbs(i := Suc ?k)) i'))"
        using g(5) sum_need[OF V(1) i(1), of nbs "Suc ?k"] V(6) k(1) by simp
      moreover have "shape (slots (img s') ((dins(i := din')) i')) ((nbs(i := Suc ?k)) i')" if "i' \<in> I" for i'
        using g(4,6) V(4)[of i'] that by (cases "i' = i") auto
      ultimately have "vol s' (dins(i := din')) (nbs(i := Suc ?k)) I" using V(1,2) g(2,3) fit k(2) by (simp add: vol_def kept_def)
      then show ?thesis using g(1,3) k by auto
    qed
    consider "?k < NDIRECT" | "?k = NDIRECT" | "NDIRECT < ?k" by linarith
    then show ?thesis
    proof cases
      case 1
      then have l: "unat (freeblock s) < FSSIZE" using fb by (simp add: need_def)
      note T = take_direct[OF V(3,5) i(1) _ _ sum(2) l, of ?k] and F = take_fb[OF l sum(2)]
      show ?thesis
      proof (rule fin[of "s\<lparr>freeblock := freeblock s + 1\<rparr>"])
        show "shape (slots (img (s\<lparr>freeblock := freeblock s + 1\<rparr>)) (st32 (addr_at ?k) (freeblock s) (dins i))) (Suc ?k)"
          using T(4) 1 z shape_direct[OF sh 1 F(1)] by (simp add: fslot_def)
      qed (use 1 z T F in \<open>simp_all add: file_block_def need_def fslot_def\<close>)
    next
      case 2
      then have l: "unat (freeblock s) < FSSIZE" "Suc (unat (freeblock s)) < FSSIZE" using fb by (simp_all add: need_def)
      let ?d = "st32 (addr_at NDIRECT) (freeblock s) (dins i)" and ?s = "s\<lparr>freeblock := freeblock s + 1\<rparr>"
      have "?S NDIRECT = 0" using sh 2 by (simp add: shape_def)
      note T = take_direct[OF V(3,5) i(1) order.refl this sum(2) l(1)] and F = take_fb[OF l(1) sum(2)]
      have f: "file_block fbn (dins i) s = file_block fbn ?d ?s" using T(1) F(1) 2 by (simp add: file_block_def take_addr_def)
      have e: "NDIRECT \<le> ?k" "slots (img ?s) ((dins(i := ?d)) i) NDIRECT \<noteq> 0" "slots (img ?s) ((dins(i := ?d)) i) (fslot ?k) = 0"
        using 2 T(4) F(1) z by simp_all
      have n: "\<forall>i' \<in> I. \<forall>k < nbs i'. slots (img ?s) ((dins(i := ?d)) i') (fslot k) \<noteq> 0" using V(5) T(3) by (simp add: kept_def)
      have fb2: "nmeta \<le> unat (freeblock ?s)" "unat (freeblock ?s) < FSSIZE" "img_len ?s = FSSIZE" using F(2) l(2) sum(2) V(2) by simp_all
      obtain s' where s': "file_block fbn ((dins(i := ?d)) i) ?s = Ret (freeblock ?s, (dins(i := ?d)) i, s')"
          "owned (img s') (dins(i := ?d)) I (freeblock s')" "kept I nbs (dins(i := ?d)) ?s (dins(i := ?d)) s'"
          "slots (img s') ((dins(i := ?d)) i) = (slots (img ?s) ((dins(i := ?d)) i))(fslot ?k := freeblock ?s)" "freeblock s' = freeblock ?s + 1"
          "\<forall>i' \<in> I - {i}. slots (img s') ((dins(i := ?d)) i') = slots (img ?s) ((dins(i := ?d)) i')"
        by (rule file_block_entry[OF T(2) i(1) n e(1) i(2) e(2,3) fb2])
      note F' = take_fb[OF fb2(2,1)]
      have "slots (img s') ?d = ?S(NDIRECT := freeblock s, Suc NDIRECT := freeblock s + 1)" using s'(4) T(4) 2 by (simp add: fslot_def)
      then have sh': "shape (slots (img s') ?d) (Suc ?k)" using shape_first[of ?S] sh 2 F(1) F'(1) by simp
      show ?thesis
      proof (rule fin[of s' ?d])
        show "kept I nbs dins s (dins(i := ?d)) s'" by (rule kept_trans[OF T(3) s'(3) order.refl])
      qed (use s' f sh' F F' 2 in \<open>simp_all add: need_def\<close>)
    next
      case 3
      then have l: "unat (freeblock s) < FSSIZE" using fb by (simp add: need_def)
      have a: "?S NDIRECT \<noteq> 0" using sh 3 by (simp add: shape_def)
      obtain s' where s': "file_block fbn (dins i) s = Ret (freeblock s, dins i, s')" "owned (img s') dins I (freeblock s')" "kept I nbs dins s dins s'"
          "slots (img s') (dins i) = ?S(fslot ?k := freeblock s)" "freeblock s' = freeblock s + 1"
          "\<forall>i' \<in> I - {i}. slots (img s') (dins i') = slots (img s) (dins i')"
        by (rule file_block_entry[OF V(3) i(1) V(5) order.strict_implies_order[OF 3] i(2) a z sum(2) l V(2)])
      note F = take_fb[OF l sum(2)]
      have "shape (slots (img s') (dins i)) (Suc ?k)" using shape_entry[OF sh 3 i(2) F(1)] s'(4) 3 by (simp add: fslot_def)
      then show ?thesis by (intro fin[of s' "dins i"]) (use s' F 3 in \<open>simp_all add: need_def\<close>)
    qed
  qed
qed

subsection \<open>The bytes of a file\<close>

definition nblk :: "nat \<Rightarrow> nat" where
  "nblk sz = (sz + (BSIZE - 1)) div BSIZE"

definition file_bytes :: "(uint \<Rightarrow> cptr) \<Rightarrow> cptr \<Rightarrow> nat \<Rightarrow> uchar list" where
  "file_bytes im din sz = map (\<lambda>p. im (slots im din (fslot (p div BSIZE))) (p mod BSIZE)) [0..<sz]"

lemma nblk_less: "p < sz \<Longrightarrow> p div BSIZE < nblk sz"
  unfolding nblk_def BSIZE_def by (simp add: less_eq_div_iff_mult_less_eq Suc_le_eq[symmetric])

lemma nblk_mono: "a \<le> b \<Longrightarrow> nblk a \<le> nblk b"
  by (simp add: nblk_def div_le_mono)

lemma need_mono: "a \<le> b \<Longrightarrow> need a \<le> need b"
  by (simp add: need_def)

lemma nblk_le: "sz \<le> n * BSIZE \<Longrightarrow> nblk sz \<le> n"
  unfolding nblk_def BSIZE_def by simp

lemma nblk_chunk:
  assumes "0 < n" "n \<le> BSIZE - sz mod BSIZE"
  shows "nblk (sz + n) = Suc (sz div BSIZE)" "max (nblk sz) (Suc (sz div BSIZE)) = Suc (sz div BSIZE)" "sz div BSIZE \<le> nblk sz"
proof -
  define k r where d: "k = sz div BSIZE" "r = sz mod BSIZE"
  have e: "sz = BSIZE * k + r" "r < BSIZE" by (simp_all add: d BSIZE_def)
  have n: "n \<le> BSIZE - r" using assms(2) by (simp add: d)
  have "nblk (sz + n) = Suc k" unfolding nblk_def using e n assms(1) by (intro div_nat_eqI) (simp_all add: BSIZE_def)
  moreover have "nblk sz \<le> Suc k" using e by (intro nblk_le) (simp add: BSIZE_def)
  moreover have "k \<le> nblk sz" unfolding d nblk_def by (rule div_le_mono) simp
  ultimately show "nblk (sz + n) = Suc (sz div BSIZE)" "max (nblk sz) (Suc (sz div BSIZE)) = Suc (sz div BSIZE)" "sz div BSIZE \<le> nblk sz"
    by (simp_all add: d)
qed

lemma file_bytes_kept:
  assumes "kept I nbs dins s dins' s'" "i \<in> I" "nblk sz \<le> nbs i"
  shows "file_bytes (img s') (dins' i) sz = file_bytes (img s) (dins i) sz"
proof -
  have "p div BSIZE < nbs i" if "p < sz" for p using nblk_less[OF that] assms(3) by simp
  then show ?thesis using assms(1,2) unfolding file_bytes_def kept_def by simp
qed

lemma write_data:
  assumes v: "vol s dins nbs I" and i: "i \<in> I" "k < nbs i" and x: "x = slots (img s) (dins i) (fslot k)"
  shows "img (wsect x buf s) = (img s)(x := buf)" "vol (wsect x buf s) dins nbs I"
    "\<And>i'. i' \<in> I \<Longrightarrow> slots (img (wsect x buf s)) (dins i') = slots (img s) (dins i')"
    "\<And>i' k'. i' \<in> I \<Longrightarrow> k' < nbs i' \<Longrightarrow> slots (img s) (dins i') (fslot k') = x \<Longrightarrow> i' = i \<and> k' = k" "nmeta \<le> unat x"
proof -
  note V = volD[OF v]
  have n0: "x \<noteq> 0" using V(5) i x by simp
  have inj: "i' = i \<and> j = fslot k" if "i' \<in> I" "slots (img s) (dins i') j = x" for i' j
    using V(3) i(1) that n0 x unfolding owned_def by metis
  show "i' = i \<and> k' = k" if "i' \<in> I" "k' < nbs i'" "slots (img s) (dins i') (fslot k') = x" for i' k' using inj[OF that(1,3)] by simp
  show m: "nmeta \<le> unat x" using V(3) i(1) n0 x unfolding owned_def by blast
  have l: "unat x < unat (freeblock s)" using owned_range[OF V(3) i(1)] n0 x by (auto simp: word_less_nat_alt)
  then have f: "unat x < FSSIZE" using V(7) by simp
  then show im: "img (wsect x buf s) = (img s)(x := buf)" by (simp add: wsect_def FSSIZE_def)
  show S: "slots (img (wsect x buf s)) (dins i') = slots (img s) (dins i')" if "i' \<in> I" for i'
    unfolding im using inj[OF that, of NDIRECT] by (intro slots_other) auto
  have "img_len (wsect x buf s) = FSSIZE" "freeblock (wsect x buf s) = freeblock s" using f V(2) by (simp_all add: wsect_def FSSIZE_def)
  moreover have "owned (img (wsect x buf s)) dins I (freeblock s)"
    using V(3) l S unfolding owned_def im by (auto simp: word_le_nat_alt)
  ultimately show "vol (wsect x buf s) dins nbs I" using v S by (simp add: vol_def)
qed

lemma off_words:
  fixes off :: uint
  shows "unat (off div of_nat BSIZE) = unat off div BSIZE" "unat (off - off div of_nat BSIZE * of_nat BSIZE) = unat off mod BSIZE"
  by (simp_all add: BSIZE_def unat_div minus_div_mult_eq_mod unat_mod)

lemma off_add:
  assumes "unat (off :: uint) + nat n \<le> MAXFILE * BSIZE" "0 \<le> n"
  shows "unat (off + word_of_int n) = unat off + nat n"
proof -
  have l: "unat off + nat n < 2 ^ 32" using assms(1) by (simp add: MAXFILE_def NDIRECT_def NINDIRECT_def BSIZE_def)
  have "word_of_int (int (nat n)) = (of_nat (nat n) :: uint)" by (rule of_int_of_nat_eq)
  then have "word_of_int n = (of_nat (nat n) :: uint)" using assms(2) by simp
  moreover have "unat (of_nat (nat n) :: uint) = nat n" using l by (simp add: unat_of_nat take_bit_nat_eq_self_iff)
  ultimately show ?thesis using l by (simp add: unat_word_ariths(1))
qed

text \<open>What appending to the file \<open>i\<close> leaves alone.\<close>

definition frame :: "uint set \<Rightarrow> uint \<Rightarrow> (uint \<Rightarrow> nat) \<Rightarrow> (uint \<Rightarrow> cptr) \<Rightarrow> mkfs \<Rightarrow> cptr \<Rightarrow> mkfs \<Rightarrow> bool" where
  "frame I i nbs dins s din' s' \<longleftrightarrow>
     (\<forall>i' \<in> I - {i}. \<forall>sz. nblk sz \<le> nbs i' \<longrightarrow> file_bytes (img s') (dins i') sz = file_bytes (img s) (dins i') sz)
     \<and> (\<forall>b. unat b < nmeta \<longrightarrow> img s' b = img s b) \<and> msb s' = msb s \<and> freeinode s' = freeinode s \<and> (\<forall>j < 12. din' j = dins i j)"

lemma frame_trans:
  "frame I i nbs dins s din1 s1 \<Longrightarrow> frame I i (nbs(i := n)) (dins(i := din1)) s1 din2 s2 \<Longrightarrow> frame I i nbs dins s din2 s2"
  by (simp add: frame_def)

lemma write_chunk:
  assumes v: "vol s dins nbs I" and i: "i \<in> I" "nbs i = Suc (sz div BSIZE)" and n: "0 < n" "n \<le> BSIZE - sz mod BSIZE"
    and s': "s' = wsect x (blit (img s x) (sz mod BSIZE) p n) s" and x: "x = slots (img s) (dins i) (fslot (sz div BSIZE))"
  shows "file_bytes (img s') (dins i) (sz + n) = file_bytes (img s) (dins i) sz @ map p [0..<n]"
    "i' \<in> I - {i} \<Longrightarrow> nblk sz' \<le> nbs i' \<Longrightarrow> file_bytes (img s') (dins i') sz' = file_bytes (img s) (dins i') sz'"
proof -
  let ?k = "sz div BSIZE" and ?r = "sz mod BSIZE"
  have k: "?k < nbs i" using i(2) by simp
  note W = write_data(1,3)[OF v i(1) k x, where buf = "blit (img s x) ?r p n", folded s'] and D = write_data(4)[OF v i(1) k x]
  show "file_bytes (img s') (dins i') sz' = file_bytes (img s) (dins i') sz'" if "i' \<in> I - {i}" "nblk sz' \<le> nbs i'" for i' sz'
  proof -
    have "slots (img s) (dins i') (fslot (q div BSIZE)) \<noteq> x" if "q < sz'" for q
      using D[of i' "q div BSIZE"] nblk_less[OF that] \<open>i' \<in> I - {i}\<close> \<open>nblk sz' \<le> nbs i'\<close> by auto
    then show ?thesis using W(1) W(2)[of i'] that(1) unfolding file_bytes_def by simp
  qed
  have "?r < BSIZE" by (simp add: BSIZE_def)
  then have d: "sz + n \<le> Suc ?k * BSIZE" using n(2) div_mult_mod_eq[of sz BSIZE] unfolding mult_Suc by linarith
  show "file_bytes (img s') (dins i) (sz + n) = file_bytes (img s) (dins i) sz @ map p [0..<n]"
  proof (rule nth_equalityI)
    fix q assume "q < length (file_bytes (img s') (dins i) (sz + n))"
    then have q: "q < sz + n" by (simp add: file_bytes_def)
    show "file_bytes (img s') (dins i) (sz + n) ! q = (file_bytes (img s) (dins i) sz @ map p [0..<n]) ! q"
    proof (cases "q div BSIZE = ?k")
      case True
      then have "q mod BSIZE = q - ?k * BSIZE" "?r = sz - ?k * BSIZE" "?k * BSIZE \<le> q" "?k * BSIZE \<le> sz"
        by (metis minus_div_mult_eq_mod, simp add: minus_div_mult_eq_mod, metis div_times_less_eq_dividend, simp)
      then have r: "q < sz \<longleftrightarrow> q mod BSIZE < ?r" "sz \<le> q \<Longrightarrow> q mod BSIZE - ?r = q - sz" "q mod BSIZE < ?r + n" using q by linarith+
      show ?thesis using q r True W(1) W(2)[OF i(1)] x by (cases "q < sz") (auto simp: file_bytes_def nth_append blit_def)
    next
      case False
      have "q div BSIZE \<le> ?k" using q d by (simp add: less_Suc_eq_le[symmetric] less_mult_imp_div_less)
      then have l: "q < sz" using False by (metis div_le_mono leI le_antisym)
      have "slots (img s) (dins i) (fslot (q div BSIZE)) \<noteq> x"
        using D[OF i(1), of "q div BSIZE"] False \<open>q div BSIZE \<le> ?k\<close> i(2) by auto
      then show ?thesis using l q W(1) W(2)[OF i(1)] by (simp add: file_bytes_def nth_append)
    qed
  qed (simp add: file_bytes_def)
qed

lemma append_chunk:
  assumes v: "vol s dins (nbs(i := nblk sz)) I" and i: "i \<in> I" and n: "0 < n" "n \<le> BSIZE - sz mod BSIZE" "sz + n \<le> MAXFILE * BSIZE"
    and fbn: "unat fbn = sz div BSIZE" and fit: "nmeta + (\<Sum>i' \<in> I. need ((nbs(i := nblk (sz + n))) i')) \<le> FSSIZE"
  obtains x din1 s1 where "file_block fbn (dins i) s = Ret (x, din1, s1)" "rsect x s1 = Ret (img s1 x)"
    "vol (wsect x (blit (img s1 x) (sz mod BSIZE) p n) s1) (dins(i := din1)) (nbs(i := nblk (sz + n))) I"
    "file_bytes (img (wsect x (blit (img s1 x) (sz mod BSIZE) p n) s1)) din1 (sz + n) = file_bytes (img s) (dins i) sz @ map p [0..<n]"
    "frame I i nbs dins s din1 (wsect x (blit (img s1 x) (sz mod BSIZE) p n) s1)"
proof -
  let ?k = "sz div BSIZE"
  note N = nblk_chunk[OF n(1,2)]
  have k: "unat fbn < MAXFILE" using n(1,3) unfolding fbn by (intro less_mult_imp_div_less) linarith
  have fit': "nmeta + (\<Sum>i' \<in> I. need (((nbs(i := nblk sz))(i := max ((nbs(i := nblk sz)) i) (Suc (unat fbn)))) i')) \<le> FSSIZE"
    using fit N by (simp add: fbn)
  obtain din1 s1 where f: "file_block fbn (dins i) s = Ret (slots (img s1) din1 (fslot ?k), din1, s1)"
      "vol s1 (dins(i := din1)) (nbs(i := Suc ?k)) I" "kept I (nbs(i := nblk sz)) dins s (dins(i := din1)) s1"
    using file_block_ok[OF v i k _ fit'] N fbn by auto
  define x where "x = slots (img s1) ((dins(i := din1)) i) (fslot ?k)"
  define s2 where "s2 = wsect x (blit (img s1 x) (sz mod BSIZE) p n) s1"
  have kk: "?k < (nbs(i := Suc ?k)) i" by simp
  have "x \<noteq> 0" using volD(5)[OF f(2)] i by (auto simp: x_def)
  then have "unat x < FSSIZE"
    using owned_range[OF volD(3)[OF f(2)] i, of "fslot ?k"] volD(7)[OF f(2)] by (simp add: x_def word_less_nat_alt)
  then have r: "rsect x s1 = Ret (img s1 x)" by (intro rsect_ok volD(2)[OF f(2)])
  have c: "file_bytes (img s1) ((dins(i := din1)) i') sz' = file_bytes (img s) (dins i') sz'" if "i' \<in> I" "nblk sz' \<le> (nbs(i := nblk sz)) i'" for i' sz'
    by (rule file_bytes_kept[OF f(3) that])
  note W = write_chunk[OF f(2) i _ n(1,2) s2_def x_def]
  have "img s2 b = img s b" if "unat b < nmeta" for b
    using write_data(1)[OF f(2) i kk x_def] write_data(5)[OF f(2) i kk x_def] f(3) that by (auto simp: s2_def kept_def)
  moreover have "file_bytes (img s2) (dins i') sz' = file_bytes (img s) (dins i') sz'" if "i' \<in> I - {i}" "nblk sz' \<le> nbs i'" for i' sz'
    using W(2)[of i' sz'] c[of i' sz'] that by simp
  moreover have "msb s2 = msb s" "freeinode s2 = freeinode s" "\<forall>j < 12. din1 j = dins i j"
    using f(3) i by (auto simp: kept_def s2_def wsect_def)
  ultimately have "frame I i nbs dins s din1 s2" by (simp add: frame_def)
  moreover have "file_bytes (img s2) din1 (sz + n) = file_bytes (img s) (dins i) sz @ map p [0..<n]" using W(1) c[OF i, of sz] by simp
  moreover have "vol s2 (dins(i := din1)) (nbs(i := nblk (sz + n))) I" unfolding s2_def N(1) by (rule write_data(2)[OF f(2) i kk x_def])
  ultimately show thesis using that[of x din1 s1] f(1) r by (simp add: x_def s2_def)
qed

lemma iappend_loop_ok:
  assumes "vol s dins (nbs(i := nblk (unat off))) I" "i \<in> I" "0 \<le> n" "unat off + nat n \<le> MAXFILE * BSIZE"
    "nmeta + (\<Sum>i' \<in> I. need ((nbs(i := nblk (unat off + nat n))) i')) \<le> FSSIZE"
  shows "\<exists>off' din' s'. iappend_loop n off p (dins i) s = Ret (off', din', s') \<and> unat off' = unat off + nat n
    \<and> vol s' (dins(i := din')) (nbs(i := nblk (unat off + nat n))) I
    \<and> file_bytes (img s') din' (unat off + nat n) = file_bytes (img s) (dins i) (unat off) @ map p [0..<nat n]
    \<and> frame I i nbs dins s din' s'"
  using assms
proof (induction "nat n" arbitrary: n off p dins s rule: less_induct)
  case less
  show ?case
  proof (cases "n = 0")
    case True
    then show ?thesis using less.prems(1) by (simp add: iappend_loop.simps frame_def)
  next
    case False
    let ?sz = "unat off" and ?fbn = "off div of_nat BSIZE"
    define m where "m = min n (int (BSIZE - ?sz mod BSIZE))"
    have r: "?sz mod BSIZE < BSIZE" by (simp add: BSIZE_def)
    then have m: "0 < nat m" "nat m \<le> BSIZE - ?sz mod BSIZE" "0 \<le> m" "m \<le> n" "nat n = nat m + nat (n - m)" "nat (n - m) < nat n"
      using False less.prems(3) by (auto simp: m_def min_def)
    have b: "?sz + nat m \<le> MAXFILE * BSIZE" using less.prems(4) m(5) by linarith
    have o: "unat (off + word_of_int m) = ?sz + nat m" by (rule off_add[OF b m(3)])
    have f: "unat ?fbn < MAXFILE" using m(1) b unfolding off_words(1) by (intro less_mult_imp_div_less) linarith
    have "(\<Sum>i' \<in> I. need ((nbs(i := nblk (?sz + nat m))) i')) \<le> (\<Sum>i' \<in> I. need ((nbs(i := nblk (?sz + nat n))) i'))"
      using m(5) by (intro sum_mono) (simp add: need_mono nblk_mono)
    then have fit: "nmeta + (\<Sum>i' \<in> I. need ((nbs(i := nblk (?sz + nat m))) i')) \<le> FSSIZE" using less.prems(5) by linarith
    obtain x din1 s1 where a: "file_block ?fbn (dins i) s = Ret (x, din1, s1)" "rsect x s1 = Ret (img s1 x)"
        "vol (wsect x (blit (img s1 x) (?sz mod BSIZE) p (nat m)) s1) (dins(i := din1)) (nbs(i := nblk (?sz + nat m))) I"
        "file_bytes (img (wsect x (blit (img s1 x) (?sz mod BSIZE) p (nat m)) s1)) din1 (?sz + nat m) = file_bytes (img s) (dins i) ?sz @ map p [0..<nat m]"
        "frame I i nbs dins s din1 (wsect x (blit (img s1 x) (?sz mod BSIZE) p (nat m)) s1)"
      using append_chunk[OF less.prems(1,2) m(1,2) b off_words(1) fit, of p] by metis
    define s2 where "s2 = wsect x (blit (img s1 x) (?sz mod BSIZE) p (nat m)) s1"
    have st: "iappend_loop n off p (dins i) s = iappend_loop (n - m) (off + word_of_int m) (\<lambda>j. p (nat m + j)) ((dins(i := din1)) i) s2"
      using False less.prems(3) f a(1,2) by (subst iappend_loop.simps) (simp add: Let_def chunk_room off_words(2) m_def[symmetric] s2_def)
    have t: "?sz + nat m + nat (n - m) = ?sz + nat n" using m(5) by simp
    note IH = less.hyps[OF m(6), of s2 "dins(i := din1)" "off + word_of_int m" "\<lambda>j. p (nat m + j)", unfolded o t]
    obtain off' din' s' where h: "iappend_loop (n - m) (off + word_of_int m) (\<lambda>j. p (nat m + j)) ((dins(i := din1)) i) s2 = Ret (off', din', s')"
        "unat off' = ?sz + nat n" "vol s' ((dins(i := din1))(i := din')) (nbs(i := nblk (?sz + nat n))) I"
        "file_bytes (img s') din' (?sz + nat n) = file_bytes (img s2) ((dins(i := din1)) i) (?sz + nat m) @ map (\<lambda>j. p (nat m + j)) [0..<nat (n - m)]"
        "frame I i nbs (dins(i := din1)) s2 din' s'"
      using IH a(3) less.prems(2,4,5) m(4) by (auto simp: s2_def)
    have "map p [0..<nat n] = map p [0..<nat m] @ map (\<lambda>j. p (nat m + j)) [0..<nat (n - m)]"
      unfolding m(5) by (rule nth_equalityI) (auto simp: nth_append)
    then have "file_bytes (img s') din' (?sz + nat n) = file_bytes (img s) (dins i) ?sz @ map p [0..<nat n]" using h(4) a(4) by (simp add: s2_def)
    moreover have "frame I i nbs dins s din' s'" using a(5) h(5) by (simp add: frame_def s2_def)
    ultimately show ?thesis using st h(1-3) by simp
  qed
qed

end
