(* ===== verification/MkfsProps.thy ===== *)
theory MkfsProps
  imports MkfsBlocks
begin

text \<open>
  What \<^verbatim>\<open>mkfs\<close> writes is a file system in the sense of the kernel: each file has its bytes, no block has two owners, and the free map is
  exact.  The state of the program is abstracted to the list of its files; each operation is one on that list.
\<close>

subsection \<open>The image\<close>

definition din_of :: "mkfs \<Rightarrow> uint \<Rightarrow> cptr" where
  "din_of s i = (\<lambda>j. img s (IBLOCK_mkfs i s) (dinode_at i + j))"

definition fsz :: "mkfs \<Rightarrow> uint \<Rightarrow> nat" where
  "fsz s i = unat (ld32 (din_of s i) 8)"

definition inums :: "mkfs \<Rightarrow> uint set" where
  "inums s = {i. 1 \<le> i \<and> i < freeinode s}"

definition fs_inv :: "mkfs \<Rightarrow> bool" where
  "fs_inv s \<longleftrightarrow> msb s = mk_sb \<and> 1 \<le> freeinode s \<and> unat (freeinode s) \<le> NINODES \<and> vol s (din_of s) (\<lambda>i. nblk (fsz s i)) (inums s)"

definition file_of :: "mkfs \<Rightarrow> uint \<Rightarrow> uchar list" where
  "file_of s i = file_bytes (img s) (din_of s i) (fsz s i)"

lemma nmeta_val: "nmeta = 46"
  by (simp add: nmeta_def nlog_def LOGSIZE_def ninodeblocks_def NINODES_def IPB_def nbitmap_def FSSIZE_def BSIZE_def)

lemma IBLOCK_val:
  assumes "msb s = mk_sb" "unat i < NINODES"
  shows "unat (IBLOCK_mkfs i s) = 32 + unat i div 16"
proof -
  have "unat i div 16 < 13" using assms(2) by (simp add: NINODES_def less_mult_imp_div_less)
  then show ?thesis
    using assms by (simp add: IBLOCK_mkfs_def mk_sb_def nlog_def LOGSIZE_def IPB_def unat_word_ariths(1) unat_div)
qed

lemma ld_cong64: "(\<And>j. j < 64 \<Longrightarrow> d j = d' j) \<Longrightarrow> off \<le> 60 \<Longrightarrow> ld32 d off = ld32 d' off"
  unfolding ld32_def by (rule le_get_cong) simp

lemma slots_cong:
  assumes "\<And>j. j < 64 \<Longrightarrow> d' j = d j" "slots im d NDIRECT \<noteq> 0 \<Longrightarrow> im' (slots im d NDIRECT) = im (slots im d NDIRECT)"
  shows "slots im' d' = slots im d"
proof
  fix j
  have "ld32 d' (addr_at j) = ld32 d (addr_at j)" if "j \<le> NDIRECT" for j
    using that by (intro ld_cong64 assms(1)) (simp_all add: addr_at_def NDIRECT_def)
  then show "slots im' d' j = slots im d j" using assms(2) by (simp add: slots_def)
qed

lemma vol_cong:
  assumes v: "vol s dins nbs I" and d: "\<And>i j. i \<in> I \<Longrightarrow> j < 64 \<Longrightarrow> dins' i j = dins i j"
    and im: "\<And>b. nmeta \<le> unat b \<Longrightarrow> img s' b = img s b" and r: "img_len s' = img_len s" "freeblock s' = freeblock s"
  shows "vol s' dins' nbs I" "i \<in> I \<Longrightarrow> nblk sz \<le> nbs i \<Longrightarrow> file_bytes (img s') (dins' i) sz = file_bytes (img s) (dins i) sz"
proof -
  note V = volD[OF v]
  have m: "nmeta \<le> unat (slots (img s) (dins i) j)" if "i \<in> I" "slots (img s) (dins i) j \<noteq> 0" for i j
    using V(3) that by (simp add: owned_def)
  have S: "slots (img s') (dins' i) = slots (img s) (dins i)" if "i \<in> I" for i
    using d[OF that] im m[OF that] by (intro slots_cong) auto
  have "nmeta \<le> unat b" if "freeblock s \<le> b" for b using that V(6) by (simp add: word_le_nat_alt)
  then have "owned (img s') dins' I (freeblock s)" using V(3) S im by (simp add: owned_def)
  then show "vol s' dins' nbs I" using v S r by (simp add: vol_def)
  show "file_bytes (img s') (dins' i) sz = file_bytes (img s) (dins i) sz" if i: "i \<in> I" "nblk sz \<le> nbs i"
  proof -
    have "img s' (slots (img s) (dins i) (fslot (p div BSIZE))) = img s (slots (img s) (dins i) (fslot (p div BSIZE)))" if "p < sz" for p
      using V(5) nblk_less[OF that] i by (intro im m) auto
    then show ?thesis using S[OF i(1)] by (simp add: file_bytes_def)
  qed
qed

lemma winode_ok:
  assumes m: "msb s = mk_sb" "img_len s = FSSIZE" and i: "unat i < NINODES"
  obtains s' where "winode i din s = Ret s'" "\<And>j. j < 64 \<Longrightarrow> din_of s' i j = din j"
    "\<And>i' j. unat i' < NINODES \<Longrightarrow> i' \<noteq> i \<Longrightarrow> j < 64 \<Longrightarrow> din_of s' i' j = din_of s i' j"
    "\<And>b. unat b < 32 \<or> 45 \<le> unat b \<Longrightarrow> img s' b = img s b"
    "msb s' = msb s" "img_len s' = img_len s" "freeblock s' = freeblock s" "freeinode s' = freeinode s"
proof -
  let ?b = "IBLOCK_mkfs i s"
  define s' where "s' = wsect ?b (blit (img s ?b) (dinode_at i) din 64) s"
  have "unat i div 16 < 13" using i by (simp add: NINODES_def less_mult_imp_div_less)
  then have b: "unat ?b < 45" "32 \<le> unat ?b" using IBLOCK_val[OF m(1) i] by simp_all
  then have im: "img s' = (img s)(?b := blit (img s ?b) (dinode_at i) din 64)" and r: "img_len s' = img_len s" "msb s' = msb s"
      "freeblock s' = freeblock s" "freeinode s' = freeinode s"
    using m(2) by (simp_all add: s'_def wsect_def FSSIZE_def max_def)
  have ib: "IBLOCK_mkfs i' s' = IBLOCK_mkfs i' s" for i' by (simp add: IBLOCK_mkfs_def r)
  have "winode i din s = Ret s'" using b m(2) by (simp add: winode_def rsect_ok FSSIZE_def s'_def Let_def)
  moreover have "din_of s' i j = din j" if "j < 64" for j using that by (simp add: din_of_def ib im blit_def)
  moreover have "din_of s' i' j = din_of s i' j" if h: "unat i' < NINODES" "i' \<noteq> i" "j < 64" for i' j
  proof (cases "IBLOCK_mkfs i' s = ?b")
    case True
    then have "unat i' div 16 = unat i div 16" using IBLOCK_val[OF m(1) h(1)] IBLOCK_val[OF m(1) i] by simp
    moreover have "unat i' \<noteq> unat i" using h(2) by (simp add: word_unat_eq_iff)
    ultimately have "unat i' mod IPB \<noteq> unat i mod IPB" unfolding IPB_def by (metis mod_div_decomp)
    from dinode_at_other[OF this h(3)] show ?thesis using True by (auto simp: din_of_def ib im blit_def)
  qed (simp add: din_of_def ib im)
  moreover have "img s' b = img s b" if "unat b < 32 \<or> 45 \<le> unat b" for b using that b by (auto simp: im)
  ultimately show thesis using that r by blast
qed

lemma vol_slots:
  assumes "vol s dins nbs I" "\<And>i. i \<in> I \<Longrightarrow> slots (img s) (dins' i) = slots (img s) (dins i)" "\<And>i. i \<in> I \<Longrightarrow> nbs' i = nbs i"
  shows "vol s dins' nbs' I"
proof -
  have "(\<Sum>i \<in> I. need (nbs' i)) = (\<Sum>i \<in> I. need (nbs i))" using assms(3) by (intro sum.cong) auto
  then show ?thesis using assms by (simp add: vol_def owned_def)
qed

lemma slots_st8 [simp]: "slots im (st32 8 v d) = slots im d"
  by (auto simp: slots_def ld_st_other addr_at_def)

lemma file_bytes_st8 [simp]: "file_bytes im (st32 8 v d) = file_bytes im d"
  by (simp add: file_bytes_def fun_eq_iff)

lemma fs_invD:
  assumes "fs_inv s"
  shows "msb s = mk_sb" "img_len s = FSSIZE" "vol s (din_of s) (\<lambda>i. nblk (fsz s i)) (inums s)" "i \<in> inums s \<Longrightarrow> unat i < NINODES"
  using assms by (auto simp: fs_inv_def vol_def inums_def word_less_nat_alt)

lemma rinode_ok:
  assumes "msb s = mk_sb" "img_len s = FSSIZE" "unat i < NINODES"
  shows "rinode i s = Ret (din_of s i)"
proof -
  have "unat i div 16 < 13" using assms(3) by (simp add: NINODES_def less_mult_imp_div_less)
  then have "unat (IBLOCK_mkfs i s) < FSSIZE" using IBLOCK_val[OF assms(1,3)] by (simp add: FSSIZE_def)
  then show ?thesis using assms(2) by (simp add: rinode_def rsect_ok din_of_def Let_def)
qed

lemma din_of_meta:
  assumes "msb s = mk_sb" "msb s' = msb s" "unat i < NINODES" "\<And>b. unat b < nmeta \<Longrightarrow> img s' b = img s b"
  shows "din_of s' i = din_of s i"
proof -
  have "unat i div 16 < 13" using assms(3) by (simp add: NINODES_def less_mult_imp_div_less)
  then have "unat (IBLOCK_mkfs i s) < nmeta" using IBLOCK_val[OF assms(1,3)] by (simp add: nmeta_val)
  then show ?thesis using assms(2,4) by (simp add: din_of_def IBLOCK_mkfs_def)
qed

text \<open>What the operations on one file leave alone: the boot block, the super block, the log and the bitmap; and of the other
  files everything.\<close>

definition same_meta :: "mkfs \<Rightarrow> mkfs \<Rightarrow> bool" where
  "same_meta s s' \<longleftrightarrow> (\<forall>b. unat b < 32 \<or> unat b = 45 \<longrightarrow> img s' b = img s b) \<and> msb s' = msb s"

definition same_file :: "uint \<Rightarrow> mkfs \<Rightarrow> mkfs \<Rightarrow> bool" where
  "same_file i s s' \<longleftrightarrow> file_of s' i = file_of s i \<and> (\<forall>j < 12. din_of s' i j = din_of s i j)"

lemma iappend_ok:
  assumes s: "fs_inv s" and i: "i \<in> inums s" and n: "0 \<le> n" "fsz s i + nat n \<le> MAXFILE * BSIZE"
    and fit: "nmeta + (\<Sum>i' \<in> inums s. need (nblk (if i' = i then fsz s i + nat n else fsz s i'))) \<le> FSSIZE"
  shows "\<exists>s'. iappend i p n s = Ret s' \<and> fs_inv s' \<and> freeinode s' = freeinode s \<and> same_meta s s'
    \<and> file_of s' i = file_of s i @ map p [0..<nat n] \<and> fsz s' i = fsz s i + nat n \<and> (\<forall>j < 8. din_of s' i j = din_of s i j)
    \<and> (\<forall>i' \<in> inums s - {i}. same_file i' s s')"
proof -
  note S = fs_invD[OF s]
  let ?I = "inums s" and ?nbs = "\<lambda>i. nblk (fsz s i)" and ?off = "ld32 (din_of s i) 8"
  have sz: "unat ?off = fsz s i" by (simp add: fsz_def)
  have iN: "unat i' < NINODES" if "i' \<in> ?I" for i' using S(4)[OF that] .
  have "vol s (din_of s) (?nbs(i := nblk (unat ?off))) ?I" using S(3) by (rule vol_slots) (simp_all add: sz)
  moreover have "nmeta + (\<Sum>i' \<in> ?I. need ((?nbs(i := nblk (unat ?off + nat n))) i')) \<le> FSSIZE" using fit by (simp add: sz fun_upd_def if_distrib cong: if_cong)
  ultimately obtain off' din' s1 where l: "iappend_loop n ?off p (din_of s i) s = Ret (off', din', s1)" "unat off' = fsz s i + nat n"
      "vol s1 ((din_of s)(i := din')) (?nbs(i := nblk (fsz s i + nat n))) ?I"
      "file_bytes (img s1) din' (fsz s i + nat n) = file_bytes (img s) (din_of s i) (fsz s i) @ map p [0..<nat n]"
      "frame ?I i ?nbs (din_of s) s din' s1"
    using iappend_loop_ok[of s "din_of s" ?nbs i ?off ?I n p] i n unfolding sz by auto
  define d where "d = st32 8 off' din'"
  have v1: "vol s1 ((din_of s)(i := d)) (?nbs(i := nblk (fsz s i + nat n))) ?I" using l(3) by (rule vol_slots) (simp_all add: d_def)
  have m1: "msb s1 = mk_sb" "freeinode s1 = freeinode s" "\<And>b. unat b < nmeta \<Longrightarrow> img s1 b = img s b" using l(5) S(1) by (simp_all add: frame_def)
  obtain s' where w: "winode i d s1 = Ret s'" "\<And>j. j < 64 \<Longrightarrow> din_of s' i j = d j"
      "\<And>i' j. unat i' < NINODES \<Longrightarrow> i' \<noteq> i \<Longrightarrow> j < 64 \<Longrightarrow> din_of s' i' j = din_of s1 i' j"
      "\<And>b. unat b < 32 \<or> 45 \<le> unat b \<Longrightarrow> img s' b = img s1 b"
      "msb s' = msb s1" "img_len s' = img_len s1" "freeblock s' = freeblock s1" "freeinode s' = freeinode s1"
    using winode_ok[OF m1(1) volD(2)[OF v1] iN[OF i], of d] by metis
  have I': "inums s' = ?I" using w(8) m1(2) by (simp add: inums_def)
  have d': "din_of s' i' j = ((din_of s)(i := d)) i' j" if "i' \<in> ?I" "j < 64" for i' j
    using w(2,3) din_of_meta[OF S(1) _ iN[OF that(1)] m1(3)] m1(1) S(1) iN[OF that(1)] that(2) by simp
  have C: "vol s' (din_of s') (?nbs(i := nblk (fsz s i + nat n))) ?I"
    "\<And>i' sz. i' \<in> ?I \<Longrightarrow> nblk sz \<le> (?nbs(i := nblk (fsz s i + nat n))) i' \<Longrightarrow> file_bytes (img s') (din_of s' i') sz = file_bytes (img s1) (((din_of s)(i := d)) i') sz"
    using vol_cong[OF v1 d' w(4) w(6,7)] by (auto simp: nmeta_val)
  have z: "fsz s' i' = (if i' = i then fsz s i + nat n else fsz s i')" if "i' \<in> ?I" for i'
    using ld_cong64[of "din_of s' i'" "((din_of s)(i := d)) i'" 8] d'[OF that] l(2) by (simp add: fsz_def d_def)
  have "fs_inv s'" using s C(1) w(5,8) m1 I' z unfolding fs_inv_def by (auto elim!: vol_slots)
  moreover have "same_meta s s'" using w(4,5) m1 S(1) by (simp add: same_meta_def nmeta_val)
  moreover have "file_of s' i = file_of s i @ map p [0..<nat n]" using C(2)[OF i, of "fsz s i + nat n"] z[OF i] l(4) by (simp add: file_of_def d_def)
  moreover have "\<forall>j < 8. din_of s' i j = din_of s i j" using d'[OF i] l(5) by (simp add: d_def frame_def st_outside)
  moreover have "same_file i' s s'" if "i' \<in> ?I - {i}" for i'
    using C(2)[of i' "fsz s i'"] z[of i'] l(5) d'[of i'] that by (simp add: same_file_def file_of_def frame_def)
  moreover have "iappend i p n s = Ret s'" using l(1) w(1) rinode_ok[OF S(1,2) iN[OF i]] by (simp add: iappend_def d_def)
  ultimately show ?thesis using w(8) m1(2) z[OF i] by simp
qed

lemma slots_zero: "(\<And>j. 12 \<le> j \<Longrightarrow> d j = 0) \<Longrightarrow> slots im d = (\<lambda>_. 0)"
proof
  fix j
  assume z: "\<And>j. 12 \<le> j \<Longrightarrow> d j = 0"
  have "ld32 d (addr_at k) = 0" for k by (rule ld32_zero) (simp add: z addr_at_def)
  then show "slots im d j = 0" by (simp add: slots_def)
qed

lemma vol_insert:
  assumes "vol s dins nbs I" "i \<notin> I" "slots (img s) (dins i) = (\<lambda>_. 0)" "nbs i = 0"
  shows "vol s dins nbs (insert i I)"
  using assms by (auto simp: vol_def owned_def shape_def need_def)

lemma ialloc_ok:
  assumes s: "fs_inv s" and n: "Suc (unat (freeinode s)) \<le> NINODES"
  shows "\<exists>s'. ialloc_mkfs ty s = Ret (freeinode s, s') \<and> fs_inv s' \<and> unat (freeinode s') = Suc (unat (freeinode s)) \<and> same_meta s s'
    \<and> file_of s' (freeinode s) = [] \<and> ld16 (din_of s' (freeinode s)) 0 = ty \<and> (\<forall>i \<in> inums s. same_file i s s')"
proof -
  note S = fs_invD[OF s]
  let ?i = "freeinode s"
  define t where "t = s\<lparr>freeinode := freeinode s + 1\<rparr>"
  have t: "msb t = msb s" "img t = img s" "img_len t = img_len s" "freeblock t = freeblock s" "freeinode t = freeinode s + 1" "din_of t = din_of s"
    by (simp_all add: t_def din_of_def IBLOCK_mkfs_def fun_eq_iff)
  define d where "d = st32 8 0 (st16 6 1 (st16 0 ty (\<lambda>_. 0)))"
  have fi: "unat (freeinode s + 1) = Suc (unat (freeinode s))" using n by (simp add: unat_word_ariths(1) NINODES_def)
  have m: "msb t = mk_sb" "img_len t = FSSIZE" "unat ?i < NINODES" using S n t by simp_all
  obtain s' where w: "winode ?i d t = Ret s'" "\<And>j. j < 64 \<Longrightarrow> din_of s' ?i j = d j"
      "\<And>i' j. unat i' < NINODES \<Longrightarrow> i' \<noteq> ?i \<Longrightarrow> j < 64 \<Longrightarrow> din_of s' i' j = din_of t i' j"
      "\<And>b. unat b < 32 \<or> 45 \<le> unat b \<Longrightarrow> img s' b = img t b"
      "msb s' = msb t" "img_len s' = img_len t" "freeblock s' = freeblock t" "freeinode s' = freeinode t"
    using winode_ok[OF m, of d] by metis
  note w = w[unfolded t]
  have new: "?i \<notin> inums s" by (simp add: inums_def)
  have I': "inums s' = insert ?i (inums s)"
    using s fi w(8) by (auto simp: inums_def word_less_nat_alt word_le_nat_alt fs_inv_def less_Suc_eq word_unat_eq_iff)
  have o: "din_of s' i j = din_of s i j" if "i \<in> inums s" "j < 64" for i j
    using w(3)[of i j] S(4)[OF that(1)] that new by auto
  have z: "fsz s' i = fsz s i" if "i \<in> inums s" for i using ld_cong64[of "din_of s' i" "din_of s i" 8] o[OF that] by (simp add: fsz_def)
  have C: "vol s' (din_of s') (\<lambda>i. nblk (fsz s i)) (inums s)"
    "\<And>i sz. i \<in> inums s \<Longrightarrow> nblk sz \<le> nblk (fsz s i) \<Longrightarrow> file_bytes (img s') (din_of s' i) sz = file_bytes (img s) (din_of s i) sz"
    using vol_cong[OF S(3) o, of s'] w(4,6,7) by (auto simp: nmeta_val)
  have dz: "d j = 0" if "12 \<le> j" for j using that by (simp add: d_def st_outside)
  have "slots (img s') (din_of s' ?i) = slots (img s') d"
    by (rule slots_cong) (simp_all add: w(2) slots_zero[of d, OF dz])
  then have S0: "slots (img s') (din_of s' ?i) = (\<lambda>_. 0)" using slots_zero[of d, OF dz] by simp
  have z0: "fsz s' ?i = 0" using ld_cong64[of "din_of s' ?i" d 8] w(2) by (simp add: fsz_def d_def)
  have "vol s' (din_of s') (\<lambda>i. nblk (fsz s' i)) (inums s')"
    unfolding I' using C(1) z z0 new S0 by (intro vol_insert) (auto elim!: vol_slots simp: nblk_def BSIZE_def)
  then have "fs_inv s'" using s n fi w(5,8) by (simp add: fs_inv_def word_le_nat_alt)
  moreover have "same_meta s s'" using w(4,5) by (simp add: same_meta_def)
  moreover have "ld16 (din_of s' ?i) 0 = ld16 d 0" unfolding ld16_def by (rule le_get_cong) (simp add: w(2))
  moreover have "\<forall>i \<in> inums s. same_file i s s'" using C(2) z o by (simp add: same_file_def file_of_def)
  moreover have "file_of s' ?i = []" using z0 by (simp add: file_of_def file_bytes_def)
  ultimately show ?thesis using w(1,8) fi by (simp add: ialloc_mkfs_def Let_def d_def t_def ld_st_other)
qed

subsection \<open>The files of an image as a list\<close>

text \<open>The type and the bytes of the files with numbers 1, 2, and so on; and when a list of files fits an image.\<close>

definition files_of :: "mkfs \<Rightarrow> (ushort \<times> uchar list) list" where
  "files_of s = map (\<lambda>k. (ld16 (din_of s (of_nat k)) 0, file_of s (of_nat k))) [1..<unat (freeinode s)]"

definition fits_image :: "(ushort \<times> uchar list) list \<Rightarrow> bool" where
  "fits_image fs \<longleftrightarrow> length fs < NINODES \<and> (\<forall>f \<in> set fs. length (snd f) \<le> MAXFILE * BSIZE)
     \<and> nmeta + sum_list (map (\<lambda>f. need (nblk (length (snd f)))) fs) \<le> FSSIZE"

lemma length_file_of [simp]: "length (file_of s i) = fsz s i"
  by (simp add: file_of_def file_bytes_def)

lemma inums_of_nat:
  "inums s = of_nat ` {1..<unat (freeinode s)}" "inj_on (of_nat :: nat \<Rightarrow> uint) {1..<unat (freeinode s)}"
proof -
  have u: "unat (of_nat k :: uint) = k" if "k < unat (freeinode s)" for k
    using that unsigned_less[of "freeinode s", where ?'a = nat] by (simp add: unat_of_nat take_bit_nat_eq_self_iff)
  then show "inj_on (of_nat :: nat \<Rightarrow> uint) {1..<unat (freeinode s)}" by (metis (no_types, lifting) atLeastLessThan_iff inj_onI)
  show "inums s = of_nat ` {1..<unat (freeinode s)}"
  proof (intro equalityI subsetI)
    fix i assume "i \<in> inums s"
    then have "unat i \<in> {1..<unat (freeinode s)}" by (simp add: inums_def word_less_nat_alt word_le_nat_alt)
    then show "i \<in> of_nat ` {1..<unat (freeinode s)}" by (intro image_eqI[of _ _ "unat i"]) simp_all
  qed (auto simp: inums_def word_less_nat_alt word_le_nat_alt u)
qed

lemma files_of_nth:
  "k < unat (freeinode s) - 1 \<Longrightarrow> files_of s ! k = (ld16 (din_of s (of_nat (Suc k))) 0, file_of s (of_nat (Suc k)))"
  "length (files_of s) = unat (freeinode s) - 1"
  by (simp_all add: files_of_def)

lemma sum_files: "(\<Sum>i \<in> inums s. g (length (file_of s i))) = sum_list (map (\<lambda>f. g (length (snd f))) (files_of s))"
proof -
  have "(\<Sum>i \<in> inums s. g (length (file_of s i))) = (\<Sum>k \<in> {1..<unat (freeinode s)}. g (length (file_of s (of_nat k))))"
    unfolding inums_of_nat(1) by (subst sum.reindex[OF inums_of_nat(2)]) simp
  also have "\<dots> = sum_list (map (\<lambda>k. g (length (file_of s (of_nat k)))) [1..<unat (freeinode s)])"
    by (simp add: interv_sum_list_conv_sum_set_nat)
  finally show ?thesis by (simp add: files_of_def comp_def)
qed

lemma sum_list_upd:
  "k < length xs \<Longrightarrow> sum_list (map g (xs[k := y])) + (g (xs ! k) :: nat) = sum_list (map g xs) + g y"
  by (induction xs arbitrary: k) (auto split: nat.splits)

lemma inums_suc: "k < length (files_of s) \<Longrightarrow> (of_nat (Suc k) :: uint) \<in> inums s"
  unfolding inums_of_nat(1) files_of_nth(2) by (intro imageI) auto

lemma same_type: "same_file i s s' \<Longrightarrow> ld16 (din_of s' i) 0 = ld16 (din_of s i) 0"
  unfolding ld16_def same_file_def by (intro le_get_cong) auto

text \<open>\<^verbatim>\<open>ialloc\<close> adds an empty file, \<^verbatim>\<open>iappend\<close> adds bytes at the end of one.\<close>

lemma ialloc_files:
  assumes s: "fs_inv s" and n: "Suc (length (files_of s)) < NINODES"
  shows "\<exists>s'. ialloc_mkfs ty s = Ret (of_nat (Suc (length (files_of s))), s') \<and> fs_inv s' \<and> same_meta s s' \<and> files_of s' = files_of s @ [(ty, [])]"
proof -
  have l: "0 < unat (freeinode s)" using s by (simp add: fs_inv_def word_le_nat_alt)
  have n': "Suc (unat (freeinode s)) \<le> NINODES" using n l by (simp add: files_of_nth(2))
  have "Suc (length (files_of s)) = unat (freeinode s)" using l by (simp add: files_of_nth(2))
  then have e: "of_nat (Suc (length (files_of s))) = freeinode s" by (simp only:) simp
  obtain s' where s': "ialloc_mkfs ty s = Ret (freeinode s, s')" "fs_inv s'" "unat (freeinode s') = Suc (unat (freeinode s))" "same_meta s s'"
      "file_of s' (freeinode s) = []" "ld16 (din_of s' (freeinode s)) 0 = ty" "\<forall>i \<in> inums s. same_file i s s'"
    using ialloc_ok[OF s n', of ty] by blast
  have "files_of s' = files_of s @ [(ty, [])]"
  proof (rule nth_equalityI)
    fix k assume "k < length (files_of s')"
    then have k: "k < length (files_of s) \<or> k = length (files_of s)" using s'(3) l by (auto simp: files_of_nth)
    then show "files_of s' ! k = (files_of s @ [(ty, [])]) ! k"
    proof
      assume k: "k < length (files_of s)"
      then have "same_file (of_nat (Suc k)) s s'" using s'(7) inums_suc by blast
      then show ?thesis using k s'(3) l same_type[of "of_nat (Suc k)" s s'] by (simp add: files_of_nth nth_append same_file_def del: of_nat_Suc)
    next
      assume k: "k = length (files_of s)"
      have "length (files_of s) < unat (freeinode s') - 1" using s'(3) l by (simp add: files_of_nth(2))
      then show ?thesis unfolding k nth_append_length files_of_nth(1)[of "length (files_of s)" s'] by (simp only: files_of_nth(1) e s'(5,6))
    qed
  qed (use s'(3) l in \<open>simp add: files_of_nth\<close>)
  then show ?thesis unfolding e using s' by blast
qed

lemma iappend_files:
  assumes s: "fs_inv s" and k: "k < length (files_of s)" "files_of s ! k = (ty, f)" and n: "0 \<le> n"
    and fit: "fits_image ((files_of s)[k := (ty, f @ map p [0..<nat n])])"
  shows "\<exists>s'. iappend (of_nat (Suc k)) p n s = Ret s' \<and> fs_inv s' \<and> same_meta s s' \<and> files_of s' = (files_of s)[k := (ty, f @ map p [0..<nat n])]"
proof -
  let ?i = "of_nat (Suc k) :: uint" and ?fs = "(files_of s)[k := (ty, f @ map p [0..<nat n])]"
  have i: "?i \<in> inums s" using inums_suc[OF k(1)] .
  have f: "file_of s ?i = f" "ld16 (din_of s ?i) 0 = ty" using k by (simp_all add: files_of_nth del: of_nat_Suc)
  have "?fs ! k \<in> set ?fs" using k(1) by (intro nth_mem) simp
  then have len: "fsz s ?i + nat n \<le> MAXFILE * BSIZE" using fit k(1) f(1) length_file_of[of s ?i] by (auto simp: fits_image_def)
  have "(\<Sum>i \<in> inums s. need (nblk (if i = ?i then fsz s ?i + nat n else fsz s i))) + need (nblk (length f))
      = (\<Sum>i \<in> inums s. need (nblk (length (file_of s i)))) + need (nblk (length f + nat n))"
  proof -
    have "need (nblk (if i = ?i then fsz s ?i + nat n else fsz s i)) = need (((\<lambda>i. nblk (fsz s i))(?i := nblk (length f + nat n))) i)" for i
      using f(1) length_file_of[of s ?i] by auto
    moreover have "finite (inums s)" by simp
    ultimately show ?thesis using sum_need[OF _ i, of "\<lambda>i. nblk (fsz s i)" "nblk (length f + nat n)"] f(1) length_file_of[of s ?i] by (simp del: of_nat_Suc)
  qed
  also have "\<dots> = sum_list (map (\<lambda>f. need (nblk (length (snd f)))) (files_of s)) + need (nblk (length f + nat n))"
    unfolding sum_files[of "\<lambda>l. need (nblk l)"] ..
  also have "\<dots> = sum_list (map (\<lambda>f. need (nblk (length (snd f)))) ?fs) + need (nblk (length f))"
    using sum_list_upd[OF k(1), of "\<lambda>f. need (nblk (length (snd f)))" "(ty, f @ map p [0..<nat n])"] k(2) by simp
  finally have fit': "nmeta + (\<Sum>i \<in> inums s. need (nblk (if i = ?i then fsz s ?i + nat n else fsz s i))) \<le> FSSIZE"
    using fit by (simp add: fits_image_def)
  obtain s' where s': "iappend ?i p n s = Ret s'" "fs_inv s'" "freeinode s' = freeinode s" "same_meta s s'"
      "file_of s' ?i = file_of s ?i @ map p [0..<nat n]" "\<forall>j < 8. din_of s' ?i j = din_of s ?i j" "\<forall>i' \<in> inums s - {?i}. same_file i' s s'"
    using iappend_ok[OF s i n len fit'] by blast
  have ty: "ld16 (din_of s' ?i) 0 = ty" using s'(6) unfolding f(2)[symmetric] ld16_def by (intro le_get_cong) simp
  have "files_of s' = ?fs"
  proof (rule nth_equalityI)
    fix m assume "m < length (files_of s')"
    then have m: "m < length (files_of s)" using s'(3) by (simp add: files_of_nth)
    show "files_of s' ! m = ?fs ! m"
    proof (cases "m = k")
      case True
      then show ?thesis using m s'(3,5) f ty by (simp add: files_of_nth del: of_nat_Suc)
    next
      case False
      then have "(of_nat (Suc m) :: uint) \<noteq> ?i"
        using inj_onD[OF inums_of_nat(2)[of s], of "Suc m" "Suc k"] m k(1) by (simp add: files_of_nth less_diff_conv del: of_nat_Suc) blast
      then have "same_file (of_nat (Suc m)) s s'" using s'(7) inums_suc[OF m] by blast
      then show ?thesis using m False s'(3) same_type[of "of_nat (Suc m)" s s'] by (simp add: files_of_nth same_file_def del: of_nat_Suc)
    qed
  qed (use s'(3) in \<open>simp add: files_of_nth\<close>)
  then show ?thesis using s' by blast
qed

subsection \<open>The program\<close>

definition dirent_bytes :: "nat \<Rightarrow> uchar list \<Rightarrow> uchar list" where
  "dirent_bytes inum name = map (dirent_for (of_nat inum) name) [0..<16]"

definition root_bytes :: "host_file list \<Rightarrow> uchar list" where
  "root_bytes files = dirent_bytes 1 [46] @ dirent_bytes 1 [46, 46]
     @ concat (map (\<lambda>k. dirent_bytes (k + 2) (skip_underscore (shortname (fst (files ! k))))) [0..<length files])"

definition image_files :: "host_file list \<Rightarrow> (ushort \<times> uchar list) list" where
  "image_files files = (T_DIR, root_bytes files) # map (\<lambda>f. (T_FILE, concat (snd f))) files"

lemma sum_list_le_nth:
  fixes g :: "'a \<Rightarrow> nat"
  shows "length xs \<le> length ys \<Longrightarrow> (\<And>k. k < length xs \<Longrightarrow> g (xs ! k) \<le> g (ys ! k)) \<Longrightarrow> sum_list (map g xs) \<le> sum_list (map g ys)"
proof (induction xs arbitrary: ys)
  case (Cons x xs)
  then obtain y ys' where y: "ys = y # ys'" by (cases ys) auto
  have "g (xs ! k) \<le> g (ys' ! k)" if "k < length xs" for k using Cons.prems(2)[of "Suc k"] that by (simp add: y)
  then show ?case using Cons.IH[of ys'] Cons.prems(1) Cons.prems(2)[of 0] by (simp add: y)
qed simp

lemma fits_mono:
  assumes "fits_image ys" "length xs \<le> length ys" "\<And>k. k < length xs \<Longrightarrow> length (snd (xs ! k)) \<le> length (snd (ys ! k))"
  shows "fits_image xs"
proof -
  have "sum_list (map (\<lambda>f. need (nblk (length (snd f)))) xs) \<le> sum_list (map (\<lambda>f. need (nblk (length (snd f)))) ys)"
    using assms(2,3) by (intro sum_list_le_nth) (simp_all add: need_mono nblk_mono)
  moreover have "length (snd f) \<le> MAXFILE * BSIZE" if f: "f \<in> set xs" for f
  proof -
    obtain k where k: "k < length xs" "f = xs ! k" using f by (auto simp: in_set_conv_nth)
    then have "ys ! k \<in> set ys" using assms(2) by simp
    then show ?thesis using assms(1) assms(3)[OF k(1)] k(2) by (fastforce simp: fits_image_def)
  qed
  ultimately show ?thesis using assms(1,2) by (auto simp: fits_image_def)
qed

lemma same_meta_trans: "same_meta s t \<Longrightarrow> same_meta t u \<Longrightarrow> same_meta s u"
  by (simp add: same_meta_def)

lemma map_c_string [simp]: "map (c_string cs) [0..<length cs] = cs"
  by (rule nth_equalityI) (simp_all add: c_string_def)

lemma add_chunks_files:
  assumes "fs_inv s" "k < length (files_of s)" "files_of s ! k = (ty, f)" "fits_image ((files_of s)[k := (ty, f @ concat chunks)])"
  shows "\<exists>s'. kfold (add_chunk (of_nat (Suc k))) chunks s = Ret s' \<and> fs_inv s' \<and> same_meta s s' \<and> files_of s' = (files_of s)[k := (ty, f @ concat chunks)]"
  using assms
proof (induction chunks arbitrary: s f)
  case Nil
  then show ?case by (metis append.right_neutral concat.simps(1) kfold.simps(1) list_update_id same_meta_def)
next
  case (Cons c cs)
  have "fits_image ((files_of s)[k := (ty, f @ c)])" by (rule fits_mono[OF Cons.prems(4)]) (auto simp: nth_list_update Cons.prems(2))
  then have "\<exists>s1. iappend (of_nat (Suc k)) (c_string c) (int (length c)) s = Ret s1 \<and> fs_inv s1 \<and> same_meta s s1 \<and> files_of s1 = (files_of s)[k := (ty, f @ c)]"
    using iappend_files[OF Cons.prems(1-3), of "int (length c)" "c_string c"] by simp
  then obtain s1 where s1: "add_chunk (of_nat (Suc k)) c s = Ret s1" "fs_inv s1" "same_meta s s1" "files_of s1 = (files_of s)[k := (ty, f @ c)]"
    unfolding add_chunk_def by blast
  have "\<exists>s'. kfold (add_chunk (of_nat (Suc k))) cs s1 = Ret s' \<and> fs_inv s' \<and> same_meta s1 s' \<and> files_of s' = (files_of s1)[k := (ty, (f @ c) @ concat cs)]"
    using Cons.prems(2,4) s1(4) by (intro Cons.IH[OF s1(2)]) simp_all
  then obtain s' where s': "kfold (add_chunk (of_nat (Suc k))) cs s1 = Ret s'" "fs_inv s'" "same_meta s1 s'" "files_of s' = (files_of s)[k := (ty, f @ c @ concat cs)]"
    using s1(4) by auto
  then show ?case using s1(1) same_meta_trans[OF s1(3) s'(3)] by (simp del: of_nat_Suc)
qed

lemma add_file_files:
  assumes s: "fs_inv s" "files_of s = (T_DIR, r) # fs" and nm: "47 \<notin> set (shortname arg)"
    and fit: "fits_image ((T_DIR, r @ dirent_bytes (length fs + 2) (skip_underscore (shortname arg))) # fs @ [(T_FILE, concat chunks)])" (is "fits_image ?fs")
  shows "\<exists>s'. add_file ROOTINO (arg, chunks) s = Ret s' \<and> fs_inv s' \<and> same_meta s s' \<and> files_of s' = ?fs"
proof -
  let ?n = "length fs + 2" and ?nm = "skip_underscore (shortname arg)"
  have "Suc (length (files_of s)) < NINODES" using fit s(2) by (simp add: fits_image_def)
  then obtain s1 where s1: "ialloc_mkfs T_FILE s = Ret (of_nat ?n, s1)" "fs_inv s1" "same_meta s s1" "files_of s1 = (T_DIR, r) # fs @ [(T_FILE, [])]"
    using ialloc_files[OF s(1)] s(2) by fastforce
  have d: "map (dirent_for (of_nat ?n) ?nm) [0..<nat 16] = dirent_bytes ?n ?nm" by (simp add: dirent_bytes_def)
  have "fits_image ((files_of s1)[0 := (T_DIR, r @ dirent_bytes ?n ?nm)])" unfolding s1(4)
    by (rule fits_mono[OF fit]) (auto simp: nth_append nth_Cons split: nat.splits)
  then obtain s2 where s2: "iappend (of_nat (Suc 0)) (dirent_for (of_nat ?n) ?nm) 16 s1 = Ret s2" "fs_inv s2" "same_meta s1 s2"
      "files_of s2 = (T_DIR, r @ dirent_bytes ?n ?nm) # fs @ [(T_FILE, [])]"
    using iappend_files[OF s1(2), of 0 T_DIR r 16 "dirent_for (of_nat ?n) ?nm"] d s1(4) by auto
  have l: "Suc (length fs) < length (files_of s2)" "files_of s2 ! Suc (length fs) = (T_FILE, [])" "(files_of s2)[Suc (length fs) := (T_FILE, [] @ concat chunks)] = ?fs"
    using s2(4) by (simp_all add: list_update_append)
  obtain s3 where s3: "kfold (add_chunk (of_nat (Suc (Suc (length fs))))) chunks s2 = Ret s3" "fs_inv s3" "same_meta s2 s3" "files_of s3 = ?fs"
    using add_chunks_files[OF s2(2) l(1,2), of chunks] fit unfolding l(3) by blast
  have "add_file ROOTINO (arg, chunks) s = Ret s3" using nm s1(1) s2(1) s3(1) by (simp add: add_file_def ROOTINO_def Let_def add_ac)
  moreover have "same_meta s s3" by (rule same_meta_trans[OF s1(3) same_meta_trans[OF s2(3) s3(3)]])
  ultimately show ?thesis using s3(2,4) by blast
qed

lemma root_snoc:
  "root_bytes (files @ [f]) = root_bytes files @ dirent_bytes (length files + 2) (skip_underscore (shortname (fst f)))"
proof -
  let ?e = "\<lambda>files k. dirent_bytes (k + 2) (skip_underscore (shortname (fst (files ! k))))"
  have m: "map (?e (files @ [f])) [0..<length files] = map (?e files) [0..<length files]" by (rule map_cong) (simp_all add: nth_append)
  have "root_bytes (files @ [f]) = dirent_bytes 1 [46] @ dirent_bytes 1 [46, 46] @ concat (map (?e (files @ [f])) [0..<length files]) @ ?e (files @ [f]) (length files)"
    by (simp add: root_bytes_def)
  then show ?thesis unfolding m by (simp add: root_bytes_def)
qed

lemma image_files_snoc:
  "image_files (files @ [f]) = (T_DIR, root_bytes files @ dirent_bytes (length files + 2) (skip_underscore (shortname (fst f))))
     # map (\<lambda>f. (T_FILE, concat (snd f))) files @ [(T_FILE, concat (snd f))]"
  by (simp add: image_files_def root_snoc)

lemma length_root [simp]: "length (root_bytes files) = 16 * (length files + 2)"
  by (simp add: root_bytes_def dirent_bytes_def length_concat comp_def sum_list_triv)

lemma fits_image_prefix: "fits_image (image_files (xs @ ys)) \<Longrightarrow> fits_image (image_files xs)"
  by (erule fits_mono) (auto simp: image_files_def nth_Cons nth_append split: nat.splits)

lemma add_files_files:
  assumes "fs_inv s" "files_of s = image_files pre" "\<forall>f \<in> set fs. 47 \<notin> set (shortname (fst f))" "fits_image (image_files (pre @ fs))"
  shows "\<exists>s'. kfold (add_file ROOTINO) fs s = Ret s' \<and> fs_inv s' \<and> same_meta s s' \<and> files_of s' = image_files (pre @ fs)"
  using assms
proof (induction fs arbitrary: s pre)
  case Nil
  then show ?case by (simp add: same_meta_def)
next
  case (Cons f fs)
  obtain arg chunks where f: "f = (arg, chunks)" by (cases f)
  have "fits_image (image_files (pre @ [f]))" using fits_image_prefix[of "pre @ [f]" fs] Cons.prems(4) by simp
  then obtain s1 where s1: "add_file ROOTINO f s = Ret s1" "fs_inv s1" "same_meta s s1" "files_of s1 = image_files (pre @ [f])"
    using add_file_files[OF Cons.prems(1), of "root_bytes pre" "map (\<lambda>f. (T_FILE, concat (snd f))) pre" arg chunks] Cons.prems(2,3)
    unfolding image_files_snoc by (auto simp: f image_files_def)
  obtain s' where s': "kfold (add_file ROOTINO) fs s1 = Ret s'" "fs_inv s'" "same_meta s1 s'" "files_of s' = image_files (pre @ f # fs)"
    using Cons.IH[OF s1(2,4)] Cons.prems(3,4) by auto
  then show ?case using s1(1) same_meta_trans[OF s1(3) s'(3)] by simp
qed

subsection \<open>The whole image\<close>

lemma mkfs_zeroes: "n \<le> FSSIZE \<Longrightarrow> fold (\<lambda>i. wsect (of_nat i) (\<lambda>_. 0)) [0..<n] mkfs0 = mkfs0\<lparr>img_len := n\<rparr>"
proof (induction n)
  case 0
  then show ?case by (simp add: mkfs0_def)
next
  case (Suc n)
  then have "unat (of_nat n :: uint) = n" by (simp add: FSSIZE_def unat_of_nat take_bit_nat_eq_self_iff)
  moreover have "(\<lambda>_ _. 0 :: uchar)(b := \<lambda>_ :: nat. 0) = (\<lambda>_ _. 0)" for b :: uint by auto
  ultimately show ?case using Suc by (simp add: wsect_def mkfs0_def FSSIZE_def)
qed

definition mkfs1 :: mkfs where
  "mkfs1 = wsect 1 (put_sb mk_sb (\<lambda>_. 0)) (mkfs0\<lparr>img_len := FSSIZE\<rparr>)"

lemma mkfs1_inv: "fs_inv mkfs1" "files_of mkfs1 = []" "img mkfs1 1 = put_sb mk_sb (\<lambda>_. 0)"
proof -
  have m: "img mkfs1 = (\<lambda>_ _. 0)(1 := put_sb mk_sb (\<lambda>_. 0))" "img_len mkfs1 = FSSIZE" "msb mkfs1 = mk_sb" "freeinode mkfs1 = 1" "freeblock mkfs1 = 46"
    by (simp_all add: mkfs1_def wsect_def mkfs0_def FSSIZE_def nmeta_val)
  then have "inums mkfs1 = {}" by (auto simp: inums_def word_less_nat_alt word_le_nat_alt)
  moreover have "b \<noteq> 1" if "46 \<le> b" for b :: uint using that by (auto simp: word_le_nat_alt)
  ultimately show "fs_inv mkfs1" using m by (auto simp: fs_inv_def vol_def owned_def nmeta_val FSSIZE_def NINODES_def)
  show "files_of mkfs1 = []" "img mkfs1 1 = put_sb mk_sb (\<lambda>_. 0)" using m by (simp_all add: files_of_def)
qed

lemma get_put_sb: "get_sb (put_sb b d) = b"
  by (cases b) (simp add: get_sb_def put_sb_def ld_st_other)

text \<open>The root directory with its first two entries.\<close>

lemma mkfs_root:
  obtains s where "kbind (ialloc_mkfs T_DIR mkfs1) (\<lambda>(r, s). if r \<noteq> ROOTINO then Panic m else
        kbind (iappend r (dirent_for r [46]) 16 s) (iappend r (dirent_for r [46, 46]) 16)) = Ret s"
    "fs_inv s" "same_meta mkfs1 s" "files_of s = image_files []"
proof -
  obtain s1 where s1: "ialloc_mkfs T_DIR mkfs1 = Ret (1, s1)" "fs_inv s1" "same_meta mkfs1 s1" "files_of s1 = [(T_DIR, [])]"
    using ialloc_files[OF mkfs1_inv(1), of T_DIR] mkfs1_inv(2) by (auto simp: NINODES_def)
  have fit: "fits_image [(T_DIR, f)]" if "length f \<le> 32" for f
    using that by (simp add: fits_image_def NINODES_def MAXFILE_def NDIRECT_def NINDIRECT_def BSIZE_def nmeta_val FSSIZE_def need_def nblk_def)
  have d: "map (dirent_for 1 nm) [0..<nat 16] = dirent_bytes 1 nm" "length (dirent_bytes 1 nm) = 16" for nm by (simp_all add: dirent_bytes_def)
  obtain s2 where s2: "iappend 1 (dirent_for 1 [46]) 16 s1 = Ret s2" "fs_inv s2" "same_meta s1 s2" "files_of s2 = [(T_DIR, dirent_bytes 1 [46])]"
    using iappend_files[OF s1(2), of 0 T_DIR "[]" 16 "dirent_for 1 [46]"] s1(4) d fit by auto
  obtain s3 where s3: "iappend 1 (dirent_for 1 [46, 46]) 16 s2 = Ret s3" "fs_inv s3" "same_meta s2 s3"
      "files_of s3 = [(T_DIR, dirent_bytes 1 [46] @ dirent_bytes 1 [46, 46])]"
    using iappend_files[OF s2(2), of 0 T_DIR "dirent_bytes 1 [46]" 16 "dirent_for 1 [46, 46]"] s2(4) d fit by auto
  show thesis
    using s1(1) s2(1) s3 same_meta_trans[OF s1(3) same_meta_trans[OF s2(3) s3(3)]]
    by (intro that[of s3]) (simp_all add: ROOTINO_def image_files_def root_bytes_def)
qed

text \<open>
  How the kernel reads an image: the inode as \<^verbatim>\<open>ilock\<close> loads it, the block numbers as \<^verbatim>\<open>bmap\<close> finds them, and the bytes as \<^verbatim>\<open>readi\<close>
  copies them.
\<close>

definition kinode :: "(uint \<Rightarrow> cptr) \<Rightarrow> superblock \<Rightarrow> uint \<Rightarrow> inode" where
  "kinode im b inum = get_dinode (im (inum div of_nat IPB + sb_inodestart b)) (dinode_at inum) inode0"

definition kblock :: "(uint \<Rightarrow> cptr) \<Rightarrow> inode \<Rightarrow> nat \<Rightarrow> uint" where
  "kblock im ip bn = (if bn < NDIRECT then i_addrs ip bn else ld32 (im (i_addrs ip NDIRECT)) (4 * (bn - NDIRECT)))"

definition kfile :: "(uint \<Rightarrow> cptr) \<Rightarrow> inode \<Rightarrow> nat \<Rightarrow> uchar list" where
  "kfile im ip n = map (\<lambda>p. im (kblock im ip (p div BSIZE)) (p mod BSIZE)) [0..<n]"

lemma le_get_shift: "le_get k (\<lambda>j. d (off + j)) x = le_get k d (off + x)"
  by (induction k arbitrary: x) auto

lemma kinode_fields:
  "i_type (kinode (img s) (msb s) i) = ld16 (din_of s i) 0" "unat (i_size (kinode (img s) (msb s) i)) = fsz s i"
  "k \<le> NDIRECT \<Longrightarrow> i_addrs (kinode (img s) (msb s) i) k = ld32 (din_of s i) (addr_at k)"
  by (simp_all add: kinode_def get_dinode_def get_addrs_def fsz_def din_of_def IBLOCK_mkfs_def ld16_def ld32_def le_get_shift addr_at_def add.assoc)

lemma kfile_bytes:
  assumes "vol s (din_of s) nbs I" "i \<in> I" "nblk n \<le> nbs i"
  shows "kfile (img s) (kinode (img s) (msb s) i) n = file_bytes (img s) (din_of s i) n"
proof -
  let ?S = "slots (img s) (din_of s i)"
  have sh: "shape ?S (nbs i)" using volD(4)[OF assms(1,2)] .
  have "kblock (img s) (kinode (img s) (msb s) i) k = ?S (fslot k)" if k: "k < nbs i" for k
  proof (cases "k < NDIRECT")
    case True
    then show ?thesis by (simp add: kblock_def kinode_fields slots_def fslot_def)
  next
    case False
    then have "?S NDIRECT \<noteq> 0" "k < MAXFILE" using sh k by (auto simp: shape_def)
    then show ?thesis using False by (simp add: kblock_def kinode_fields slots_def fslot_def)
  qed
  moreover have "p div BSIZE < nbs i" if "p < n" for p using nblk_less[OF that] assms(3) by simp
  ultimately show ?thesis by (simp add: kfile_def file_bytes_def)
qed

lemma bitmap_used: "bit_free (fold mark_used [0..<n] (\<lambda>_. 0)) b \<longleftrightarrow> n \<le> b"
proof (induction n)
  case 0
  then show ?case by (simp add: bit_free_def)
qed auto

lemma mkfs_end:
  assumes s: "fs_inv s" and fb: "files_of s = (T_DIR, r) # fs"
  defines "off \<equiv> (of_nat (length r) div of_nat BSIZE + 1) * of_nat BSIZE"
  obtains s' where "kbind (rinode ROOTINO s) (\<lambda>din. kbind (winode ROOTINO (st32 8 off din) s) (\<lambda>s. balloc_mkfs (freeblock s) s)) = Ret s'"
    "vol s' (din_of s') (\<lambda>i. nblk (fsz s i)) (inums s)" "msb s' = mk_sb" "freeblock s' = freeblock s" "img s' 1 = img s 1"
    "\<forall>i \<in> inums s. file_bytes (img s') (din_of s' i) (fsz s i) = file_of s i"
    "\<forall>i \<in> inums s. ld16 (din_of s' i) 0 = ld16 (din_of s i) 0"
    "\<forall>i \<in> inums s. fsz s' i = (if i = ROOTINO then unat off else fsz s i)"
    "\<forall>b. bit_free (img s' (sb_bmapstart mk_sb)) b \<longleftrightarrow> unat (freeblock s) \<le> b"
proof -
  note S = fs_invD[OF s]
  have bm: "sb_bmapstart mk_sb = 45" by (simp add: mk_sb_def nlog_def LOGSIZE_def ninodeblocks_def NINODES_def IPB_def)
  have root: "unat ROOTINO < NINODES" by (simp add: ROOTINO_def NINODES_def)
  define d where "d = st32 8 off (din_of s ROOTINO)"
  obtain s1 where w: "winode ROOTINO d s = Ret s1" "\<And>j. j < 64 \<Longrightarrow> din_of s1 ROOTINO j = d j"
      "\<And>i' j. unat i' < NINODES \<Longrightarrow> i' \<noteq> ROOTINO \<Longrightarrow> j < 64 \<Longrightarrow> din_of s1 i' j = din_of s i' j"
      "\<And>b. unat b < 32 \<or> 45 \<le> unat b \<Longrightarrow> img s1 b = img s b"
      "msb s1 = msb s" "img_len s1 = img_len s" "freeblock s1 = freeblock s" "freeinode s1 = freeinode s"
    using winode_ok[OF S(1,2) root, of d] by metis
  have fbl: "unat (freeblock s) \<le> FSSIZE" using volD(7)[OF S(3)] .
  then have si: "sint (freeblock s) = int (unat (freeblock s))" using sint_of_nat_small[of "unat (freeblock s)"] by (simp add: FSSIZE_def)
  define s' where "s' = wsect 45 (fold mark_used [0..<unat (freeblock s)] (\<lambda>_. 0)) s1"
  have im: "img s' = (img s1)(45 := fold mark_used [0..<unat (freeblock s)] (\<lambda>_. 0))" and r: "img_len s' = img_len s" "msb s' = msb s" "freeblock s' = freeblock s"
    using w(5-7) S(2) by (simp_all add: s'_def wsect_def FSSIZE_def)
  have "sint (freeblock s) < int (BSIZE * 8)" "nat (sint (freeblock s)) = unat (freeblock s)"
    unfolding si of_nat_less_iff nat_int using fbl by (simp_all add: BSIZE_def FSSIZE_def)
  then have b: "balloc_mkfs (freeblock s1) s1 = Ret s'" using w(5,7) S(1) bm by (simp add: balloc_mkfs_def s'_def)
  have n45: "IBLOCK_mkfs i s \<noteq> 45" if "unat i < NINODES" for i
  proof -
    have "unat i div 16 < 13" using that by (simp add: NINODES_def less_mult_imp_div_less)
    then show ?thesis using IBLOCK_val[OF S(1) that] by auto
  qed
  have ds: "din_of s' i = din_of s1 i" if "unat i < NINODES" for i
    using n45[OF that] r(2) w(5) by (simp add: din_of_def IBLOCK_mkfs_def im)
  have o: "din_of s' i j = ((din_of s)(ROOTINO := d)) i j" if "i \<in> inums s" "j < 64" for i j
    using w(2,3) ds[OF S(4)[OF that(1)]] S(4)[OF that(1)] that(2) by simp
  have "vol s ((din_of s)(ROOTINO := d)) (\<lambda>i. nblk (fsz s i)) (inums s)" using S(3) by (rule vol_slots) (simp_all add: d_def)
  moreover have "img s' b = img s b" if "nmeta \<le> unat b" for b using that w(4) by (auto simp: im nmeta_val)
  ultimately have C: "vol s' (din_of s') (\<lambda>i. nblk (fsz s i)) (inums s)"
    "\<And>i. i \<in> inums s \<Longrightarrow> file_bytes (img s') (din_of s' i) (fsz s i) = file_bytes (img s) (((din_of s)(ROOTINO := d)) i) (fsz s i)"
    using vol_cong[of s "(din_of s)(ROOTINO := d)" _ "inums s" "din_of s'" s'] o r by auto
  have z: "fsz s' i = (if i = ROOTINO then unat off else fsz s i)" if "i \<in> inums s" for i
    using ld_cong64[of "din_of s' i" "((din_of s)(ROOTINO := d)) i" 8] o[OF that] by (simp add: fsz_def d_def)
  have "ld16 (din_of s' i) 0 = ld16 (((din_of s)(ROOTINO := d)) i) 0" if "i \<in> inums s" for i
    unfolding ld16_def using o[OF that] by (intro le_get_cong) simp
  then have t: "ld16 (din_of s' i) 0 = ld16 (din_of s i) 0" if "i \<in> inums s" for i using that by (simp add: d_def ld_st_other)
  have f: "file_bytes (img s') (din_of s' i) (fsz s i) = file_of s i" if "i \<in> inums s" for i using C(2)[OF that] by (simp add: file_of_def d_def)
  have "kbind (rinode ROOTINO s) (\<lambda>din. kbind (winode ROOTINO (st32 8 off din) s) (\<lambda>s. balloc_mkfs (freeblock s) s)) = Ret s'"
    using rinode_ok[OF S(1,2) root] w(1) b by (simp add: d_def)
  moreover have "img s' 1 = img s 1" using w(4)[of 1] by (simp add: im)
  ultimately show thesis using that[of s'] C(1) r S(1) f t z bitmap_used bm im by simp
qed

lemma round_up:
  assumes "n \<le> MAXFILE * BSIZE"
  shows "unat ((of_nat n div of_nat BSIZE + 1) * of_nat BSIZE :: uint) = (n div BSIZE + 1) * BSIZE"
proof -
  have n: "n < 2 ^ 19" using assms by (simp add: MAXFILE_def NDIRECT_def NINDIRECT_def BSIZE_def)
  then have l: "n div 1024 < 512" by (simp add: less_mult_imp_div_less)
  moreover have "unat (of_nat n :: uint) = n" using n by (simp add: unat_of_nat take_bit_nat_eq_self_iff)
  ultimately have u: "unat (of_nat n div 1024 + 1 :: uint) = n div 1024 + 1" by (simp add: unat_word_ariths(1) unat_div)
  have "unat ((of_nat n div 1024 + 1) * 1024 :: uint) = (n div 1024 + 1) * 1024" unfolding unat_word_ariths(2) u using l by simp
  then show ?thesis by (simp only: BSIZE_def of_nat_numeral)
qed

lemma mkfs_runs:
  assumes "\<forall>f \<in> set files. 47 \<notin> set (shortname (fst f))" "fits_image (image_files files)"
  obtains s s' where "mkfs_main files = Ret s'" "fs_inv s" "files_of s = image_files files" "vol s' (din_of s') (\<lambda>i. nblk (fsz s i)) (inums s)"
    "msb s' = mk_sb" "freeblock s' = freeblock s" "get_sb (img s' 1) = mk_sb"
    "\<forall>i \<in> inums s. file_bytes (img s') (din_of s' i) (fsz s i) = file_of s i"
    "\<forall>i \<in> inums s. ld16 (din_of s' i) 0 = ld16 (din_of s i) 0"
    "\<forall>i \<in> inums s. fsz s' i = (if i = ROOTINO then (fsz s i div BSIZE + 1) * BSIZE else fsz s i)"
    "\<forall>b. bit_free (img s' (sb_bmapstart mk_sb)) b \<longleftrightarrow> unat (freeblock s) \<le> b"
proof -
  obtain s1 where s1: "kbind (ialloc_mkfs T_DIR mkfs1) (\<lambda>(r, s). if r \<noteq> ROOTINO then Panic ''assert'' else
        kbind (iappend r (dirent_for r [46]) 16 s) (iappend r (dirent_for r [46, 46]) 16)) = Ret s1"
    "fs_inv s1" "same_meta mkfs1 s1" "files_of s1 = image_files []" by (rule mkfs_root)
  obtain s where s: "kfold (add_file ROOTINO) files s1 = Ret s" "fs_inv s" "same_meta s1 s" "files_of s = image_files files"
    using add_files_files[OF s1(2,4), of files] assms by auto
  have root: "ROOTINO \<in> inums s" "fsz s ROOTINO = length (root_bytes files)"
    using inums_suc[of 0 s] files_of_nth(1)[of 0 s] files_of_nth(2)[of s] length_file_of[of s ROOTINO] s(4) by (auto simp: image_files_def ROOTINO_def)
  have off: "of_nat (length (root_bytes files)) = ld32 (din_of s ROOTINO) 8" unfolding root(2)[symmetric] by (simp add: fsz_def)
  obtain s' where s': "kbind (rinode ROOTINO s) (\<lambda>din. kbind (winode ROOTINO (st32 8 ((of_nat (length (root_bytes files)) div of_nat BSIZE + 1) * of_nat BSIZE) din) s)
        (\<lambda>s. balloc_mkfs (freeblock s) s)) = Ret s'"
    "vol s' (din_of s') (\<lambda>i. nblk (fsz s i)) (inums s)" "msb s' = mk_sb" "freeblock s' = freeblock s" "img s' 1 = img s 1"
    "\<forall>i \<in> inums s. file_bytes (img s') (din_of s' i) (fsz s i) = file_of s i"
    "\<forall>i \<in> inums s. ld16 (din_of s' i) 0 = ld16 (din_of s i) 0"
    "\<forall>i \<in> inums s. fsz s' i = (if i = ROOTINO then unat ((of_nat (length (root_bytes files)) div of_nat BSIZE + 1) * of_nat BSIZE :: uint) else fsz s i)"
    "\<forall>b. bit_free (img s' (sb_bmapstart mk_sb)) b \<longleftrightarrow> unat (freeblock s) \<le> b"
    by (rule mkfs_end[OF s(2) s(4)[unfolded image_files_def]])
  have rd: "rinode ROOTINO s = Ret (din_of s ROOTINO)" using fs_invD[OF s(2)] root(1) by (intro rinode_ok) auto
  have m1: "wsect 1 (put_sb (msb (mkfs0\<lparr>img_len := FSSIZE\<rparr>)) (\<lambda>_. 0)) (mkfs0\<lparr>img_len := FSSIZE\<rparr>) = mkfs1" by (simp add: mkfs1_def mkfs0_def)
  obtain u v where "ialloc_mkfs T_DIR mkfs1 = Ret (ROOTINO, u)" "iappend ROOTINO (dirent_for ROOTINO [46]) 16 u = Ret v"
      "iappend ROOTINO (dirent_for ROOTINO [46, 46]) 16 v = Ret s1"
    using s1(1) by (auto split: if_splits)
  then have "mkfs_main files = Ret s'"
    using s(1) s'(1) rd off unfolding mkfs_main_def mkfs_zeroes[OF order.refl] Let_def m1 by simp
  moreover have "get_sb (img s' 1) = mk_sb" using s'(5) s(3) s1(3) mkfs1_inv(3) by (simp add: same_meta_def get_put_sb)
  moreover have len: "length (root_bytes files) \<le> MAXFILE * BSIZE" using assms(2) by (simp add: fits_image_def image_files_def)
  have "\<forall>i \<in> inums s. fsz s' i = (if i = ROOTINO then (fsz s i div BSIZE + 1) * BSIZE else fsz s i)"
    using s'(8)[folded root(2)] round_up[OF len, folded root(2)] by auto
  ultimately show thesis using that[of s' s] s(2,4) s'(2-4,6,7,9) by simp
qed

subsection \<open>Theorems\<close>

text \<open>C6. \<^verbatim>\<open>mkfs\<close> builds a file system the kernel reads back.  For files that fit, the program ends without a failed assertion or a failed read; the
  super block the kernel decodes is the one computed; every file has its type and exactly its bytes when its inode and its blocks are
  looked up the way \<^verbatim>\<open>ilock\<close>, \<^verbatim>\<open>bmap\<close> and \<^verbatim>\<open>readi\<close> do; the root directory has the two dot entries and an entry for each file; no block
  belongs to two places; and the bitmap marks exactly the blocks below the first free one, which are all the blocks in use.\<close>

theorem mkfs_builds_image:
  assumes "\<forall>f \<in> set files. 47 \<notin> set (shortname (fst f))" "fits_image (image_files files)"
  shows "\<exists>s. mkfs_main files = Ret s \<and> get_sb (img s 1) = mk_sb
    \<and> (\<forall>k < length files. let ip = kinode (img s) mk_sb (of_nat (k + 2)) in
         i_type ip = T_FILE \<and> kfile (img s) ip (unat (i_size ip)) = concat (snd (files ! k)))
    \<and> (let ip = kinode (img s) mk_sb ROOTINO in i_type ip = T_DIR
         \<and> unat (i_size ip) = (length (root_bytes files) div BSIZE + 1) * BSIZE
         \<and> kfile (img s) ip (length (root_bytes files)) = root_bytes files)
    \<and> owned (img s) (din_of s) (of_nat ` {1..<length files + 2}) (freeblock s)
    \<and> (\<forall>b < FSSIZE. bit_free (img s (sb_bmapstart mk_sb)) b \<longleftrightarrow> unat (freeblock s) \<le> b)"
proof -
  obtain t s where m: "mkfs_main files = Ret s" "fs_inv t" "files_of t = image_files files" "vol s (din_of s) (\<lambda>i. nblk (fsz t i)) (inums t)"
    "msb s = mk_sb" "freeblock s = freeblock t" "get_sb (img s 1) = mk_sb"
    "\<forall>i \<in> inums t. file_bytes (img s) (din_of s i) (fsz t i) = file_of t i"
    "\<forall>i \<in> inums t. ld16 (din_of s i) 0 = ld16 (din_of t i) 0"
    "\<forall>i \<in> inums t. fsz s i = (if i = ROOTINO then (fsz t i div BSIZE + 1) * BSIZE else fsz t i)"
    "\<forall>b. bit_free (img s (sb_bmapstart mk_sb)) b \<longleftrightarrow> unat (freeblock t) \<le> b"
    by (rule mkfs_runs[OF assms])
  have l: "length (files_of t) = Suc (length files)" using m(3) by (simp add: image_files_def)
  have fi: "unat (freeinode t) = length files + 2" using l files_of_nth(2)[of t] by simp
  have F: "of_nat (Suc k) \<in> inums t" "ld16 (din_of t (of_nat (Suc k))) 0 = fst (image_files files ! k)" "file_of t (of_nat (Suc k)) = snd (image_files files ! k)"
    if "k < Suc (length files)" for k
    using that inums_suc[of k t] files_of_nth(1)[of k t] l m(3) fi by (simp_all del: of_nat_Suc)
  have K: "kfile (img s) (kinode (img s) mk_sb i) (fsz t i) = file_of t i" if "i \<in> inums t" for i
    using kfile_bytes[OF m(4) that order.refl] m(5,8) that by simp
  have T: "i_type (kinode (img s) mk_sb i) = ld16 (din_of t i) 0" "unat (i_size (kinode (img s) mk_sb i)) = fsz s i" if "i \<in> inums t" for i
    using kinode_fields(1,2)[of s i] m(5,9) that by simp_all
  have "let ip = kinode (img s) mk_sb (of_nat (k + 2)) in i_type ip = T_FILE \<and> kfile (img s) ip (unat (i_size ip)) = concat (snd (files ! k))"
    if k: "k < length files" for k
  proof -
    have "(of_nat (Suc (Suc k)) :: uint) \<noteq> of_nat (Suc 0)"
      using inj_onD[OF inums_of_nat(2)[of t], of "Suc (Suc k)" "Suc 0"] k fi by auto
    then have n: "(of_nat (k + 2) :: uint) \<noteq> ROOTINO" by (simp add: ROOTINO_def)
    have G: "of_nat (k + 2) \<in> inums t" "ld16 (din_of t (of_nat (k + 2))) 0 = T_FILE" "file_of t (of_nat (k + 2)) = concat (snd (files ! k))"
      using F[of "Suc k"] k by (simp_all add: image_files_def del: of_nat_Suc)
    have "fsz s (of_nat (k + 2)) = fsz t (of_nat (k + 2))" using m(10) G(1) n by simp
    then show ?thesis using K[OF G(1)] T[OF G(1)] G(2,3) by (simp only: Let_def)
  qed
  moreover have "let ip = kinode (img s) mk_sb ROOTINO in i_type ip = T_DIR \<and> unat (i_size ip) = (length (root_bytes files) div BSIZE + 1) * BSIZE
      \<and> kfile (img s) ip (length (root_bytes files)) = root_bytes files"
  proof -
    have G: "ROOTINO \<in> inums t" "ld16 (din_of t ROOTINO) 0 = T_DIR" "file_of t ROOTINO = root_bytes files"
      using F[of 0] by (simp_all add: image_files_def ROOTINO_def)
    have "fsz t ROOTINO = length (root_bytes files)" using length_file_of[of t ROOTINO] G(3) by (simp only:)
    then show ?thesis using K[OF G(1)] T[OF G(1)] m(10) G by (simp only: Let_def) simp
  qed
  moreover have "owned (img s) (din_of s) (of_nat ` {1..<length files + 2}) (freeblock s)"
    using volD(3)[OF m(4)] inums_of_nat(1)[of t] fi by simp
  ultimately show ?thesis using m(1,6,7,11) by (intro exI[of _ s]) (simp only: simp_thms, simp)
qed

text \<open>The file \<^verbatim>\<open>user/_cat\<close> with three bytes, which two calls of \<^verbatim>\<open>read\<close> deliver.\<close>

definition cat_files :: "host_file list" where
  "cat_files = [([117, 115, 101, 114, 47, 95, 99, 97, 116], [[1, 2], [3]])]"

theorem mkfs_builds_image_witness:
  "fits_image (image_files cat_files)
   \<and> (\<exists>s. mkfs_main cat_files = Ret s \<and> (let ip = kinode (img s) mk_sb 2 in i_type ip = T_FILE \<and> kfile (img s) ip (unat (i_size ip)) = [1, 2, 3]))"
proof -
  have f: "fits_image (image_files cat_files)"
    by (simp add: fits_image_def image_files_def cat_files_def NINODES_def MAXFILE_def NDIRECT_def NINDIRECT_def BSIZE_def nmeta_val FSSIZE_def need_def nblk_def)
  have "\<forall>f \<in> set cat_files. 47 \<notin> set (shortname (fst f))" by (simp add: cat_files_def shortname_def)
  from mkfs_builds_image[OF this f] obtain s where "mkfs_main cat_files = Ret s"
      "\<forall>k < length cat_files. let ip = kinode (img s) mk_sb (of_nat (k + 2)) in i_type ip = T_FILE \<and> kfile (img s) ip (unat (i_size ip)) = concat (snd (cat_files ! k))"
    by blast
  then show ?thesis using f by (auto simp: cat_files_def)
qed

end
