(* ===== verification/Spec2Isabelle.thy ===== *)
theory Spec2Isabelle
  imports Scheduler FsLayout TrapProps ShellGrammar DiskProps MkfsProps
begin

text \<open>
  A verification development for an xv6 kernel on RISC-V (\<^verbatim>\<open>src/src\<close>) with copy-on-write \<^verbatim>\<open>fork\<close>, four more schedulers (first come first
  served, priority based, lottery based, multi-level feedback queues), alarms, tracing and \<^verbatim>\<open>waitx\<close>; with two of its user programs and
  the program that builds the file system image.

  \<^bold>\<open>How the program is modelled.\<close>  A C function is a HOL function of the same name from a state to a result.  The result type \<open>kres\<close>
  (theory \<open>Prelude\<close>) has a value (\<open>Ret\<close>), the message of a \<^verbatim>\<open>panic\<close> (\<open>Panic\<close>), undefined behaviour such as a null dereference or an index
  out of range (\<open>Fault\<close>), and a wait on a channel (\<open>Block\<close>), so every early exit of the source is a branch of the model.  Unsigned C types are
  words, and their arithmetic wraps; \<^verbatim>\<open>int\<close> is HOL's \<open>int\<close>.  The state is a record that grows along the layers of the kernel: \<open>phys\<close> (RAM, free list,
  reference counts), \<open>vm\<close>, \<open>hart\<close>, \<open>kernel\<close> (process table and run queues), \<open>bio\<close> (buffer cache and disk), \<open>log\<close>, \<open>fs\<close>, \<open>files\<close>, \<open>console\<close>,
  \<open>machine\<close> (supervisor registers).  Operations of a layer work on every extension of its record, and theory \<open>VmFrame\<close> shows that the memory
  system leaves every extension alone.

  \<^bold>\<open>Memory.\<close>
  \<^item> \<open>Prelude\<close>, \<open>Bytes\<close>, \<open>Fifo\<close>: results, byte memory, integers in the bytes of a block; the interface of a bounded FIFO buffer and rings with
    free-running counters.
  \<^item> \<open>CString\<close>: \<^verbatim>\<open>kernel/string.c\<close>.
  \<^item> \<open>Kalloc\<close>: \<^verbatim>\<open>kernel/kalloc.c\<close>.  The free list is in the free pages.  Shown: what \<^verbatim>\<open>kinit\<close> and \<^verbatim>\<open>kalloc\<close> do, and that they keep the list well
    formed.
  \<^item> \<open>Vm\<close>, \<open>PageTable\<close>, \<open>UserVm\<close>, \<open>Fork\<close>, \<open>UserCopy\<close>, \<open>AddressSpace\<close>, \<open>VmFrame\<close>: \<^verbatim>\<open>kernel/vm.c\<close>.  The definitions walk the page tables in RAM; the proofs
    work on the forest of page tables and the abstract map of an address space.  Shown: \<^verbatim>\<open>uvmcopy\<close> shares pages and changes what no
    process sees, a write breaks the sharing first, the transfers between kernel and user memory on every branch, growing and shrinking,
    and that reference counts stay equal to the number of mappings.

  \<^bold>\<open>Processes.\<close>
  \<^item> \<open>Spinlock\<close>, \<open>Sleeplock\<close>: the two kinds of lock, sequentially and as step relations over several harts or processes: mutual exclusion, no
    panic, no lost wakeup.
  \<^item> \<open>Proc\<close>, \<open>ProcOps\<close>, \<open>ProcLife\<close>, \<open>FileRefs\<close>: \<^verbatim>\<open>kernel/proc.c\<close>.  \<^verbatim>\<open>swtch\<close> is a parameter: a function from the state at the call to that at the return.
    Shown: \<^verbatim>\<open>yield\<close> meets the conditions of \<^verbatim>\<open>sched\<close>, and \<^verbatim>\<open>fork\<close> keeps the counts of open files exact.
  \<^item> \<open>Queue\<close>, \<open>Scheduler\<close>: \<^verbatim>\<open>kernel/queue.c\<close> and one round of each scheduler.  Shown: the run queues are FIFO (an interpretation of the
    interface of \<open>Fifo\<close>), which process each round runs, on one hart, and where that is not what the policy says.
  \<^item> \<open>SysArg\<close>, \<open>Sysproc\<close>, \<open>Sysfile\<close>, \<open>Exec\<close>, \<open>Syscall\<close>, \<open>Trap\<close>, \<open>TrapProps\<close>: system calls and traps.  Shown: a store to a shared page gives the process
    its own copy, \<^verbatim>\<open>sigreturn\<close> restores every register but one, and a store by which a program stops the kernel.

  \<^bold>\<open>Storage.\<close>
  \<^item> \<open>VirtioDisk\<close>, \<open>DiskSys\<close>, \<open>DiskProps\<close>: \<^verbatim>\<open>kernel/virtio_disk.c\<close>.  The device is a parameter; \<open>virtio_block\<close> states what the virtio standard promises of
    it, with completions that succeed or fail.  Shown, for every interleaving of calls, sleeping processes, completions and interrupts: the
    driver implements the contract of \<^verbatim>\<open>virtio_disk_rw\<close> in the direction the caller asked for, panics only when the device reports a failure,
    and loses no descriptor, no request and no wakeup.
  \<^item> \<open>Bio\<close>, \<open>BlockCache\<close>: \<^verbatim>\<open>kernel/bio.c\<close> on that contract.  The cache refines an array of blocks.
  \<^item> \<open>Log\<close>, \<open>LogOps\<close>, \<open>Recovery\<close>: \<^verbatim>\<open>kernel/log.c\<close>.  A crash keeps a prefix of the block writes; recovery gives all of a transaction or nothing.
  \<^item> \<open>Fs\<close>, \<open>FsLayout\<close>: \<^verbatim>\<open>kernel/fs.c\<close>.  Shown: the encoding of inodes and the bitmap, path elements, one in-memory entry per inode.
  \<^item> \<open>Pipe\<close>, \<open>PipeProps\<close>, \<open>File\<close>, \<open>Console\<close>: pipes (FIFO over all interleavings of readers and writers), open files, console and UART.
  \<^item> \<open>Mkfs\<close>, \<open>MkfsBlocks\<close>, \<open>MkfsProps\<close>: \<^verbatim>\<open>mkfs/mkfs.c\<close>.  Its state refines the list of the files of the image.  Shown: the image it builds is one
    the decoders of \<open>Fs\<close> read back, with every file, the directory, and an exact bitmap.

  \<^bold>\<open>User programs.\<close>
  \<^item> \<open>Grep\<close>: \<^verbatim>\<open>user/grep.c\<close> decides the regular language of its pattern and prints the matching lines.
  \<^item> \<open>Shell\<close>, \<open>ShellGrammar\<close>: the parser of \<^verbatim>\<open>user/sh.c\<close> returns on every line, builds well-formed commands, and inverts the printing of a command.

  \<^bold>\<open>Loops and bounds.\<close>  Loops over arrays are recursion over the list of indices; the other loops of the kernel have termination proofs, with
  the measures the code relies on (the bytes left, the descriptors in use, the distance of two counters).  A loop that sleeps until another
  process acts is a \<open>partial_function\<close> into \<open>option\<close>, where \<open>None\<close> is waiting for ever.  Only the mutually recursive parsers of the shell take fuel; \<open>parsecmd\<close> gives them four
  steps for each byte of the line, and that is shown to be enough.  The sizes of the tables
  are those of \<^verbatim>\<open>kernel/param.h\<close>.

  \<^bold>\<open>Concurrency.\<close>  A section under one spin lock is one step.  Where the interleaving is what the code is about (spin locks, sleep locks, pipes,
  the disk driver) the steps form an inductive relation, and the theorems hold in all reachable states.

  \<^bold>\<open>Not modelled.\<close>  The assembly files (\<^verbatim>\<open>entry.S\<close>, \<^verbatim>\<open>swtch.S\<close>, \<^verbatim>\<open>trampoline.S\<close>, \<^verbatim>\<open>kernelvec.S\<close>, \<^verbatim>\<open>initcode.S\<close>, the stubs \<^verbatim>\<open>usys.S\<close>): they are below the C
  level; \<^verbatim>\<open>swtch\<close> and the return to user space appear as parameters and as the registers they save.  \<^verbatim>\<open>start.c\<close>, \<^verbatim>\<open>main.c\<close>, \<^verbatim>\<open>plic.c\<close>: one-time
  writes to machine registers, and calls of the initialisers modelled here; what the interrupt controller answers is a parameter of
  \<open>Trap\<close>.  \<^verbatim>\<open>ramdisk.c\<close> is not linked.  The evaluator \<^verbatim>\<open>runcmd\<close> of the shell and the small user programs are sequences of system calls; the test
  programs (\<^verbatim>\<open>usertests.c\<close>, \<^verbatim>\<open>grind.c\<close>, \<^verbatim>\<open>forktest.c\<close>, \<^verbatim>\<open>stressfs.c\<close>, \<^verbatim>\<open>alarmtest.c\<close>, \<^verbatim>\<open>schedulertest.c\<close>) only exercise the kernel.  The
  user library beside \<^verbatim>\<open>strchr\<close> (\<^verbatim>\<open>umalloc.c\<close>, \<^verbatim>\<open>printf.c\<close>, the rest of \<^verbatim>\<open>ulib.c\<close>) is left out.  Weak memory and caches are not modelled: the
  fences of the code have no effect on the state.
\<close>

end
